(* ===== verification/DB_Prelude.thy ===== *)
theory DB_Prelude
  imports Main "HOL-Library.Word" "HOL-Library.Multiset"
begin

text \<open>
  Shared vocabulary of the MyDB development: the outcome type of a C++ call (a value, a
  thrown exception, or a fault such as a failed assertion or an access outside an object),
  the 32-bit signed integer type with the order of the machine, little-endian access to a
  byte buffer, and the lemmas on lists and buffers the components use.
\<close>

unbundle bit_operations_syntax

named_theorems buf_simps \<open>reading a buffer after writing it\<close>
named_theorems res_simps \<open>sequencing of fallible calls\<close>

section \<open>Outcomes of calls\<close>

text \<open>
  \<open>Throw\<close> is a C++ exception, which a caller may catch and which leaves the state as it is
  at the throw. \<open>Fault\<close> stands for a failed \<open>assert\<close> and for undefined behaviour: a null
  pointer followed, an access outside an array, a division by zero, a signed overflow.
  A stateful call takes the state and returns its outcome with the state it leaves.
\<close>

datatype exn = Runtime_Error string | Out_Of_Range string | Invalid_Argument string

datatype 'a outcome = Ok 'a | Throw exn | Fault

type_synonym ('a, 's) res = "'a outcome \<times> 's"

definition bind_res :: "('a, 's) res \<Rightarrow> ('a \<Rightarrow> 's \<Rightarrow> ('b, 's) res) \<Rightarrow> ('b, 's) res" where
  "bind_res m f = (case m of
      (Ok a, s) \<Rightarrow> f a s
    | (Throw e, s) \<Rightarrow> (Throw e, s)
    | (Fault, s) \<Rightarrow> (Fault, s))"

lemma bind_res_simps [simp, res_simps]:
  "bind_res (Ok a, s) f = f a s"
  "bind_res (Throw e, s) f = (Throw e, s)"
  "bind_res (Fault, s) f = (Fault, s)"
  by (simp_all add: bind_res_def)

definition bind_out :: "'a outcome \<Rightarrow> ('a \<Rightarrow> 'b outcome) \<Rightarrow> 'b outcome" where
  "bind_out m f = (case m of Ok a \<Rightarrow> f a | Throw e \<Rightarrow> Throw e | Fault \<Rightarrow> Fault)"

lemma bind_out_simps [simp, res_simps]:
  "bind_out (Ok a) f = f a"
  "bind_out (Throw e) f = Throw e"
  "bind_out Fault f = Fault"
  by (simp_all add: bind_out_def)

lemma bind_out_eq_Ok: "bind_out m f = Ok b \<longleftrightarrow> (\<exists>a. m = Ok a \<and> f a = Ok b)"
  by (cases m) auto

lemma bind_res_eq_Ok:
  "bind_res m f = (Ok b, t) \<longleftrightarrow> (\<exists>a s. m = (Ok a, s) \<and> f a s = (Ok b, t))"
  by (cases m; cases "fst m") auto

lemma bind_out_cong [fundef_cong]:
  "m = m' \<Longrightarrow> (\<And>a. m' = Ok a \<Longrightarrow> f a = g a) \<Longrightarrow> bind_out m f = bind_out m' g"
  by (cases m') auto

lemma bind_res_cong [fundef_cong]:
  "m = m' \<Longrightarrow> (\<And>a s. m' = (Ok a, s) \<Longrightarrow> f a s = g a s) \<Longrightarrow> bind_res m f = bind_res m' g"
  by (cases m'; cases "fst m'") auto

text \<open>The three bytes of the dash that the error messages of the storage layer contain.\<close>

definition em_dash :: string where
  "em_dash = [CHR 0xE2, CHR 0x80, CHR 0x94]"

section \<open>Machine integers\<close>

type_synonym byte = "8 word"
type_synonym u16 = "16 word"
type_synonym u32 = "32 word"
type_synonym i64 = "64 word"

text \<open>
  \<open>int32_t\<close> is a type of its own, so that the order on it is the signed one. \<open>ival\<close> reads
  the value, \<open>mk32\<close> is the conversion from a wider integer.
\<close>

datatype i32 = I32 (bits32: u32)

definition ival :: "i32 \<Rightarrow> int" where
  "ival x = sint (bits32 x)"

definition mk32 :: "int \<Rightarrow> i32" where
  "mk32 i = I32 (word_of_int i)"

definition INT32_MAX :: int where "INT32_MAX = 2147483647"
definition INT32_MIN :: int where "INT32_MIN = -2147483648"

lemma mk32_ival [simp]: "mk32 (ival x) = x"
  by (cases x) (simp add: mk32_def ival_def)

lemma ival_inj [simp]: "ival x = ival y \<longleftrightarrow> x = y"
  by (metis mk32_ival)

lemma ival_mk32: "INT32_MIN \<le> i \<Longrightarrow> i \<le> INT32_MAX \<Longrightarrow> ival (mk32 i) = i"
  by (simp add: ival_def mk32_def INT32_MIN_def INT32_MAX_def sint_sbintrunc'
      signed_take_bit_int_eq_self)

lemma ival_bounds: "INT32_MIN \<le> ival x" "ival x \<le> INT32_MAX"
  using sint_greater_eq [of "bits32 x"] sint_less [of "bits32 x"]
  by (auto simp: ival_def INT32_MIN_def INT32_MAX_def)

instantiation i32 :: linorder
begin

definition less_eq_i32 :: "i32 \<Rightarrow> i32 \<Rightarrow> bool" where
  "less_eq_i32 x y \<longleftrightarrow> ival x \<le> ival y"

definition less_i32 :: "i32 \<Rightarrow> i32 \<Rightarrow> bool" where
  "less_i32 x y \<longleftrightarrow> ival x < ival y"

instance
  by standard (auto simp: less_eq_i32_def less_i32_def)

end

lemma unat_ucast_16_32: "unat (ucast (w :: u16) :: u32) = unat w"
  using unsigned_less [of w, where 'a = nat]
  by (simp add: unsigned_ucast_eq take_bit_nat_eq_self)

section \<open>Little-endian buffers\<close>

definition le32 :: "u32 \<Rightarrow> byte list" where
  "le32 w = [ucast w, ucast (drop_bit 8 w), ucast (drop_bit 16 w), ucast (drop_bit 24 w)]"

fun un_le32 :: "byte list \<Rightarrow> u32" where
  "un_le32 [a, b, c, d] =
     ucast a OR push_bit 8 (ucast b) OR push_bit 16 (ucast c) OR push_bit 24 (ucast d)"
| "un_le32 _ = 0"

lemma length_le32 [simp]: "length (le32 w) = 4"
  by (simp add: le32_def)

lemma un_le32_le32 [simp]: "un_le32 (le32 w) = w"
proof (rule bit_eqI)
  fix n :: nat
  assume "possible_bit TYPE(u32) n"
  then have "n < 32" by (simp add: possible_bit_word)
  then show "bit (un_le32 (le32 w)) n = bit w n"
    by (cases "24 \<le> n"; cases "16 \<le> n") (auto simp: le32_def bit_simps)
qed

text \<open>
  \<open>peek off n d\<close> is the \<open>n\<close> bytes at \<open>d + off\<close>; \<open>poke off bs d\<close> is a \<open>memcpy\<close> of \<open>bs\<close>
  to \<open>d + off\<close>, for a range inside the buffer.
\<close>

definition peek :: "nat \<Rightarrow> nat \<Rightarrow> 'a list \<Rightarrow> 'a list" where
  "peek off n d = take n (drop off d)"

definition poke :: "nat \<Rightarrow> 'a list \<Rightarrow> 'a list \<Rightarrow> 'a list" where
  "poke off bs d = take off d @ bs @ drop (off + length bs) d"

lemma length_peek [simp]: "off + n \<le> length d \<Longrightarrow> length (peek off n d) = n"
  by (simp add: peek_def)

lemma length_poke [simp]: "off + length bs \<le> length d \<Longrightarrow> length (poke off bs d) = length d"
  by (simp add: poke_def)

lemma poke_nth:
  "off + length bs \<le> length d \<Longrightarrow> i < length d \<Longrightarrow>
   poke off bs d ! i = (if off \<le> i \<and> i < off + length bs then bs ! (i - off) else d ! i)"
  by (auto simp: poke_def nth_append min_def)

lemma peek_nth: "off + n \<le> length d \<Longrightarrow> i < n \<Longrightarrow> peek off n d ! i = d ! (off + i)"
  by (simp add: peek_def)

lemma peek_poke_same [simp, buf_simps]:
  "off + length bs \<le> length d \<Longrightarrow> n = length bs \<Longrightarrow> peek off n (poke off bs d) = bs"
  by (simp add: peek_def poke_def)

lemma peek_poke_disjoint [buf_simps]:
  assumes "off' + length bs \<le> length d" and "off + n \<le> length d"
    and "off + n \<le> off' \<or> off' + length bs \<le> off"
  shows "peek off n (poke off' bs d) = peek off n d"
  by (rule nth_equalityI) (use assms in \<open>auto simp: peek_nth poke_nth\<close>)

lemma peek_poke_inside [buf_simps]:
  assumes "off' + length bs \<le> length d" and "off' \<le> off" and "off + n \<le> off' + length bs"
  shows "peek off n (poke off' bs d) = peek (off - off') n bs"
  by (rule nth_equalityI) (use assms in \<open>auto simp: peek_nth poke_nth\<close>)

lemma poke_peek_id [simp]:
  "off + n \<le> length d \<Longrightarrow> poke off (peek off n d) d = d"
  by (rule nth_equalityI) (auto simp: peek_nth poke_nth)

definition get32 :: "nat \<Rightarrow> byte list \<Rightarrow> u32" where
  "get32 off d = un_le32 (peek off 4 d)"

definition put32 :: "nat \<Rightarrow> u32 \<Rightarrow> byte list \<Rightarrow> byte list" where
  "put32 off w d = poke off (le32 w) d"

lemma length_put32 [simp]: "off + 4 \<le> length d \<Longrightarrow> length (put32 off w d) = length d"
  by (simp add: put32_def)

lemma get32_put32_same [simp, buf_simps]: "off + 4 \<le> length d \<Longrightarrow> get32 off (put32 off w d) = w"
  by (simp add: get32_def put32_def)

lemma get32_put32_other [simp, buf_simps]:
  "off + 4 \<le> length d \<Longrightarrow> off' + 4 \<le> length d \<Longrightarrow> off + 4 \<le> off' \<or> off' + 4 \<le> off \<Longrightarrow>
   get32 off (put32 off' w d) = get32 off d"
  by (simp add: get32_def put32_def peek_poke_disjoint)

lemma peek_put32_other [buf_simps]:
  "off + n \<le> length d \<Longrightarrow> off' + 4 \<le> length d \<Longrightarrow> off + n \<le> off' \<or> off' + 4 \<le> off \<Longrightarrow>
   peek off n (put32 off' w d) = peek off n d"
  by (simp add: put32_def peek_poke_disjoint)

lemma get32_poke_other [buf_simps]:
  "off + 4 \<le> length d \<Longrightarrow> off' + length bs \<le> length d \<Longrightarrow>
   off + 4 \<le> off' \<or> off' + length bs \<le> off \<Longrightarrow> get32 off (poke off' bs d) = get32 off d"
  by (simp add: get32_def peek_poke_disjoint)

section \<open>Characters and bytes\<close>

definition byte_of_char :: "char \<Rightarrow> byte" where
  "byte_of_char c = word_of_nat (of_char c)"

definition char_of_byte :: "byte \<Rightarrow> char" where
  "char_of_byte b = char_of (unat b)"

lemma of_char_less_256: "(of_char c :: nat) < 256"
  by simp

lemma char_of_byte_of_char [simp]: "char_of_byte (byte_of_char c) = c"
  by (simp add: char_of_byte_def byte_of_char_def unat_of_nat)

lemma byte_of_char_of_byte [simp]: "byte_of_char (char_of_byte b) = b"
  by (simp add: char_of_byte_def byte_of_char_def unsigned_less [where 'b = 8 and 'a = nat, simplified])

lemma byte_of_char_eq_0 [simp]: "byte_of_char c = 0 \<longleftrightarrow> c = CHR 0x00"
proof -
  have "byte_of_char (CHR 0x00) = 0" by (simp add: byte_of_char_def)
  then show ?thesis by (metis char_of_byte_of_char)
qed

end
