(* ===== verification/DB_Types.thy ===== *)
theory DB_Types
  imports DB_Prelude
begin

text \<open>
  The data model of \<open>src/src/common\<close>: record ids, column types, schemas with the byte layout
  of a row, values and their serialisation, tuples. The lemmas show that a row built from
  values of the column types is read back unchanged, where the columns lie in the row, and
  which column a name denotes.
\<close>

section \<open>Definitions\<close>

subsection \<open>config.h\<close>

definition PAGE_SIZE :: nat where "PAGE_SIZE = 4096"

type_synonym page_id_t = i32
type_synonym frame_id_t = nat

definition INVALID_PAGE_ID :: page_id_t where "INVALID_PAGE_ID = mk32 (-1)"

subsection \<open>Record ids and column types\<close>

record RID =
  page_id :: page_id_t
  slot_num :: u32

definition RID_IsValid :: "RID \<Rightarrow> bool" where
  "RID_IsValid r \<longleftrightarrow> page_id r \<noteq> INVALID_PAGE_ID"

definition RID_default :: RID where
  "RID_default = \<lparr>page_id = INVALID_PAGE_ID, slot_num = 0\<rparr>"

datatype TypeId = T_INT | T_VARCHAR

record ColumnType =
  type_id :: TypeId
  max_len :: u16

definition GetFixedSize :: "ColumnType \<Rightarrow> u32" where
  "GetFixedSize ct = (if type_id ct = T_INT then 4 else ucast (max_len ct))"

definition ColumnType_Int :: ColumnType where
  "ColumnType_Int = \<lparr>type_id = T_INT, max_len = 0\<rparr>"

definition ColumnType_Varchar :: "u16 \<Rightarrow> ColumnType" where
  "ColumnType_Varchar len = \<lparr>type_id = T_VARCHAR, max_len = len\<rparr>"

record Column =
  col_name :: string
  col_type :: ColumnType

subsection \<open>Schemas\<close>

record Schema =
  columns :: "Column list"
  offsets :: "u32 list"
  tuple_size :: u32

text \<open>The loop of the constructor: \<open>off\<close> runs through the columns in \<open>uint32_t\<close> arithmetic.\<close>

fun schema_layout :: "Column list \<Rightarrow> u32 \<Rightarrow> u32 list \<times> u32" where
  "schema_layout [] off = ([], off)"
| "schema_layout (c # cs) off =
     (let (offs, total) = schema_layout cs (off + GetFixedSize (col_type c))
      in (off # offs, total))"

definition mk_Schema :: "Column list \<Rightarrow> Schema" where
  "mk_Schema cols = (let (offs, total) = schema_layout cols 0
     in \<lparr>columns = cols, offsets = offs, tuple_size = total\<rparr>)"

definition GetColumnCount :: "Schema \<Rightarrow> nat" where
  "GetColumnCount s = length (columns s)"

text \<open>The part of a name after its last dot: \<open>rfind('.')\<close> and \<open>substr(dot + 1)\<close>.\<close>

definition after_last_dot :: "string \<Rightarrow> string option" where
  "after_last_dot s = (if CHR ''.'' \<in> set s
     then Some (rev (takeWhile (\<lambda>c. c \<noteq> CHR ''.'') (rev s))) else None)"

fun find_exact :: "Column list \<Rightarrow> nat \<Rightarrow> string \<Rightarrow> nat option" where
  "find_exact [] i name = None"
| "find_exact (c # cs) i name =
     (if col_name c = name then Some i else find_exact cs (Suc i) name)"

fun find_unqualified :: "Column list \<Rightarrow> nat \<Rightarrow> nat option \<Rightarrow> string \<Rightarrow> nat option outcome" where
  "find_unqualified [] i found name = Ok found"
| "find_unqualified (c # cs) i found name =
     (if after_last_dot (col_name c) = Some name
      then (if found \<noteq> None then Throw (Runtime_Error (''Ambiguous column: '' @ name))
            else find_unqualified cs (Suc i) (Some i) name)
      else find_unqualified cs (Suc i) found name)"

definition find_qualified :: "Column list \<Rightarrow> string \<Rightarrow> nat option" where
  "find_qualified cs name = (case after_last_dot name of
      None \<Rightarrow> None
    | Some unqual \<Rightarrow> find_exact cs 0 unqual)"

definition GetColumnIdx :: "Schema \<Rightarrow> string \<Rightarrow> nat outcome" where
  "GetColumnIdx s name =
     (case find_exact (columns s) 0 name of
        Some i \<Rightarrow> Ok i
      | None \<Rightarrow>
          bind_out (if CHR ''.'' \<in> set name then Ok None
                    else find_unqualified (columns s) 0 None name)
            (\<lambda>found. case found of
                Some i \<Rightarrow> Ok i
              | None \<Rightarrow> (case find_qualified (columns s) name of
                    Some i \<Rightarrow> Ok i
                  | None \<Rightarrow> Throw (Runtime_Error (''Column not found: '' @ name)))))"

subsection \<open>Values\<close>

record Value =
  v_type :: TypeId
  int_val :: i32
  str_val :: string
  v_max_len :: u16

definition MakeInt :: "i32 \<Rightarrow> Value" where
  "MakeInt v = \<lparr>v_type = T_INT, int_val = v, str_val = [], v_max_len = 0\<rparr>"

definition MakeVarchar :: "string \<Rightarrow> u16 \<Rightarrow> Value" where
  "MakeVarchar s len = \<lparr>v_type = T_VARCHAR, int_val = mk32 0, str_val = s, v_max_len = len\<rparr>"

text \<open>
  \<open>SerializeTo\<close> writes at offset \<open>off\<close> of the buffer \<open>d\<close>; a write that leaves the buffer is a
  fault. A \<open>VARCHAR\<close> clears \<open>max_len_\<close> bytes and copies at most that many.
\<close>

definition SerializeTo :: "Value \<Rightarrow> nat \<Rightarrow> byte list \<Rightarrow> byte list outcome" where
  "SerializeTo v off d =
     (if v_type v = T_INT
      then (if off + 4 \<le> length d then Ok (poke off (le32 (bits32 (int_val v))) d) else Fault)
      else (let m = unat (v_max_len v); n = min (length (str_val v)) m
            in if off + m \<le> length d
               then Ok (poke off (map byte_of_char (take n (str_val v)))
                          (poke off (replicate m 0) d))
               else Fault))"

text \<open>
  \<open>src\<close> is the rest of the buffer from the column on. \<open>strnlen\<close> stops at a zero byte, so it
  leaves the buffer only when no zero byte comes before the end and \<open>max_len\<close> is not reached.
\<close>

definition DeserializeFrom :: "byte list \<Rightarrow> ColumnType \<Rightarrow> Value outcome" where
  "DeserializeFrom src ct =
     (if type_id ct = T_INT
      then (if 4 \<le> length src then Ok (MakeInt (I32 (un_le32 (take 4 src)))) else Fault)
      else (let m = unat (max_len ct); s = takeWhile (\<lambda>b. b \<noteq> 0) (take m src)
            in if length s = length src \<and> length s < m then Fault
               else Ok (MakeVarchar (map char_of_byte s) (max_len ct))))"

text \<open>\<open>std::to_string\<close> on an integer.\<close>

definition digit_char :: "nat \<Rightarrow> char" where
  "digit_char n = char_of (48 + n)"

fun show_nat :: "nat \<Rightarrow> string" where
  "show_nat n = (if n < 10 then [digit_char n] else show_nat (n div 10) @ [digit_char (n mod 10)])"

declare show_nat.simps [simp del]

definition show_int :: "int \<Rightarrow> string" where
  "show_int i = (if i < 0 then CHR ''-'' # show_nat (nat (- i)) else show_nat (nat i))"

definition ToString :: "Value \<Rightarrow> string" where
  "ToString v = (if v_type v = T_INT then show_int (ival (int_val v)) else str_val v)"

subsection \<open>Tuples\<close>

text \<open>A tuple is its byte vector \<open>data_\<close>.\<close>

type_synonym Tuple = "byte list"

fun tuple_fill :: "Value list \<Rightarrow> u32 list \<Rightarrow> byte list \<Rightarrow> byte list outcome" where
  "tuple_fill [] offs d = Ok d"
| "tuple_fill (v # vs) [] d = Fault"
| "tuple_fill (v # vs) (off # offs) d =
     bind_out (SerializeTo v (unat off) d) (\<lambda>d'. tuple_fill vs offs d')"

definition mk_Tuple :: "Value list \<Rightarrow> Schema \<Rightarrow> Tuple outcome" where
  "mk_Tuple vs s = tuple_fill vs (offsets s) (replicate (unat (tuple_size s)) 0)"

definition GetValue :: "Tuple \<Rightarrow> Schema \<Rightarrow> nat \<Rightarrow> Value outcome" where
  "GetValue t s i =
     (if i < length (offsets s) \<and> i < length (columns s) \<and> unat (offsets s ! i) \<le> length t
      then DeserializeFrom (drop (unat (offsets s ! i)) t) (col_type (columns s ! i))
      else Fault)"

definition FromBytes :: "byte list \<Rightarrow> nat \<Rightarrow> Tuple outcome" where
  "FromBytes bs len = (if len \<le> length bs then Ok (take len bs) else Fault)"

section \<open>Layout of a row\<close>

abbreviation col_size :: "Column \<Rightarrow> nat" where
  "col_size c \<equiv> unat (GetFixedSize (col_type c))"

abbreviation row_size :: "Column list \<Rightarrow> nat" where
  "row_size cs \<equiv> sum_list (map col_size cs)"

lemma length_schema_layout: "length (fst (schema_layout cs off)) = length cs"
  by (induction cs off rule: schema_layout.induct) (auto simp: split_beta)

lemma mk_Schema_sel [simp]:
  "columns (mk_Schema cs) = cs"
  "offsets (mk_Schema cs) = fst (schema_layout cs 0)"
  "tuple_size (mk_Schema cs) = snd (schema_layout cs 0)"
  by (simp_all add: mk_Schema_def split_beta)

lemma schema_layout_total:
  "unat off + row_size cs < 2 ^ 32 \<Longrightarrow> unat (snd (schema_layout cs off)) = unat off + row_size cs"
proof (induction cs arbitrary: off)
  case (Cons c cs)
  have "unat (off + GetFixedSize (col_type c)) = unat off + col_size c"
    using Cons.prems by (simp add: unat_word_ariths)
  with Cons show ?case by (simp add: split_beta)
qed simp

lemma schema_layout_nth:
  "unat off + row_size cs < 2 ^ 32 \<Longrightarrow> i < length cs \<Longrightarrow>
   unat (fst (schema_layout cs off) ! i) = unat off + row_size (take i cs)"
proof (induction cs arbitrary: off i)
  case (Cons c cs)
  have step: "unat (off + GetFixedSize (col_type c)) = unat off + col_size c"
    using Cons.prems by (simp add: unat_word_ariths)
  show ?case
  proof (cases i)
    case 0
    then show ?thesis by (simp add: split_beta)
  next
    case (Suc j)
    with Cons step show ?thesis by (simp add: split_beta)
  qed
qed simp

section \<open>Rows are read back\<close>

text \<open>The bytes a value occupies in a row, and the value those bytes are read as.\<close>

definition value_bytes :: "Value \<Rightarrow> byte list" where
  "value_bytes v =
     (if v_type v = T_INT then le32 (bits32 (int_val v))
      else (let m = unat (v_max_len v); bs = map byte_of_char (take m (str_val v))
            in bs @ replicate (m - length bs) 0))"

definition read_back :: "Value \<Rightarrow> Value" where
  "read_back v =
     (if v_type v = T_INT then MakeInt (int_val v)
      else MakeVarchar (takeWhile (\<lambda>c. c \<noteq> CHR 0x00) (take (unat (v_max_len v)) (str_val v)))
             (v_max_len v))"

text \<open>A value of a column: of its type and, for a string, with the column's length.\<close>

definition value_typed :: "Column \<Rightarrow> Value \<Rightarrow> bool" where
  "value_typed c v \<longleftrightarrow> v_type v = type_id (col_type c) \<and>
     (v_type v = T_VARCHAR \<longrightarrow> v_max_len v = max_len (col_type c))"

text \<open>A value that fits: an integer, or a string without zero bytes no longer than the column.\<close>

definition value_fits :: "Column \<Rightarrow> Value \<Rightarrow> bool" where
  "value_fits c v \<longleftrightarrow>
     (case type_id (col_type c) of
        T_INT \<Rightarrow> v = MakeInt (int_val v)
      | T_VARCHAR \<Rightarrow> v = MakeVarchar (str_val v) (max_len (col_type c)) \<and>
          length (str_val v) \<le> unat (max_len (col_type c)) \<and> CHR 0x00 \<notin> set (str_val v))"

lemma type_id_cases: "t \<noteq> T_INT \<longleftrightarrow> t = T_VARCHAR"
  by (cases t) auto

lemma value_fits_typed: "value_fits c v \<Longrightarrow> value_typed c v"
  by (cases "type_id (col_type c)")
    (auto simp: value_fits_def value_typed_def MakeInt_def MakeVarchar_def dest: arg_cong [of _ _ v_type]
      arg_cong [of _ _ v_max_len])

lemma value_fits_read_back: "value_fits c v \<Longrightarrow> read_back v = v"
  by (cases "type_id (col_type c)"; cases v)
    (auto simp: value_fits_def read_back_def MakeInt_def MakeVarchar_def takeWhile_eq_all_conv)

lemma length_value_bytes: "value_typed c v \<Longrightarrow> length (value_bytes v) = col_size c"
  by (auto simp: value_typed_def value_bytes_def GetFixedSize_def Let_def type_id_cases
      unat_ucast_16_32)

lemma poke_poke_zeros:
  "length bs \<le> m \<Longrightarrow> m \<le> n \<Longrightarrow>
   poke (length pre) bs (poke (length pre) (replicate m 0) (pre @ replicate n 0)) =
   pre @ (bs @ replicate (m - length bs) 0) @ replicate (n - m) (0 :: byte)"
  by (simp add: poke_def flip: replicate_add)

lemma SerializeTo_append:
  assumes "length (value_bytes v) \<le> n"
  shows "SerializeTo v (length pre) (pre @ replicate n 0) =
    Ok (pre @ value_bytes v @ replicate (n - length (value_bytes v)) 0)"
proof (cases "v_type v = T_INT")
  case True
  with assms show ?thesis
    by (simp add: SerializeTo_def value_bytes_def poke_def flip: replicate_add)
next
  case False
  let ?m = "unat (v_max_len v)"
  have "take (min (length (str_val v)) ?m) (str_val v) = take ?m (str_val v)"
    by (simp add: min_def)
  with False assms show ?thesis
    by (simp add: SerializeTo_def value_bytes_def Let_def poke_poke_zeros min_def)
qed

lemma tuple_fill_typed:
  assumes "list_all2 value_typed cs vs" and "unat off = length pre"
    and "length pre + row_size cs < 2 ^ 32"
  shows "tuple_fill vs (fst (schema_layout cs off)) (pre @ replicate (row_size cs) 0) =
    Ok (pre @ concat (map value_bytes vs))"
  using assms
proof (induction cs vs arbitrary: off pre rule: list_all2_induct)
  case (Cons c cs v vs)
  have len: "length (value_bytes v) = col_size c"
    using Cons.hyps by (simp add: length_value_bytes)
  have "unat (off + GetFixedSize (col_type c)) = length (pre @ value_bytes v)"
    using Cons.prems len by (simp add: unat_word_ariths)
  moreover have "length (pre @ value_bytes v) + row_size cs < 2 ^ 32"
    using Cons.prems len by simp
  ultimately have "tuple_fill vs (fst (schema_layout cs (off + GetFixedSize (col_type c))))
      ((pre @ value_bytes v) @ replicate (row_size cs) 0) =
    Ok ((pre @ value_bytes v) @ concat (map value_bytes vs))"
    by (rule Cons.IH)
  moreover have "SerializeTo v (unat off) (pre @ replicate (col_size c + row_size cs) 0) =
      Ok (pre @ value_bytes v @ replicate (row_size cs) 0)"
    using SerializeTo_append [of v "col_size c + row_size cs" pre] Cons.prems len by simp
  ultimately show ?case by (simp add: split_beta)
qed simp

lemma mk_Tuple_typed:
  assumes "list_all2 value_typed cs vs" and "row_size cs < 2 ^ 32"
  shows "mk_Tuple vs (mk_Schema cs) = Ok (concat (map value_bytes vs))"
  using tuple_fill_typed [of cs vs 0 "[]"] schema_layout_total [of 0 cs] assms
  by (simp add: mk_Tuple_def)

lemma length_value_bytes_list:
  "list_all2 value_typed cs vs \<Longrightarrow> length (concat (map value_bytes vs)) = row_size cs"
  by (induction cs vs rule: list_all2_induct) (auto simp: length_value_bytes)

lemma takeWhile_bytes:
  "takeWhile (\<lambda>b. b \<noteq> 0) (map byte_of_char s @ replicate k 0) =
   map byte_of_char (takeWhile (\<lambda>c. c \<noteq> CHR 0x00) s)"
proof (induction s)
  case Nil
  then show ?case by (cases k) auto
qed simp

lemma DeserializeFrom_value_bytes:
  assumes "value_typed c v"
  shows "DeserializeFrom (value_bytes v @ rest) (col_type c) = Ok (read_back v)"
proof (cases "v_type v = T_INT")
  case True
  with assms show ?thesis
    by (simp add: DeserializeFrom_def value_bytes_def read_back_def value_typed_def)
next
  case False
  let ?m = "unat (v_max_len v)"
  let ?s = "take ?m (str_val v)"
  have len: "length (takeWhile (\<lambda>c. c \<noteq> CHR 0x00) ?s) \<le> ?m"
    by (rule order_trans [OF length_takeWhile_le]) simp
  from False assms len show ?thesis
    by (auto simp: DeserializeFrom_def value_bytes_def read_back_def value_typed_def Let_def
        type_id_cases takeWhile_bytes comp_def)
qed

lemma drop_value_bytes:
  assumes "list_all2 value_typed cs vs" and "i < length cs"
  shows "drop (row_size (take i cs)) (concat (map value_bytes vs)) =
    value_bytes (vs ! i) @ concat (map value_bytes (drop (Suc i) vs))"
  using assms
proof (induction cs vs arbitrary: i rule: list_all2_induct)
  case (Cons c cs v vs)
  then show ?case by (cases i) (simp_all add: length_value_bytes)
qed simp

lemma GetValue_mk_Tuple:
  assumes "list_all2 value_typed cs vs" and "row_size cs < 2 ^ 32" and "i < length cs"
  shows "GetValue (concat (map value_bytes vs)) (mk_Schema cs) i = Ok (read_back (vs ! i))"
proof -
  let ?t = "concat (map value_bytes vs)"
  have off: "unat (fst (schema_layout cs 0) ! i) = row_size (take i cs)"
    using schema_layout_nth [of 0 cs i] assms by simp
  have "row_size (take i cs) \<le> row_size cs"
    by (metis append_take_drop_id le_add1 map_append sum_list_append)
  moreover have "value_typed (cs ! i) (vs ! i)"
    using assms by (simp add: list_all2_conv_all_nth)
  ultimately show ?thesis
    using assms off
    by (simp add: GetValue_def length_schema_layout length_value_bytes_list drop_value_bytes
        DeserializeFrom_value_bytes)
qed

section \<open>Column names\<close>

text \<open>The indices of the columns with a property, in order.\<close>

definition idx_where :: "(Column \<Rightarrow> bool) \<Rightarrow> Column list \<Rightarrow> nat list" where
  "idx_where P cs = filter (\<lambda>i. P (cs ! i)) [0..<length cs]"

lemma idx_where_simps [simp]:
  "idx_where P [] = []"
  "idx_where P (c # cs) = (if P c then [0] else []) @ map Suc (idx_where P cs)"
  by (simp_all add: idx_where_def upt_conv_Cons map_Suc_upt [symmetric] filter_map comp_def
      del: upt_Suc)

lemma find_exact_spec:
  "find_exact cs k name = (case idx_where (\<lambda>c. col_name c = name) cs of
     [] \<Rightarrow> None | i # _ \<Rightarrow> Some (k + i))"
proof (induction cs arbitrary: k)
  case (Cons c cs)
  then show ?case by (auto split: list.split)
qed simp

lemma find_unqualified_spec:
  "find_unqualified cs k found name =
     (let un = idx_where (\<lambda>c. after_last_dot (col_name c) = Some name) cs
      in if un = [] then Ok found
         else if found \<noteq> None \<or> 1 < length un
         then Throw (Runtime_Error (''Ambiguous column: '' @ name))
         else Ok (Some (k + hd un)))"
proof (induction cs arbitrary: k found)
  case (Cons c cs)
  then show ?case by (auto simp: Let_def hd_append hd_map)
qed simp

text \<open>The rules for a column name, as a reference definition over the lists of matching columns.\<close>

definition column_lookup :: "Column list \<Rightarrow> string \<Rightarrow> nat outcome" where
  "column_lookup cs name =
     (let exact = idx_where (\<lambda>c. col_name c = name) cs;
          unq = (if CHR ''.'' \<in> set name then []
                 else idx_where (\<lambda>c. after_last_dot (col_name c) = Some name) cs);
          qual = idx_where (\<lambda>c. after_last_dot name = Some (col_name c)) cs
      in if exact \<noteq> [] then Ok (hd exact)
         else if 1 < length unq then Throw (Runtime_Error (''Ambiguous column: '' @ name))
         else if unq \<noteq> [] then Ok (hd unq)
         else if qual \<noteq> [] then Ok (hd qual)
         else Throw (Runtime_Error (''Column not found: '' @ name)))"

lemma GetColumnIdx_eq: "GetColumnIdx s name = column_lookup (columns s) name"
proof -
  have q: "find_qualified cs name =
      (case idx_where (\<lambda>c. after_last_dot name = Some (col_name c)) cs of
         [] \<Rightarrow> None | i # _ \<Rightarrow> Some i)" for cs
  proof (cases "after_last_dot name")
    case None
    then show ?thesis by (simp add: find_qualified_def idx_where_def)
  next
    case (Some u)
    moreover have "idx_where (\<lambda>c. u = col_name c) cs = idx_where (\<lambda>c. col_name c = u) cs"
      by (rule arg_cong [where f = "\<lambda>P. idx_where P cs"]) auto
    ultimately show ?thesis by (simp add: find_qualified_def find_exact_spec split: list.split)
  qed
  show ?thesis
    by (auto simp: GetColumnIdx_def column_lookup_def find_exact_spec find_unqualified_spec q Let_def
        split: list.split)
qed

section \<open>Printing integers\<close>

lemma of_digit_char: "n < 10 \<Longrightarrow> of_char (digit_char n) = 48 + n"
  by (simp add: digit_char_def)

lemma digit_char_inj: "m < 10 \<Longrightarrow> n < 10 \<Longrightarrow> digit_char m = digit_char n \<longleftrightarrow> m = n"
  by (metis add_left_cancel of_digit_char)

lemma digit_char_not_minus: "n < 10 \<Longrightarrow> digit_char n \<noteq> CHR ''-''"
proof
  assume "n < 10" "digit_char n = CHR ''-''"
  then have "48 + n = of_char (CHR ''-'')" using of_digit_char by metis
  then show False by simp
qed

lemma show_nat_not_Nil [simp]: "show_nat n \<noteq> []" "[] \<noteq> show_nat n"
  by (subst show_nat.simps, simp)+

lemma show_nat_digits: "c \<in> set (show_nat n) \<Longrightarrow> \<exists>d < 10. c = digit_char d"
proof (induction n rule: show_nat.induct)
  case (1 n)
  then show ?case
    by (subst (asm) (2) show_nat.simps) (auto split: if_splits intro: exI [of _ "n mod 10"])
qed

lemma show_nat_inj: "show_nat m = show_nat n \<Longrightarrow> m = n"
proof (induction m arbitrary: n rule: show_nat.induct)
  case (1 m)
  show ?case
  proof (cases "m < 10"; cases "n < 10")
    assume "m < 10" "n < 10"
    with "1.prems" show ?thesis by (simp add: show_nat.simps digit_char_inj)
  next
    assume "m < 10" "\<not> n < 10"
    with "1.prems" show ?thesis by (simp add: show_nat.simps [of m] show_nat.simps [of n])
  next
    assume "\<not> m < 10" "n < 10"
    with "1.prems" show ?thesis by (simp add: show_nat.simps [of m] show_nat.simps [of n])
  next
    assume big: "\<not> m < 10" "\<not> n < 10"
    with "1.prems" have "show_nat (m div 10) = show_nat (n div 10)" "m mod 10 = n mod 10"
      by (simp_all add: show_nat.simps [of m] show_nat.simps [of n] digit_char_inj)
    with "1.IH" big have "m div 10 = n div 10" by blast
    with \<open>m mod 10 = n mod 10\<close> show ?thesis by (metis div_mult_mod_eq)
  qed
qed

lemma show_int_inj: "show_int i = show_int j \<longleftrightarrow> i = j"
proof
  have nm: "show_nat n \<noteq> CHR ''-'' # xs" for n xs
    using show_nat_digits [of "CHR ''-''" n] digit_char_not_minus by fastforce
  assume "show_int i = show_int j"
  then show "i = j"
    by (auto simp: show_int_def nm nm [symmetric] split: if_splits dest!: show_nat_inj)
qed simp

lemma show_int_not_Nil [simp]: "show_int i \<noteq> []"
  by (simp add: show_int_def)

section \<open>Properties\<close>

text \<open>(C32) A row built from values that fit their columns has the size the schema declares, and
  reading column \<open>i\<close> gives the value stored there, for every column of a schema whose rows are
  smaller than \<open>2 ^ 32\<close> bytes.\<close>

theorem tuple_roundtrip:
  assumes "list_all2 value_fits cs vs" and "row_size cs < 2 ^ 32" and "i < length cs"
  shows "\<exists>t. mk_Tuple vs (mk_Schema cs) = Ok t \<and> length t = unat (tuple_size (mk_Schema cs)) \<and>
    GetValue t (mk_Schema cs) i = Ok (vs ! i)"
proof -
  have typed: "list_all2 value_typed cs vs"
    using assms(1) by (rule list_all2_mono) (rule value_fits_typed)
  have "value_fits (cs ! i) (vs ! i)"
    using assms by (simp add: list_all2_conv_all_nth)
  then show ?thesis
    using mk_Tuple_typed [OF typed assms(2)] GetValue_mk_Tuple [OF typed assms(2,3)]
      length_value_bytes_list [OF typed] schema_layout_total [of 0 cs] assms(2)
    by (simp add: value_fits_read_back)
qed

theorem tuple_roundtrip_witness:
  "\<exists>t. mk_Tuple [MakeInt (mk32 7), MakeVarchar ''Bob'' 5]
      (mk_Schema [\<lparr>col_name = ''id'', col_type = ColumnType_Int\<rparr>,
                  \<lparr>col_name = ''name'', col_type = ColumnType_Varchar 5\<rparr>]) = Ok t \<and>
    length t = unat (tuple_size
      (mk_Schema [\<lparr>col_name = ''id'', col_type = ColumnType_Int\<rparr>,
                  \<lparr>col_name = ''name'', col_type = ColumnType_Varchar 5\<rparr>])) \<and>
    GetValue t (mk_Schema [\<lparr>col_name = ''id'', col_type = ColumnType_Int\<rparr>,
                  \<lparr>col_name = ''name'', col_type = ColumnType_Varchar 5\<rparr>]) 1 =
      Ok ([MakeInt (mk32 7), MakeVarchar ''Bob'' 5] ! 1)"
  by (rule tuple_roundtrip)
    (simp_all add: value_fits_def ColumnType_Int_def ColumnType_Varchar_def MakeInt_def
      MakeVarchar_def GetFixedSize_def)

text \<open>What a string column keeps of a value that does not fit: a string longer than the
  column is cut to the column's length, and a string with a zero byte ends before that byte; no
  error is raised in either case.\<close>

theorem varchar_truncated:
  assumes "list_all2 value_typed cs vs" and "row_size cs < 2 ^ 32" and "i < length cs"
    and "type_id (col_type (cs ! i)) = T_VARCHAR"
  shows "\<exists>t. mk_Tuple vs (mk_Schema cs) = Ok t \<and> GetValue t (mk_Schema cs) i =
    Ok (MakeVarchar (takeWhile (\<lambda>c. c \<noteq> CHR 0x00)
          (take (unat (max_len (col_type (cs ! i)))) (str_val (vs ! i))))
        (max_len (col_type (cs ! i))))"
proof -
  have "value_typed (cs ! i) (vs ! i)"
    using assms by (simp add: list_all2_conv_all_nth)
  then show ?thesis
    using mk_Tuple_typed [OF assms(1,2)] GetValue_mk_Tuple [OF assms(1-3)] assms(4)
    by (simp add: read_back_def value_typed_def)
qed

theorem varchar_truncated_witness:
  "\<exists>t. mk_Tuple [MakeVarchar ''Alice'' 3]
      (mk_Schema [\<lparr>col_name = ''name'', col_type = ColumnType_Varchar 3\<rparr>]) = Ok t \<and>
    GetValue t (mk_Schema [\<lparr>col_name = ''name'', col_type = ColumnType_Varchar 3\<rparr>]) 0 =
      Ok (MakeVarchar ''Ali'' 3)"
  using varchar_truncated [of "[\<lparr>col_name = ''name'', col_type = ColumnType_Varchar 3\<rparr>]"
      "[MakeVarchar ''Alice'' 3]" 0]
  by (simp add: value_typed_def ColumnType_Varchar_def MakeVarchar_def GetFixedSize_def)

text \<open>Which column a name denotes: the first column with exactly that name; else, for a name
  without a dot, the only column whose name after the last dot is that name, and an error when
  there are several; else, for a name with a dot, the first column named like the part after the
  last dot; else an error.\<close>

theorem GetColumnIdx_spec:
  "GetColumnIdx s name = column_lookup (columns s) name"
  by (rule GetColumnIdx_eq)

end
