(* ===== verification/Disk_Manager.thy ===== *)
theory Disk_Manager
  imports DB_Types "HOL-Library.Signed_Division"
begin

text \<open>
  \<open>src/src/storage/disk_manager.cpp\<close>: pages of 4096 bytes in one file. The state holds the
  bytes of the file, the page count and the two error bits of the stream, which make every later
  read and write a no-op until \<open>clear()\<close>. The interface to the buffer pool is the locale
  \<open>block_store\<close>, a finite map from page ids to pages.
\<close>

section \<open>Definitions\<close>

record DiskManager =
  db_file :: "byte list"
  num_pages :: int
  failbit :: bool
  badbit :: bool

definition stream_ok :: "DiskManager \<Rightarrow> bool" where
  "stream_ok d \<longleftrightarrow> \<not> failbit d \<and> \<not> badbit d"

definition zero_page :: "byte list" where
  "zero_page = replicate PAGE_SIZE 0"

text \<open>Writing past the end of the file fills the gap with zero bytes.\<close>

definition write_at :: "nat \<Rightarrow> byte list \<Rightarrow> byte list \<Rightarrow> byte list" where
  "write_at off bs f = poke off bs (f @ replicate (off + length bs - length f) 0)"

definition page_off :: "page_id_t \<Rightarrow> nat" where
  "page_off pid = nat (ival pid) * PAGE_SIZE"

text \<open>
  The constructor: \<open>existing\<close> is the file's content when the file exists, \<open>can_create\<close> whether a
  missing file can be created. The size of the file is cast to \<open>int\<close> before the division.
\<close>

definition open_pages :: "byte list \<Rightarrow> int" where
  "open_pages bs = ival (mk32 (int (length bs))) sdiv int PAGE_SIZE"

definition mk_DiskManager :: "string \<Rightarrow> byte list option \<Rightarrow> bool \<Rightarrow> DiskManager outcome" where
  "mk_DiskManager path existing can_create =
     (case existing of
        Some bs \<Rightarrow> Ok \<lparr>db_file = bs, num_pages = open_pages bs, failbit = False, badbit = False\<rparr>
      | None \<Rightarrow>
          if can_create
          then Ok \<lparr>db_file = [], num_pages = open_pages [], failbit = False, badbit = False\<rparr>
          else Throw (Runtime_Error (''Cannot open database file: '' @ path)))"

definition ReadPage :: "page_id_t \<Rightarrow> DiskManager \<Rightarrow> (byte list, DiskManager) res" where
  "ReadPage pid d =
     (if \<not> (0 \<le> ival pid \<and> ival pid < num_pages d) then (Fault, d)
      else if stream_ok d
      then (let bs = peek (page_off pid) PAGE_SIZE (db_file d)
            in (Ok (bs @ replicate (PAGE_SIZE - length bs) 0), d))
      else (Ok zero_page, d\<lparr>failbit := False, badbit := False\<rparr>))"

definition WritePage :: "page_id_t \<Rightarrow> byte list \<Rightarrow> DiskManager \<Rightarrow> (unit, DiskManager) res" where
  "WritePage pid page_data d =
     (if \<not> 0 \<le> ival pid then (Fault, d)
      else if badbit d then (Throw (Runtime_Error (''I/O error writing page '' @ show_int (ival pid))), d)
      else if failbit d then (Ok (), d)
      else (Ok (), d\<lparr>db_file := write_at (page_off pid) page_data (db_file d)\<rparr>))"

text \<open>A negative page id makes \<open>seekp\<close> fail, which sets \<open>failbit\<close>; the write is then a no-op.\<close>

definition AllocatePage :: "DiskManager \<Rightarrow> (page_id_t, DiskManager) res" where
  "AllocatePage d =
     (if num_pages d = INT32_MAX then (Fault, d)
      else let pid = mk32 (num_pages d); d' = d\<lparr>num_pages := num_pages d + 1\<rparr>
           in if \<not> stream_ok d then (Ok pid, d')
              else if ival pid < 0 then (Ok pid, d'\<lparr>failbit := True\<rparr>)
              else (Ok pid, d'\<lparr>db_file := write_at (page_off pid) zero_page (db_file d)\<rparr>))"

section \<open>The interface: a store of pages\<close>

text \<open>
  \<open>content\<close> is the abstract state, a map from the ids of allocated pages to their bytes. The laws
  say what a read returns and how a write and an allocation change the map.
\<close>

locale block_store =
  fixes inv :: "'s \<Rightarrow> bool"
    and content :: "'s \<Rightarrow> page_id_t \<Rightarrow> byte list option"
    and room :: "'s \<Rightarrow> bool"
    and rd :: "page_id_t \<Rightarrow> 's \<Rightarrow> (byte list, 's) res"
    and wr :: "page_id_t \<Rightarrow> byte list \<Rightarrow> 's \<Rightarrow> (unit, 's) res"
    and alloc :: "'s \<Rightarrow> (page_id_t, 's) res"
  assumes content_size: "inv d \<Longrightarrow> content d p = Some bs \<Longrightarrow> length bs = PAGE_SIZE"
    and content_invalid: "inv d \<Longrightarrow> content d INVALID_PAGE_ID = None"
    and read_ok: "inv d \<Longrightarrow> content d p = Some bs \<Longrightarrow> rd p d = (Ok bs, d)"
    and write_ok: "inv d \<Longrightarrow> p \<in> dom (content d) \<Longrightarrow> length bs = PAGE_SIZE \<Longrightarrow>
      \<exists>d'. wr p bs d = (Ok (), d') \<and> inv d' \<and> content d' = (content d)(p \<mapsto> bs)"
    and alloc_ok: "inv d \<Longrightarrow> room d \<Longrightarrow>
      \<exists>p d'. alloc d = (Ok p, d') \<and> inv d' \<and> p \<notin> dom (content d) \<and>
        p \<noteq> INVALID_PAGE_ID \<and> content d' = (content d)(p \<mapsto> replicate PAGE_SIZE 0)"
begin

lemma read_after_write:
  assumes "inv d" and "p \<in> dom (content d)" and "length bs = PAGE_SIZE"
  shows "\<exists>d'. wr p bs d = (Ok (), d') \<and> inv d' \<and> rd p d' = (Ok bs, d') \<and>
    (\<forall>q. q \<noteq> p \<longrightarrow> content d' q = content d q)"
proof -
  obtain d' where w: "wr p bs d = (Ok (), d')" "inv d'" "content d' = (content d)(p \<mapsto> bs)"
    using write_ok [OF assms] by blast
  then have "rd p d' = (Ok bs, d')" by (intro read_ok) auto
  with w show ?thesis by simp
qed

lemma read_after_alloc:
  assumes "inv d" and "room d"
  shows "\<exists>p d'. alloc d = (Ok p, d') \<and> inv d' \<and> content d p = None \<and>
    rd p d' = (Ok (replicate PAGE_SIZE 0), d') \<and> (\<forall>q. q \<noteq> p \<longrightarrow> content d' q = content d q)"
proof -
  obtain p d' where a: "alloc d = (Ok p, d')" "inv d'" "p \<notin> dom (content d)"
      "content d' = (content d)(p \<mapsto> replicate PAGE_SIZE 0)"
    using alloc_ok [OF assms] by blast
  then have "rd p d' = (Ok (replicate PAGE_SIZE 0), d')" by (intro read_ok) auto
  with a show ?thesis by (auto simp: domIff)
qed

end

section \<open>The disk manager implements it\<close>

definition disk_inv :: "DiskManager \<Rightarrow> bool" where
  "disk_inv d \<longleftrightarrow> stream_ok d \<and> 0 \<le> num_pages d \<and> num_pages d \<le> INT32_MAX \<and>
     nat (num_pages d) * PAGE_SIZE \<le> length (db_file d) \<and>
     length (db_file d) < (nat (num_pages d) + 1) * PAGE_SIZE"

definition disk_content :: "DiskManager \<Rightarrow> page_id_t \<Rightarrow> byte list option" where
  "disk_content d pid =
     (if 0 \<le> ival pid \<and> ival pid < num_pages d
      then Some (peek (page_off pid) PAGE_SIZE (db_file d)) else None)"

definition disk_room :: "DiskManager \<Rightarrow> bool" where
  "disk_room d \<longleftrightarrow> num_pages d < INT32_MAX"

lemma PAGE_SIZE_pos [simp]: "0 < PAGE_SIZE"
  by (simp add: PAGE_SIZE_def)

lemma page_off_bound:
  "0 \<le> ival pid \<Longrightarrow> ival pid < n \<Longrightarrow> page_off pid + PAGE_SIZE \<le> nat n * PAGE_SIZE"
proof -
  assume "0 \<le> ival pid" "ival pid < n"
  then have "Suc (nat (ival pid)) \<le> nat n" by linarith
  then have "Suc (nat (ival pid)) * PAGE_SIZE \<le> nat n * PAGE_SIZE" by (rule mult_le_mono1)
  then show ?thesis by (simp add: page_off_def)
qed

lemma page_off_disjoint:
  assumes "0 \<le> ival p" "0 \<le> ival q" "p \<noteq> q"
  shows "page_off p + PAGE_SIZE \<le> page_off q \<or> page_off q + PAGE_SIZE \<le> page_off p"
proof -
  have "ival p \<noteq> ival q" using assms by simp
  then consider "ival p < ival q" | "ival q < ival p" by linarith
  then show ?thesis
    using page_off_bound [of p "ival q"] page_off_bound [of q "ival p"] assms
    by cases (auto simp: page_off_def)
qed

lemma disk_inv_page:
  "disk_inv d \<Longrightarrow> 0 \<le> ival pid \<Longrightarrow> ival pid < num_pages d \<Longrightarrow>
   page_off pid + PAGE_SIZE \<le> length (db_file d)"
  using page_off_bound [of pid "num_pages d"] by (auto simp: disk_inv_def)

lemma write_at_inside:
  "off + length bs \<le> length f \<Longrightarrow> write_at off bs f = poke off bs f"
  by (simp add: write_at_def)

lemma length_write_at: "length (write_at off bs f) = max (length f) (off + length bs)"
  by (auto simp: write_at_def)

lemma peek_write_at_other:
  assumes "q + n \<le> length f" "q + n \<le> off \<or> off + length bs \<le> q"
  shows "peek q n (write_at off bs f) = peek q n f"
proof -
  have "peek q n (write_at off bs f) = peek q n (f @ replicate (off + length bs - length f) 0)"
    unfolding write_at_def by (rule peek_poke_disjoint) (use assms in auto)
  also have "\<dots> = peek q n f" using assms(1) by (simp add: peek_def)
  finally show ?thesis .
qed

lemma peek_write_at_same: "peek off (length bs) (write_at off bs f) = bs"
  unfolding write_at_def by (rule peek_poke_same) auto

lemma ReadPage_ok:
  "disk_inv d \<Longrightarrow> disk_content d p = Some bs \<Longrightarrow> ReadPage p d = (Ok bs, d)"
  using disk_inv_page [of d p]
  by (auto simp: disk_content_def ReadPage_def disk_inv_def Let_def split: if_splits)

lemma WritePage_ok:
  assumes "disk_inv d" "p \<in> dom (disk_content d)" "length bs = PAGE_SIZE"
  shows "\<exists>d'. WritePage p bs d = (Ok (), d') \<and> disk_inv d' \<and> num_pages d' = num_pages d \<and>
    disk_content d' = (disk_content d)(p \<mapsto> bs)"
proof -
  let ?f = "write_at (page_off p) bs (db_file d)"
  let ?d = "d\<lparr>db_file := ?f\<rparr>"
  have p: "0 \<le> ival p" "ival p < num_pages d"
    using assms(2) by (auto simp: disk_content_def split: if_splits)
  have in_f: "page_off p + length bs \<le> length (db_file d)"
    using disk_inv_page [OF assms(1) p] assms(3) by simp
  have "disk_content ?d q = ((disk_content d)(p \<mapsto> bs)) q" for q
  proof (cases "q = p \<or> \<not> (0 \<le> ival q \<and> ival q < num_pages d)")
    case True
    then show ?thesis
      using p peek_write_at_same [of "page_off p" bs] assms(3) by (auto simp: disk_content_def)
  next
    case False
    then have "peek (page_off q) PAGE_SIZE ?f = peek (page_off q) PAGE_SIZE (db_file d)"
      using disk_inv_page [OF assms(1)] page_off_disjoint [of p q] p assms(3)
      by (intro peek_write_at_other) auto
    with False show ?thesis by (simp add: disk_content_def)
  qed
  moreover have "disk_inv ?d"
    using assms(1) in_f by (auto simp: disk_inv_def stream_ok_def length_write_at)
  ultimately show ?thesis
    using assms(1) p by (auto simp: WritePage_def disk_inv_def stream_ok_def)
qed

lemma AllocatePage_ok:
  assumes "disk_inv d" "disk_room d"
  shows "\<exists>d'. AllocatePage d = (Ok (mk32 (num_pages d)), d') \<and> disk_inv d' \<and>
    num_pages d' = num_pages d + 1 \<and> ival (mk32 (num_pages d)) = num_pages d \<and>
    disk_content d' = (disk_content d)(mk32 (num_pages d) \<mapsto> zero_page)"
proof -
  let ?p = "mk32 (num_pages d)"
  have n: "0 \<le> num_pages d" "num_pages d < INT32_MAX"
    using assms by (auto simp: disk_inv_def disk_room_def)
  then have p: "ival ?p = num_pages d"
    by (intro ival_mk32) (auto simp: INT32_MIN_def)
  let ?f = "write_at (page_off ?p) zero_page (db_file d)"
  let ?d = "d\<lparr>num_pages := num_pages d + 1, db_file := ?f\<rparr>"
  have len: "length zero_page = PAGE_SIZE" by (simp add: zero_page_def)
  have "disk_content ?d q = ((disk_content d)(?p \<mapsto> zero_page)) q" for q
  proof (cases "q = ?p")
    case True
    then show ?thesis
      using p n peek_write_at_same [of "page_off ?p" zero_page] len by (auto simp: disk_content_def)
  next
    case False
    then have "ival q \<noteq> num_pages d" using p by (metis ival_inj)
    moreover have "peek (page_off q) PAGE_SIZE ?f = peek (page_off q) PAGE_SIZE (db_file d)"
      if "0 \<le> ival q" "ival q < num_pages d"
      using disk_inv_page [OF assms(1) that] page_off_disjoint [of ?p q] p n len False that
      by (intro peek_write_at_other) auto
    ultimately show ?thesis using False by (auto simp: disk_content_def)
  qed
  note content = this
  have "nat (num_pages d + 1) * PAGE_SIZE \<le> length ?f"
    using n p by (auto simp: length_write_at len page_off_def nat_add_distrib)
  moreover have "length ?f < (nat (num_pages d + 1) + 1) * PAGE_SIZE"
    using n p assms(1) by (auto simp: length_write_at len page_off_def nat_add_distrib disk_inv_def)
  ultimately have "disk_inv ?d"
    using assms n by (auto simp: disk_inv_def stream_ok_def)
  then show ?thesis
    using assms n p content by (auto simp: AllocatePage_def disk_inv_def Let_def)
qed

interpretation disk: block_store disk_inv disk_content disk_room ReadPage WritePage AllocatePage
proof
  fix d :: DiskManager and p bs
  show "length bs = PAGE_SIZE" if "disk_inv d" "disk_content d p = Some bs"
    using that disk_inv_page [of d p] by (auto simp: disk_content_def split: if_splits)
  show "disk_content d INVALID_PAGE_ID = None"
    using ival_mk32 [of "-1"] by (simp add: disk_content_def INVALID_PAGE_ID_def INT32_MIN_def INT32_MAX_def)
  show "ReadPage p d = (Ok bs, d)" if "disk_inv d" "disk_content d p = Some bs"
    using that by (rule ReadPage_ok)
  show "\<exists>d'. WritePage p bs d = (Ok (), d') \<and> disk_inv d' \<and> disk_content d' = (disk_content d)(p \<mapsto> bs)"
    if "disk_inv d" "p \<in> dom (disk_content d)" "length bs = PAGE_SIZE"
    using WritePage_ok [OF that] by blast
next
  fix d :: DiskManager
  assume d: "disk_inv d" "disk_room d"
  then obtain d' where a: "AllocatePage d = (Ok (mk32 (num_pages d)), d')" "disk_inv d'"
      "disk_content d' = (disk_content d)(mk32 (num_pages d) \<mapsto> zero_page)"
      "ival (mk32 (num_pages d)) = num_pages d"
    using AllocatePage_ok by blast
  moreover have "mk32 (num_pages d) \<noteq> INVALID_PAGE_ID"
  proof
    assume "mk32 (num_pages d) = INVALID_PAGE_ID"
    with a have "num_pages d = ival (mk32 (-1))" by (simp add: INVALID_PAGE_ID_def)
    with d show False by (simp add: disk_inv_def ival_mk32 INT32_MIN_def INT32_MAX_def)
  qed
  ultimately show "\<exists>p d'. AllocatePage d = (Ok p, d') \<and> disk_inv d' \<and> p \<notin> dom (disk_content d) \<and>
      p \<noteq> INVALID_PAGE_ID \<and> disk_content d' = (disk_content d)(p \<mapsto> replicate PAGE_SIZE 0)"
    by (intro exI [of _ "mk32 (num_pages d)"] exI [of _ d'])
      (simp add: zero_page_def disk_content_def domIff)
qed

section \<open>Reopening a file\<close>

lemma ival_mk32_small: "n < 2 ^ 31 \<Longrightarrow> ival (mk32 (int n)) = int n"
  by (intro ival_mk32) (auto simp: INT32_MIN_def INT32_MAX_def)

lemma ival_mk32_0 [simp]: "ival (mk32 0) = 0"
  using ival_mk32_small [of 0] by simp

lemma ival_mk32_large: "2 ^ 31 \<le> n \<Longrightarrow> n < 2 ^ 32 \<Longrightarrow> ival (mk32 (int n)) = int n - 2 ^ 32"
proof -
  assume n: "2 ^ 31 \<le> n" "n < (2 :: nat) ^ 32"
  have "word_of_int (int n) = (word_of_int (int n - 2 ^ 32) :: u32)"
    by (simp add: word_of_int_eq_iff take_bit_eq_mod)
  then have "mk32 (int n) = mk32 (int n - 2 ^ 32)" by (simp add: mk32_def)
  moreover have "ival (mk32 (int n - 2 ^ 32)) = int n - 2 ^ 32"
    using n by (intro ival_mk32) (auto simp: INT32_MIN_def INT32_MAX_def)
  ultimately show ?thesis by simp
qed

lemma open_pages_small: "length bs < 2 ^ 31 \<Longrightarrow> open_pages bs = int (length bs div PAGE_SIZE)"
  by (cases "bs = []") (simp_all add: open_pages_def ival_mk32_small signed_divide_int_def
      PAGE_SIZE_def zdiv_int)

lemma open_pages_large: "2 ^ 31 \<le> length bs \<Longrightarrow> length bs < 2 ^ 32 \<Longrightarrow> open_pages bs \<le> 0"
  using ival_mk32_large [of "length bs"]
  by (simp add: open_pages_def signed_divide_int_def PAGE_SIZE_def sgn_if)

lemma reopen_same:
  assumes "disk_inv d" and "length (db_file d) < 2 ^ 31"
  shows "\<exists>d'. mk_DiskManager path (Some (db_file d)) can_create = Ok d' \<and> disk_inv d' \<and>
    num_pages d' = num_pages d \<and> disk_content d' = disk_content d"
proof -
  have "length (db_file d) div PAGE_SIZE = nat (num_pages d)"
    using assms(1) by (intro div_nat_eqI) (auto simp: disk_inv_def mult.commute)
  then have "open_pages (db_file d) = num_pages d"
    using open_pages_small [OF assms(2)] assms(1) by (simp add: disk_inv_def)
  then show ?thesis
    using assms(1)
    by (auto simp: mk_DiskManager_def disk_inv_def stream_ok_def disk_content_def fun_eq_iff)
qed

section \<open>Properties\<close>

text \<open>Reading an allocated page after writing it returns the bytes written, and the write
  leaves every other page as it was.\<close>

theorem disk_read_after_write:
  assumes "disk_inv d" and "p \<in> dom (disk_content d)" and "length bs = PAGE_SIZE"
  shows "\<exists>d'. WritePage p bs d = (Ok (), d') \<and> disk_inv d' \<and> ReadPage p d' = (Ok bs, d') \<and>
    (\<forall>q. q \<noteq> p \<longrightarrow> disk_content d' q = disk_content d q)"
  using assms by (rule disk.read_after_write)

text \<open>A disk with one zero page, for the witnesses.\<close>

definition one_page_disk :: DiskManager where
  "one_page_disk = \<lparr>db_file = zero_page, num_pages = 1, failbit = False, badbit = False\<rparr>"

lemma one_page_disk_inv: "disk_inv one_page_disk" "mk32 0 \<in> dom (disk_content one_page_disk)"
  by (auto simp: one_page_disk_def disk_inv_def stream_ok_def zero_page_def INT32_MAX_def
      disk_content_def)

theorem disk_read_after_write_witness:
  "\<exists>d'. WritePage (mk32 0) (replicate PAGE_SIZE 171) one_page_disk = (Ok (), d') \<and> disk_inv d' \<and>
    ReadPage (mk32 0) d' = (Ok (replicate PAGE_SIZE 171), d') \<and>
    (\<forall>q. q \<noteq> mk32 0 \<longrightarrow> disk_content d' q = disk_content one_page_disk q)"
  by (rule disk_read_after_write [OF one_page_disk_inv]) simp

text \<open>Allocating a page gives an id not in use before, makes a page of zero bytes readable
  under it, and leaves the other pages as they were.\<close>

theorem disk_allocate_fresh:
  assumes "disk_inv d" and "disk_room d"
  shows "\<exists>p d'. AllocatePage d = (Ok p, d') \<and> disk_inv d' \<and> disk_content d p = None \<and>
    ReadPage p d' = (Ok (replicate PAGE_SIZE 0), d') \<and>
    (\<forall>q. q \<noteq> p \<longrightarrow> disk_content d' q = disk_content d q)"
  using assms by (rule disk.read_after_alloc)

theorem disk_allocate_fresh_witness:
  "\<exists>p d'. AllocatePage one_page_disk = (Ok p, d') \<and> disk_inv d' \<and>
    disk_content one_page_disk p = None \<and> ReadPage p d' = (Ok (replicate PAGE_SIZE 0), d') \<and>
    (\<forall>q. q \<noteq> p \<longrightarrow> disk_content d' q = disk_content one_page_disk q)"
  by (rule disk_allocate_fresh [OF one_page_disk_inv(1)])
    (simp add: disk_room_def one_page_disk_def INT32_MAX_def)

text \<open>Opening the file of a disk manager again finds the same pages with the same bytes, for a
  file below 2 GiB.\<close>

theorem disk_reopen:
  assumes "disk_inv d" and "length (db_file d) < 2 ^ 31"
  shows "\<exists>d'. mk_DiskManager path (Some (db_file d)) can_create = Ok d' \<and> disk_inv d' \<and>
    num_pages d' = num_pages d \<and> disk_content d' = disk_content d"
  using assms by (rule reopen_same)

theorem disk_reopen_witness:
  "\<exists>d'. mk_DiskManager ''t.db'' (Some (db_file one_page_disk)) True = Ok d' \<and> disk_inv d' \<and>
    num_pages d' = num_pages one_page_disk \<and> disk_content d' = disk_content one_page_disk"
  by (rule disk_reopen [OF one_page_disk_inv(1)])
    (simp add: one_page_disk_def zero_page_def PAGE_SIZE_def)

text \<open>The size of the file is narrowed to \<open>int\<close> before it is divided: for a file of 2 to 4
  GiB the page count is not positive, and every page of the file is refused.\<close>

theorem disk_open_large_unreadable:
  assumes "2 ^ 31 \<le> length bs" and "length bs < 2 ^ 32"
  shows "\<exists>d. mk_DiskManager path (Some bs) can_create = Ok d \<and> num_pages d \<le> 0 \<and>
    (\<forall>p. ReadPage p d = (Fault, d))"
  using open_pages_large [OF assms] by (auto simp: mk_DiskManager_def ReadPage_def)

theorem disk_open_large_unreadable_witness:
  "\<exists>d. mk_DiskManager ''t.db'' (Some (replicate (2 ^ 31) 0)) True = Ok d \<and> num_pages d \<le> 0 \<and>
    (\<forall>p. ReadPage p d = (Fault, d))"
  by (rule disk_open_large_unreadable) (simp_all only: length_replicate, simp_all)

end
