(* ===== verification/Page_Cache.thy ===== *)
theory Page_Cache
  imports Disk_Manager
begin

text \<open>
  The contract between the buffer pool and the components that keep their data in pages. The
  abstract state is a map from page ids to bytes, with a pin count per page; a pinned page stays
  in its frame, and a frame that is unpinned without the dirty flag must not have been changed. The
  pin count of a page is a C++ \<open>int\<close>, which can count up to \<open>PIN_MAX\<close> holders.
  The lemmas give the three access patterns of the clients: read a page, change a page, create a
  page; and the pattern of a node split, which changes one page and creates another.
\<close>

definition PIN_MAX :: nat where "PIN_MAX = nat INT32_MAX"

lemma PIN_MAX_pos [simp]: "0 < PIN_MAX" "Suc 0 \<le> PIN_MAX"
  by (simp_all add: PIN_MAX_def INT32_MAX_def)

locale page_cache =
  fixes inv :: "'s \<Rightarrow> bool"
    and content :: "'s \<Rightarrow> page_id_t \<Rightarrow> byte list option"
    and pins :: "'s \<Rightarrow> page_id_t \<Rightarrow> nat"
    and settled :: "'s \<Rightarrow> page_id_t \<Rightarrow> bool"
    and place :: "'s \<Rightarrow> page_id_t \<Rightarrow> frame_id_t option"
    and cap :: "'s \<Rightarrow> nat"
    and left :: "'s \<Rightarrow> nat"
    and idle :: "'s \<Rightarrow> (page_id_t \<Rightarrow> byte list option) \<Rightarrow> nat \<Rightarrow> nat \<Rightarrow> bool"
    and get :: "frame_id_t \<Rightarrow> 's \<Rightarrow> byte list"
    and put :: "frame_id_t \<Rightarrow> byte list \<Rightarrow> 's \<Rightarrow> 's"
    and new_page :: "'s \<Rightarrow> ((page_id_t \<times> frame_id_t) option, 's) res"
    and fetch :: "page_id_t \<Rightarrow> 's \<Rightarrow> (frame_id_t option, 's) res"
    and unpin :: "page_id_t \<Rightarrow> bool \<Rightarrow> 's \<Rightarrow> (bool, 's) res"
  assumes idle_iff: "idle s m k l \<longleftrightarrow>
      inv s \<and> (\<forall>p. pins s p = 0) \<and> content s = m \<and> cap s = k \<and> left s = l"
    and content_size: "inv s \<Longrightarrow> content s p = Some bs \<Longrightarrow> length bs = PAGE_SIZE"
    and content_invalid: "inv s \<Longrightarrow> content s INVALID_PAGE_ID = None"
    and quiet_settled: "inv s \<Longrightarrow> pins s p = 0 \<Longrightarrow> settled s p"
    and get_content: "inv s \<Longrightarrow> place s p = Some f \<Longrightarrow> content s p = Some (get f s)"
    and place_inj: "inv s \<Longrightarrow> place s p = Some f \<Longrightarrow> place s q = Some f \<Longrightarrow> p = q"
    and put_ok: "inv s \<Longrightarrow> place s p = Some f \<Longrightarrow> 0 < pins s p \<Longrightarrow> length bs = PAGE_SIZE \<Longrightarrow>
      inv (put f bs s) \<and> content (put f bs s) = (content s)(p \<mapsto> bs) \<and> pins (put f bs s) = pins s \<and>
      place (put f bs s) = place s \<and> cap (put f bs s) = cap s \<and> left (put f bs s) = left s"
    and new_ok: "inv s \<Longrightarrow> card {p. 0 < pins s p} < cap s \<Longrightarrow> 0 < left s \<Longrightarrow>
      \<exists>p f s'. new_page s = (Ok (Some (p, f)), s') \<and> inv s' \<and> content s p = None \<and>
        p \<noteq> INVALID_PAGE_ID \<and> content s' = (content s)(p \<mapsto> zero_page) \<and>
        pins s' = (pins s)(p := 1) \<and> place s' p = Some f \<and>
        (\<forall>q. 0 < pins s q \<longrightarrow> place s' q = place s q) \<and> cap s' = cap s \<and> left s' = left s - 1"
    and new_full: "inv s \<Longrightarrow> \<not> card {p. 0 < pins s p} < cap s \<Longrightarrow> new_page s = (Ok None, s)"
    and fetch_ok: "inv s \<Longrightarrow> content s p = Some bs \<Longrightarrow>
        0 < pins s p \<or> card {p. 0 < pins s p} < cap s \<Longrightarrow> pins s p < PIN_MAX \<Longrightarrow>
      \<exists>f s'. fetch p s = (Ok (Some f), s') \<and> inv s' \<and> content s' = content s \<and>
        pins s' = (pins s)(p := pins s p + 1) \<and> place s' p = Some f \<and>
        (\<forall>q. 0 < pins s q \<longrightarrow> place s' q = place s q) \<and> cap s' = cap s \<and> left s' = left s \<and>
        (\<forall>q. settled s q \<longrightarrow> settled s' q)"
    and unpin_ok: "inv s \<Longrightarrow> 0 < pins s p \<Longrightarrow> d \<or> settled s p \<Longrightarrow>
      \<exists>s'. unpin p d s = (Ok True, s') \<and> inv s' \<and> content s' = content s \<and>
        pins s' = (pins s)(p := pins s p - 1) \<and> place s' = place s \<and> cap s' = cap s \<and> left s' = left s"
begin

lemma idle_dest:
  assumes "idle s m k l"
  shows "inv s" "pins s = (\<lambda>_. 0)" "content s = m" "cap s = k" "left s = l"
    "card {p. 0 < pins s p} = 0"
  using assms by (auto simp: idle_iff)

text \<open>Read a page and release it.\<close>

lemma read_page:
  assumes "idle s m k l" and "0 < k" and "m p = Some bs"
  shows "\<exists>f s1 s2. fetch p s = (Ok (Some f), s1) \<and> get f s1 = bs \<and>
    unpin p False s1 = (Ok True, s2) \<and> idle s2 m k l"
proof -
  note i = idle_dest [OF assms(1)]
  obtain f s1 where s1: "fetch p s = (Ok (Some f), s1)" "inv s1" "content s1 = m" "cap s1 = k"
      "left s1 = l" "pins s1 = (\<lambda>_. 0)(p := 1)" "place s1 p = Some f" "settled s1 p"
    using fetch_ok [OF i(1), of p bs] assms(2,3) i quiet_settled [OF i(1), of p] by auto
  have "get f s1 = bs" using get_content [OF s1(2,7)] s1(3) assms(3) by simp
  moreover have "\<exists>s2. unpin p False s1 = (Ok True, s2) \<and> idle s2 m k l"
    using unpin_ok [OF s1(2), of p False] s1 by (auto simp: idle_iff)
  ultimately show ?thesis using s1(1) by blast
qed

text \<open>Change a page and release it as dirty.\<close>

lemma change_page:
  assumes "idle s m k l" and "0 < k" and "m p = Some bs"
  shows "\<exists>f s1. fetch p s = (Ok (Some f), s1) \<and> get f s1 = bs \<and>
    (\<forall>bs'. length bs' = PAGE_SIZE \<longrightarrow>
      (\<exists>s2. unpin p True (put f bs' s1) = (Ok True, s2) \<and> idle s2 (m(p \<mapsto> bs')) k l))"
proof -
  note i = idle_dest [OF assms(1)]
  obtain f s1 where s1: "fetch p s = (Ok (Some f), s1)" "inv s1" "content s1 = m" "cap s1 = k"
      "left s1 = l" "pins s1 = (\<lambda>_. 0)(p := 1)" "place s1 p = Some f"
    using fetch_ok [OF i(1), of p bs] assms(2,3) i by auto
  have "\<exists>s2. unpin p True (put f bs' s1) = (Ok True, s2) \<and> idle s2 (m(p \<mapsto> bs')) k l"
    if len: "length bs' = PAGE_SIZE" for bs'
  proof -
    have s2: "inv (put f bs' s1)" "pins (put f bs' s1) = (\<lambda>_. 0)(p := 1)"
        "content (put f bs' s1) = m(p \<mapsto> bs')" "cap (put f bs' s1) = k" "left (put f bs' s1) = l"
      using put_ok [OF s1(2,7) _ len] s1 by simp_all
    show ?thesis
      using unpin_ok [OF s2(1), of p True] s2 by (auto simp: idle_iff)
  qed
  moreover have "get f s1 = bs" using get_content [OF s1(2,7)] s1(3) assms(3) by simp
  ultimately show ?thesis using s1(1) by blast
qed

text \<open>Create a page and release it as dirty.\<close>

lemma create_page:
  assumes "idle s m k l" and "0 < k" and "0 < l"
  shows "\<exists>p f s1. new_page s = (Ok (Some (p, f)), s1) \<and> m p = None \<and> p \<noteq> INVALID_PAGE_ID \<and>
    get f s1 = zero_page \<and>
    (\<forall>bs'. length bs' = PAGE_SIZE \<longrightarrow>
      (\<exists>s2. unpin p True (put f bs' s1) = (Ok True, s2) \<and> idle s2 (m(p \<mapsto> bs')) k (l - 1)))"
proof -
  note i = idle_dest [OF assms(1)]
  obtain p f s1 where s1: "new_page s = (Ok (Some (p, f)), s1)" "inv s1" "m p = None"
      "p \<noteq> INVALID_PAGE_ID" "content s1 = m(p \<mapsto> zero_page)" "cap s1 = k" "left s1 = l - 1"
      "pins s1 = (\<lambda>_. 0)(p := 1)" "place s1 p = Some f"
    using new_ok [OF i(1)] assms(2,3) i by auto
  have "\<exists>s2. unpin p True (put f bs' s1) = (Ok True, s2) \<and> idle s2 (m(p \<mapsto> bs')) k (l - 1)"
    if len: "length bs' = PAGE_SIZE" for bs'
  proof -
    have s2: "inv (put f bs' s1)" "pins (put f bs' s1) = (\<lambda>_. 0)(p := 1)"
        "content (put f bs' s1) = m(p \<mapsto> bs')" "cap (put f bs' s1) = k" "left (put f bs' s1) = l - 1"
      using put_ok [OF s1(2,9) _ len] s1 by simp_all
    show ?thesis
      using unpin_ok [OF s2(1), of p True] s2 by (auto simp: idle_iff)
  qed
  moreover have "get f s1 = zero_page" using get_content [OF s1(2,9)] s1(5) by simp
  ultimately show ?thesis using s1(1,3,4) by blast
qed

text \<open>Change a page, create another while the first is held, change both, release both.\<close>

lemma split_page:
  assumes "idle s m k l" and "1 < k" and "0 < l" and "m p = Some bs"
  shows "\<exists>f s1. fetch p s = (Ok (Some f), s1) \<and> get f s1 = bs \<and>
    (\<forall>b1. length b1 = PAGE_SIZE \<longrightarrow>
      (\<exists>q g s2. new_page (put f b1 s1) = (Ok (Some (q, g)), s2) \<and> m q = None \<and>
        q \<noteq> INVALID_PAGE_ID \<and> q \<noteq> p \<and> get f s2 = b1 \<and> get g s2 = zero_page \<and>
        (\<forall>bp bq. length bp = PAGE_SIZE \<longrightarrow> length bq = PAGE_SIZE \<longrightarrow>
          (\<exists>s3 s4. unpin q True (put f bp (put g bq s2)) = (Ok True, s3) \<and>
            unpin p True s3 = (Ok True, s4) \<and> idle s4 (m(p \<mapsto> bp, q \<mapsto> bq)) k (l - 1)))))"
proof -
  note i = idle_dest [OF assms(1)]
  obtain f s1 where s1: "fetch p s = (Ok (Some f), s1)" "inv s1" "content s1 = m" "cap s1 = k"
      "left s1 = l" "pins s1 = (\<lambda>_. 0)(p := 1)" "place s1 p = Some f"
    using fetch_ok [OF i(1), of p bs] assms(2,4) i by auto
  have "\<exists>q g s2. new_page (put f b1 s1) = (Ok (Some (q, g)), s2) \<and> m q = None \<and>
        q \<noteq> INVALID_PAGE_ID \<and> q \<noteq> p \<and> get f s2 = b1 \<and> get g s2 = zero_page \<and>
        (\<forall>bp bq. length bp = PAGE_SIZE \<longrightarrow> length bq = PAGE_SIZE \<longrightarrow>
          (\<exists>s3 s4. unpin q True (put f bp (put g bq s2)) = (Ok True, s3) \<and>
            unpin p True s3 = (Ok True, s4) \<and> idle s4 (m(p \<mapsto> bp, q \<mapsto> bq)) k (l - 1)))"
    if len: "length b1 = PAGE_SIZE" for b1
  proof -
    let ?s = "put f b1 s1"
    have t: "inv ?s" "pins ?s = (\<lambda>_. 0)(p := 1)" "content ?s = m(p \<mapsto> b1)" "cap ?s = k" "left ?s = l"
        "place ?s p = Some f"
      using put_ok [OF s1(2,7) _ len] s1 by simp_all
    have "{x. 0 < pins ?s x} = {p}" using t(2) by auto
    then obtain q g s2 where s2: "new_page ?s = (Ok (Some (q, g)), s2)" "inv s2"
        "(m(p \<mapsto> b1)) q = None" "q \<noteq> INVALID_PAGE_ID" "content s2 = m(p \<mapsto> b1, q \<mapsto> zero_page)"
        "pins s2 = (\<lambda>_. 0)(p := 1, q := 1)" "place s2 q = Some g" "place s2 p = Some f"
        "cap s2 = k" "left s2 = l - 1"
      using new_ok [OF t(1)] t assms(2,3) by auto
    have q: "q \<noteq> p" "m q = None" using s2(3) by (auto split: if_splits)
    have gets: "get f s2 = b1" "get g s2 = zero_page"
      using get_content [OF s2(2,7)] get_content [OF s2(2,8)] s2(5) q by simp_all
    have "\<exists>s3 s4. unpin q True (put f bp (put g bq s2)) = (Ok True, s3) \<and>
        unpin p True s3 = (Ok True, s4) \<and> idle s4 (m(p \<mapsto> bp, q \<mapsto> bq)) k (l - 1)"
      if l: "length bp = PAGE_SIZE" "length bq = PAGE_SIZE" for bp bq
    proof -
      have u: "inv (put g bq s2)" "pins (put g bq s2) = (\<lambda>_. 0)(p := 1, q := 1)"
          "content (put g bq s2) = m(p \<mapsto> b1, q \<mapsto> bq)" "cap (put g bq s2) = k"
          "left (put g bq s2) = l - 1" "place (put g bq s2) p = Some f"
        using put_ok [OF s2(2,7) _ l(2)] s2 by simp_all
      let ?v = "put f bp (put g bq s2)"
      have v: "inv ?v" "pins ?v = (\<lambda>_. 0)(p := 1, q := 1)" "cap ?v = k" "left ?v = l - 1"
          "content ?v = m(p \<mapsto> bp, q \<mapsto> bq)"
        using put_ok [OF u(1,6) _ l(1)] u q by (simp_all add: fun_upd_twist)
      obtain s3 where s3: "unpin q True ?v = (Ok True, s3)" "inv s3" "content s3 = m(p \<mapsto> bp, q \<mapsto> bq)"
          "pins s3 = (\<lambda>_. 0)(p := 1)" "cap s3 = k" "left s3 = l - 1"
        using unpin_ok [OF v(1), of q True] v q by (auto simp: fun_upd_def fun_eq_iff)
      obtain s4 where "unpin p True s3 = (Ok True, s4)" "idle s4 (m(p \<mapsto> bp, q \<mapsto> bq)) k (l - 1)"
        using unpin_ok [OF s3(2), of p True] s3 by (auto simp: idle_iff)
      with s3(1) show ?thesis by blast
    qed
    with s2 q gets show ?thesis by blast
  qed
  moreover have "get f s1 = bs" using get_content [OF s1(2,7)] s1(3) assms(4) by simp
  ultimately show ?thesis using s1(1) by blast
qed

end

end
