(* ===== verification/LRU_Replacer.thy ===== *)
theory LRU_Replacer
  imports DB_Types
begin

text \<open>
  \<open>src/src/storage/lru_replacer.cpp\<close>: which frame of the buffer pool to reuse. The linked list
  holds nodes with an identity of their own, so that the iterators stored in \<open>lru_map_\<close> are node
  identities and \<open>erase(iterator)\<close> removes that node. The interface to the buffer pool is the
  locale \<open>lru_policy\<close>, an order of recency and a set of evictable frames; a second specification
  by access times shows that the frame chosen is the one used least recently.
\<close>

section \<open>Definitions\<close>

record LRUReplacer =
  num_frames :: nat
  lru_list :: "(nat \<times> frame_id_t) list"
  lru_map :: "frame_id_t \<Rightarrow> nat option"
  evictable :: "frame_id_t set"
  next_node :: nat

definition mk_LRUReplacer :: "nat \<Rightarrow> LRUReplacer" where
  "mk_LRUReplacer n = \<lparr>num_frames = n, lru_list = [], lru_map = Map.empty, evictable = {}, next_node = 0\<rparr>"

text \<open>\<open>lru_list_.erase(it)\<close>\<close>

definition erase_node :: "nat \<Rightarrow> (nat \<times> frame_id_t) list \<Rightarrow> (nat \<times> frame_id_t) list" where
  "erase_node n xs = filter (\<lambda>e. fst e \<noteq> n) xs"

text \<open>The loop of \<open>Evict\<close> runs from the back of the list to the first evictable frame.\<close>

fun evict_scan :: "(nat \<times> frame_id_t) list \<Rightarrow> frame_id_t set \<Rightarrow> (nat \<times> frame_id_t) option" where
  "evict_scan [] ev = None"
| "evict_scan ((n, f) # es) ev = (if f \<in> ev then Some (n, f) else evict_scan es ev)"

definition Evict :: "LRUReplacer \<Rightarrow> frame_id_t option \<times> LRUReplacer" where
  "Evict r = (case evict_scan (rev (lru_list r)) (evictable r) of
      None \<Rightarrow> (None, r)
    | Some (n, f) \<Rightarrow> (Some f,
        r\<lparr>lru_map := (lru_map r)(f := None), evictable := evictable r - {f},
          lru_list := erase_node n (lru_list r)\<rparr>))"

definition RecordAccess :: "frame_id_t \<Rightarrow> LRUReplacer \<Rightarrow> LRUReplacer" where
  "RecordAccess f r =
     (let xs = (case lru_map r f of Some n \<Rightarrow> erase_node n (lru_list r) | None \<Rightarrow> lru_list r)
      in r\<lparr>lru_list := (next_node r, f) # xs, lru_map := (lru_map r)(f \<mapsto> next_node r),
           next_node := Suc (next_node r)\<rparr>)"

definition SetEvictable :: "frame_id_t \<Rightarrow> bool \<Rightarrow> LRUReplacer \<Rightarrow> LRUReplacer" where
  "SetEvictable f b r =
     r\<lparr>evictable := (if b then insert f (evictable r) else evictable r - {f})\<rparr>"

definition Remove :: "frame_id_t \<Rightarrow> LRUReplacer \<Rightarrow> LRUReplacer" where
  "Remove f r =
     (let r' = (case lru_map r f of
                  Some n \<Rightarrow> r\<lparr>lru_list := erase_node n (lru_list r), lru_map := (lru_map r)(f := None)\<rparr>
                | None \<Rightarrow> r)
      in r'\<lparr>evictable := evictable r' - {f}\<rparr>)"

definition Size :: "LRUReplacer \<Rightarrow> nat" where
  "Size r = card (evictable r)"

section \<open>The interface: an order of recency\<close>

locale lru_policy =
  fixes inv :: "'r \<Rightarrow> bool"
    and order :: "'r \<Rightarrow> frame_id_t list"
    and ev :: "'r \<Rightarrow> frame_id_t set"
    and evict :: "'r \<Rightarrow> frame_id_t option \<times> 'r"
    and access :: "frame_id_t \<Rightarrow> 'r \<Rightarrow> 'r"
    and set_ev :: "frame_id_t \<Rightarrow> bool \<Rightarrow> 'r \<Rightarrow> 'r"
    and remove :: "frame_id_t \<Rightarrow> 'r \<Rightarrow> 'r"
  assumes distinct_order: "inv r \<Longrightarrow> distinct (order r)"
    and inv_access: "inv r \<Longrightarrow> inv (access f r)"
    and inv_set_ev: "inv r \<Longrightarrow> inv (set_ev f b r)"
    and inv_remove: "inv r \<Longrightarrow> inv (remove f r)"
    and inv_evict: "inv r \<Longrightarrow> inv (snd (evict r))"
    and order_access: "inv r \<Longrightarrow> order (access f r) = f # filter (\<lambda>g. g \<noteq> f) (order r)"
    and ev_access: "ev (access f r) = ev r"
    and order_set_ev: "order (set_ev f b r) = order r"
    and ev_set_ev: "ev (set_ev f b r) = (if b then insert f (ev r) else ev r - {f})"
    and order_remove: "inv r \<Longrightarrow> order (remove f r) = filter (\<lambda>g. g \<noteq> f) (order r)"
    and ev_remove: "ev (remove f r) = ev r - {f}"
    and evict_choice: "inv r \<Longrightarrow> fst (evict r) = find (\<lambda>f. f \<in> ev r) (rev (order r))"
    and order_evict: "inv r \<Longrightarrow> fst (evict r) = Some f \<Longrightarrow>
      order (snd (evict r)) = filter (\<lambda>g. g \<noteq> f) (order r)"
    and ev_evict: "inv r \<Longrightarrow> fst (evict r) = Some f \<Longrightarrow> ev (snd (evict r)) = ev r - {f}"
    and evict_none: "inv r \<Longrightarrow> fst (evict r) = None \<Longrightarrow> snd (evict r) = r"
begin

lemmas policy_simps = order_access ev_access order_set_ev ev_set_ev order_remove ev_remove

lemma evict_evictable: "inv r \<Longrightarrow> fst (evict r) = Some f \<Longrightarrow> f \<in> ev r \<and> f \<in> set (order r)"
  using nth_mem [of _ "rev (order r)"] by (auto simp: evict_choice find_Some_iff)

lemma evict_None_iff: "inv r \<Longrightarrow> fst (evict r) = None \<longleftrightarrow> (\<forall>f \<in> set (order r). f \<notin> ev r)"
  by (auto simp: evict_choice find_None_iff)

text \<open>The chosen frame is the last evictable one of the recency order.\<close>

lemma evict_split:
  assumes "inv r" and "fst (evict r) = Some f"
  obtains newer older where "order r = newer @ f # older" "\<forall>g \<in> set older. g \<notin> ev r"
proof -
  have "find (\<lambda>g. g \<in> ev r) (rev (order r)) = Some f"
    using assms by (simp add: evict_choice)
  then obtain i where i: "i < length (rev (order r))" "rev (order r) ! i = f"
      "\<forall>j < i. rev (order r) ! j \<notin> ev r"
    by (auto simp: find_Some_iff)
  let ?xs = "rev (order r)"
  have "?xs = take i ?xs @ ?xs ! i # drop (Suc i) ?xs"
    using i(1) by (rule id_take_nth_drop)
  then have "?xs = take i ?xs @ f # drop (Suc i) ?xs"
    unfolding i(2) .
  then have "order r = rev (drop (Suc i) ?xs) @ f # rev (take i ?xs)"
    by (metis append.assoc append_Cons append_Nil rev.simps(2) rev_append rev_rev_ident)
  moreover have "\<forall>g \<in> set (rev (take i ?xs)). g \<notin> ev r"
    using i by (auto simp: in_set_conv_nth)
  ultimately show ?thesis by (rule that)
qed

lemma access_protects:
  assumes "inv r" and "g \<in> set (order r)" and "g \<in> ev r" and "g \<noteq> f"
  shows "fst (evict (access f r)) \<noteq> Some f"
proof
  assume "fst (evict (access f r)) = Some f"
  with assms(1) obtain newer older where
    "order (access f r) = newer @ f # older" "\<forall>g \<in> set older. g \<notin> ev (access f r)"
    using evict_split [of "access f r"] inv_access by blast
  then have split: "f # filter (\<lambda>g. g \<noteq> f) (order r) = newer @ f # older"
      and old: "\<forall>g \<in> set older. g \<notin> ev r"
    using assms(1) by (auto simp: order_access ev_access)
  have "f \<notin> set (filter (\<lambda>g. g \<noteq> f) (order r))" by simp
  with split have "newer = []"
    by (cases newer) (auto simp del: set_filter)
  with split old assms show False by auto
qed

end

section \<open>The replacer implements it\<close>

definition lru_inv :: "LRUReplacer \<Rightarrow> bool" where
  "lru_inv r \<longleftrightarrow> sorted_wrt (>) (map fst (lru_list r)) \<and>
     (\<forall>e \<in> set (lru_list r). fst e < next_node r) \<and>
     (\<forall>f n. lru_map r f = Some n \<longleftrightarrow> (n, f) \<in> set (lru_list r))"

definition lru_order :: "LRUReplacer \<Rightarrow> frame_id_t list" where
  "lru_order r = map snd (lru_list r)"

lemma lru_inv_init: "lru_inv (mk_LRUReplacer n)"
  by (simp add: lru_inv_def mk_LRUReplacer_def)

lemma sorted_gt_distinct: "sorted_wrt (>) (xs :: nat list) \<Longrightarrow> distinct xs"
  by (induction xs) auto

lemma lru_inv_node:
  "lru_inv r \<Longrightarrow> (n, f) \<in> set (lru_list r) \<Longrightarrow> (n, g) \<in> set (lru_list r) \<Longrightarrow> f = g"
  using sorted_gt_distinct [of "map fst (lru_list r)"] eq_key_imp_eq_value [of "lru_list r"]
  by (auto simp: lru_inv_def)

lemma lru_distinct: "lru_inv r \<Longrightarrow> distinct (lru_order r)"
proof -
  assume i: "lru_inv r"
  then have "distinct (lru_list r)"
    using sorted_gt_distinct distinct_map by (auto simp: lru_inv_def)
  moreover have "inj_on snd (set (lru_list r))"
    using i by (auto simp: lru_inv_def inj_on_def) (metis option.inject)+
  ultimately show ?thesis by (simp add: lru_order_def distinct_map)
qed

lemma lru_inv_iff: "lru_inv r \<Longrightarrow> (n, f) \<in> set (lru_list r) \<longleftrightarrow> lru_map r f = Some n"
  by (simp add: lru_inv_def)

text \<open>Erasing the node of a frame removes the frame from the order.\<close>

lemma erase_node_frame:
  assumes "lru_inv r" and "lru_map r f = Some n"
  shows "erase_node n (lru_list r) = filter (\<lambda>e. snd e \<noteq> f) (lru_list r)"
  unfolding erase_node_def
proof (rule filter_cong [OF refl])
  fix e assume e: "e \<in> set (lru_list r)"
  have "(n, f) \<in> set (lru_list r)" using assms by (simp add: lru_inv_iff)
  then show "(fst e \<noteq> n) = (snd e \<noteq> f)"
    using assms e lru_inv_node [OF assms(1)] by (cases e) (auto simp: lru_inv_iff)
qed

lemma filter_not_tracked:
  "lru_inv r \<Longrightarrow> lru_map r f = None \<Longrightarrow> filter (\<lambda>e. snd e \<noteq> f) (lru_list r) = lru_list r"
  by (auto simp: lru_inv_def filter_id_conv) (metis option.distinct(1))

lemmas erase_simps = erase_node_frame filter_not_tracked

lemma lru_inv_filter:
  assumes "lru_inv r"
  shows "sorted_wrt (>) (map fst (filter P (lru_list r)))"
    and "\<forall>e \<in> set (filter P (lru_list r)). fst e < next_node r"
  using assms by (auto simp: lru_inv_def sorted_wrt_map intro: sorted_wrt_filter)

lemma Remove_alt:
  "lru_inv r \<Longrightarrow> Remove f r = r\<lparr>lru_list := filter (\<lambda>e. snd e \<noteq> f) (lru_list r),
     lru_map := (lru_map r)(f := None), evictable := evictable r - {f}\<rparr>"
  by (auto simp: Remove_def erase_simps Let_def fun_upd_idem split: option.split)

lemma RecordAccess_alt:
  "lru_inv r \<Longrightarrow> RecordAccess f r =
     r\<lparr>lru_list := (next_node r, f) # filter (\<lambda>e. snd e \<noteq> f) (lru_list r),
       lru_map := (lru_map r)(f \<mapsto> next_node r), next_node := Suc (next_node r)\<rparr>"
  by (auto simp: RecordAccess_def erase_simps Let_def split: option.split)

lemma evict_scan_Some:
  "evict_scan es ev = Some (n, f) \<Longrightarrow> (n, f) \<in> set es \<and> f \<in> ev"
  by (induction es ev rule: evict_scan.induct) (auto split: if_splits)

lemma evict_scan_find: "map_option snd (evict_scan es ev) = find (\<lambda>f. f \<in> ev) (map snd es)"
  by (induction es ev rule: evict_scan.induct) auto

lemma Evict_alt:
  assumes "lru_inv r"
  shows "Evict r = (case find (\<lambda>f. f \<in> evictable r) (rev (lru_order r)) of
      None \<Rightarrow> (None, r) | Some f \<Rightarrow> (Some f, Remove f r))"
proof (cases "evict_scan (rev (lru_list r)) (evictable r)")
  case None
  then show ?thesis
    using evict_scan_find [of "rev (lru_list r)" "evictable r"]
    by (simp add: Evict_def lru_order_def rev_map)
next
  case (Some e)
  obtain n f where e: "e = (n, f)" by (cases e)
  then have "(n, f) \<in> set (lru_list r)"
    using Some evict_scan_Some by fastforce
  then have "lru_map r f = Some n" using assms by (simp add: lru_inv_def)
  moreover have "find (\<lambda>f. f \<in> evictable r) (rev (lru_order r)) = Some f"
    using Some e evict_scan_find [of "rev (lru_list r)" "evictable r"]
    by (simp add: lru_order_def rev_map)
  ultimately show ?thesis
    using Some e assms by (simp add: Evict_def Remove_def erase_node_frame Let_def)
qed

lemma lru_inv_Remove: "lru_inv r \<Longrightarrow> lru_inv (Remove f r)"
  using lru_inv_filter [of r "\<lambda>e. snd e \<noteq> f"]
  by (auto simp: Remove_alt lru_inv_def)

lemma lru_inv_RecordAccess:
  assumes "lru_inv r" shows "lru_inv (RecordAccess f r)"
proof -
  have less: "n < next_node r" if "lru_map r g = Some n" for n g
    using assms that by (force simp: lru_inv_def)
  show ?thesis
    unfolding RecordAccess_alt [OF assms] lru_inv_def
    using lru_inv_filter [OF assms, of "\<lambda>e. snd e \<noteq> f"] less lru_inv_iff [OF assms]
    by (auto intro: less_SucI)
qed

interpretation lru: lru_policy lru_inv lru_order evictable Evict RecordAccess SetEvictable Remove
proof
  fix r :: LRUReplacer and f b
  show "distinct (lru_order r)" if "lru_inv r" using that by (rule lru_distinct)
  show "lru_inv (RecordAccess f r)" if "lru_inv r" using that by (rule lru_inv_RecordAccess)
  show "lru_inv (SetEvictable f b r)" if "lru_inv r"
    using that by (simp add: lru_inv_def SetEvictable_def)
  show "lru_inv (Remove f r)" if "lru_inv r" using that by (rule lru_inv_Remove)
  show "lru_inv (snd (Evict r))" if "lru_inv r"
    using that by (auto simp: Evict_alt lru_inv_Remove split: option.split)
  show "lru_order (RecordAccess f r) = f # filter (\<lambda>g. g \<noteq> f) (lru_order r)" if "lru_inv r"
    using that by (simp add: RecordAccess_alt lru_order_def filter_map comp_def)
  show "evictable (RecordAccess f r) = evictable r"
    by (simp add: RecordAccess_def Let_def)
  show "lru_order (SetEvictable f b r) = lru_order r"
    by (simp add: SetEvictable_def lru_order_def)
  show "evictable (SetEvictable f b r) = (if b then insert f (evictable r) else evictable r - {f})"
    by (simp add: SetEvictable_def)
  show "lru_order (Remove f r) = filter (\<lambda>g. g \<noteq> f) (lru_order r)" if "lru_inv r"
    using that by (simp add: Remove_alt lru_order_def filter_map comp_def)
  show "evictable (Remove f r) = evictable r - {f}"
    by (simp add: Remove_def Let_def split: option.split)
  show "fst (Evict r) = find (\<lambda>f. f \<in> evictable r) (rev (lru_order r))" if "lru_inv r"
    using that by (simp add: Evict_alt split: option.split)
  show "lru_order (snd (Evict r)) = filter (\<lambda>g. g \<noteq> f) (lru_order r)"
    if "lru_inv r" "fst (Evict r) = Some f"
    using that by (auto simp: Evict_alt Remove_alt lru_order_def filter_map comp_def split: option.splits)
  show "evictable (snd (Evict r)) = evictable r - {f}" if "lru_inv r" "fst (Evict r) = Some f"
    using that by (auto simp: Evict_alt Remove_alt split: option.splits)
  show "snd (Evict r) = r" if "lru_inv r" "fst (Evict r) = None"
    using that by (auto simp: Evict_alt split: option.splits)
qed

section \<open>The choice by access times\<close>

text \<open>
  A specification without lists: a clock, the time of the last access of every tracked frame, and
  the evictable frames. An eviction takes an evictable frame whose last access is the oldest, and
  fails only when no tracked frame is evictable.
\<close>

datatype lru_op = OpAccess frame_id_t | OpSetEvictable frame_id_t bool | OpRemove frame_id_t | OpEvict

record lru_spec =
  now :: nat
  used_at :: "frame_id_t \<Rightarrow> nat option"
  may_evict :: "frame_id_t set"

abbreviation candidates :: "lru_spec \<Rightarrow> frame_id_t set" where
  "candidates s \<equiv> dom (used_at s) \<inter> may_evict s"

inductive lru_spec_step :: "lru_spec \<Rightarrow> lru_op \<Rightarrow> frame_id_t option \<Rightarrow> lru_spec \<Rightarrow> bool" where
  access: "lru_spec_step s (OpAccess f) None
      (s\<lparr>now := Suc (now s), used_at := (used_at s)(f \<mapsto> now s)\<rparr>)"
| pin: "lru_spec_step s (OpSetEvictable f False) None (s\<lparr>may_evict := may_evict s - {f}\<rparr>)"
| unpin: "lru_spec_step s (OpSetEvictable f True) None (s\<lparr>may_evict := insert f (may_evict s)\<rparr>)"
| forget: "lru_spec_step s (OpRemove f) None
      (s\<lparr>used_at := (used_at s)(f := None), may_evict := may_evict s - {f}\<rparr>)"
| evict: "f \<in> candidates s \<Longrightarrow>
      (\<And>g. g \<in> candidates s \<Longrightarrow> the (used_at s f) \<le> the (used_at s g)) \<Longrightarrow>
      lru_spec_step s OpEvict (Some f)
        (s\<lparr>used_at := (used_at s)(f := None), may_evict := may_evict s - {f}\<rparr>)"
| none: "candidates s = {} \<Longrightarrow> lru_spec_step s OpEvict None s"

fun lru_exec :: "lru_op \<Rightarrow> LRUReplacer \<Rightarrow> frame_id_t option \<times> LRUReplacer" where
  "lru_exec (OpAccess f) r = (None, RecordAccess f r)"
| "lru_exec (OpSetEvictable f b) r = (None, SetEvictable f b r)"
| "lru_exec (OpRemove f) r = (None, Remove f r)"
| "lru_exec OpEvict r = Evict r"

definition lru_abs :: "LRUReplacer \<Rightarrow> lru_spec" where
  "lru_abs r = \<lparr>now = next_node r, used_at = lru_map r, may_evict = evictable r\<rparr>"

lemma set_lru_order: "lru_inv r \<Longrightarrow> set (lru_order r) = dom (lru_map r)"
  by (force simp: lru_order_def dom_def lru_inv_iff [symmetric] image_iff)

lemma lru_abs_Remove:
  "lru_inv r \<Longrightarrow> lru_abs (Remove f r) = (lru_abs r)\<lparr>used_at := (used_at (lru_abs r))(f := None),
     may_evict := may_evict (lru_abs r) - {f}\<rparr>"
  by (simp add: lru_abs_def Remove_alt)

lemma older_in_order:
  assumes "lru_inv r" and "lru_order r = newer @ f # older" and "g \<in> set newer"
  shows "the (lru_map r f) < the (lru_map r g)"
proof -
  obtain xs e ys where l: "lru_list r = xs @ e # ys" "map snd xs = newer" "snd e = f"
    using assms(2) by (auto simp: lru_order_def map_eq_append_conv map_eq_Cons_conv)
  obtain d where d: "d \<in> set xs" "snd d = g" using l(2) assms(3) by auto
  have "fst e < fst d"
    using assms(1) l(1) d(1) by (force simp: lru_inv_def sorted_wrt_append)
  moreover have "lru_map r f = Some (fst e)" "lru_map r g = Some (fst d)"
    using l d assms(1) by (auto simp: lru_inv_iff [symmetric])
  ultimately show ?thesis by simp
qed

lemma Evict_refines:
  assumes "lru_inv r" and "Evict r = (res, r')"
  shows "lru_spec_step (lru_abs r) OpEvict res (lru_abs r')"
proof (cases res)
  case None
  then have "candidates (lru_abs r) = {}"
    using assms lru.evict_None_iff [of r] set_lru_order [of r] by (auto simp: lru_abs_def)
  moreover have "r' = r" using None assms lru.evict_none [of r] by simp
  ultimately show ?thesis using None by (simp add: lru_spec_step.none)
next
  case (Some f)
  have r': "r' = Remove f r"
    using assms Some by (auto simp: Evict_alt split: option.splits)
  obtain newer older where o: "lru_order r = newer @ f # older" "\<forall>g \<in> set older. g \<notin> evictable r"
    using lru.evict_split [of r f] assms Some by auto
  have "the (lru_map r f) \<le> the (lru_map r g)" if "g \<in> candidates (lru_abs r)" for g
  proof -
    have "g \<in> set (lru_order r)" "g \<in> evictable r"
      using that set_lru_order [OF assms(1)] by (auto simp: lru_abs_def)
    then have "g = f \<or> g \<in> set newer" using o by auto
    then show ?thesis using older_in_order [OF assms(1) o(1)] by (auto intro: less_imp_le)
  qed
  moreover have "f \<in> candidates (lru_abs r)"
    using lru.evict_evictable [of r f] assms Some set_lru_order [OF assms(1)]
    by (auto simp: lru_abs_def)
  ultimately show ?thesis
    unfolding r' lru_abs_Remove [OF assms(1)] Some
    by (intro lru_spec_step.evict) (simp_all add: lru_abs_def)
qed

section \<open>Properties\<close>

text \<open>(C28) Every operation of the replacer is a step of the specification by access times: in
  particular the frame \<open>Evict\<close> returns is evictable and was accessed before every other evictable
  frame, \<open>Evict\<close> fails only when no tracked frame is evictable, and the invariant of the list and
  the map is kept.\<close>

theorem lru_refines_spec:
  assumes "lru_inv r" and "lru_exec op r = (res, r')"
  shows "lru_spec_step (lru_abs r) op res (lru_abs r') \<and> lru_inv r'"
proof (cases op)
  case (OpAccess f)
  with assms show ?thesis
    using lru_spec_step.access [of "lru_abs r" f] lru_inv_RecordAccess [of r f]
    by (auto simp: RecordAccess_alt lru_abs_def)
next
  case (OpSetEvictable f b)
  with assms show ?thesis
    using lru_spec_step.pin [of "lru_abs r" f] lru_spec_step.unpin [of "lru_abs r" f]
      lru.inv_set_ev [of r f b]
    by (cases b) (auto simp: SetEvictable_def lru_abs_def)
next
  case (OpRemove f)
  with assms show ?thesis
    using lru_spec_step.forget [of "lru_abs r" f] lru_abs_Remove [of r f] lru_inv_Remove [of r f]
    by auto
next
  case OpEvict
  with assms show ?thesis
    using Evict_refines [of r res r'] lru.inv_evict [of r] by auto
qed

text \<open>Two frames accessed, both evictable: the first is evicted.\<close>

definition two_frames :: LRUReplacer where
  "two_frames = SetEvictable 2 True (SetEvictable 1 True (RecordAccess 2 (RecordAccess 1 (mk_LRUReplacer 3))))"

lemma two_frames_inv: "lru_inv two_frames"
  unfolding two_frames_def
  by (intro lru.inv_set_ev lru_inv_RecordAccess lru_inv_init)

lemma two_frames_evict: "fst (Evict two_frames) = Some 1"
  by (simp add: two_frames_def SetEvictable_def RecordAccess_def mk_LRUReplacer_def Evict_def)

theorem lru_refines_spec_witness:
  "lru_spec_step (lru_abs two_frames) OpEvict (Some 1) (lru_abs (snd (Evict two_frames))) \<and>
   lru_inv (snd (Evict two_frames))"
  by (rule lru_refines_spec [OF two_frames_inv]) (simp add: two_frames_evict prod_eq_iff)

text \<open>A frame that was just accessed is not the next victim while another tracked frame is
  evictable.\<close>

theorem lru_access_protects:
  assumes "lru_inv r" and "g \<in> set (lru_order r)" and "g \<in> evictable r" and "g \<noteq> f"
  shows "fst (Evict (RecordAccess f r)) \<noteq> Some f"
  using assms by (rule lru.access_protects)

theorem lru_access_protects_witness: "fst (Evict (RecordAccess 1 two_frames)) \<noteq> Some 1"
  by (rule lru_access_protects [OF two_frames_inv, of 2])
    (simp_all add: two_frames_def SetEvictable_def RecordAccess_def mk_LRUReplacer_def lru_order_def)

end
