(* ===== verification/Buffer_Pool.thy ===== *)
theory Buffer_Pool
  imports Page_Cache LRU_Replacer
begin

text \<open>
  \<open>src/src/storage/buffer_pool.cpp\<close> and \<open>page.h\<close>: a fixed array of frames that caches pages of
  the disk. Every operation of the class holds the latch of the pool for its whole body, so calls
  from several threads are a sequence of calls; the bytes of a page are written by whoever holds
  it pinned, through the pointer that \<open>NewPage\<close> or \<open>FetchPage\<close> returned. The interface to the heap
  file and the index is the locale \<open>page_cache\<close>: a map from page ids to bytes, with pins.
\<close>

section \<open>Definitions\<close>

text \<open>
  The count \<open>pin_count_\<close> is an \<open>int\<close>: it starts at 0 and is lowered only when it is positive, so a natural
  number holds its values; raising it beyond the largest \<open>int\<close> is a fault (\<open>FetchPage\<close>).
\<close>

record Page =
  data :: "byte list"
  pg_id :: page_id_t
  pin_count :: nat
  is_dirty :: bool

definition empty_frame :: Page where
  "empty_frame = \<lparr>data = zero_page, pg_id = INVALID_PAGE_ID, pin_count = 0, is_dirty = False\<rparr>"

record BufferPoolManager =
  pool_size :: nat
  disk_manager :: DiskManager
  frames :: "Page list"
  page_table :: "page_id_t \<Rightarrow> frame_id_t option"
  free_list :: "frame_id_t list"
  replacer :: LRUReplacer

definition mk_BufferPoolManager :: "nat \<Rightarrow> DiskManager \<Rightarrow> BufferPoolManager" where
  "mk_BufferPoolManager n d =
     \<lparr>pool_size = n, disk_manager = d, frames = replicate n empty_frame, page_table = Map.empty,
      free_list = [0..<n], replacer = mk_LRUReplacer n\<rparr>"

definition set_frame :: "frame_id_t \<Rightarrow> Page \<Rightarrow> BufferPoolManager \<Rightarrow> BufferPoolManager" where
  "set_frame f p b = b\<lparr>frames := (frames b)[f := p]\<rparr>"

text \<open>The bytes behind a frame pointer, and a write through it (\<open>Page::GetData\<close>).\<close>

definition GetData :: "frame_id_t \<Rightarrow> BufferPoolManager \<Rightarrow> byte list" where
  "GetData f b = data (frames b ! f)"

definition SetData :: "frame_id_t \<Rightarrow> byte list \<Rightarrow> BufferPoolManager \<Rightarrow> BufferPoolManager" where
  "SetData f bs b = set_frame f ((frames b ! f)\<lparr>data := bs\<rparr>) b"

text \<open>A call on the disk manager the pool points to.\<close>

definition on_disk :: "(DiskManager \<Rightarrow> ('a, DiskManager) res) \<Rightarrow> BufferPoolManager \<Rightarrow>
    ('a, BufferPoolManager) res" where
  "on_disk call b = (let (r, d) = call (disk_manager b) in (r, b\<lparr>disk_manager := d\<rparr>))"

text \<open>The frame id \<open>-1\<close> for "no frame" is \<open>None\<close>, as is a null page pointer below.\<close>

definition GetFreeFrame :: "BufferPoolManager \<Rightarrow> (frame_id_t option, BufferPoolManager) res" where
  "GetFreeFrame b =
     (case free_list b of
        f # fs \<Rightarrow> (Ok (Some f), b\<lparr>free_list := fs\<rparr>)
      | [] \<Rightarrow>
          (case Evict (replacer b) of
             (None, r) \<Rightarrow> (Ok None, b\<lparr>replacer := r\<rparr>)
           | (Some f, r) \<Rightarrow>
               if length (frames b) \<le> f then (Fault, b\<lparr>replacer := r\<rparr>)
               else let b1 = b\<lparr>replacer := r\<rparr>; page = frames b ! f
                    in bind_res
                         (if is_dirty page
                          then bind_res (on_disk (WritePage (pg_id page) (data page)) b1)
                                 (\<lambda>_ b2. (Ok (), set_frame f (page\<lparr>is_dirty := False\<rparr>) b2))
                          else (Ok (), b1))
                         (\<lambda>_ b3. (Ok (Some f),
                            set_frame f ((frames b3 ! f)\<lparr>pg_id := INVALID_PAGE_ID\<rparr>)
                              (b3\<lparr>page_table := (page_table b3)(pg_id page := None)\<rparr>)))))"

definition NewPage :: "BufferPoolManager \<Rightarrow>
    ((page_id_t \<times> frame_id_t) option, BufferPoolManager) res" where
  "NewPage b =
     bind_res (GetFreeFrame b) (\<lambda>fo b1. case fo of
        None \<Rightarrow> (Ok None, b1)
      | Some f \<Rightarrow>
          bind_res (on_disk AllocatePage b1) (\<lambda>pid b2.
            let b3 = set_frame f \<lparr>data = zero_page, pg_id = pid, pin_count = 1, is_dirty = False\<rparr> b2;
                b4 = b3\<lparr>page_table := (page_table b3)(pid \<mapsto> f)\<rparr>
            in (Ok (Some (pid, f)),
                b4\<lparr>replacer := SetEvictable f False (RecordAccess f (replacer b4))\<rparr>)))"

definition FetchPage :: "page_id_t \<Rightarrow> BufferPoolManager \<Rightarrow>
    (frame_id_t option, BufferPoolManager) res" where
  "FetchPage pid b =
     (case page_table b pid of
        Some f \<Rightarrow>
          let page = frames b ! f
          in if PIN_MAX \<le> pin_count page then (Fault, b)
             else let b1 = set_frame f (page\<lparr>pin_count := pin_count page + 1\<rparr>) b
                  in (Ok (Some f), b1\<lparr>replacer := SetEvictable f False (RecordAccess f (replacer b1))\<rparr>)
      | None \<Rightarrow>
          bind_res (GetFreeFrame b) (\<lambda>fo b1. case fo of
             None \<Rightarrow> (Ok None, b1)
           | Some f \<Rightarrow>
               let b2 = set_frame f ((frames b1 ! f)\<lparr>pg_id := pid, pin_count := 1, is_dirty := False\<rparr>) b1
               in bind_res (on_disk (ReadPage pid) b2) (\<lambda>bs b3.
                 let b4 = SetData f bs b3;
                     b5 = b4\<lparr>page_table := (page_table b4)(pid \<mapsto> f)\<rparr>
                 in (Ok (Some f),
                     b5\<lparr>replacer := SetEvictable f False (RecordAccess f (replacer b5))\<rparr>))))"

definition UnpinPage :: "page_id_t \<Rightarrow> bool \<Rightarrow> BufferPoolManager \<Rightarrow> (bool, BufferPoolManager) res" where
  "UnpinPage pid dirty b =
     (case page_table b pid of
        None \<Rightarrow> (Ok False, b)
      | Some f \<Rightarrow>
          let page = frames b ! f
          in if pin_count page = 0 then (Ok False, b)
             else let b1 = set_frame f (page\<lparr>is_dirty := is_dirty page \<or> dirty,
                                              pin_count := pin_count page - 1\<rparr>) b
                  in (Ok True,
                      if pin_count page - 1 = 0
                      then b1\<lparr>replacer := SetEvictable f True (replacer b1)\<rparr> else b1))"

definition FlushPage :: "page_id_t \<Rightarrow> BufferPoolManager \<Rightarrow> (bool, BufferPoolManager) res" where
  "FlushPage pid b =
     (case page_table b pid of
        None \<Rightarrow> (Ok False, b)
      | Some f \<Rightarrow>
          bind_res (on_disk (WritePage pid (data (frames b ! f))) b)
            (\<lambda>_ b1. (Ok True, set_frame f ((frames b1 ! f)\<lparr>is_dirty := False\<rparr>) b1)))"

text \<open>
  \<open>FlushAllPages\<close> visits the entries of \<open>page_table_\<close> in the order of the hash map, which the
  language leaves open: \<open>ord\<close> is the sequence of page ids visited.
\<close>

fun FlushAllPages :: "page_id_t list \<Rightarrow> BufferPoolManager \<Rightarrow> (unit, BufferPoolManager) res" where
  "FlushAllPages [] b = (Ok (), b)"
| "FlushAllPages (pid # ord) b =
     (case page_table b pid of
        None \<Rightarrow> FlushAllPages ord b
      | Some f \<Rightarrow>
          if is_dirty (frames b ! f)
          then bind_res (on_disk (WritePage pid (data (frames b ! f))) b)
                 (\<lambda>_ b1. FlushAllPages ord (set_frame f ((frames b1 ! f)\<lparr>is_dirty := False\<rparr>) b1))
          else FlushAllPages ord b)"

definition DeletePage :: "page_id_t \<Rightarrow> BufferPoolManager \<Rightarrow> (bool, BufferPoolManager) res" where
  "DeletePage pid b =
     (case page_table b pid of
        None \<Rightarrow> (Ok True, b)
      | Some f \<Rightarrow>
          let page = frames b ! f
          in if 0 < pin_count page then (Ok False, b)
             else (Ok True,
               set_frame f (page\<lparr>data := zero_page, pg_id := INVALID_PAGE_ID, is_dirty := False\<rparr>)
                 (b\<lparr>page_table := (page_table b)(pid := None), replacer := Remove f (replacer b),
                    free_list := free_list b @ [f]\<rparr>)))"

section \<open>Invariant and abstraction\<close>

abbreviation used :: "BufferPoolManager \<Rightarrow> frame_id_t \<Rightarrow> bool" where
  "used b f \<equiv> f < pool_size b \<and> f \<notin> set (free_list b)"

definition bpm_wf :: "BufferPoolManager \<Rightarrow> bool" where
  "bpm_wf b \<longleftrightarrow>
     disk_inv (disk_manager b) \<and> length (frames b) = pool_size b \<and> lru_inv (replacer b) \<and>
     distinct (free_list b) \<and> (\<forall>f \<in> set (free_list b). f < pool_size b) \<and>
     (\<forall>f. f \<in> set (lru_order (replacer b)) \<longleftrightarrow> used b f) \<and>
     (\<forall>f. f \<in> evictable (replacer b) \<longleftrightarrow> used b f \<and> pin_count (frames b ! f) = 0) \<and>
     (\<forall>p f. page_table b p = Some f \<longleftrightarrow> used b f \<and> pg_id (frames b ! f) = p) \<and>
     (\<forall>f. used b f \<longrightarrow> pg_id (frames b ! f) \<in> dom (disk_content (disk_manager b))) \<and>
     (\<forall>f < pool_size b. length (data (frames b ! f)) = PAGE_SIZE) \<and>
     (\<forall>f < pool_size b. pin_count (frames b ! f) \<le> PIN_MAX)"

text \<open>A page nobody holds is on disk as it is in its frame, or is marked dirty.\<close>

definition settled :: "BufferPoolManager \<Rightarrow> page_id_t \<Rightarrow> bool" where
  "settled b p \<longleftrightarrow> (case page_table b p of
      None \<Rightarrow> True
    | Some f \<Rightarrow> is_dirty (frames b ! f) \<or>
        disk_content (disk_manager b) p = Some (data (frames b ! f)))"

definition pins :: "BufferPoolManager \<Rightarrow> page_id_t \<Rightarrow> nat" where
  "pins b p = (case page_table b p of None \<Rightarrow> 0 | Some f \<Rightarrow> pin_count (frames b ! f))"

definition bpm_inv :: "BufferPoolManager \<Rightarrow> bool" where
  "bpm_inv b \<longleftrightarrow> bpm_wf b \<and> (\<forall>p. pins b p = 0 \<longrightarrow> settled b p)"

text \<open>The pages as a client sees them: from the pool when cached, else from the disk.\<close>

definition bp_content :: "BufferPoolManager \<Rightarrow> page_id_t \<Rightarrow> byte list option" where
  "bp_content b p = (case page_table b p of
      Some f \<Rightarrow> Some (data (frames b ! f))
    | None \<Rightarrow> disk_content (disk_manager b) p)"

definition pages_left :: "BufferPoolManager \<Rightarrow> nat" where
  "pages_left b = nat (INT32_MAX - num_pages (disk_manager b))"

lemma bpm_wfD:
  assumes "bpm_wf b"
  shows "disk_inv (disk_manager b)" "length (frames b) = pool_size b" "lru_inv (replacer b)"
    "distinct (free_list b)" "f \<in> set (free_list b) \<Longrightarrow> f < pool_size b"
    "f \<in> set (lru_order (replacer b)) \<longleftrightarrow> used b f"
    "f \<in> evictable (replacer b) \<longleftrightarrow> used b f \<and> pin_count (frames b ! f) = 0"
    "page_table b p = Some f \<longleftrightarrow> used b f \<and> pg_id (frames b ! f) = p"
    "used b f \<Longrightarrow> pg_id (frames b ! f) \<in> dom (disk_content (disk_manager b))"
    "f < pool_size b \<Longrightarrow> length (data (frames b ! f)) = PAGE_SIZE"
    "f < pool_size b \<Longrightarrow> pin_count (frames b ! f) \<le> PIN_MAX"
  using assms unfolding bpm_wf_def by blast+

lemma bpm_inv_init: "disk_inv d \<Longrightarrow> bpm_inv (mk_BufferPoolManager n d)"
  using lru_inv_init [of n]
  by (auto simp: bpm_inv_def bpm_wf_def mk_BufferPoolManager_def settled_def
      lru_order_def mk_LRUReplacer_def empty_frame_def zero_page_def)

lemma bp_content_init: "bp_content (mk_BufferPoolManager n d) = disk_content d"
  by (simp add: mk_BufferPoolManager_def bp_content_def fun_eq_iff)

lemma set_frame_simps [simp]:
  "pool_size (set_frame f p b) = pool_size b"
  "disk_manager (set_frame f p b) = disk_manager b"
  "frames (set_frame f p b) = (frames b)[f := p]"
  "page_table (set_frame f p b) = page_table b"
  "free_list (set_frame f p b) = free_list b"
  "replacer (set_frame f p b) = replacer b"
  by (simp_all add: set_frame_def)

lemma table_inj: "bpm_wf b \<Longrightarrow> page_table b p = Some f \<Longrightarrow> page_table b q = Some f \<Longrightarrow> p = q"
  by (simp add: bpm_wfD(8))

text \<open>Changing a frame in use, without its page id, its disk or its place.\<close>

lemma update_frame_wf:
  assumes "bpm_wf b" and "page_table b p = Some f" and "length bs = PAGE_SIZE" and "k \<le> PIN_MAX"
    and "lru_inv r" and "set (lru_order r) = set (lru_order (replacer b))"
    and "evictable r = (if k = 0 then insert f (evictable (replacer b)) else evictable (replacer b) - {f})"
  shows "bpm_wf (b\<lparr>frames := (frames b)[f := \<lparr>data = bs, pg_id = p, pin_count = k, is_dirty = d\<rparr>],
    replacer := r\<rparr>)"
proof -
  have f: "used b f" "f < length (frames b)" "pg_id (frames b ! f) = p"
    using assms(1,2) by (simp_all add: bpm_wfD)
  moreover have "p \<in> dom (disk_content (disk_manager b))"
    using f bpm_wfD(9) [OF assms(1), of f] by simp
  ultimately show ?thesis
    unfolding bpm_wf_def using assms
    by (auto simp: bpm_wfD [OF assms(1)] nth_list_update split: if_splits)
qed

lemma update_frame_view:
  assumes "bpm_wf b" and "page_table b p = Some f"
    and b'_def: "b' = b\<lparr>frames := (frames b)[f := \<lparr>data = bs, pg_id = p, pin_count = k, is_dirty = d\<rparr>],
    replacer := r\<rparr>"
  shows "bp_content b' = (bp_content b)(p \<mapsto> bs)" "pins b' = (pins b)(p := k)"
    "settled b' q = (if q = p then d \<or> disk_content (disk_manager b) p = Some bs else settled b q)"
    "page_table b' = page_table b" "pool_size b' = pool_size b" "pages_left b' = pages_left b"
proof -
  have f: "f < length (frames b)" using assms(1,2) by (simp add: bpm_wfD)
  have other: "(frames b)[f := x] ! g = frames b ! g" if "page_table b q = Some g" "q \<noteq> p" for q g x
    using that assms(2) table_inj [OF assms(1), of p f q] by (cases "f = g") auto
  show "bp_content b' = (bp_content b)(p \<mapsto> bs)"
    using f assms(2) other by (auto simp: b'_def bp_content_def fun_eq_iff split: option.splits)
  show "pins b' = (pins b)(p := k)"
    using f assms(2) other by (auto simp: b'_def pins_def fun_eq_iff split: option.splits)
  show "settled b' q = (if q = p then d \<or> disk_content (disk_manager b) p = Some bs else settled b q)"
    using f assms(2) other by (auto simp: b'_def settled_def split: option.splits)
qed (simp_all add: b'_def pages_left_def)

text \<open>Putting a page into the first free frame.\<close>

lemma install_wf:
  assumes "bpm_wf b" and "free_list b = f # fs" and "page_table b p = None"
    and "p \<in> dom (disk_content (disk_manager b))" and "length bs = PAGE_SIZE"
  shows "bpm_wf (b\<lparr>free_list := fs,
    frames := (frames b)[f := \<lparr>data = bs, pg_id = p, pin_count = 1, is_dirty = d\<rparr>],
    page_table := (page_table b)(p \<mapsto> f),
    replacer := SetEvictable f False (RecordAccess f (replacer b))\<rparr>)"
proof -
  note wf = bpm_wfD [OF assms(1)]
  have f: "f < pool_size b" "f \<notin> set fs" "distinct fs" using wf(4,5) assms(2) by auto
  have nop: "pg_id (frames b ! g) \<noteq> p" if "used b g" for g
    using wf(8) [of p g] that assms(3) by auto
  have lru: "lru_inv (SetEvictable f False (RecordAccess f (replacer b)))"
    using wf(3) by (intro lru.inv_set_ev lru.inv_access)
  have tab: "((page_table b)(p \<mapsto> f)) q = Some g \<longleftrightarrow>
      (g < pool_size b \<and> g \<notin> set fs) \<and>
      pg_id ((frames b)[f := \<lparr>data = bs, pg_id = p, pin_count = 1, is_dirty = d\<rparr>] ! g) = q" for q g
    using f nop assms(2,3) wf(2) by (auto simp: wf(8) nth_list_update)
  have id: "pg_id ((frames b)[f := \<lparr>data = bs, pg_id = p, pin_count = 1, is_dirty = d\<rparr>] ! g)
      \<in> dom (disk_content (disk_manager b))" if "g < pool_size b \<and> g \<notin> set fs" for g
    using f that assms(2,4) wf(2) wf(9) [of g] by (auto simp: nth_list_update)
  show ?thesis
    unfolding bpm_wf_def using assms f lru tab id
    by (simp add: wf(1-7,10,11) lru.policy_simps nth_list_update) (auto simp: wf(5,6,7))
qed

lemma install_view:
  assumes "bpm_wf b" and "free_list b = f # fs" and "page_table b p = None"
    and b'_def: "b' = b\<lparr>free_list := fs,
    frames := (frames b)[f := \<lparr>data = bs, pg_id = p, pin_count = 1, is_dirty = d\<rparr>],
    page_table := (page_table b)(p \<mapsto> f), replacer := r\<rparr>"
  shows "bp_content b' = (bp_content b)(p \<mapsto> bs)" "pins b' = (pins b)(p := 1)"
    "settled b' q = (if q = p then d \<or> disk_content (disk_manager b) p = Some bs else settled b q)"
    "page_table b' = (page_table b)(p \<mapsto> f)" "pool_size b' = pool_size b"
    "pages_left b' = pages_left b"
proof -
  have f: "f < length (frames b)" using assms(1,2) by (simp add: bpm_wfD)
  have other: "(frames b)[f := x] ! g = frames b ! g" if "page_table b q = Some g" for q g x
    using that assms(1,2) by (cases "f = g") (auto simp: bpm_wfD)
  show "bp_content b' = (bp_content b)(p \<mapsto> bs)"
    using f other by (auto simp: b'_def bp_content_def fun_eq_iff split: option.splits)
  show "pins b' = (pins b)(p := 1)"
    using f other by (auto simp: b'_def pins_def fun_eq_iff split: option.splits)
  show "settled b' q = (if q = p then d \<or> disk_content (disk_manager b) p = Some bs else settled b q)"
    using f other by (auto simp: b'_def settled_def split: option.splits)
qed (simp_all add: b'_def pages_left_def)

text \<open>Taking an unpinned page out of its frame.\<close>

lemma drop_frame_wf:
  assumes "bpm_wf b" and "page_table b p = Some f" and "pin_count (frames b ! f) = 0"
    and "disk_inv dm" and "dom (disk_content dm) = dom (disk_content (disk_manager b))"
    and "distinct fs" and "set fs = insert f (set (free_list b))" and "length (data pg) = PAGE_SIZE" and "pin_count pg = 0"
  shows "bpm_wf (b\<lparr>disk_manager := dm, free_list := fs, frames := (frames b)[f := pg],
    page_table := (page_table b)(p := None), replacer := Remove f (replacer b)\<rparr>)"
proof -
  note wf = bpm_wfD [OF assms(1)]
  have f: "used b f" "pg_id (frames b ! f) = p" using assms(2) by (simp_all add: wf(8))
  have "lru_inv (Remove f (replacer b))" using wf(3) by (rule lru.inv_remove)
  moreover have "((page_table b)(p := None)) q = Some g \<longleftrightarrow>
      (g < pool_size b \<and> g \<notin> set fs) \<and> pg_id ((frames b)[f := pg] ! g) = q" for q g
  proof (cases "g = f")
    case True
    then show ?thesis
      using f assms(2,7) table_inj [OF assms(1), of p f q] by (auto simp: fun_upd_def)
  next
    case False
    then have "q \<noteq> p" if "page_table b q = Some g" using that assms(2) by auto
    with False show ?thesis using assms(2,7) wf(8) [of q g] by auto
  qed
  moreover have "pg_id ((frames b)[f := pg] ! g) \<in> dom (disk_content dm)"
    if "g < pool_size b \<and> g \<notin> set fs" for g
    using that assms(5,7) wf(9) [of g] by (auto simp: nth_list_update)
  ultimately show ?thesis
    unfolding bpm_wf_def using assms f
    by (simp add: wf(2,3) lru.policy_simps nth_list_update) (auto simp: wf(2,5,6,7,10,11) nth_list_update)
qed

lemma drop_frame_view:
  assumes "bpm_wf b" and "page_table b p = Some f" and "pin_count (frames b ! f) = 0"
    and "\<And>q. q \<noteq> p \<Longrightarrow> disk_content dm q = disk_content (disk_manager b) q"
    and b'_def: "b' = b\<lparr>disk_manager := dm, free_list := fs, frames := (frames b)[f := pg],
    page_table := (page_table b)(p := None), replacer := r\<rparr>"
  shows "bp_content b' = (bp_content b)(p := disk_content dm p)" "pins b' = pins b"
    "settled b' q = (q = p \<or> settled b q)"
    "page_table b' = (page_table b)(p := None)" "pool_size b' = pool_size b"
proof -
  have other: "(frames b)[f := x] ! g = frames b ! g" if "page_table b q = Some g" "q \<noteq> p" for q g x
    using that assms(2) table_inj [OF assms(1), of p f q] by (cases "f = g") auto
  show "bp_content b' = (bp_content b)(p := disk_content dm p)"
    using other assms(4) by (auto simp: b'_def bp_content_def fun_eq_iff split: option.splits)
  show "pins b' = pins b"
    using other assms(2,3) by (auto simp: b'_def pins_def fun_eq_iff split: option.splits)
  show "settled b' q = (q = p \<or> settled b q)"
    using other assms(4) by (auto simp: b'_def settled_def split: option.splits)
qed (simp_all add: b'_def)

section \<open>Operations\<close>

definition pinned :: "BufferPoolManager \<Rightarrow> page_id_t set" where
  "pinned b = {p. 0 < pins b p}"

text \<open>What taking a frame leaves: the pages and pins, and where the pinned pages are.\<close>

definition keeps :: "BufferPoolManager \<Rightarrow> BufferPoolManager \<Rightarrow> bool" where
  "keeps b b' \<longleftrightarrow> bp_content b' = bp_content b \<and> pins b' = pins b \<and> pool_size b' = pool_size b \<and>
     pages_left b' = pages_left b \<and> (\<forall>q. 0 < pins b q \<longrightarrow> page_table b' q = page_table b q) \<and>
     (\<forall>q. settled b q \<longrightarrow> settled b' q) \<and> (\<forall>q. page_table b q = None \<longrightarrow> page_table b' q = None)"

lemma keeps_refl [simp]: "keeps b b"
  by (simp add: keeps_def)

lemma pinned_image:
  assumes "bpm_wf b"
  shows "pinned b = (\<lambda>f. pg_id (frames b ! f)) ` {f. used b f \<and> 0 < pin_count (frames b ! f)}"
proof -
  have "0 < pins b p \<longleftrightarrow> (\<exists>f. page_table b p = Some f \<and> 0 < pin_count (frames b ! f))" for p
    by (simp add: pins_def split: option.split)
  then show ?thesis by (auto simp: pinned_def bpm_wfD(8) [OF assms])
qed

lemma pg_id_inj: "bpm_wf b \<Longrightarrow> inj_on (\<lambda>f. pg_id (frames b ! f)) {f. used b f}"
  by (rule inj_onI) (metis bpm_wfD(8) mem_Collect_eq option.inject)

lemma finite_pinned: "bpm_wf b \<Longrightarrow> finite (pinned b)"
  by (simp add: pinned_image)

text \<open>All frames pinned is the only way to have no frame.\<close>

lemma all_pinned_iff:
  assumes "bpm_wf b"
  shows "card (pinned b) < pool_size b \<longleftrightarrow> free_list b \<noteq> [] \<or> fst (Evict (replacer b)) \<noteq> None"
proof -
  note wf = bpm_wfD [OF assms]
  let ?P = "{f. used b f \<and> 0 < pin_count (frames b ! f)}"
  have "inj_on (\<lambda>f. pg_id (frames b ! f)) ?P"
    by (rule inj_on_subset [OF pg_id_inj [OF assms]]) auto
  then have card: "card (pinned b) = card ?P"
    by (simp add: pinned_image [OF assms] card_image)
  have "card ?P < pool_size b \<longleftrightarrow> ?P \<noteq> {..<pool_size b}"
  proof -
    have sub: "?P \<subseteq> {..<pool_size b}" by auto
    have "card ?P = pool_size b \<longleftrightarrow> ?P = {..<pool_size b}"
    proof
      assume "card ?P = pool_size b"
      then show "?P = {..<pool_size b}" using sub by (intro card_subset_eq) simp_all
    next
      assume "?P = {..<pool_size b}"
      then have "card ?P = card {..<pool_size b}" by (rule arg_cong)
      then show "card ?P = pool_size b" by simp
    qed
    moreover have "card ?P \<le> card {..<pool_size b}" using sub by (intro card_mono) simp_all
    ultimately show ?thesis unfolding card_lessThan by linarith
  qed
  also have "\<dots> \<longleftrightarrow> (\<exists>f < pool_size b. f \<in> set (free_list b) \<or> pin_count (frames b ! f) = 0)"
    unfolding set_eq_iff mem_Collect_eq lessThan_iff neq0_conv [symmetric] by blast
  also have "\<dots> \<longleftrightarrow> free_list b \<noteq> [] \<or> (\<exists>f. used b f \<and> pin_count (frames b ! f) = 0)"
    using wf(5) [of "hd (free_list b)"] by (cases "free_list b = []") auto
  also have "(\<exists>f. used b f \<and> pin_count (frames b ! f) = 0) \<longleftrightarrow> fst (Evict (replacer b)) \<noteq> None"
    unfolding lru.evict_None_iff [OF wf(3)] Ball_def wf(6,7) by blast
  finally show ?thesis by (simp add: card)
qed

lemma GetFreeFrame_full:
  assumes "bpm_wf b" and "\<not> card (pinned b) < pool_size b"
  shows "GetFreeFrame b = (Ok None, b)"
proof -
  have "free_list b = []" "fst (Evict (replacer b)) = None"
    using assms all_pinned_iff by auto
  moreover have "snd (Evict (replacer b)) = replacer b"
    using lru.evict_none bpm_wfD(3) assms(1) \<open>fst (Evict (replacer b)) = None\<close> by blast
  ultimately have "Evict (replacer b) = (None, replacer b)" by (simp add: prod_eq_iff)
  with \<open>free_list b = []\<close> show ?thesis by (simp add: GetFreeFrame_def)
qed

text \<open>Eviction of frame \<open>f\<close>: a dirty page is written back before the frame is reused.\<close>

lemma GetFreeFrame_evict:
  assumes "bpm_inv b" and "free_list b = []" and "Evict (replacer b) = (Some f, r)"
  shows "\<exists>b1. GetFreeFrame b = (Ok (Some f), b1) \<and> bpm_inv (b1\<lparr>free_list := f # free_list b1\<rparr>) \<and>
    keeps b (b1\<lparr>free_list := f # free_list b1\<rparr>)"
proof -
  have wf: "bpm_wf b" using assms(1) by (simp add: bpm_inv_def)
  note W = bpm_wfD [OF wf]
  let ?pg = "frames b ! f" and ?p = "pg_id (frames b ! f)"
  have ev: "f \<in> evictable (replacer b)" and r: "r = Remove f (replacer b)"
    using lru.evict_evictable [OF W(3), of f] Evict_alt [OF W(3)] assms(3)
    by (auto split: option.splits)
  then have f: "used b f" "pin_count ?pg = 0" by (simp_all add: W(7))
  then have tab: "page_table b ?p = Some f" by (simp add: W(8))
  have p: "?p \<in> dom (disk_content (disk_manager b))" "length (data ?pg) = PAGE_SIZE" "f < length (frames b)"
    using f W(2,9,10) by auto
  have "pins b ?p = 0" using tab f by (simp add: pins_def)
  then have "settled b ?p" using assms(1) by (simp add: bpm_inv_def)
  then have st: "is_dirty ?pg \<or> disk_content (disk_manager b) ?p = Some (data ?pg)"
    using tab by (simp add: settled_def)
  obtain d where d: "disk_inv d" "num_pages d = num_pages (disk_manager b)"
      "disk_content d = (disk_content (disk_manager b))(?p \<mapsto> data ?pg)"
      "(if is_dirty ?pg then WritePage ?p (data ?pg) (disk_manager b) else (Ok (), disk_manager b)) = (Ok (), d)"
    using WritePage_ok [OF W(1) p(1,2)] st W(1) by (cases "is_dirty ?pg") (auto simp: fun_upd_idem)
  define pg where "pg = ?pg\<lparr>is_dirty := False, pg_id := INVALID_PAGE_ID\<rparr>"
  define b1 where "b1 = b\<lparr>disk_manager := d, frames := (frames b)[f := pg], page_table := (page_table b)(?p := None), replacer := Remove f (replacer b)\<rparr>"
  have get: "GetFreeFrame b = (Ok (Some f), b1)"
  proof (cases "is_dirty ?pg")
    case True
    with assms(2,3) d(4) p(3) r show ?thesis
      by (simp add: GetFreeFrame_def b1_def pg_def on_disk_def set_frame_def Let_def split_beta)
  next
    case False
    with d(4) have "b\<lparr>disk_manager := d\<rparr> = b" by (cases b) simp
    moreover have "?pg\<lparr>pg_id := INVALID_PAGE_ID\<rparr> = pg"
      using False unfolding pg_def by (cases ?pg) simp
    ultimately show ?thesis
      using False assms(2,3) p(3) r
      by (simp add: GetFreeFrame_def b1_def set_frame_def Let_def)
  qed
  have "b1\<lparr>free_list := f # free_list b1\<rparr> = b\<lparr>disk_manager := d, free_list := [f],
      frames := (frames b)[f := pg],
      page_table := (page_table b)(?p := None), replacer := Remove f (replacer b)\<rparr>"
    using assms(2) by (simp add: b1_def)
  note b1 = this
  have other: "disk_content d q = disk_content (disk_manager b) q" if "q \<noteq> ?p" for q
    using d(3) that by simp
  note view = drop_frame_view [OF wf tab f(2) other b1]
  have "bpm_wf (b1\<lparr>free_list := f # free_list b1\<rparr>)"
    unfolding b1 by (rule drop_frame_wf [OF wf tab f(2) d(1)]) (use d(3) p f(2) assms(2) in \<open>auto simp: pg_def\<close>)
  moreover have "bp_content b ?p = Some (data ?pg)" using tab by (simp add: bp_content_def)
  ultimately show ?thesis
    using get assms(1) view d(2,3) \<open>pins b ?p = 0\<close>
    by (auto simp: bpm_inv_def keeps_def pages_left_def b1_def fun_upd_idem)
qed

lemma GetFreeFrame_ok:
  assumes "bpm_inv b" and "card (pinned b) < pool_size b"
  shows "\<exists>f b1. GetFreeFrame b = (Ok (Some f), b1) \<and> bpm_inv (b1\<lparr>free_list := f # free_list b1\<rparr>) \<and>
    keeps b (b1\<lparr>free_list := f # free_list b1\<rparr>)"
proof (cases "free_list b")
  case (Cons f fs)
  then have "b\<lparr>free_list := f # fs\<rparr> = b" by (cases b) simp
  with assms(1) have "bpm_inv (b\<lparr>free_list := f # fs\<rparr>)" "keeps b (b\<lparr>free_list := f # fs\<rparr>)"
    by (simp_all del: keeps_refl add: keeps_refl)
  with Cons show ?thesis
    by (intro exI [of _ f] exI [of _ "b\<lparr>free_list := fs\<rparr>"]) (simp add: GetFreeFrame_def)
next
  case Nil
  then obtain f r where "Evict (replacer b) = (Some f, r)"
    using assms all_pinned_iff [of b] by (cases "Evict (replacer b)") (auto simp: bpm_inv_def)
  with Nil GetFreeFrame_evict [OF assms(1)] show ?thesis by blast
qed

lemma page_eqI:
  "x\<lparr>pg_id := p, pin_count := k, is_dirty := d, data := bs\<rparr> =
   \<lparr>data = bs, pg_id = p, pin_count = k, is_dirty = d\<rparr>"
  by (cases x) simp

lemma lru_touch:
  assumes "lru_inv r" and "f \<in> set (lru_order r)"
  shows "lru_inv (SetEvictable f False (RecordAccess f r))"
    "set (lru_order (SetEvictable f False (RecordAccess f r))) = set (lru_order r)"
    "evictable (SetEvictable f False (RecordAccess f r)) = evictable r - {f}"
  using assms by (auto simp: lru.policy_simps intro: lru.inv_set_ev lru.inv_access)

lemma bpm_invI:
  "bpm_wf b \<Longrightarrow> (\<And>p. pins b p = 0 \<Longrightarrow> settled b p) \<Longrightarrow> bpm_inv b"
  by (simp add: bpm_inv_def)

lemma FetchPage_hit:
  assumes "bpm_inv b" and "page_table b p = Some f" and "pins b p < PIN_MAX"
  shows "\<exists>b'. FetchPage p b = (Ok (Some f), b') \<and> bpm_inv b' \<and> bp_content b' = bp_content b \<and>
    pins b' = (pins b)(p := pins b p + 1) \<and> page_table b' = page_table b \<and>
    pool_size b' = pool_size b \<and> pages_left b' = pages_left b \<and> settled b' = settled b"
proof -
  have wf: "bpm_wf b" using assms(1) by (simp add: bpm_inv_def)
  note W = bpm_wfD [OF wf]
  let ?pg = "frames b ! f" and ?r = "SetEvictable f False (RecordAccess f (replacer b))"
  have f: "used b f" "pg_id ?pg = p" using assms(2) by (simp_all add: W(8))
  define b' where "b' = b\<lparr>frames := (frames b)[f := \<lparr>data = data ?pg, pg_id = p,
    pin_count = pin_count ?pg + 1, is_dirty = is_dirty ?pg\<rparr>], replacer := ?r\<rparr>"
  have pg: "?pg\<lparr>pin_count := pin_count ?pg + 1\<rparr> = \<lparr>data = data ?pg, pg_id = p,
      pin_count = pin_count ?pg + 1, is_dirty = is_dirty ?pg\<rparr>"
    using f(2) by (cases ?pg) simp
  have few: "pin_count ?pg < PIN_MAX" using assms(2,3) by (simp add: pins_def)
  have fetch: "FetchPage p b = (Ok (Some f), b')"
    using assms(2) pg few by (simp add: FetchPage_def b'_def set_frame_def Let_def)
  have lru: "lru_inv ?r" "set (lru_order ?r) = set (lru_order (replacer b))"
      "evictable ?r = evictable (replacer b) - {f}"
    using lru_touch [OF W(3), of f] f W(6) by blast+
  have wf': "bpm_wf b'"
    unfolding b'_def by (rule update_frame_wf [OF wf assms(2)]) (use f lru few W(10) in auto)
  note view = update_frame_view [OF wf assms(2) b'_def]
  have "bp_content b p = Some (data ?pg)" "pins b p = pin_count ?pg"
    using assms(2) by (simp_all add: bp_content_def pins_def)
  moreover have "settled b' = settled b"
    using assms(2) by (auto simp: view settled_def [of b p] fun_eq_iff)
  ultimately show ?thesis
    using fetch wf' view assms(1) by (auto simp: bpm_inv_def fun_upd_idem split: if_splits)
qed

lemma FetchPage_miss:
  assumes "bpm_inv b" and "page_table b p = None" and "bp_content b p = Some bs"
    and "card (pinned b) < pool_size b"
  shows "\<exists>f b'. FetchPage p b = (Ok (Some f), b') \<and> bpm_inv b' \<and> bp_content b' = bp_content b \<and>
    pins b' = (pins b)(p := pins b p + 1) \<and> page_table b' p = Some f \<and>
    (\<forall>q. 0 < pins b q \<longrightarrow> page_table b' q = page_table b q) \<and>
    pool_size b' = pool_size b \<and> pages_left b' = pages_left b \<and>
    (\<forall>q. settled b q \<longrightarrow> settled b' q)"
proof -
  obtain f b1 where g: "GetFreeFrame b = (Ok (Some f), b1)"
      "bpm_inv (b1\<lparr>free_list := f # free_list b1\<rparr>)" "keeps b (b1\<lparr>free_list := f # free_list b1\<rparr>)"
    using GetFreeFrame_ok [OF assms(1,4)] by blast
  define b0 where "b0 = b1\<lparr>free_list := f # free_list b1\<rparr>"
  have wf: "bpm_wf b0" using g(2) by (simp add: bpm_inv_def b0_def)
  note W = bpm_wfD [OF wf]
  have tab: "page_table b0 p = None" and fl: "free_list b0 = f # free_list b1"
    using g(3) assms(2) by (simp_all add: keeps_def b0_def)
  have "bp_content b0 p = Some bs"
    using g(3) assms(3) by (simp add: keeps_def b0_def)
  then have c: "disk_content (disk_manager b0) p = Some bs"
    using tab by (simp add: bp_content_def)
  then have rd: "ReadPage p (disk_manager b0) = (Ok bs, disk_manager b0)"
    and len: "length bs = PAGE_SIZE" and dom: "p \<in> dom (disk_content (disk_manager b0))"
    using disk.read_ok disk.content_size W(1) by blast+
  define b' where "b' = b0\<lparr>free_list := free_list b1,
    frames := (frames b0)[f := \<lparr>data = bs, pg_id = p, pin_count = 1, is_dirty = False\<rparr>],
    page_table := (page_table b0)(p \<mapsto> f),
    replacer := SetEvictable f False (RecordAccess f (replacer b0))\<rparr>"
  have "f < length (frames b0)" using W(2,5) fl by simp
  then have fetch: "FetchPage p b = (Ok (Some f), b')"
    using assms(2) g(1) rd
    by (simp add: FetchPage_def b'_def b0_def set_frame_def SetData_def on_disk_def Let_def page_eqI)
  have wf': "bpm_wf b'"
    unfolding b'_def by (rule install_wf [OF wf fl tab dom len])
  note view = install_view [OF wf fl tab b'_def]
  have "pins b0 p = 0" using tab by (simp add: pins_def)
  with \<open>bp_content b0 p = Some bs\<close> show ?thesis
    using fetch wf' view c g(2,3) assms(2,3)
    by (auto simp: bpm_inv_def keeps_def b0_def [symmetric] fun_upd_idem pins_def [of b p] split: if_splits)
qed

lemma NewPage_ok:
  assumes "bpm_inv b" and "card (pinned b) < pool_size b" and "0 < pages_left b"
  shows "\<exists>p f b'. NewPage b = (Ok (Some (p, f)), b') \<and> bpm_inv b' \<and>
    bp_content b p = None \<and> p \<noteq> INVALID_PAGE_ID \<and>
    bp_content b' = (bp_content b)(p \<mapsto> zero_page) \<and> pins b' = (pins b)(p := 1) \<and>
    page_table b' p = Some f \<and> (\<forall>q. 0 < pins b q \<longrightarrow> page_table b' q = page_table b q) \<and>
    pool_size b' = pool_size b \<and> pages_left b' = pages_left b - 1 \<and>
    (\<forall>q. settled b q \<longrightarrow> settled b' q)"
proof -
  obtain f b1 where g: "GetFreeFrame b = (Ok (Some f), b1)"
      "bpm_inv (b1\<lparr>free_list := f # free_list b1\<rparr>)" "keeps b (b1\<lparr>free_list := f # free_list b1\<rparr>)"
    using GetFreeFrame_ok [OF assms(1,2)] by blast
  define b0 where "b0 = b1\<lparr>free_list := f # free_list b1\<rparr>"
  have inv: "bpm_inv b0" and wf: "bpm_wf b0" using g(2) by (simp_all add: bpm_inv_def b0_def)
  note W = bpm_wfD [OF wf]
  have room: "disk_room (disk_manager b0)"
    using assms(3) g(3) by (auto simp: keeps_def b0_def pages_left_def disk_room_def)
  let ?p = "mk32 (num_pages (disk_manager b0))"
  obtain d where d: "AllocatePage (disk_manager b0) = (Ok ?p, d)" "disk_inv d"
      "num_pages d = num_pages (disk_manager b0) + 1"
      "disk_content d = (disk_content (disk_manager b0))(?p \<mapsto> zero_page)"
    using AllocatePage_ok [OF W(1) room] by blast
  have p: "?p \<notin> dom (disk_content (disk_manager b0))" "?p \<noteq> INVALID_PAGE_ID"
    using disk.alloc_ok [OF W(1) room] d(1) by auto
  define bd where "bd = b0\<lparr>disk_manager := d\<rparr>"
  have wfd: "bpm_wf bd"
    using wf d(2,4) unfolding bpm_wf_def by (auto simp: bd_def)
  have tab: "page_table bd ?p = None"
  proof (cases "page_table b0 ?p")
    case (Some g)
    then show ?thesis using p(1) W(9) [of g] by (simp add: W(8))
  qed (simp add: bd_def)
  have fl: "free_list bd = f # free_list b1" by (simp add: bd_def b0_def)
  define b' where "b' = bd\<lparr>free_list := free_list b1,
    frames := (frames bd)[f := \<lparr>data = zero_page, pg_id = ?p, pin_count = 1, is_dirty = False\<rparr>],
    page_table := (page_table bd)(?p \<mapsto> f),
    replacer := SetEvictable f False (RecordAccess f (replacer bd))\<rparr>"
  have new: "NewPage b = (Ok (Some (?p, f)), b')"
    using g(1) d(1) by (simp add: NewPage_def b'_def bd_def b0_def set_frame_def on_disk_def Let_def)
  have "bpm_wf b'"
    unfolding b'_def by (rule install_wf [OF wfd fl tab]) (use d(4) in \<open>auto simp: bd_def zero_page_def\<close>)
  note view = install_view [OF wfd fl tab b'_def]
  have tab0: "page_table b0 ?p = None" using tab by (simp add: bd_def)
  have other: "disk_content d q = disk_content (disk_manager b0) q" if "page_table b0 q = Some g" for q g
    using that tab0 d(4) by auto
  have bd: "pins bd = pins b0" "\<And>q. settled bd q = settled b0 q"
    "bp_content bd = (bp_content b0)(?p \<mapsto> zero_page)"
    using other d(4) tab0
    by (auto simp: bd_def pins_def settled_def bp_content_def fun_eq_iff split: option.splits)
  have "bp_content b0 ?p = None" "pins b0 ?p = 0"
    using p(1) tab0 by (auto simp: bp_content_def pins_def)
  then show ?thesis
    using new \<open>bpm_wf b'\<close> view bd p(2) inv g(3) d(3,4)
    by (intro exI [of _ ?p] exI [of _ f] exI [of _ b'])
      (auto simp: bpm_inv_def keeps_def b0_def [symmetric] bd_def pages_left_def split: if_splits)
qed

lemma NewPage_full: "bpm_wf b \<Longrightarrow> \<not> card (pinned b) < pool_size b \<Longrightarrow> NewPage b = (Ok None, b)"
  by (simp add: NewPage_def GetFreeFrame_full)

lemma FetchPage_full:
  "bpm_wf b \<Longrightarrow> page_table b p = None \<Longrightarrow> \<not> card (pinned b) < pool_size b \<Longrightarrow>
   FetchPage p b = (Ok None, b)"
  by (simp add: FetchPage_def GetFreeFrame_full)

lemma UnpinPage_ok:
  assumes "bpm_inv b" and "0 < pins b p" and "d \<or> settled b p"
  shows "\<exists>b'. UnpinPage p d b = (Ok True, b') \<and> bpm_inv b' \<and> bp_content b' = bp_content b \<and>
    pins b' = (pins b)(p := pins b p - 1) \<and> page_table b' = page_table b \<and>
    pool_size b' = pool_size b \<and> pages_left b' = pages_left b \<and>
    settled b' p \<and> (\<forall>q. q \<noteq> p \<longrightarrow> settled b' q = settled b q)"
proof -
  have wf: "bpm_wf b" using assms(1) by (simp add: bpm_inv_def)
  note W = bpm_wfD [OF wf]
  obtain f where tab: "page_table b p = Some f"
    using assms(2) by (cases "page_table b p") (auto simp: pins_def)
  let ?pg = "frames b ! f"
  have k: "pins b p = pin_count ?pg" "bp_content b p = Some (data ?pg)"
    using tab by (simp_all add: pins_def bp_content_def)
  have f: "used b f" "pg_id ?pg = p" using tab by (simp_all add: W(8))
  let ?k = "pin_count ?pg - 1"
  let ?r = "if ?k = 0 then SetEvictable f True (replacer b) else replacer b"
  define b' where "b' = b\<lparr>frames := (frames b)[f := \<lparr>data = data ?pg, pg_id = p, pin_count = ?k,
    is_dirty = is_dirty ?pg \<or> d\<rparr>], replacer := ?r\<rparr>"
  have pg: "?pg\<lparr>is_dirty := is_dirty ?pg \<or> d, pin_count := ?k\<rparr> =
      \<lparr>data = data ?pg, pg_id = p, pin_count = ?k, is_dirty = is_dirty ?pg \<or> d\<rparr>"
    using f(2) by (cases ?pg) simp
  have un: "UnpinPage p d b = (Ok True, b')"
    using tab pg assms(2) k(1) by (cases b) (simp add: UnpinPage_def b'_def set_frame_def Let_def)
  have "bpm_wf b'"
    unfolding b'_def
    by (rule update_frame_wf [OF wf tab])
      (use f assms(2) k(1) W(3,7,10) W(11) [of f] in \<open>auto simp: lru.policy_simps intro: lru.inv_set_ev\<close>)
  moreover note view = update_frame_view [OF wf tab b'_def]
  moreover have "settled b' p"
    using view(3) [of p] assms(3) tab by (auto simp: settled_def [of b])
  ultimately show ?thesis
    using un k assms(1) by (auto simp: bpm_inv_def fun_upd_idem split: if_splits)
qed

lemma SetData_ok:
  assumes "bpm_inv b" and "page_table b p = Some f" and "0 < pins b p" and "length bs = PAGE_SIZE"
  shows "bpm_inv (SetData f bs b) \<and> bp_content (SetData f bs b) = (bp_content b)(p \<mapsto> bs) \<and>
    pins (SetData f bs b) = pins b \<and> page_table (SetData f bs b) = page_table b \<and>
    pool_size (SetData f bs b) = pool_size b \<and> pages_left (SetData f bs b) = pages_left b \<and>
    (\<forall>q. q \<noteq> p \<longrightarrow> settled (SetData f bs b) q = settled b q)"
proof -
  have wf: "bpm_wf b" using assms(1) by (simp add: bpm_inv_def)
  note W = bpm_wfD [OF wf]
  let ?pg = "frames b ! f"
  have k: "pins b p = pin_count ?pg" using assms(2) by (simp add: pins_def)
  have f: "used b f" "pg_id ?pg = p" using assms(2) by (simp_all add: W(8))
  have pg: "?pg\<lparr>data := bs\<rparr> = \<lparr>data = bs, pg_id = p, pin_count = pin_count ?pg, is_dirty = is_dirty ?pg\<rparr>"
    using f(2) by (cases ?pg) simp
  have b': "SetData f bs b = b\<lparr>frames := (frames b)[f := \<lparr>data = bs, pg_id = p,
      pin_count = pin_count ?pg, is_dirty = is_dirty ?pg\<rparr>], replacer := replacer b\<rparr>"
    using pg by (cases b) (simp add: SetData_def set_frame_def)
  have "bpm_wf (SetData f bs b)"
    unfolding b' by (rule update_frame_wf [OF wf assms(2,4)]) (use assms(3) k f W(3,7,11) in auto)
  then show ?thesis
    using update_frame_view [OF wf assms(2) b'] assms(1,3) k
    by (auto simp: bpm_inv_def fun_upd_idem split: if_splits)
qed

text \<open>Writing the bytes of a frame back, as \<open>FlushPage\<close> and \<open>FlushAllPages\<close> do.\<close>

lemma write_back:
  assumes "bpm_inv b" and "page_table b p = Some f"
  shows "\<exists>d b'. WritePage p (data (frames b ! f)) (disk_manager b) = (Ok (), d) \<and>
    b' = b\<lparr>disk_manager := d, frames := (frames b)[f := (frames b ! f)\<lparr>is_dirty := False\<rparr>]\<rparr> \<and>
    bpm_inv b' \<and> bp_content b' = bp_content b \<and> pins b' = pins b \<and> page_table b' = page_table b \<and>
    pool_size b' = pool_size b \<and> pages_left b' = pages_left b \<and>
    disk_content (disk_manager b') = (disk_content (disk_manager b))(p := bp_content b p) \<and>
    settled b' p \<and> (\<forall>q. q \<noteq> p \<longrightarrow> settled b' q = settled b q)"
proof -
  have wf: "bpm_wf b" using assms(1) by (simp add: bpm_inv_def)
  note W = bpm_wfD [OF wf]
  let ?pg = "frames b ! f"
  have k: "pins b p = pin_count ?pg" "bp_content b p = Some (data ?pg)"
    using assms(2) by (simp_all add: pins_def bp_content_def)
  have f: "used b f" "pg_id ?pg = p" using assms(2) by (simp_all add: W(8))
  have dom: "p \<in> dom (disk_content (disk_manager b))" using W(9) [of f] f by simp
  moreover have "length (data ?pg) = PAGE_SIZE" using W(10) f by simp
  ultimately obtain d where d: "WritePage p (data ?pg) (disk_manager b) = (Ok (), d)" "disk_inv d"
      "num_pages d = num_pages (disk_manager b)"
      "disk_content d = (disk_content (disk_manager b))(p \<mapsto> data ?pg)"
    using WritePage_ok [OF W(1)] by blast
  define bd where "bd = b\<lparr>disk_manager := d\<rparr>"
  have wfd: "bpm_wf bd"
    using wf d(2,4) dom unfolding bpm_wf_def by (auto simp: bd_def insert_absorb)
  have bd: "pins bd = pins b" "bp_content bd = bp_content b" "page_table bd = page_table b"
      "pool_size bd = pool_size b" "pages_left bd = pages_left b" "frames bd = frames b"
      "\<And>q. q \<noteq> p \<Longrightarrow> settled bd q = settled b q"
    using d(3,4) assms(2)
    by (auto simp: bd_def pins_def bp_content_def settled_def pages_left_def fun_eq_iff split: option.splits)
  define b' where "b' = bd\<lparr>frames := (frames bd)[f := \<lparr>data = data ?pg, pg_id = p,
    pin_count = pin_count ?pg, is_dirty = False\<rparr>], replacer := replacer bd\<rparr>"
  have "?pg\<lparr>is_dirty := False\<rparr> = \<lparr>data = data ?pg, pg_id = p, pin_count = pin_count ?pg, is_dirty = False\<rparr>"
    using f(2) by (cases ?pg) simp
  then have b': "b' = b\<lparr>disk_manager := d, frames := (frames b)[f := ?pg\<lparr>is_dirty := False\<rparr>]\<rparr>"
    by (cases b) (simp add: b'_def bd_def)
  have tab: "page_table bd p = Some f" using assms(2) bd(3) by simp
  have "bpm_wf b'"
    unfolding b'_def using f W(3,7,10,11)
    by (intro update_frame_wf [OF wfd tab]) (auto simp: bd_def)
  moreover note view = update_frame_view [OF wfd tab b'_def]
  moreover have "disk_content (disk_manager b') p = Some (data ?pg)"
    using d(4) by (simp add: b')
  moreover have "settled b' p" using view(3) [of p] d(4) by (simp add: bd_def)
  moreover have "\<And>q. q \<noteq> p \<Longrightarrow> settled b' q = settled b q" using view(3) bd(7) by simp
  moreover have "disk_content (disk_manager b') = (disk_content (disk_manager b))(p := bp_content b p)"
    using d(4) k(2) by (simp add: b')
  ultimately show ?thesis
    using d(1) b' bd k assms(1)
    by (intro exI [of _ d] exI [of _ b']) (auto simp: bpm_inv_def fun_upd_idem)
qed

lemma FlushPage_ok:
  assumes "bpm_inv b" and "page_table b p = Some f"
  shows "\<exists>b'. FlushPage p b = (Ok True, b') \<and> bpm_inv b' \<and> bp_content b' = bp_content b \<and>
    pins b' = pins b \<and> page_table b' = page_table b \<and>
    pool_size b' = pool_size b \<and> pages_left b' = pages_left b \<and>
    disk_content (disk_manager b') = (disk_content (disk_manager b))(p := bp_content b p) \<and>
    settled b' p \<and> (\<forall>q. q \<noteq> p \<longrightarrow> settled b' q = settled b q)"
  using write_back [OF assms] assms(2)
  by (auto simp: FlushPage_def on_disk_def set_frame_def)

lemma FlushAllPages_ok:
  assumes "bpm_inv b"
  shows "\<exists>b'. FlushAllPages ord b = (Ok (), b') \<and> bpm_inv b' \<and> bp_content b' = bp_content b \<and>
    pins b' = pins b \<and> page_table b' = page_table b \<and>
    pool_size b' = pool_size b \<and> pages_left b' = pages_left b \<and>
    (\<forall>q. settled b q \<longrightarrow> settled b' q) \<and>
    (\<forall>q. settled b q \<longrightarrow> q \<in> set ord \<or> disk_content (disk_manager b) q = bp_content b q \<longrightarrow>
      disk_content (disk_manager b') q = bp_content b q)"
  using assms
proof (induction ord arbitrary: b)
  case Nil
  then show ?case by simp
next
  case (Cons p ord)
  show ?case
  proof (cases "\<exists>f. page_table b p = Some f \<and> is_dirty (frames b ! f)")
    case True
    then obtain f where f: "page_table b p = Some f" "is_dirty (frames b ! f)" by blast
    obtain d b1 where b1: "WritePage p (data (frames b ! f)) (disk_manager b) = (Ok (), d)"
        "b1 = b\<lparr>disk_manager := d, frames := (frames b)[f := (frames b ! f)\<lparr>is_dirty := False\<rparr>]\<rparr>"
        "bpm_inv b1" "bp_content b1 = bp_content b" "pins b1 = pins b" "page_table b1 = page_table b"
        "pool_size b1 = pool_size b" "pages_left b1 = pages_left b"
        "disk_content (disk_manager b1) = (disk_content (disk_manager b))(p := bp_content b p)"
        "settled b1 p" "\<And>q. q \<noteq> p \<Longrightarrow> settled b1 q = settled b q"
      using write_back [OF Cons.prems f(1)] by blast
    have "FlushAllPages (p # ord) b = FlushAllPages ord b1"
      using f b1(1,2) by (simp add: on_disk_def set_frame_def)
    moreover obtain b' where b': "FlushAllPages ord b1 = (Ok (), b')" "bpm_inv b'"
        "bp_content b' = bp_content b" "pins b' = pins b" "page_table b' = page_table b"
        "pool_size b' = pool_size b" "pages_left b' = pages_left b"
        "\<And>q. settled b1 q \<Longrightarrow> settled b' q"
        "\<And>q. settled b1 q \<Longrightarrow> q \<in> set ord \<or> disk_content (disk_manager b1) q = bp_content b q \<Longrightarrow>
          disk_content (disk_manager b') q = bp_content b q"
      using Cons.IH [OF b1(3)] unfolding b1(4-8) by blast
    moreover have "settled b' q" if "settled b q" for q
      using b'(8) b1(10,11) that by (cases "q = p") auto
    moreover have "disk_content (disk_manager b') q = bp_content b q"
      if "settled b q" "q \<in> set (p # ord) \<or> disk_content (disk_manager b) q = bp_content b q" for q
      using b'(9) [of q] b1(9-11) that by (cases "q = p") auto
    ultimately show ?thesis by (intro exI [of _ b']) (simp del: FlushAllPages.simps)
  next
    case False
    then have "FlushAllPages (p # ord) b = FlushAllPages ord b" by (auto split: option.split)
    moreover have "disk_content (disk_manager b) p = bp_content b p" if "settled b p"
      using that False by (auto simp: settled_def bp_content_def split: option.splits)
    ultimately show ?thesis using Cons.IH [OF Cons.prems] by auto
  qed
qed

lemma DeletePage_ok:
  assumes "bpm_inv b" and "pins b p = 0"
  shows "\<exists>b'. DeletePage p b = (Ok True, b') \<and> bpm_inv b' \<and>
    bp_content b' = (bp_content b)(p := disk_content (disk_manager b) p) \<and>
    pins b' = pins b \<and> page_table b' = (page_table b)(p := None) \<and>
    pool_size b' = pool_size b \<and> pages_left b' = pages_left b \<and> disk_manager b' = disk_manager b \<and>
    (\<forall>q. settled b q \<longrightarrow> settled b' q)"
proof (cases "page_table b p")
  case None
  then have "bp_content b p = disk_content (disk_manager b) p" by (simp add: bp_content_def)
  with None assms(1) show ?thesis by (simp add: DeletePage_def fun_upd_idem)
next
  case (Some f)
  have wf: "bpm_wf b" using assms(1) by (simp add: bpm_inv_def)
  note W = bpm_wfD [OF wf]
  have f: "used b f" "pin_count (frames b ! f) = 0"
    using Some assms(2) W(8) [of p f] by (simp_all add: pins_def)
  define b' where "b' = b\<lparr>disk_manager := disk_manager b, free_list := free_list b @ [f],
    frames := (frames b)[f := (frames b ! f)\<lparr>data := zero_page, pg_id := INVALID_PAGE_ID, is_dirty := False\<rparr>],
    page_table := (page_table b)(p := None), replacer := Remove f (replacer b)\<rparr>"
  have "DeletePage p b = (Ok True, b')"
    using Some f(2) by (simp add: DeletePage_def b'_def set_frame_def Let_def)
  moreover have "bpm_wf b'"
    unfolding b'_def
    by (rule drop_frame_wf [OF wf Some f(2) W(1)]) (use f W(4) in \<open>auto simp: zero_page_def\<close>)
  moreover note drop_frame_view [OF wf Some f(2) _ b'_def]
  moreover have "pages_left b' = pages_left b" by (simp add: b'_def pages_left_def)
  moreover have "disk_manager b' = disk_manager b" by (simp add: b'_def)
  ultimately show ?thesis using assms(1) by (auto simp: bpm_inv_def)
qed

lemma DeletePage_pinned: "0 < pins b p \<Longrightarrow> DeletePage p b = (Ok False, b)"
  by (auto simp: DeletePage_def pins_def split: option.splits)

section \<open>The interface of the pool\<close>

text \<open>Between two calls of a client no page is pinned.\<close>

definition bpm_idle :: "BufferPoolManager \<Rightarrow> (page_id_t \<Rightarrow> byte list option) \<Rightarrow> nat \<Rightarrow> nat \<Rightarrow> bool" where
  "bpm_idle b m k l \<longleftrightarrow>
     bpm_inv b \<and> (\<forall>p. pins b p = 0) \<and> bp_content b = m \<and> pool_size b = k \<and> pages_left b = l"

lemma bp_content_size: "bpm_wf b \<Longrightarrow> bp_content b p = Some bs \<Longrightarrow> length bs = PAGE_SIZE"
  using disk.content_size [OF bpm_wfD(1)] by (auto simp: bp_content_def bpm_wfD split: option.splits)

lemma bp_content_invalid: "bpm_wf b \<Longrightarrow> bp_content b INVALID_PAGE_ID = None"
proof (cases "page_table b INVALID_PAGE_ID")
  case (Some f)
  moreover assume "bpm_wf b"
  ultimately show ?thesis
    using bpm_wfD(9) [of b f] disk.content_invalid [OF bpm_wfD(1)] by (auto simp: bpm_wfD(8))
qed (simp add: bp_content_def disk.content_invalid [OF bpm_wfD(1)])

interpretation bp: page_cache bpm_inv bp_content pins settled page_table pool_size pages_left bpm_idle
  GetData SetData NewPage FetchPage UnpinPage
proof (unfold_locales, goal_cases)
  case (1 s m k l)
  show ?case by (rule bpm_idle_def)
next
  case (2 s p bs)
  then show ?case by (auto simp: bpm_inv_def dest: bp_content_size)
next
  case (3 s)
  then show ?case by (simp add: bpm_inv_def bp_content_invalid)
next
  case (4 s p)
  then show ?case by (simp add: bpm_inv_def)
next
  case (5 s p f)
  then show ?case by (simp add: bp_content_def GetData_def)
next
  case (6 s p f q)
  then show ?case by (auto simp: bpm_inv_def dest: table_inj)
next
  case (7 s p f bs)
  then show ?case using SetData_ok by blast
next
  case (8 s)
  then show ?case using NewPage_ok unfolding pinned_def by blast
next
  case (9 s)
  then show ?case by (simp add: NewPage_full bpm_inv_def pinned_def)
next
  case (10 s p bs)
  show ?case
  proof (cases "page_table s p")
    case None
    with 10 show ?thesis using FetchPage_miss [of s p bs] by (auto simp: pinned_def pins_def [of s p])
  next
    case (Some f)
    with 10 show ?thesis using FetchPage_hit [of s p f] by auto
  qed
next
  case (11 s p d)
  then show ?case using UnpinPage_ok by blast
qed

text \<open>Every page id below the count of pages is a page: the pages and those left make up all ids.\<close>

lemma bp_content_dom: "bpm_wf b \<Longrightarrow> dom (bp_content b) = dom (disk_content (disk_manager b))"
  by (auto simp: bp_content_def bpm_wfD(8) dest: bpm_wfD(9) split: option.splits)

lemma disk_pages:
  assumes "disk_inv d"
  shows "finite (dom (disk_content d)) \<and> int (card (dom (disk_content d))) = num_pages d"
proof -
  have n: "0 \<le> num_pages d" "num_pages d \<le> INT32_MAX" using assms by (simp_all add: disk_inv_def)
  have "p \<in> mk32 ` {0..<num_pages d}" if "p \<in> dom (disk_content d)" for p
    using that by (auto simp: disk_content_def image_iff split: if_splits intro!: bexI [of _ "ival p"])
  moreover have "p \<in> dom (disk_content d)" if "p \<in> mk32 ` {0..<num_pages d}" for p
    using that n by (auto simp: disk_content_def ival_mk32 INT32_MIN_def)
  ultimately have "dom (disk_content d) = mk32 ` {0..<num_pages d}" by blast
  moreover have "inj_on mk32 {0..<num_pages d}"
  proof (rule inj_onI)
    fix i j assume ij: "i \<in> {0..<num_pages d}" "j \<in> {0..<num_pages d}" and eq: "mk32 i = mk32 j"
    have "ival (mk32 x) = x" if "x \<in> {0..<num_pages d}" for x using that n by (auto intro!: ival_mk32 simp: INT32_MIN_def)
    then show "i = j" using ij eq by metis
  qed
  ultimately show ?thesis using n(1) by (simp add: card_image)
qed

lemma idle_pages:
  assumes "bpm_idle b m k l"
  shows "finite (dom m)" "card (dom m) + l = PIN_MAX"
proof -
  have wf: "bpm_wf b" and m: "m = bp_content b" and l: "l = pages_left b" using assms by (simp_all add: bpm_idle_def bpm_inv_def)
  have d: "disk_inv (disk_manager b)" by (rule bpm_wfD(1) [OF wf])
  then have "0 \<le> num_pages (disk_manager b)" "num_pages (disk_manager b) \<le> INT32_MAX" by (simp_all add: disk_inv_def)
  moreover have c: "finite (dom m)" "int (card (dom m)) = num_pages (disk_manager b)"
    using disk_pages [OF d] by (simp_all add: m bp_content_dom [OF wf])
  ultimately show "finite (dom m)" "card (dom m) + l = PIN_MAX" by (simp_all add: l pages_left_def PIN_MAX_def nat_diff_distrib)
qed

section \<open>A specification of the pool and its refinement\<close>

text \<open>
  The pool as its clients should see it: pages by id, pin counts, the pointers to the pages held, how many
  pages can be held at once, how many can still be allocated, and the pages written through a pointer
  since they were last declared dirty or flushed. \<open>NewPage\<close> and \<open>FetchPage\<close> hand out a pointer, through
  which clients read and write. A client may release a page as clean only when it has not
  written to it, and may read and write only through the pointer to a page it holds.
\<close>

datatype bpm_op = OpNew | OpFetch page_id_t | OpUnpin page_id_t bool | OpFlush page_id_t
  | OpFlushAll "page_id_t list" | OpDelete page_id_t | OpLoad frame_id_t | OpStore frame_id_t "byte list"

datatype bpm_result = RPage "(page_id_t \<times> frame_id_t) option" | RBool bool | RBytes "byte list" | RUnit

record pool_spec =
  spages :: "page_id_t \<Rightarrow> byte list option"
  spins :: "page_id_t \<Rightarrow> nat"
  sframe :: "page_id_t \<Rightarrow> frame_id_t"
  touched :: "page_id_t set"
  scap :: nat
  sleft :: nat

definition bpm_exec :: "bpm_op \<Rightarrow> BufferPoolManager \<Rightarrow> (bpm_result, BufferPoolManager) res" where
  "bpm_exec op b = (case op of
      OpNew \<Rightarrow> bind_res (NewPage b) (\<lambda>r b'. (Ok (RPage r), b'))
    | OpFetch p \<Rightarrow> bind_res (FetchPage p b) (\<lambda>r b'. (Ok (RPage (map_option (\<lambda>f. (p, f)) r)), b'))
    | OpUnpin p d \<Rightarrow> bind_res (UnpinPage p d b) (\<lambda>r b'. (Ok (RBool r), b'))
    | OpFlush p \<Rightarrow> bind_res (FlushPage p b) (\<lambda>r b'. (Ok (RBool r), b'))
    | OpFlushAll ord \<Rightarrow> bind_res (FlushAllPages ord b) (\<lambda>r b'. (Ok RUnit, b'))
    | OpDelete p \<Rightarrow> bind_res (DeletePage p b) (\<lambda>r b'. (Ok (RBool r), b'))
    | OpLoad f \<Rightarrow> (Ok (RBytes (GetData f b)), b)
    | OpStore f bs \<Rightarrow> (Ok RUnit, SetData f bs b))"

abbreviation held :: "pool_spec \<Rightarrow> page_id_t set" where
  "held s \<equiv> {p. 0 < spins s p}"

text \<open>The calls a client may make: the pins of a page stay in the range of an \<open>int\<close>.\<close>

definition allowed :: "pool_spec \<Rightarrow> bpm_op \<Rightarrow> bool" where
  "allowed s op = (case op of
      OpNew \<Rightarrow> 0 < sleft s
    | OpFetch p \<Rightarrow> spages s p \<noteq> None \<and> spins s p < PIN_MAX
    | OpUnpin p d \<Rightarrow> d \<or> p \<notin> touched s
    | OpLoad f \<Rightarrow> f \<in> sframe s ` held s
    | OpStore f bs \<Rightarrow> f \<in> sframe s ` held s \<and> length bs = PAGE_SIZE
    | _ \<Rightarrow> True)"

inductive pool_step :: "pool_spec \<Rightarrow> bpm_op \<Rightarrow> bpm_result \<Rightarrow> pool_spec \<Rightarrow> bool" where
  new_full: "\<not> card (held s) < scap s \<Longrightarrow> pool_step s OpNew (RPage None) s"
| new_page: "card (held s) < scap s \<Longrightarrow> spages s p = None \<Longrightarrow> p \<noteq> INVALID_PAGE_ID \<Longrightarrow>
    f < scap s \<Longrightarrow> f \<notin> sframe s ` held s \<Longrightarrow>
    pool_step s OpNew (RPage (Some (p, f)))
      (s\<lparr>spages := (spages s)(p \<mapsto> zero_page), spins := (spins s)(p := 1), sframe := (sframe s)(p := f), sleft := sleft s - 1\<rparr>)"
| fetch_full: "\<not> card (held s) < scap s \<Longrightarrow> spins s p = 0 \<Longrightarrow> pool_step s (OpFetch p) (RPage None) s"
| fetch_page: "card (held s) < scap s \<Longrightarrow> spins s p = 0 \<Longrightarrow> f < scap s \<Longrightarrow> f \<notin> sframe s ` held s \<Longrightarrow>
    pool_step s (OpFetch p) (RPage (Some (p, f))) (s\<lparr>spins := (spins s)(p := 1), sframe := (sframe s)(p := f)\<rparr>)"
| fetch_held: "0 < spins s p \<Longrightarrow>
    pool_step s (OpFetch p) (RPage (Some (p, sframe s p))) (s\<lparr>spins := (spins s)(p := spins s p + 1)\<rparr>)"
| unpin: "0 < spins s p \<Longrightarrow>
    pool_step s (OpUnpin p d) (RBool True)
      (s\<lparr>spins := (spins s)(p := spins s p - 1), touched := (if d then touched s - {p} else touched s)\<rparr>)"
| unpin_not_held: "spins s p = 0 \<Longrightarrow> pool_step s (OpUnpin p d) (RBool False) s"
| flush: "pool_step s (OpFlush p) (RBool True) (s\<lparr>touched := touched s - {p}\<rparr>)"
| flush_not_cached: "spins s p = 0 \<Longrightarrow> pool_step s (OpFlush p) (RBool False) s"
| flush_all: "pool_step s (OpFlushAll ord) RUnit s"
| delete: "spins s p = 0 \<Longrightarrow> (bs = None \<longleftrightarrow> spages s p = None) \<Longrightarrow>
    pool_step s (OpDelete p) (RBool True) (s\<lparr>spages := (spages s)(p := bs)\<rparr>)"
| delete_held: "0 < spins s p \<Longrightarrow> pool_step s (OpDelete p) (RBool False) s"
| load: "0 < spins s p \<Longrightarrow> spages s p = Some bs \<Longrightarrow> pool_step s (OpLoad (sframe s p)) (RBytes bs) s"
| store: "0 < spins s p \<Longrightarrow>
    pool_step s (OpStore (sframe s p) bs) RUnit (s\<lparr>spages := (spages s)(p \<mapsto> bs), touched := insert p (touched s)\<rparr>)"

text \<open>The pointer to a page held is the frame that has the page.\<close>

definition pool_rel :: "BufferPoolManager \<Rightarrow> pool_spec \<Rightarrow> bool" where
  "pool_rel b s \<longleftrightarrow> bpm_inv b \<and> spages s = bp_content b \<and> spins s = pins b \<and>
     scap s = pool_size b \<and> sleft s = pages_left b \<and> (\<forall>p. p \<notin> touched s \<longrightarrow> settled b p) \<and>
     (\<forall>p. 0 < pins b p \<longrightarrow> page_table b p = Some (sframe s p))"

lemma pool_relI:
  "bpm_inv b \<Longrightarrow> spages s = bp_content b \<Longrightarrow> spins s = pins b \<Longrightarrow> scap s = pool_size b \<Longrightarrow>
   sleft s = pages_left b \<Longrightarrow> (\<And>p. p \<notin> touched s \<Longrightarrow> settled b p) \<Longrightarrow>
   (\<And>p. 0 < pins b p \<Longrightarrow> page_table b p = Some (sframe s p)) \<Longrightarrow> pool_rel b s"
  by (simp add: pool_rel_def)

lemma pool_relD:
  assumes "pool_rel b s"
  shows "bpm_inv b" "spages s = bp_content b" "spins s = pins b" "scap s = pool_size b"
    "sleft s = pages_left b" "p \<notin> touched s \<Longrightarrow> settled b p" "bpm_wf b" "held s = pinned b"
    "0 < pins b p \<Longrightarrow> page_table b p = Some (sframe s p)"
  using assms by (simp_all add: pool_rel_def bpm_inv_def pinned_def)

text \<open>A frame given to a page nobody held is not the frame of a page held.\<close>

lemma new_frame:
  assumes "pool_rel b s" and "bpm_inv b'" and "page_table b' p = Some f" and "pins b p = 0"
    and "\<forall>q. 0 < pins b q \<longrightarrow> page_table b' q = page_table b q" and "pool_size b' = pool_size b"
  shows "f < scap s" "f \<notin> sframe s ` held s"
proof -
  note R = pool_relD [OF assms(1)]
  have wf: "bpm_wf b'" using assms(2) by (simp add: bpm_inv_def)
  then show "f < scap s" using assms(3,6) R(4) by (simp add: bpm_wfD(8))
  have "q = p" if "0 < pins b q" "f = sframe s q" for q
    using table_inj [OF wf assms(3), of q] that assms(5) R(9) [of q] by simp
  then show "f \<notin> sframe s ` held s" using assms(4) R(3) by auto
qed

lemma cached_unpinned_room:
  assumes "bpm_wf b" and "page_table b p = Some f" and "pins b p = 0"
  shows "card (pinned b) < pool_size b"
proof -
  have "used b f" "pin_count (frames b ! f) = 0"
    using assms bpm_wfD(8) [OF assms(1), of p f] by (simp_all add: pins_def)
  then have "f \<in> evictable (replacer b)" "f \<in> set (lru_order (replacer b))"
    using bpm_wfD(6,7) [OF assms(1)] by auto
  then have "fst (Evict (replacer b)) \<noteq> None"
    using lru.evict_None_iff [OF bpm_wfD(3) [OF assms(1)]] by blast
  then show ?thesis using all_pinned_iff [OF assms(1)] by blast
qed

lemma refine_new:
  assumes "pool_rel b s" and "0 < sleft s"
  shows "\<exists>r b' s'. bpm_exec OpNew b = (Ok r, b') \<and> pool_step s OpNew r s' \<and> pool_rel b' s'"
proof (cases "card (pinned b) < pool_size b")
  case True
  note R = pool_relD [OF assms(1)]
  obtain p f b' where N: "NewPage b = (Ok (Some (p, f)), b')" "bpm_inv b'" "bp_content b p = None"
      "p \<noteq> INVALID_PAGE_ID" "bp_content b' = (bp_content b)(p \<mapsto> zero_page)" "pins b' = (pins b)(p := 1)"
      "pool_size b' = pool_size b" "pages_left b' = pages_left b - 1" "\<And>q. settled b q \<Longrightarrow> settled b' q"
      "page_table b' p = Some f" "\<forall>q. 0 < pins b q \<longrightarrow> page_table b' q = page_table b q"
    using NewPage_ok [OF R(1) True] assms R(5) by auto
  have p0: "pins b p = 0" using N(3) by (auto simp: pins_def bp_content_def split: option.splits)
  let ?s = "s\<lparr>spages := (spages s)(p \<mapsto> zero_page), spins := (spins s)(p := 1), sframe := (sframe s)(p := f), sleft := sleft s - 1\<rparr>"
  have "pool_step s OpNew (RPage (Some (p, f))) ?s"
    using pool_step.new_page [of s p f] new_frame [OF assms(1) N(2,10) p0 N(11,7)] R N(3,4) True by simp
  moreover have "pool_rel b' ?s" using N R by (intro pool_relI) (auto split: if_splits)
  ultimately show ?thesis using N(1) by (auto simp: bpm_exec_def)
next
  case False
  with assms show ?thesis
    using pool_step.new_full [of s] pool_relD [OF assms(1)] by (auto simp: bpm_exec_def NewPage_full)
qed

lemma refine_fetch:
  assumes "pool_rel b s" and "spages s p \<noteq> None" and "spins s p < PIN_MAX"
  shows "\<exists>r b' s'. bpm_exec (OpFetch p) b = (Ok r, b') \<and> pool_step s (OpFetch p) r s' \<and> pool_rel b' s'"
proof (cases "0 < pins b p \<or> card (pinned b) < pool_size b")
  case True
  note R = pool_relD [OF assms(1)]
  obtain bs where "bp_content b p = Some bs" using assms(2) R(2) by auto
  with True assms(3) R(3) obtain f b' where F: "FetchPage p b = (Ok (Some f), b')" "bpm_inv b'"
      "bp_content b' = bp_content b" "pins b' = (pins b)(p := pins b p + 1)"
      "pool_size b' = pool_size b" "pages_left b' = pages_left b" "\<And>q. settled b q \<Longrightarrow> settled b' q"
      "page_table b' p = Some f" "\<forall>q. 0 < pins b q \<longrightarrow> page_table b' q = page_table b q"
    using bp.fetch_ok [OF R(1), of p bs] by (auto simp: pinned_def)
  let ?s = "s\<lparr>spins := (spins s)(p := pins b p + 1), sframe := (sframe s)(p := f)\<rparr>"
  have "pool_step s (OpFetch p) (RPage (Some (p, f))) ?s"
  proof (cases "0 < pins b p")
    case held: True
    then have "sframe s p = f" using F(8,9) R(9) by simp
    then have "?s = s\<lparr>spins := (spins s)(p := spins s p + 1)\<rparr>" using R(3) by (cases s) (simp add: fun_upd_idem)
    then show ?thesis using pool_step.fetch_held [of s p] held R(3) \<open>sframe s p = f\<close> by simp
  next
    case False
    then have "card (held s) < scap s" "spins s p = 0" using True R by simp_all
    then show ?thesis
      using pool_step.fetch_page [of s p f] new_frame [OF assms(1) F(2,8) _ F(9,5)] False R(3) by simp
  qed
  moreover have "pool_rel b' ?s" using F R by (intro pool_relI) (auto split: if_splits)
  ultimately show ?thesis using F(1) by (auto simp: bpm_exec_def)
next
  case False
  then have "page_table b p = None"
    using cached_unpinned_room [OF pool_relD(7) [OF assms(1)]] by (cases "page_table b p") auto
  with False assms show ?thesis
    using pool_step.fetch_full [of s p] pool_relD [OF assms(1)] by (auto simp: bpm_exec_def FetchPage_full)
qed

lemma refine_unpin:
  assumes "pool_rel b s" and "d \<or> p \<notin> touched s"
  shows "\<exists>r b' s'. bpm_exec (OpUnpin p d) b = (Ok r, b') \<and> pool_step s (OpUnpin p d) r s' \<and> pool_rel b' s'"
proof (cases "0 < pins b p")
  case True
  note R = pool_relD [OF assms(1)]
  have "d \<or> settled b p" using assms(2) R(6) by blast
  then obtain b' where U: "UnpinPage p d b = (Ok True, b')" "bpm_inv b'" "bp_content b' = bp_content b"
      "pins b' = (pins b)(p := pins b p - 1)" "pool_size b' = pool_size b" "pages_left b' = pages_left b"
      "settled b' p" "\<And>q. q \<noteq> p \<Longrightarrow> settled b' q = settled b q" "page_table b' = page_table b"
    using UnpinPage_ok [OF R(1) True] by blast
  have "settled b' q" if "q \<notin> (if d then touched s - {p} else touched s)" for q
    using U that R(6) by (cases "q = p") (auto split: if_splits)
  moreover have "page_table b' q = Some (sframe s q)" if "0 < pins b' q" for q
    using that U(4,9) R(9) True by (auto split: if_splits)
  ultimately show ?thesis
    using pool_step.unpin [of s p d] R True U
    by (intro exI conjI) (auto simp: bpm_exec_def intro!: pool_relI)
next
  case False
  then have "UnpinPage p d b = (Ok False, b)"
    by (auto simp: UnpinPage_def pins_def split: option.splits)
  with False assms show ?thesis
    using pool_step.unpin_not_held [of s p d] pool_relD(3) [OF assms(1)] by (auto simp: bpm_exec_def)
qed

lemma refine_flush:
  assumes "pool_rel b s"
  shows "\<exists>r b' s'. bpm_exec (OpFlush p) b = (Ok r, b') \<and> pool_step s (OpFlush p) r s' \<and> pool_rel b' s'"
proof (cases "page_table b p")
  case None
  then have "FlushPage p b = (Ok False, b)" "pins b p = 0" by (simp_all add: FlushPage_def pins_def)
  with assms show ?thesis
    using pool_step.flush_not_cached [of s p] pool_relD(3) [OF assms] by (auto simp: bpm_exec_def)
next
  case (Some f)
  note R = pool_relD [OF assms]
  obtain b' where "FlushPage p b = (Ok True, b')" "bpm_inv b'" "bp_content b' = bp_content b"
      "pins b' = pins b" "pool_size b' = pool_size b" "pages_left b' = pages_left b" "page_table b' = page_table b"
      "settled b' p" "\<And>q. q \<noteq> p \<Longrightarrow> settled b' q = settled b q"
    using FlushPage_ok [OF R(1) Some] by blast
  moreover have "settled b' q" if "q \<notin> touched s - {p}" for q
    using calculation that R(6) by (cases "q = p") auto
  ultimately show ?thesis
    using pool_step.flush [of s p] R
    by (intro exI conjI) (auto simp: bpm_exec_def intro!: pool_relI)
qed

lemma refine_flush_all:
  assumes "pool_rel b s"
  shows "\<exists>r b' s'. bpm_exec (OpFlushAll ord) b = (Ok r, b') \<and> pool_step s (OpFlushAll ord) r s' \<and> pool_rel b' s'"
proof -
  note R = pool_relD [OF assms]
  obtain b' where "FlushAllPages ord b = (Ok (), b')" "bpm_inv b'" "bp_content b' = bp_content b"
      "pins b' = pins b" "pool_size b' = pool_size b" "pages_left b' = pages_left b" "page_table b' = page_table b"
      "\<And>q. settled b q \<Longrightarrow> settled b' q"
    using FlushAllPages_ok [OF R(1), of ord] by blast
  then show ?thesis
    using pool_step.flush_all [of s ord] R
    by (intro exI conjI) (auto simp: bpm_exec_def intro!: pool_relI)
qed

lemma refine_delete:
  assumes "pool_rel b s"
  shows "\<exists>r b' s'. bpm_exec (OpDelete p) b = (Ok r, b') \<and> pool_step s (OpDelete p) r s' \<and> pool_rel b' s'"
proof (cases "0 < pins b p")
  case True
  with assms show ?thesis
    using pool_step.delete_held [of s p] pool_relD(3) [OF assms] DeletePage_pinned [OF True]
    by (auto simp: bpm_exec_def)
next
  case False
  note R = pool_relD [OF assms]
  obtain b' where D: "DeletePage p b = (Ok True, b')" "bpm_inv b'"
      "bp_content b' = (bp_content b)(p := disk_content (disk_manager b) p)"
      "pins b' = pins b" "pool_size b' = pool_size b" "pages_left b' = pages_left b" "page_table b' = (page_table b)(p := None)"
      "\<And>q. settled b q \<Longrightarrow> settled b' q"
    using DeletePage_ok [OF R(1)] False by blast
  moreover have "disk_content (disk_manager b) p = None \<longleftrightarrow> bp_content b p = None"
    using bpm_wfD(8,9) [OF R(7)] by (auto simp: bp_content_def split: option.split)
  moreover have "page_table b' q = Some (sframe s q)" if "0 < pins b' q" for q
    using that False D(4,7) R(9) by auto
  ultimately show ?thesis
    using pool_step.delete [of s p "disk_content (disk_manager b) p"] R False
    by (intro exI conjI) (auto simp: bpm_exec_def intro!: pool_relI)
qed

lemma held_frame:
  assumes "pool_rel b s" and "f \<in> sframe s ` held s"
  obtains p where "f = sframe s p" "0 < spins s p" "0 < pins b p" "page_table b p = Some f" "bp_content b p = Some (GetData f b)"
proof -
  note R = pool_relD [OF assms(1)]
  obtain p where p: "f = sframe s p" "0 < spins s p" using assms(2) by blast
  then have "0 < pins b p" "page_table b p = Some f" using R(3,9) by simp_all
  then show thesis using that p bp.get_content [OF R(1)] by blast
qed

lemma refine_load:
  assumes "pool_rel b s" and "f \<in> sframe s ` held s"
  shows "\<exists>r b' s'. bpm_exec (OpLoad f) b = (Ok r, b') \<and> pool_step s (OpLoad f) r s' \<and> pool_rel b' s'"
proof -
  obtain p where p: "f = sframe s p" "0 < spins s p" "bp_content b p = Some (GetData f b)" using held_frame [OF assms] by blast
  then have "pool_step s (OpLoad f) (RBytes (GetData f b)) s" using pool_step.load [of s p] pool_relD(2) [OF assms(1)] by simp
  then show ?thesis using assms(1) by (auto simp: bpm_exec_def)
qed

lemma refine_store:
  assumes "pool_rel b s" and "f \<in> sframe s ` held s" and "length bs = PAGE_SIZE"
  shows "\<exists>r b' s'. bpm_exec (OpStore f bs) b = (Ok r, b') \<and> pool_step s (OpStore f bs) r s' \<and> pool_rel b' s'"
proof -
  note R = pool_relD [OF assms(1)]
  obtain p where p: "f = sframe s p" "0 < spins s p" "0 < pins b p" "page_table b p = Some f" using held_frame [OF assms(1,2)] by blast
  note S = SetData_ok [OF R(1) p(4,3) assms(3)]
  have "settled (SetData f bs b) q" if "q \<notin> insert p (touched s)" for q using S that R(6) by auto
  then have "pool_rel (SetData f bs b) (s\<lparr>spages := (spages s)(p \<mapsto> bs), touched := insert p (touched s)\<rparr>)"
    using S R by (intro pool_relI) auto
  then show ?thesis using pool_step.store [OF p(2), of bs] p(1) by (auto simp: bpm_exec_def)
qed

subsection \<open>Pointers to pages that are held\<close>

text \<open>What a client may do in a state of the pool, and the calls made while it holds a page.\<close>

definition client_ok :: "BufferPoolManager \<Rightarrow> bpm_op \<Rightarrow> bool" where
  "client_ok b op = (case op of
      OpNew \<Rightarrow> 0 < pages_left b
    | OpFetch q \<Rightarrow> bp_content b q \<noteq> None \<and> pins b q < PIN_MAX
    | OpUnpin q d \<Rightarrow> d \<or> settled b q
    | OpLoad f \<Rightarrow> \<exists>q. 0 < pins b q \<and> page_table b q = Some f
    | OpStore f bs \<Rightarrow> (\<exists>q. 0 < pins b q \<and> page_table b q = Some f) \<and> length bs = PAGE_SIZE
    | _ \<Rightarrow> True)"

inductive while_held :: "page_id_t \<Rightarrow> BufferPoolManager \<Rightarrow> bpm_op list \<Rightarrow> BufferPoolManager \<Rightarrow> bool" for p where
  start: "0 < pins b p \<Longrightarrow> while_held p b [] b"
| call: "while_held p b ops b1 \<Longrightarrow> client_ok b1 op \<Longrightarrow> bpm_exec op b1 = (Ok r, b2) \<Longrightarrow> 0 < pins b2 p \<Longrightarrow>
    while_held p b (ops @ [op]) b2"

text \<open>The bytes last written through a pointer.\<close>

fun last_store :: "frame_id_t \<Rightarrow> bpm_op list \<Rightarrow> byte list \<Rightarrow> byte list" where
  "last_store f [] bs = bs"
| "last_store f (op # ops) bs = last_store f ops (case op of OpStore g bs' \<Rightarrow> if g = f then bs' else bs | _ \<Rightarrow> bs)"

lemma last_store_snoc:
  "last_store f (ops @ [op]) bs = (case op of OpStore g bs' \<Rightarrow> if g = f then bs' else last_store f ops bs | _ \<Rightarrow> last_store f ops bs)"
  by (induction ops arbitrary: bs) (cases op, auto)+

lemma exec_keeps_pinned:
  assumes "bpm_inv b" and "0 < pins b p" and "page_table b p = Some f" and "client_ok b op" and "bpm_exec op b = (Ok r, b')"
  shows "bpm_inv b' \<and> page_table b' p = Some f \<and> bp_content b' p = Some (last_store f [op] (GetData f b))"
proof -
  have c: "bp_content b p = Some (GetData f b)" using bp.get_content [OF assms(1,3)] .
  show ?thesis
  proof (cases op)
    case OpNew
    show ?thesis
    proof (cases "card (pinned b) < pool_size b")
      case True
      with assms OpNew c show ?thesis using NewPage_ok [OF assms(1) True] by (auto simp: bpm_exec_def client_ok_def)
    next
      case False
      with assms OpNew c show ?thesis by (auto simp: bpm_exec_def NewPage_full bpm_inv_def)
    qed
  next
    case (OpFetch q)
    then obtain bs where q: "bp_content b q = Some bs" "pins b q < PIN_MAX" using assms(4) by (auto simp: client_ok_def)
    show ?thesis
    proof (cases "0 < pins b q \<or> card (pinned b) < pool_size b")
      case True
      with assms OpFetch q c show ?thesis
        using bp.fetch_ok [OF assms(1), of q bs] by (auto simp: bpm_exec_def pinned_def)
    next
      case False
      then have "page_table b q = None"
        using cached_unpinned_room [of b q] assms(1) by (cases "page_table b q") (auto simp: bpm_inv_def)
      with assms OpFetch False c show ?thesis by (auto simp: bpm_exec_def FetchPage_full bpm_inv_def)
    qed
  next
    case (OpUnpin q d)
    show ?thesis
    proof (cases "0 < pins b q")
      case True
      with assms OpUnpin c show ?thesis using UnpinPage_ok [OF assms(1) True, of d] by (auto simp: bpm_exec_def client_ok_def)
    next
      case False
      then have "UnpinPage q d b = (Ok False, b)" by (auto simp: UnpinPage_def pins_def split: option.splits)
      with assms OpUnpin c show ?thesis by (auto simp: bpm_exec_def)
    qed
  next
    case (OpFlush q)
    then show ?thesis
      using assms(1,3,5) c FlushPage_ok [OF assms(1), of q]
      by (cases "page_table b q") (auto simp: bpm_exec_def FlushPage_def [of q b])
  next
    case (OpFlushAll ord)
    then show ?thesis
      using assms(3,5) c FlushAllPages_ok [OF assms(1), of ord] by (auto simp: bpm_exec_def)
  next
    case (OpDelete q)
    then show ?thesis
      using assms c DeletePage_ok [OF assms(1), of q] DeletePage_pinned [of b q]
      by (cases "pins b q = 0") (auto simp: bpm_exec_def)
  next
    case (OpLoad g)
    then show ?thesis using assms c by (auto simp: bpm_exec_def)
  next
    case (OpStore g bs)
    then obtain q where q: "0 < pins b q" "page_table b q = Some g" "length bs = PAGE_SIZE" "SetData g bs b = b'"
      using assms(4,5) by (auto simp: bpm_exec_def client_ok_def)
    have "q = p" if "g = f" using table_inj [of b q f p] that q(2) assms(1,3) by (simp add: bpm_inv_def)
    then show ?thesis using OpStore assms(3) q c SetData_ok [OF assms(1) q(2,1,3)] by auto
  qed
qed

lemma while_held_ok:
  "while_held p b ops b' \<Longrightarrow> bpm_inv b \<Longrightarrow> page_table b p = Some f \<Longrightarrow>
   bpm_inv b' \<and> 0 < pins b' p \<and> page_table b' p = Some f \<and> GetData f b' = last_store f ops (GetData f b)"
proof (induction rule: while_held.induct)
  case (call b ops b1 op r b2)
  then have I: "bpm_inv b1" "0 < pins b1 p" "page_table b1 p = Some f" "GetData f b1 = last_store f ops (GetData f b)" by simp_all
  have "bpm_inv b2" "page_table b2 p = Some f" "bp_content b2 p = Some (last_store f [op] (GetData f b1))"
    using exec_keeps_pinned [OF I(1-3) call(2,3)] by blast+
  moreover from this(1,2) have "bp_content b2 p = Some (GetData f b2)" using bp.get_content by blast
  ultimately show ?case using call(4) I(4) by (auto simp: last_store_snoc split: bpm_op.splits)
qed simp

text \<open>The pointer that a call returns is to the frame of the page.\<close>

lemma handed_out:
  assumes "bpm_inv b" and "client_ok b op" and "bpm_exec op b = (Ok (RPage (Some (p, f))), b')"
  shows "bpm_inv b' \<and> page_table b' p = Some f \<and> 0 < pins b' p \<and>
    GetData f b' = (case bp_content b p of None \<Rightarrow> zero_page | Some bs \<Rightarrow> bs)"
proof -
  have "bpm_inv b' \<and> page_table b' p = Some f \<and> 0 < pins b' p \<and>
    bp_content b' p = Some (case bp_content b p of None \<Rightarrow> zero_page | Some bs \<Rightarrow> bs)"
  proof (cases op)
    case OpNew
    then have "card (pinned b) < pool_size b" using assms(1,3) NewPage_full [of b] by (force simp: bpm_exec_def bpm_inv_def)
    then show ?thesis using NewPage_ok [OF assms(1)] assms(2,3) OpNew by (auto simp: bpm_exec_def client_ok_def)
  next
    case (OpFetch q)
    then obtain bs where q: "bp_content b q = Some bs" "pins b q < PIN_MAX" using assms(2) by (auto simp: client_ok_def)
    have "0 < pins b q \<or> card (pinned b) < pool_size b"
    proof (rule ccontr)
      assume no: "\<not> ?thesis"
      then have "page_table b q = None"
        using cached_unpinned_room [of b q] assms(1) by (cases "page_table b q") (auto simp: bpm_inv_def)
      then show False using no assms(1,3) OpFetch FetchPage_full [of b q] by (simp add: bpm_exec_def bpm_inv_def)
    qed
    then show ?thesis using bp.fetch_ok [OF assms(1) q(1) _ q(2)] assms(3) OpFetch q(1) by (auto simp: bpm_exec_def pinned_def)
  qed (use assms(3) in \<open>auto simp: bpm_exec_def bind_res_def split: outcome.splits prod.splits\<close>)
  moreover from this have "bp_content b' p = Some (GetData f b')" using bp.get_content by blast
  ultimately show ?thesis by simp
qed

section \<open>Properties\<close>

text \<open>(C13) The buffer pool refines its specification. In any state that stands for a specification
  state, every call a client is allowed to make returns, with a result and a next state that the
  specification permits: a new page is fresh and zero, \<open>FetchPage\<close> returns the pointer at which the page is held
  or one that belongs to no page held, a pointer to a page held reads and writes the bytes of that page, both
  calls fail only when every frame is pinned, releasing, flushing and deleting change no other page. Not allowed
  are fetches of a page that is held as often as an \<open>int\<close> can count.\<close>

theorem pool_refines_spec:
  assumes "pool_rel b s" and "allowed s op"
  shows "\<exists>r b' s'. bpm_exec op b = (Ok r, b') \<and> pool_step s op r s' \<and> pool_rel b' s'"
  using assms(2) refine_new [OF assms(1)] refine_fetch [OF assms(1)] refine_unpin [OF assms(1)]
    refine_flush [OF assms(1)] refine_flush_all [OF assms(1)] refine_delete [OF assms(1)]
    refine_load [OF assms(1)] refine_store [OF assms(1)]
  by (cases op) (simp_all add: allowed_def)

text \<open>The fetch that is not allowed: the count of pins overflows.\<close>

lemma fetch_pin_overflow: "page_table b p = Some f \<Longrightarrow> pins b p = PIN_MAX \<Longrightarrow> FetchPage p b = (Fault, b)"
  by (simp add: FetchPage_def pins_def)

text \<open>A pool of two frames over a disk of one page.\<close>

definition small_pool :: BufferPoolManager where
  "small_pool = mk_BufferPoolManager 2 one_page_disk"

definition small_spec :: pool_spec where
  "small_spec = \<lparr>spages = disk_content one_page_disk, spins = (\<lambda>_. 0), sframe = (\<lambda>_. 0), touched = {}, scap = 2,
     sleft = pages_left small_pool\<rparr>"

lemma small_pool_inv: "bpm_inv small_pool"
  unfolding small_pool_def by (rule bpm_inv_init) (rule one_page_disk_inv)

lemma small_pool_rel: "pool_rel small_pool small_spec"
  using small_pool_inv
  by (auto simp: pool_rel_def small_spec_def small_pool_def mk_BufferPoolManager_def bp_content_def
      pins_def settled_def fun_eq_iff)

lemma small_pool_view: "0 < pages_left small_pool" "pins small_pool p = 0" "pinned small_pool = {}" "pool_size small_pool = 2"
    "bp_content small_pool = disk_content one_page_disk" "page_table small_pool p = None"
  by (simp_all add: small_pool_def mk_BufferPoolManager_def pages_left_def one_page_disk_def INT32_MAX_def pins_def pinned_def
      bp_content_def fun_eq_iff)

theorem pool_refines_spec_witness:
  "\<exists>r b' s'. bpm_exec (OpFetch (mk32 0)) small_pool = (Ok r, b') \<and> pool_step small_spec (OpFetch (mk32 0)) r s' \<and> pool_rel b' s'"
  by (rule pool_refines_spec [OF small_pool_rel])
    (use one_page_disk_inv(2) in \<open>simp add: allowed_def small_spec_def domIff\<close>)

text \<open>(C15) The pointer that \<open>NewPage\<close> or \<open>FetchPage\<close> hands out shows the bytes of the page, zeros for a new one, and
  stays valid while the page is held, whatever calls are made in between, by this client or
  by others: it points to the frame of the page, and what is read through it is what was last written through it.\<close>

theorem pinned_page_stays:
  assumes "bpm_inv b" and "client_ok b op" and "bpm_exec op b = (Ok (RPage (Some (p, f))), b1)" and "while_held p b1 ops b2"
  shows "GetData f b1 = (case bp_content b p of None \<Rightarrow> zero_page | Some bs \<Rightarrow> bs) \<and>
    page_table b2 p = Some f \<and> bp_content b2 p = Some (GetData f b2) \<and> GetData f b2 = last_store f ops (GetData f b1)"
proof -
  have 1: "bpm_inv b1" "page_table b1 p = Some f" "GetData f b1 = (case bp_content b p of None \<Rightarrow> zero_page | Some bs \<Rightarrow> bs)"
    using handed_out [OF assms(1-3)] by blast+
  have "bpm_inv b2" "page_table b2 p = Some f" "GetData f b2 = last_store f ops (GetData f b1)"
    using while_held_ok [OF assms(4) 1(1,2)] by blast+
  then show ?thesis using 1(3) bp.get_content by blast
qed

definition ones :: "byte list" where "ones = replicate PAGE_SIZE 1"

definition held_pool :: BufferPoolManager where
  "held_pool = snd (FetchPage (mk32 0) small_pool)"

lemma held_pool_ok:
  "bpm_inv held_pool" "pins held_pool = (\<lambda>_. 0)(mk32 0 := 1)" "FetchPage (mk32 0) small_pool = (Ok (Some 0), held_pool)"
  "page_table held_pool (mk32 0) = Some 0" "bp_content held_pool = disk_content one_page_disk" "pool_size held_pool = 2"
  "pages_left held_pool = pages_left small_pool"
proof -
  obtain bs where bs: "bp_content small_pool (mk32 0) = Some bs" using one_page_disk_inv(2) small_pool_view(5) by auto
  obtain f b where F: "FetchPage (mk32 0) small_pool = (Ok (Some f), b)" "bpm_inv b" "bp_content b = bp_content small_pool"
      "pins b = (pins small_pool)(mk32 0 := pins small_pool (mk32 0) + 1)" "page_table b (mk32 0) = Some f"
      "pool_size b = pool_size small_pool" "pages_left b = pages_left small_pool"
    using FetchPage_miss [OF small_pool_inv small_pool_view(6) bs] small_pool_view(3,4) by auto
  have "GetFreeFrame small_pool = (Ok (Some 0), small_pool\<lparr>free_list := [1]\<rparr>)"
    by (simp add: GetFreeFrame_def small_pool_def mk_BufferPoolManager_def upt_rec)
  then have "f = 0"
    using F(1) small_pool_view(6) by (auto simp: FetchPage_def Let_def bind_res_eq_Ok)
  then show "bpm_inv held_pool" "pins held_pool = (\<lambda>_. 0)(mk32 0 := 1)" "FetchPage (mk32 0) small_pool = (Ok (Some 0), held_pool)"
      "page_table held_pool (mk32 0) = Some 0" "bp_content held_pool = disk_content one_page_disk" "pool_size held_pool = 2"
      "pages_left held_pool = pages_left small_pool"
    using F small_pool_view by (simp_all add: held_pool_def fun_eq_iff)
qed

text \<open>While page 0 is held, a page is created, page 0 cannot be deleted, and it is written to.\<close>

theorem pinned_page_stays_witness:
  "\<exists>b1 b2. bpm_exec (OpFetch (mk32 0)) small_pool = (Ok (RPage (Some (mk32 0, 0))), b1) \<and>
    while_held (mk32 0) b1 [OpNew, OpDelete (mk32 0), OpStore 0 ones] b2 \<and> page_table b2 (mk32 0) = Some 0 \<and> GetData 0 b2 = ones"
proof -
  let ?p = "mk32 0" and ?ops = "[OpNew, OpDelete (mk32 0), OpStore 0 ones]"
  have f: "bpm_exec (OpFetch ?p) small_pool = (Ok (RPage (Some (?p, 0))), held_pool)" using held_pool_ok(3) by (simp add: bpm_exec_def)
  have "card (pinned held_pool) = 1" using held_pool_ok(2) by (simp add: pinned_def)
  then obtain q g b1 where N: "NewPage held_pool = (Ok (Some (q, g)), b1)" "bpm_inv b1" "pins b1 = (pins held_pool)(q := 1)"
      "\<forall>q. 0 < pins held_pool q \<longrightarrow> page_table b1 q = page_table held_pool q"
    using NewPage_ok [OF held_pool_ok(1)] held_pool_ok(6,7) small_pool_view(1) by auto
  have b1: "0 < pins b1 ?p" "page_table b1 ?p = Some 0" using N(3,4) held_pool_ok(2,4) by simp_all
  have pin: "0 < pins (SetData 0 ones b1) ?p" using SetData_ok [OF N(2) b1(2,1)] b1(1) by (simp add: ones_def)
  have "while_held ?p held_pool [] held_pool" using held_pool_ok(2) by (simp add: while_held.start)
  then have "while_held ?p held_pool ([] @ [OpNew]) b1"
    by (rule while_held.call) (use N(1) b1 held_pool_ok(7) small_pool_view(1) in \<open>simp_all add: client_ok_def bpm_exec_def\<close>)
  then have "while_held ?p held_pool (([] @ [OpNew]) @ [OpDelete ?p]) b1"
    by (rule while_held.call) (use b1 in \<open>simp_all add: client_ok_def bpm_exec_def DeletePage_pinned\<close>)
  then have "while_held ?p held_pool ((([] @ [OpNew]) @ [OpDelete ?p]) @ [OpStore 0 ones]) (SetData 0 ones b1)"
    by (rule while_held.call)
      (use b1 pin in \<open>auto simp: client_ok_def bpm_exec_def ones_def\<close>)
  then have w: "while_held ?p held_pool ?ops (SetData 0 ones b1)" by simp
  have "client_ok small_pool (OpFetch ?p)" using one_page_disk_inv(2) small_pool_view by (simp add: client_ok_def domIff)
  from pinned_page_stays [OF small_pool_inv this f w] show ?thesis using f w by auto
qed

lemma FlushAllPages_durable:
  assumes "bpm_inv b" and "\<forall>p. 0 < pins b p \<longrightarrow> settled b p" and "dom (page_table b) \<subseteq> set ord"
  obtains b' where "FlushAllPages ord b = (Ok (), b')" "bpm_inv b'" "bp_content b' = bp_content b" "disk_content (disk_manager b') = bp_content b"
    "length (db_file (disk_manager b')) < 2 ^ 31 \<longrightarrow>
      (\<exists>d. mk_DiskManager path (Some (db_file (disk_manager b'))) can_create = Ok d \<and> disk_inv d \<and> disk_content d = bp_content b)"
proof -
  have settled: "settled b p" for p
    using assms(1,2) by (cases "pins b p = 0") (auto simp: bpm_inv_def)
  obtain b' where b': "FlushAllPages ord b = (Ok (), b')" "bpm_inv b'" "bp_content b' = bp_content b"
      "\<And>q. q \<in> set ord \<or> disk_content (disk_manager b) q = bp_content b q \<Longrightarrow>
        disk_content (disk_manager b') q = bp_content b q"
    using FlushAllPages_ok [OF assms(1), of ord] settled by blast
  have "disk_content (disk_manager b') q = bp_content b q" for q
    using b'(4) [of q] assms(3) by (cases "page_table b q") (auto simp: bp_content_def)
  then have disk: "disk_content (disk_manager b') = bp_content b" by blast
  have "disk_inv (disk_manager b')" using b'(2) by (simp add: bpm_inv_def bpm_wfD)
  then show thesis using that [OF b'(1-3) disk] reopen_same disk by metis
qed

text \<open>(C14) Flushing the pool makes the pages durable: when every page is released (or unchanged since
  it was fetched), \<open>FlushAllPages\<close> leaves on disk what the clients see, in whatever order the hash
  map yields the pages; a new pool over the file, opened again, shows the same pages.\<close>

theorem flush_all_durable:
  assumes "bpm_inv b" and "\<forall>p. 0 < pins b p \<longrightarrow> settled b p" and "dom (page_table b) \<subseteq> set ord"
  shows "\<exists>b'. FlushAllPages ord b = (Ok (), b') \<and> bpm_inv b' \<and> bp_content b' = bp_content b \<and>
    disk_content (disk_manager b') = bp_content b \<and>
    (length (db_file (disk_manager b')) < 2 ^ 31 \<longrightarrow>
      (\<exists>d. mk_DiskManager path (Some (db_file (disk_manager b'))) can_create = Ok d \<and>
        bpm_inv (mk_BufferPoolManager n d) \<and> bp_content (mk_BufferPoolManager n d) = bp_content b))"
proof -
  obtain b' where b': "FlushAllPages ord b = (Ok (), b')" "bpm_inv b'" "bp_content b' = bp_content b" "disk_content (disk_manager b') = bp_content b"
      "length (db_file (disk_manager b')) < 2 ^ 31 \<longrightarrow>
        (\<exists>d. mk_DiskManager path (Some (db_file (disk_manager b'))) can_create = Ok d \<and> disk_inv d \<and> disk_content d = bp_content b)"
    by (rule FlushAllPages_durable [OF assms, of path can_create])
  then show ?thesis using bpm_inv_init bp_content_init by metis
qed

lemma one_page_content: "disk_content one_page_disk (mk32 0) = Some zero_page"
  by (simp add: one_page_disk_def disk_content_def zero_page_def page_off_def peek_def ival_mk32 INT32_MIN_def INT32_MAX_def)

text \<open>Page 0, written to, released as dirty and fetched again: what is on disk is not yet what the clients see.\<close>

definition dirty_pool :: BufferPoolManager where
  "dirty_pool = snd (FetchPage (mk32 0) (snd (UnpinPage (mk32 0) True (SetData 0 ones held_pool))))"

lemma dirty_pool_ok:
  "bpm_inv dirty_pool" "pins dirty_pool = (\<lambda>_. 0)(mk32 0 := 1)" "settled dirty_pool (mk32 0)" "dom (page_table dirty_pool) = {mk32 0}"
  "bp_content dirty_pool (mk32 0) = Some ones" "disk_content (disk_manager dirty_pool) (mk32 0) = Some zero_page"
proof -
  let ?p = "mk32 0" and ?b1 = "SetData 0 ones held_pool"
  have b1: "bpm_inv ?b1" "bp_content ?b1 ?p = Some ones" "pins ?b1 = (\<lambda>_. 0)(?p := 1)" "page_table ?b1 = page_table held_pool"
    using SetData_ok [OF held_pool_ok(1,4)] held_pool_ok(2) by (simp_all add: ones_def)
  obtain b2 where b2: "UnpinPage ?p True ?b1 = (Ok True, b2)" "bpm_inv b2" "bp_content b2 = bp_content ?b1"
      "pins b2 = (pins ?b1)(?p := pins ?b1 ?p - 1)" "page_table b2 = page_table ?b1" "settled b2 ?p"
    using UnpinPage_ok [OF b1(1), of ?p True] b1(3) by auto
  have t2: "page_table b2 ?p = Some 0" "pins b2 ?p < PIN_MAX" using b2(4,5) b1(3,4) held_pool_ok(4) by simp_all
  obtain b3 where b3: "FetchPage ?p b2 = (Ok (Some 0), b3)" "bpm_inv b3" "bp_content b3 = bp_content b2"
      "pins b3 = (pins b2)(?p := pins b2 ?p + 1)" "page_table b3 = page_table b2" "settled b3 = settled b2"
    using FetchPage_hit [OF b2(2) t2] by blast
  have d: "dirty_pool = b3" using b2(1) b3(1) by (simp add: dirty_pool_def)
  have rd: "ReadPage ?p one_page_disk = (Ok zero_page, one_page_disk)" by (rule disk.read_ok [OF one_page_disk_inv(1) one_page_content])
  have tab: "page_table held_pool = [?p \<mapsto> 0]" "disk_manager held_pool = one_page_disk"
    by (simp_all add: held_pool_def FetchPage_def Let_def GetFreeFrame_def small_pool_def mk_BufferPoolManager_def upt_rec
        on_disk_def SetData_def rd)
  have "disk_manager b3 = disk_manager b2" using b3(1) t2(1) by (auto simp: FetchPage_def Let_def split: if_splits)
  moreover have "disk_manager b2 = disk_manager held_pool"
    using b2(1) b1(4) held_pool_ok(4) by (auto simp: UnpinPage_def SetData_def Let_def split: if_splits)
  ultimately show "disk_content (disk_manager dirty_pool) ?p = Some zero_page" by (simp add: d tab one_page_content)
  show "bpm_inv dirty_pool" "pins dirty_pool = (\<lambda>_. 0)(?p := 1)" "settled dirty_pool ?p" "dom (page_table dirty_pool) = {?p}"
      "bp_content dirty_pool ?p = Some ones"
    using b1 b2 b3 tab by (simp_all add: d)
qed

theorem flush_all_durable_witness:
  "\<exists>b'. disk_content (disk_manager dirty_pool) (mk32 0) = Some zero_page \<and> FlushAllPages [mk32 0] dirty_pool = (Ok (), b') \<and>
    bpm_inv b' \<and> disk_content (disk_manager b') (mk32 0) = Some ones \<and> zero_page \<noteq> ones"
proof -
  have "\<forall>p. 0 < pins dirty_pool p \<longrightarrow> settled dirty_pool p" using dirty_pool_ok(2,3) by simp
  moreover have "dom (page_table dirty_pool) \<subseteq> set [mk32 0]" using dirty_pool_ok(4) by simp
  moreover have "zero_page \<noteq> ones" by (simp add: zero_page_def ones_def PAGE_SIZE_def)
  ultimately show ?thesis
    using flush_all_durable [OF dirty_pool_ok(1), of "[mk32 0]"] dirty_pool_ok(5,6) by metis
qed

text \<open>\<open>DeletePage\<close> frees the frame of a page nobody holds and refuses a held one. The page
  itself stays allocated: its id can be fetched again, with the bytes last written to disk, so
  that what was changed since is dropped.\<close>

theorem delete_drops_changes:
  assumes "bpm_inv b" and "bp_content b p \<noteq> None"
  shows "(0 < pins b p \<and> DeletePage p b = (Ok False, b)) \<or>
    (pins b p = 0 \<and> (\<exists>b'. DeletePage p b = (Ok True, b') \<and> bpm_inv b' \<and> page_table b' p = None \<and>
      bp_content b' = (bp_content b)(p := disk_content (disk_manager b) p) \<and>
      bp_content b' p \<noteq> None))"
proof (cases "0 < pins b p")
  case False
  have "bp_content b p = None \<longleftrightarrow> disk_content (disk_manager b) p = None"
    using assms(1) bpm_wfD(8,9) [of b] by (auto simp: bp_content_def bpm_inv_def split: option.split)
  with False show ?thesis using DeletePage_ok [OF assms(1), of p] assms(2) by auto
qed (simp add: DeletePage_pinned)

theorem delete_drops_changes_witness:
  "(0 < pins held_pool (mk32 0) \<and> DeletePage (mk32 0) held_pool = (Ok False, held_pool)) \<or>
   (pins held_pool (mk32 0) = 0 \<and> (\<exists>b'. DeletePage (mk32 0) held_pool = (Ok True, b') \<and> bpm_inv b' \<and>
      page_table b' (mk32 0) = None \<and>
      bp_content b' = (bp_content held_pool)(mk32 0 := disk_content (disk_manager held_pool) (mk32 0)) \<and>
      bp_content b' (mk32 0) \<noteq> None))"
  by (rule delete_drops_changes [OF held_pool_ok(1)])
    (use held_pool_ok(4) in \<open>simp add: bp_content_def\<close>)

end
