(* ===== verification/Heap_File.thy ===== *)
theory Heap_File
  imports Buffer_Pool "HOL-Library.Multiset"
begin

text \<open>
  \<open>src/src/storage/heap_file.cpp\<close>: the rows of a table in a chain of pages. A page starts with the
  number of rows and the id of the next page, 8 bytes in all; the rows follow without gaps. Every
  access goes through the buffer pool. The abstract value of a heap file is the sequence of its rows
  with their record ids; the locale \<open>row_store\<close> is what the layers above use of it.
\<close>

section \<open>Definitions\<close>

definition HEAP_HEADER_SIZE :: nat where "HEAP_HEADER_SIZE = 8"

definition NumTuples :: "byte list \<Rightarrow> u32" where
  "NumTuples d = get32 0 d"

definition set_NumTuples :: "u32 \<Rightarrow> byte list \<Rightarrow> byte list" where
  "set_NumTuples n d = put32 0 n d"

definition NextPageId :: "byte list \<Rightarrow> page_id_t" where
  "NextPageId d = I32 (get32 4 d)"

definition set_NextPageId :: "page_id_t \<Rightarrow> byte list \<Rightarrow> byte list" where
  "set_NextPageId p d = put32 4 (bits32 p) d"

text \<open>The offset of a slot; the product is taken in \<open>uint32_t\<close>.\<close>

definition TupleSlot :: "u32 \<Rightarrow> u32 \<Rightarrow> nat" where
  "TupleSlot slot sz = HEAP_HEADER_SIZE + unat (slot * sz)"

record HeapFile =
  schema :: Schema
  first_page_id :: page_id_t
  last_page_id :: page_id_t

type_synonym heap_state = "HeapFile \<times> BufferPoolManager"

text \<open>A call on the buffer pool the heap file points to.\<close>

definition on_pool :: "(BufferPoolManager \<Rightarrow> ('a, BufferPoolManager) res) \<Rightarrow> heap_state \<Rightarrow>
    ('a, heap_state) res" where
  "on_pool call s = (let (r, b) = call (snd s) in (r, (fst s, b)))"

text \<open>The division faults for rows of no bytes.\<close>

definition MaxTuplesPerPage :: "Schema \<Rightarrow> u32 outcome" where
  "MaxTuplesPerPage sch =
     (if tuple_size sch = 0 then Fault
      else Ok (word_of_nat (PAGE_SIZE - HEAP_HEADER_SIZE) div tuple_size sch))"

definition AllocateHeapPage :: "BufferPoolManager \<Rightarrow> (page_id_t, BufferPoolManager) res" where
  "AllocateHeapPage b = bind_res (NewPage b) (\<lambda>r b1. case r of
      None \<Rightarrow> (Throw (Runtime_Error (''Buffer pool full '' @ em_dash @ '' cannot allocate heap page'')), b1)
    | Some (pid, f) \<Rightarrow>
        let b2 = SetData f (set_NextPageId INVALID_PAGE_ID (set_NumTuples 0 (GetData f b1))) b1
        in bind_res (UnpinPage pid True b2) (\<lambda>_ b3. (Ok pid, b3)))"

definition HeapFile_create :: "Schema \<Rightarrow> BufferPoolManager \<Rightarrow> (HeapFile, BufferPoolManager) res" where
  "HeapFile_create sch b = bind_res (AllocateHeapPage b) (\<lambda>pid b1.
     (Ok \<lparr>schema = sch, first_page_id = pid, last_page_id = pid\<rparr>, b1))"

text \<open>
  The loops over the chain do not end when the chain has a cycle: \<open>None\<close> is a loop that does not
  end. The constructor that opens a file follows the pointer it gets from \<open>FetchPage\<close> unchecked.
\<close>

partial_function (option) walk_chain ::
  "page_id_t \<Rightarrow> BufferPoolManager \<Rightarrow> (page_id_t, BufferPoolManager) res option" where
  "walk_chain cur b = (case FetchPage cur b of
      (Ok (Some f), b1) \<Rightarrow>
        (let next = NextPageId (GetData f b1); b2 = snd (UnpinPage cur False b1)
         in if next = INVALID_PAGE_ID then Some (Ok cur, b2) else walk_chain next b2)
    | (Ok None, b1) \<Rightarrow> Some (Fault, b1)
    | (Throw e, b1) \<Rightarrow> Some (Throw e, b1)
    | (Fault, b1) \<Rightarrow> Some (Fault, b1))"

definition HeapFile_open :: "Schema \<Rightarrow> page_id_t \<Rightarrow> BufferPoolManager \<Rightarrow>
    (HeapFile, BufferPoolManager) res option" where
  "HeapFile_open sch first b = map_option (\<lambda>r. bind_res r (\<lambda>lst b1.
     (Ok \<lparr>schema = sch, first_page_id = first, last_page_id = lst\<rparr>, b1))) (walk_chain first b)"

text \<open>The block of \<open>InsertTuple\<close> for a full last page: append a page and fetch it.\<close>

definition grow_chain :: "heap_state \<Rightarrow> (frame_id_t option, heap_state) res" where
  "grow_chain s =
     bind_res (on_pool (UnpinPage (last_page_id (fst s)) False) s) (\<lambda>_ s1.
       case on_pool AllocateHeapPage s1 of
         (Throw e, s2) \<Rightarrow> (Ok None, s2)
       | (Fault, s2) \<Rightarrow> (Fault, s2)
       | (Ok new_pid, s2) \<Rightarrow>
           bind_res (on_pool (FetchPage (last_page_id (fst s2))) s2) (\<lambda>fo s3. case fo of
             None \<Rightarrow> (Ok None, s3)
           | Some f \<Rightarrow>
               let (h, b) = s3; b' = SetData f (set_NextPageId new_pid (GetData f b)) b
               in bind_res (on_pool (UnpinPage (last_page_id h) True) (h, b')) (\<lambda>_ s4.
                 let s5 = ((fst s4)\<lparr>last_page_id := new_pid\<rparr>, snd s4)
                 in on_pool (FetchPage new_pid) s5)))"

text \<open>The end of \<open>InsertTuple\<close>: copy the row into the next slot. A copy beyond the page faults.\<close>

definition put_tuple :: "Tuple \<Rightarrow> frame_id_t \<Rightarrow> heap_state \<Rightarrow> (RID option, heap_state) res" where
  "put_tuple t f s =
     (let (h, b) = s; sz = tuple_size (schema h); bs = GetData f b; slot = NumTuples bs;
          off = TupleSlot slot sz
      in if length t < unat sz \<or> length bs < off + unat sz then (Fault, s)
         else let b1 = SetData f (set_NumTuples (slot + 1) (poke off (take (unat sz) t) bs)) b
              in bind_res (on_pool (UnpinPage (last_page_id h) True) (h, b1)) (\<lambda>_ s2.
                   (Ok (Some \<lparr>page_id = last_page_id h, slot_num = slot\<rparr>), s2)))"

definition InsertTuple :: "Tuple \<Rightarrow> heap_state \<Rightarrow> (RID option, heap_state) res" where
  "InsertTuple t s =
     bind_res (on_pool (FetchPage (last_page_id (fst s))) s) (\<lambda>fo s1. case fo of
        None \<Rightarrow> (Ok None, s1)
      | Some f \<Rightarrow>
          (case MaxTuplesPerPage (schema (fst s1)) of
             Ok mx \<Rightarrow>
               bind_res (if mx \<le> NumTuples (GetData f (snd s1)) then grow_chain s1 else (Ok (Some f), s1))
                 (\<lambda>go s2. case go of None \<Rightarrow> (Ok None, s2) | Some g \<Rightarrow> put_tuple t g s2)
           | _ \<Rightarrow> (Fault, s1)))"

text \<open>
  The callback of \<open>Scan\<close> is a function on a state of its own (the closures of the callers write
  to variables they captured); it returns whether to go on.
\<close>

fun scan_slots :: "byte list \<Rightarrow> u32 \<Rightarrow> page_id_t \<Rightarrow> (RID \<Rightarrow> Tuple \<Rightarrow> 'c \<Rightarrow> bool \<times> 'c) \<Rightarrow>
    nat list \<Rightarrow> 'c \<Rightarrow> (bool \<times> 'c) outcome" where
  "scan_slots bs sz cur cb [] c = Ok (True, c)"
| "scan_slots bs sz cur cb (i # is) c =
     bind_out (FromBytes (drop (TupleSlot (word_of_nat i) sz) bs) (unat sz)) (\<lambda>t.
       let (go, c1) = cb \<lparr>page_id = cur, slot_num = word_of_nat i\<rparr> t c
       in if go then scan_slots bs sz cur cb is c1 else Ok (False, c1))"

partial_function (option) scan_from ::
  "u32 \<Rightarrow> (RID \<Rightarrow> Tuple \<Rightarrow> 'c \<Rightarrow> bool \<times> 'c) \<Rightarrow> page_id_t \<Rightarrow> 'c \<Rightarrow> BufferPoolManager \<Rightarrow>
   ('c, BufferPoolManager) res option" where
  "scan_from sz cb cur c b =
     (if cur = INVALID_PAGE_ID then Some (Ok c, b)
      else (case FetchPage cur b of
        (Ok None, b1) \<Rightarrow> Some (Ok c, b1)
      | (Ok (Some f), b1) \<Rightarrow>
          (let bs = GetData f b1; next = NextPageId bs
           in (case scan_slots bs sz cur cb [0..<unat (NumTuples bs)] c of
                 Ok (go, c1) \<Rightarrow>
                   (if go then scan_from sz cb next c1 (snd (UnpinPage cur False b1))
                    else Some (Ok c1, snd (UnpinPage cur False b1)))
               | Throw e \<Rightarrow> Some (Throw e, b1)
               | Fault \<Rightarrow> Some (Fault, b1)))
      | (Throw e, b1) \<Rightarrow> Some (Throw e, b1)
      | (Fault, b1) \<Rightarrow> Some (Fault, b1)))"

definition Scan :: "HeapFile \<Rightarrow> (RID \<Rightarrow> Tuple \<Rightarrow> 'c \<Rightarrow> bool \<times> 'c) \<Rightarrow> 'c \<Rightarrow> BufferPoolManager \<Rightarrow>
    ('c, BufferPoolManager) res option" where
  "Scan h cb c b = scan_from (tuple_size (schema h)) cb (first_page_id h) c b"

partial_function (option) page_ids_from ::
  "page_id_t \<Rightarrow> page_id_t list \<Rightarrow> BufferPoolManager \<Rightarrow>
   (page_id_t list, BufferPoolManager) res option" where
  "page_ids_from cur ids b =
     (if cur = INVALID_PAGE_ID then Some (Ok ids, b)
      else (case FetchPage cur b of
        (Ok None, b1) \<Rightarrow> Some (Ok (ids @ [cur]), b1)
      | (Ok (Some f), b1) \<Rightarrow>
          page_ids_from (NextPageId (GetData f b1)) (ids @ [cur]) (snd (UnpinPage cur False b1))
      | (Throw e, b1) \<Rightarrow> Some (Throw e, b1)
      | (Fault, b1) \<Rightarrow> Some (Fault, b1)))"

definition GetPageIds :: "HeapFile \<Rightarrow> BufferPoolManager \<Rightarrow>
    (page_id_t list, BufferPoolManager) res option" where
  "GetPageIds h b = page_ids_from (first_page_id h) [] b"

text \<open>\<open>ScanPage\<close> ignores the result of its callback, which has none.\<close>

definition ScanPage :: "HeapFile \<Rightarrow> page_id_t \<Rightarrow> (RID \<Rightarrow> Tuple \<Rightarrow> 'c \<Rightarrow> 'c) \<Rightarrow> 'c \<Rightarrow>
    BufferPoolManager \<Rightarrow> ('c, BufferPoolManager) res" where
  "ScanPage h p cb c b = bind_res (FetchPage p b) (\<lambda>fo b1. case fo of
      None \<Rightarrow> (Ok c, b1)
    | Some f \<Rightarrow>
        (let bs = GetData f b1
         in (case scan_slots bs (tuple_size (schema h)) p (\<lambda>r t c. (True, cb r t c))
                   [0..<unat (NumTuples bs)] c of
               Ok (_, c1) \<Rightarrow> bind_res (UnpinPage p False b1) (\<lambda>_ b2. (Ok c1, b2))
             | Throw e \<Rightarrow> (Throw e, b1)
             | Fault \<Rightarrow> (Fault, b1))))"

section \<open>The rows of a heap file\<close>

definition rows_per_page :: "nat \<Rightarrow> nat" where
  "rows_per_page sz = (PAGE_SIZE - HEAP_HEADER_SIZE) div sz"

abbreviation row_at :: "page_id_t \<Rightarrow> nat \<Rightarrow> byte list \<Rightarrow> nat \<Rightarrow> RID \<times> Tuple" where
  "row_at p sz bs i \<equiv>
     (\<lparr>page_id = p, slot_num = word_of_nat i\<rparr>, peek (HEAP_HEADER_SIZE + i * sz) sz bs)"

definition page_rows :: "page_id_t \<Rightarrow> nat \<Rightarrow> byte list \<Rightarrow> (RID \<times> Tuple) list" where
  "page_rows p sz bs = map (row_at p sz bs) [0..<unat (NumTuples bs)]"

definition heap_rows :: "(page_id_t \<Rightarrow> byte list option) \<Rightarrow> nat \<Rightarrow> page_id_t list \<Rightarrow> (RID \<times> Tuple) list" where
  "heap_rows m sz ps = concat (map (\<lambda>p. page_rows p sz (the (m p))) ps)"

text \<open>\<open>chain m e ps\<close>: each page of \<open>ps\<close> points to the next one, the last to \<open>e\<close>.\<close>

fun chain :: "(page_id_t \<Rightarrow> byte list option) \<Rightarrow> page_id_t \<Rightarrow> page_id_t list \<Rightarrow> bool" where
  "chain m e [] = True"
| "chain m e (p # ps) = ((\<exists>bs. m p = Some bs \<and> NextPageId bs = hd (ps @ [e])) \<and> chain m e ps)"

definition row_width_ok :: "Schema \<Rightarrow> bool" where
  "row_width_ok sch \<longleftrightarrow> 0 < unat (tuple_size sch) \<and> unat (tuple_size sch) \<le> PAGE_SIZE - HEAP_HEADER_SIZE"

definition page_fits :: "nat \<Rightarrow> byte list \<Rightarrow> bool" where
  "page_fits sz bs \<longleftrightarrow> length bs = PAGE_SIZE \<and> unat (NumTuples bs) \<le> rows_per_page sz"

definition heap_inv :: "(page_id_t \<Rightarrow> byte list option) \<Rightarrow> HeapFile \<Rightarrow> page_id_t list \<Rightarrow> bool" where
  "heap_inv m h ps \<longleftrightarrow> row_width_ok (schema h) \<and> ps \<noteq> [] \<and> distinct ps \<and>
     chain m INVALID_PAGE_ID ps \<and> first_page_id h = hd ps \<and> last_page_id h = last ps \<and>
     (\<forall>p \<in> set ps. page_fits (unat (tuple_size (schema h))) (the (m p))) \<and>
     (\<forall>p \<in> set (butlast ps).
        unat (NumTuples (the (m p))) = rows_per_page (unat (tuple_size (schema h))))"

text \<open>What a scan does with the rows it meets: stop at the first row the callback refuses.\<close>

fun feed :: "(RID \<Rightarrow> Tuple \<Rightarrow> 'c \<Rightarrow> bool \<times> 'c) \<Rightarrow> (RID \<times> Tuple) list \<Rightarrow> 'c \<Rightarrow> bool \<times> 'c" where
  "feed cb [] c = (True, c)"
| "feed cb ((r, t) # xs) c = (let (go, c1) = cb r t c in if go then feed cb xs c1 else (False, c1))"

lemma feed_append:
  "feed cb (xs @ ys) c = (let (go, c1) = feed cb xs c in if go then feed cb ys c1 else (False, c1))"
  by (induction cb xs c rule: feed.induct) (auto split: prod.splits)

lemma chain_append:
  "chain m e (xs @ ys) \<longleftrightarrow> chain m (hd (ys @ [e])) xs \<and> chain m e ys"
proof (induction xs)
  case (Cons x xs)
  show ?case by (cases xs; cases ys) (use Cons in auto)
qed simp

lemma chain_dom: "chain m e ps \<Longrightarrow> p \<in> set ps \<Longrightarrow> \<exists>bs. m p = Some bs"
  by (induction ps) auto

lemma chain_cong:
  "chain m e ps \<Longrightarrow> (\<And>p bs. p \<in> set ps \<Longrightarrow> m p = Some bs \<Longrightarrow>
     \<exists>bs'. m' p = Some bs' \<and> NextPageId bs' = NextPageId bs) \<Longrightarrow> chain m' e ps"
  by (induction ps) fastforce+

lemma heap_rows_append [simp]: "heap_rows m sz (ps @ qs) = heap_rows m sz ps @ heap_rows m sz qs"
  by (simp add: heap_rows_def)

lemma heap_rows_single [simp]: "heap_rows m sz [p] = page_rows p sz (the (m p))"
  by (simp add: heap_rows_def)

lemma heap_rows_cong: "(\<And>p. p \<in> set ps \<Longrightarrow> m' p = m p) \<Longrightarrow> heap_rows m' sz ps = heap_rows m sz ps"
  by (simp add: heap_rows_def cong: map_cong)

subsection \<open>Bytes of a page\<close>

lemma page_bytes_simps:
  assumes "length bs = PAGE_SIZE"
  shows "length (set_NumTuples n bs) = PAGE_SIZE" "length (set_NextPageId p bs) = PAGE_SIZE"
    "NumTuples (set_NumTuples n bs) = n" "NextPageId (set_NumTuples n bs) = NextPageId bs"
    "NumTuples (set_NextPageId p bs) = NumTuples bs" "NextPageId (set_NextPageId p bs) = p"
  using assms
  by (simp_all add: NumTuples_def NextPageId_def set_NumTuples_def set_NextPageId_def PAGE_SIZE_def)

lemma row_fits:
  assumes "i < rows_per_page sz"
  shows "HEAP_HEADER_SIZE + i * sz + sz \<le> PAGE_SIZE"
proof -
  have "(i + 1) * sz \<le> rows_per_page sz * sz" using assms by (intro mult_le_mono1) simp
  also have "\<dots> \<le> PAGE_SIZE - HEAP_HEADER_SIZE"
    unfolding rows_per_page_def by (rule div_times_less_eq_dividend)
  finally show ?thesis by (simp add: PAGE_SIZE_def HEAP_HEADER_SIZE_def)
qed

lemma rows_per_page_bound: "rows_per_page sz \<le> 4088"
  unfolding rows_per_page_def PAGE_SIZE_def HEAP_HEADER_SIZE_def
  by (rule le_trans [OF div_le_dividend]) simp

lemma unat_small: "i \<le> 5000 \<Longrightarrow> unat (word_of_nat i :: u32) = i"
  by (simp add: unat_of_nat)

lemma TupleSlot_eq:
  assumes "i < rows_per_page (unat sz)"
  shows "TupleSlot (word_of_nat i) sz = HEAP_HEADER_SIZE + i * unat sz"
proof -
  have "i * unat sz < 4096" "i \<le> 5000"
    using row_fits [OF assms] rows_per_page_bound [of "unat sz"] assms
    by (auto simp: PAGE_SIZE_def HEAP_HEADER_SIZE_def)
  then have "unat (word_of_nat i * sz) = i * unat sz"
    by (simp add: unat_mult_lem [THEN iffD1] unat_small)
  then show ?thesis by (simp add: TupleSlot_def)
qed

lemma MaxTuplesPerPage_ok:
  "row_width_ok sch \<Longrightarrow> \<exists>mx. MaxTuplesPerPage sch = Ok mx \<and> unat mx = rows_per_page (unat (tuple_size sch))"
  by (auto simp: MaxTuplesPerPage_def row_width_ok_def rows_per_page_def unat_div_distrib PAGE_SIZE_def
      HEAP_HEADER_SIZE_def)

lemma scan_slots_ok:
  assumes "length bs = PAGE_SIZE" and "\<forall>i \<in> set is. i < rows_per_page (unat sz)"
  shows "scan_slots bs sz p cb is c = Ok (feed cb (map (row_at p (unat sz) bs) is) c)"
  using assms(2)
proof (induction "is" arbitrary: c)
  case (Cons i "is")
  then have "FromBytes (drop (TupleSlot (word_of_nat i) sz) bs) (unat sz) =
      Ok (peek (HEAP_HEADER_SIZE + i * unat sz) (unat sz) bs)"
    using row_fits [of i "unat sz"] assms(1) by (simp add: FromBytes_def TupleSlot_eq peek_def)
  with Cons show ?case by (simp split: prod.splits)
qed simp

lemma scan_page_ok:
  assumes "page_fits (unat sz) bs"
  shows "scan_slots bs sz p cb [0..<unat (NumTuples bs)] c = Ok (feed cb (page_rows p (unat sz) bs) c)"
  using assms scan_slots_ok [of bs "[0..<unat (NumTuples bs)]" sz p cb c]
  by (auto simp: page_fits_def page_rows_def)

section \<open>Reading\<close>

lemma idle_not_invalid: "bpm_idle b m k l \<Longrightarrow> m p = Some bs \<Longrightarrow> p \<noteq> INVALID_PAGE_ID"
  using bp.content_invalid by (auto simp: bpm_idle_def)

lemma idle_length: "bpm_idle b m k l \<Longrightarrow> m p = Some bs \<Longrightarrow> length bs = PAGE_SIZE"
  using bp.content_size by (auto simp: bpm_idle_def)

lemma walk_chain_ok:
  assumes "chain m INVALID_PAGE_ID (p # ps)" and "bpm_idle b m k l" and "0 < k"
  shows "\<exists>b'. walk_chain p b = Some (Ok (last (p # ps)), b') \<and> bpm_idle b' m k l"
  using assms(1,2)
proof (induction ps arbitrary: p b)
  case Nil
  then obtain bs where "m p = Some bs" "NextPageId bs = INVALID_PAGE_ID" by auto
  then show ?case
    using bp.read_page [OF Nil.prems(2) assms(3), of p] by (auto simp: walk_chain.simps [of p b])
next
  case (Cons q ps)
  then obtain bs where bs: "m p = Some bs" "NextPageId bs = q" "chain m INVALID_PAGE_ID (q # ps)" by auto
  obtain f b1 b2 where b2: "FetchPage p b = (Ok (Some f), b1)" "GetData f b1 = bs"
      "UnpinPage p False b1 = (Ok True, b2)" "bpm_idle b2 m k l"
    using bp.read_page [OF Cons.prems(2) assms(3) bs(1)] by blast
  have "q \<noteq> INVALID_PAGE_ID" using bs(3) idle_not_invalid [OF b2(4)] by auto
  with b2 bs(2) have "walk_chain p b = walk_chain q b2" by (simp add: walk_chain.simps [of p b])
  with Cons.IH [OF bs(3) b2(4)] show ?case by simp
qed

lemma scan_from_ok:
  assumes "chain m INVALID_PAGE_ID ps" and "bpm_idle b m k l" and "0 < k"
    and "\<forall>p \<in> set ps. page_fits (unat sz) (the (m p))"
  shows "\<exists>b'. scan_from sz cb (hd (ps @ [INVALID_PAGE_ID])) c b =
    Some (Ok (snd (feed cb (heap_rows m (unat sz) ps) c)), b') \<and> bpm_idle b' m k l"
  using assms(1,2,4)
proof (induction ps arbitrary: b c)
  case Nil
  then show ?case by (simp add: scan_from.simps heap_rows_def)
next
  case (Cons p ps)
  then obtain bs where bs: "m p = Some bs" "NextPageId bs = hd (ps @ [INVALID_PAGE_ID])"
      "chain m INVALID_PAGE_ID ps" by auto
  obtain f b1 b2 where b2: "FetchPage p b = (Ok (Some f), b1)" "GetData f b1 = bs"
      "UnpinPage p False b1 = (Ok True, b2)" "bpm_idle b2 m k l"
    using bp.read_page [OF Cons.prems(2) assms(3) bs(1)] by blast
  have p: "p \<noteq> INVALID_PAGE_ID" using idle_not_invalid [OF b2(4) bs(1)] .
  obtain go c1 where g: "feed cb (page_rows p (unat sz) bs) c = (go, c1)" by fastforce
  have "scan_slots bs sz p cb [0..<unat (NumTuples bs)] c = Ok (go, c1)"
    using scan_page_ok [of sz bs p cb c] Cons.prems(3) bs(1) g by simp
  then have step: "scan_from sz cb p c b =
      (if go then scan_from sz cb (hd (ps @ [INVALID_PAGE_ID])) c1 b2 else Some (Ok c1, b2))"
    using p b2 bs(2) by (simp add: scan_from.simps [of sz cb p c b] Let_def)
  have rows: "heap_rows m (unat sz) (p # ps) = page_rows p (unat sz) bs @ heap_rows m (unat sz) ps"
    using bs(1) by (simp add: heap_rows_def)
  show ?case
    using Cons.IH [OF bs(3) b2(4)] Cons.prems(3) b2(4)
    by (simp add: step rows feed_append g)
qed

lemma page_ids_from_ok:
  assumes "chain m INVALID_PAGE_ID ps" and "bpm_idle b m k l" and "0 < k"
  shows "\<exists>b'. page_ids_from (hd (ps @ [INVALID_PAGE_ID])) ids b = Some (Ok (ids @ ps), b') \<and> bpm_idle b' m k l"
  using assms(1,2)
proof (induction ps arbitrary: b ids)
  case Nil
  then show ?case by (simp add: page_ids_from.simps)
next
  case (Cons p ps)
  then obtain bs where bs: "m p = Some bs" "NextPageId bs = hd (ps @ [INVALID_PAGE_ID])"
      "chain m INVALID_PAGE_ID ps" by auto
  obtain f b1 b2 where b2: "FetchPage p b = (Ok (Some f), b1)" "GetData f b1 = bs"
      "UnpinPage p False b1 = (Ok True, b2)" "bpm_idle b2 m k l"
    using bp.read_page [OF Cons.prems(2) assms(3) bs(1)] by blast
  have "p \<noteq> INVALID_PAGE_ID" using idle_not_invalid [OF b2(4) bs(1)] .
  with b2 bs(2) have "page_ids_from p ids b = page_ids_from (hd (ps @ [INVALID_PAGE_ID])) (ids @ [p]) b2"
    by (simp add: page_ids_from.simps [of p ids b])
  with Cons.IH [OF bs(3) b2(4), of "ids @ [p]"] show ?case by simp
qed

lemma ScanPage_ok:
  assumes "bpm_idle b m k l" and "0 < k" and "m p = Some bs" and "page_fits (unat (tuple_size (schema h))) bs"
  shows "\<exists>b'. ScanPage h p cb c b =
    (Ok (fold (\<lambda>(r, t). cb r t) (page_rows p (unat (tuple_size (schema h))) bs) c), b') \<and> bpm_idle b' m k l"
proof -
  have feed: "feed (\<lambda>r t c. (True, cb r t c)) xs c = (True, fold (\<lambda>(r, t). cb r t) xs c)" for xs c
    by (induction xs arbitrary: c) auto
  show ?thesis
    using bp.read_page [OF assms(1-3)] scan_page_ok [OF assms(4), of p "\<lambda>r t c. (True, cb r t c)" c]
    by (auto simp: ScanPage_def feed)
qed

section \<open>Creating and inserting\<close>

definition fresh_heap_page :: "byte list" where
  "fresh_heap_page = set_NextPageId INVALID_PAGE_ID (set_NumTuples 0 zero_page)"

lemma fresh_heap_page_simps [simp]:
  "length fresh_heap_page = PAGE_SIZE" "NumTuples fresh_heap_page = 0"
  "NextPageId fresh_heap_page = INVALID_PAGE_ID" "page_rows p sz fresh_heap_page = []"
  by (simp_all add: fresh_heap_page_def page_bytes_simps zero_page_def page_rows_def)

lemma AllocateHeapPage_ok:
  assumes "bpm_idle b m k l" and "0 < k" and "0 < l"
  shows "\<exists>p b'. AllocateHeapPage b = (Ok p, b') \<and> m p = None \<and> p \<noteq> INVALID_PAGE_ID \<and>
    bpm_idle b' (m(p \<mapsto> fresh_heap_page)) k (l - 1)"
proof -
  obtain p f b1 where b1: "NewPage b = (Ok (Some (p, f)), b1)" "m p = None" "p \<noteq> INVALID_PAGE_ID"
      "GetData f b1 = zero_page"
      "\<And>bs'. length bs' = PAGE_SIZE \<Longrightarrow>
        \<exists>b2. UnpinPage p True (SetData f bs' b1) = (Ok True, b2) \<and> bpm_idle b2 (m(p \<mapsto> bs')) k (l - 1)"
    using bp.create_page [OF assms] by blast
  obtain b2 where "UnpinPage p True (SetData f fresh_heap_page b1) = (Ok True, b2)"
      "bpm_idle b2 (m(p \<mapsto> fresh_heap_page)) k (l - 1)"
    using b1(5) [OF fresh_heap_page_simps(1)] by blast
  with b1 show ?thesis by (simp add: AllocateHeapPage_def fresh_heap_page_def)
qed

lemma HeapFile_create_ok:
  assumes "bpm_idle b m k l" and "0 < k" and "0 < l" and "row_width_ok sch"
  shows "\<exists>h p b'. HeapFile_create sch b = (Ok h, b') \<and> schema h = sch \<and> m p = None \<and>
    bpm_idle b' (m(p \<mapsto> fresh_heap_page)) k (l - 1) \<and> heap_inv (m(p \<mapsto> fresh_heap_page)) h [p]"
  using AllocateHeapPage_ok [OF assms(1-3)] assms(4)
  by (auto simp: HeapFile_create_def heap_inv_def page_fits_def)

text \<open>The page after a row was put into its next slot.\<close>

definition with_row :: "nat \<Rightarrow> Tuple \<Rightarrow> byte list \<Rightarrow> byte list" where
  "with_row sz t bs = set_NumTuples (NumTuples bs + 1)
     (poke (HEAP_HEADER_SIZE + unat (NumTuples bs) * sz) t bs)"

lemma with_row_ok:
  assumes "length bs = PAGE_SIZE" and "unat (NumTuples bs) < rows_per_page sz" and "length t = sz"
  shows "page_fits sz (with_row sz t bs)" "NextPageId (with_row sz t bs) = NextPageId bs"
    "page_rows p sz (with_row sz t bs) =
      page_rows p sz bs @ [(\<lparr>page_id = p, slot_num = NumTuples bs\<rparr>, t)]"
proof -
  let ?n = "NumTuples bs" and ?bs = "poke (HEAP_HEADER_SIZE + unat (NumTuples bs) * sz) t bs"
  have fit: "HEAP_HEADER_SIZE + unat ?n * sz + length t \<le> length bs"
    using row_fits [OF assms(2)] assms by simp
  then have len: "length ?bs = PAGE_SIZE" using assms(1) by simp
  have "unat ?n < 5000" using assms(2) rows_per_page_bound [of sz] by linarith
  then have n: "unat (?n + 1) = unat ?n + 1"
    by (simp add: unat_add_lem [THEN iffD1])
  have count: "NumTuples (with_row sz t bs) = ?n + 1"
    by (simp add: with_row_def page_bytes_simps [OF len])
  then show "page_fits sz (with_row sz t bs)"
    using assms(2) n len by (simp add: page_fits_def with_row_def page_bytes_simps)
  show "NextPageId (with_row sz t bs) = NextPageId bs"
    using fit by (simp add: with_row_def page_bytes_simps [OF len])
      (simp add: NextPageId_def get32_poke_other HEAP_HEADER_SIZE_def)
  have row: "row_at p sz (with_row sz t bs) i = row_at p sz bs i" if "i < unat ?n" for i
  proof -
    have "(i + 1) * sz \<le> unat ?n * sz" using that by (intro mult_le_mono1) simp
    then show ?thesis
      using fit len assms(1)
      by (simp add: with_row_def set_NumTuples_def peek_put32_other peek_poke_disjoint
          HEAP_HEADER_SIZE_def PAGE_SIZE_def)
  qed
  have last: "row_at p sz (with_row sz t bs) (unat ?n) = (\<lparr>page_id = p, slot_num = ?n\<rparr>, t)"
    using fit len assms(1,3)
    by (simp add: with_row_def set_NumTuples_def peek_put32_other peek_poke_same HEAP_HEADER_SIZE_def
        PAGE_SIZE_def)
  show "page_rows p sz (with_row sz t bs) =
      page_rows p sz bs @ [(\<lparr>page_id = p, slot_num = ?n\<rparr>, t)]"
    unfolding page_rows_def count n using row last by simp
qed

lemma put_tuple_ok:
  assumes "GetData f b = bs" and "page_fits (unat (tuple_size (schema h))) bs"
    and "unat (NumTuples bs) < rows_per_page (unat (tuple_size (schema h)))"
    and "length t = unat (tuple_size (schema h))"
    and "UnpinPage (last_page_id h) True (SetData f (with_row (unat (tuple_size (schema h))) t bs) b) = (Ok True, b')"
  shows "put_tuple t f (h, b) = (Ok (Some \<lparr>page_id = last_page_id h, slot_num = NumTuples bs\<rparr>), (h, b'))"
proof -
  let ?sz = "tuple_size (schema h)"
  have "TupleSlot (NumTuples bs) ?sz = HEAP_HEADER_SIZE + unat (NumTuples bs) * unat ?sz"
    using TupleSlot_eq [OF assms(3)] by simp
  moreover have "\<not> length bs < HEAP_HEADER_SIZE + unat (NumTuples bs) * unat ?sz + unat ?sz"
    using row_fits [OF assms(3)] assms(2) by (simp add: page_fits_def)
  ultimately show ?thesis
    using assms(1,4,5) by (simp add: put_tuple_def on_pool_def Let_def with_row_def)
qed

lemma grow_chain_ok:
  assumes "bpm_idle b m k l" and "0 < k" and "0 < l" and "m (last_page_id h) = Some bs"
  shows "\<exists>f b1 q g b2. FetchPage (last_page_id h) b = (Ok (Some f), b1) \<and> GetData f b1 = bs \<and>
    grow_chain (h, b1) = (Ok (Some g), (h\<lparr>last_page_id := q\<rparr>, b2)) \<and>
    GetData g b2 = fresh_heap_page \<and> m q = None \<and> q \<noteq> INVALID_PAGE_ID \<and>
    (\<forall>bs'. length bs' = PAGE_SIZE \<longrightarrow>
      (\<exists>b'. UnpinPage q True (SetData g bs' b2) = (Ok True, b') \<and>
        bpm_idle b' (m(last_page_id h \<mapsto> set_NextPageId q bs, q \<mapsto> bs')) k (l - 1)))"
proof -
  let ?p = "last_page_id h"
  have len: "length bs = PAGE_SIZE" using assms(1,4) by (rule idle_length)
  obtain f b1 b2 where f: "FetchPage ?p b = (Ok (Some f), b1)" "GetData f b1 = bs"
      "UnpinPage ?p False b1 = (Ok True, b2)" "bpm_idle b2 m k l"
    using bp.read_page [OF assms(1,2,4)] by blast
  obtain q b3 where q: "AllocateHeapPage b2 = (Ok q, b3)" "m q = None" "q \<noteq> INVALID_PAGE_ID"
      "bpm_idle b3 (m(q \<mapsto> fresh_heap_page)) k (l - 1)"
    using AllocateHeapPage_ok [OF f(4) assms(2,3)] by blast
  have "q \<noteq> ?p" using q(2) assms(4) by auto
  then have p3: "(m(q \<mapsto> fresh_heap_page)) ?p = Some bs" using assms(4) by simp
  have "length (set_NextPageId q bs) = PAGE_SIZE" using len by (simp add: page_bytes_simps)
  then obtain f3 b4 b5 where f3: "FetchPage ?p b3 = (Ok (Some f3), b4)" "GetData f3 b4 = bs"
      "UnpinPage ?p True (SetData f3 (set_NextPageId q bs) b4) = (Ok True, b5)"
      "bpm_idle b5 (m(q \<mapsto> fresh_heap_page, ?p \<mapsto> set_NextPageId q bs)) k (l - 1)"
    using bp.change_page [OF q(4) assms(2) p3] by blast
  let ?m = "m(q \<mapsto> fresh_heap_page, ?p \<mapsto> set_NextPageId q bs)"
  have "?m q = Some fresh_heap_page" using \<open>q \<noteq> ?p\<close> by simp
  then obtain g b6 where g: "FetchPage q b5 = (Ok (Some g), b6)" "GetData g b6 = fresh_heap_page"
      "\<And>bs'. length bs' = PAGE_SIZE \<Longrightarrow>
        \<exists>b'. UnpinPage q True (SetData g bs' b6) = (Ok True, b') \<and> bpm_idle b' (?m(q \<mapsto> bs')) k (l - 1)"
    using bp.change_page [OF f3(4) assms(2)] by blast
  have "grow_chain (h, b1) = (Ok (Some g), (h\<lparr>last_page_id := q\<rparr>, b6))"
    using f q f3 g by (simp add: grow_chain_def on_pool_def)
  moreover have "?m(q \<mapsto> bs') = m(?p \<mapsto> set_NextPageId q bs, q \<mapsto> bs')" for bs'
    using \<open>q \<noteq> ?p\<close> by auto
  ultimately show ?thesis using f(1,2) q(2,3) g(2,3) by metis
qed

text \<open>Inserting a row into the last page, and into a new page behind it.\<close>

lemma last_notin_butlast: "distinct xs \<Longrightarrow> xs \<noteq> [] \<Longrightarrow> last xs \<notin> set (butlast xs)"
  by (cases xs rule: rev_cases) auto

lemma heap_inv_add_row:
  assumes "heap_inv m h ps" and "m (last ps) = Some bs" and "length t = unat (tuple_size (schema h))"
    and "unat (NumTuples bs) < rows_per_page (unat (tuple_size (schema h)))"
    and m'_def: "m' = m(last ps \<mapsto> with_row (unat (tuple_size (schema h))) t bs)"
  shows "heap_inv m' h ps"
    "heap_rows m' (unat (tuple_size (schema h))) ps = heap_rows m (unat (tuple_size (schema h))) ps @
      [(\<lparr>page_id = last ps, slot_num = NumTuples bs\<rparr>, t)]"
proof -
  let ?sz = "unat (tuple_size (schema h))"
  note H = assms(1) [unfolded heap_inv_def]
  have ps: "ps = butlast ps @ [last ps]" using H by simp
  have notin: "last ps \<notin> set (butlast ps)" using H last_notin_butlast by blast
  have bs: "length bs = PAGE_SIZE"
    using H assms(2) by (metis last_in_set option.sel page_fits_def)
  note row = with_row_ok [OF bs assms(4,3)]
  have "chain m' INVALID_PAGE_ID ps"
    using H by (elim conjE chain_cong) (auto simp: m'_def assms(2) row(2))
  moreover have "\<forall>p \<in> set ps. page_fits ?sz (the (m' p))" using H row(1) by (simp add: m'_def)
  moreover have "\<forall>p \<in> set (butlast ps). unat (NumTuples (the (m' p))) = rows_per_page ?sz"
    using H notin by (auto simp: m'_def)
  ultimately show "heap_inv m' h ps" using H by (simp add: heap_inv_def)
  have "heap_rows m' ?sz (butlast ps) = heap_rows m ?sz (butlast ps)"
    using notin by (intro heap_rows_cong) (auto simp: m'_def)
  then show "heap_rows m' ?sz ps = heap_rows m ?sz ps @ [(\<lparr>page_id = last ps, slot_num = NumTuples bs\<rparr>, t)]"
    using ps heap_rows_append [of _ _ "butlast ps" "[last ps]"] row(3) assms(2) by (simp add: m'_def)
qed

lemma page_rows_set_next:
  assumes "page_fits sz bs"
  shows "page_rows p sz (set_NextPageId q bs) = page_rows p sz bs"
proof -
  have "peek (HEAP_HEADER_SIZE + i * sz) sz (set_NextPageId q bs) = peek (HEAP_HEADER_SIZE + i * sz) sz bs"
    if "i < unat (NumTuples bs)" for i
    using that assms row_fits [of i sz]
    by (simp add: set_NextPageId_def peek_put32_other page_fits_def HEAP_HEADER_SIZE_def PAGE_SIZE_def)
  then show ?thesis using assms by (simp add: page_rows_def page_bytes_simps page_fits_def)
qed

lemma heap_inv_add_page:
  assumes "heap_inv m h ps" and "m (last ps) = Some bs" and "m q = None"
    and "unat (NumTuples bs) = rows_per_page (unat (tuple_size (schema h)))"
    and m'_def: "m' = m(last ps \<mapsto> set_NextPageId q bs, q \<mapsto> fresh_heap_page)"
  shows "heap_inv m' (h\<lparr>last_page_id := q\<rparr>) (ps @ [q])"
    "heap_rows m' (unat (tuple_size (schema h))) (ps @ [q]) = heap_rows m (unat (tuple_size (schema h))) ps"
proof -
  let ?sz = "unat (tuple_size (schema h))"
  note H = assms(1) [unfolded heap_inv_def]
  define qs where "qs = butlast ps"
  have ps: "ps = qs @ [last ps]" using H by (simp add: qs_def)
  have set_ps: "set ps = insert (last ps) (set qs)" by (subst ps) simp
  have notin: "last ps \<notin> set qs" using H last_notin_butlast by (auto simp: qs_def)
  have "chain m INVALID_PAGE_ID ps" using H by simp
  then have q: "q \<notin> set ps" using chain_dom [of m INVALID_PAGE_ID ps q] assms(3) by auto
  have bs: "length bs = PAGE_SIZE" "page_fits ?sz bs"
    using H assms(2) by (metis last_in_set option.sel page_fits_def)+
  have same: "m' p = m p" if "p \<in> set qs" for p
    using that notin q set_ps by (auto simp: m'_def)
  have lastp: "m' (last ps) = Some (set_NextPageId q bs)"
    using H q by (metis (no_types, lifting) fun_upd_apply last_in_set m'_def)
  have "chain m (last ps) qs" "chain m INVALID_PAGE_ID [last ps]"
    using H ps chain_append [of m INVALID_PAGE_ID qs "[last ps]"] by auto
  then have "chain m' (last ps) qs" by (elim chain_cong) (simp add: same)
  moreover have "chain m' q [last ps]" "chain m' INVALID_PAGE_ID [q]"
    using lastp page_bytes_simps(6) [OF bs(1)] by (auto simp: m'_def)
  ultimately have "chain m' INVALID_PAGE_ID ((qs @ [last ps]) @ [q])"
    unfolding chain_append by simp
  then have ch: "chain m' INVALID_PAGE_ID (ps @ [q])" using ps by simp
  have full: "unat (NumTuples (the (m' p))) = rows_per_page ?sz" if "p \<in> set ps" for p
  proof (cases "p = last ps")
    case True
    then show ?thesis using lastp assms(4) bs(1) by (simp add: page_bytes_simps)
  next
    case False
    then have "p \<in> set qs" using that set_ps by simp
    then show ?thesis using H same by (simp add: qs_def)
  qed
  have fits: "page_fits ?sz (the (m' p))" if "p \<in> set (ps @ [q])" for p
  proof (cases "p \<in> set qs")
    case True
    then have "p \<in> set ps" using set_ps by simp
    with True H same show ?thesis by simp
  next
    case False
    then have "p = last ps \<or> p = q" using that set_ps by auto
    then show ?thesis
      using lastp bs by (auto simp: m'_def page_fits_def page_bytes_simps)
  qed
  show "heap_inv m' (h\<lparr>last_page_id := q\<rparr>) (ps @ [q])"
    using H q ch full fits by (simp add: heap_inv_def)
  have "heap_rows m' ?sz (qs @ [last ps]) = heap_rows m ?sz (qs @ [last ps])"
    using same lastp assms(2) bs(2) heap_rows_cong [of qs m' m ?sz] by (simp add: page_rows_set_next)
  then show "heap_rows m' ?sz (ps @ [q]) = heap_rows m ?sz ps"
    using ps q by (simp add: m'_def)
qed

text \<open>The two cases of an insertion: into the last page, or into a new page behind it.\<close>

lemma InsertTuple_room:
  assumes "bpm_idle b m k l" and "0 < k" and "row_width_ok (schema h)" and "m (last_page_id h) = Some bs"
    and "page_fits (unat (tuple_size (schema h))) bs" and "length t = unat (tuple_size (schema h))"
    and "unat (NumTuples bs) < rows_per_page (unat (tuple_size (schema h)))"
  shows "\<exists>b'. InsertTuple t (h, b) = (Ok (Some \<lparr>page_id = last_page_id h, slot_num = NumTuples bs\<rparr>), (h, b')) \<and>
    bpm_idle b' (m(last_page_id h \<mapsto> with_row (unat (tuple_size (schema h))) t bs)) k l"
proof -
  let ?p = "last_page_id h" and ?bs = "with_row (unat (tuple_size (schema h))) t bs"
  obtain mx where mx: "MaxTuplesPerPage (schema h) = Ok mx"
      "unat mx = rows_per_page (unat (tuple_size (schema h)))"
    using MaxTuplesPerPage_ok [OF assms(3)] by blast
  have "length ?bs = PAGE_SIZE" using with_row_ok(1) [OF _ assms(7,6)] assms(5) by (simp add: page_fits_def)
  then obtain f b1 b2 where f: "FetchPage ?p b = (Ok (Some f), b1)" "GetData f b1 = bs"
      "UnpinPage ?p True (SetData f ?bs b1) = (Ok True, b2)" "bpm_idle b2 (m(?p \<mapsto> ?bs)) k l"
    using bp.change_page [OF assms(1,2,4)] by blast
  have "put_tuple t f (h, b1) = (Ok (Some \<lparr>page_id = ?p, slot_num = NumTuples bs\<rparr>), (h, b2))"
    using put_tuple_ok [OF f(2) assms(5,7,6) f(3)] .
  moreover have "\<not> mx \<le> NumTuples bs" using assms(7) mx(2) by (simp add: word_le_nat_alt)
  ultimately show ?thesis using f mx(1) by (simp add: InsertTuple_def on_pool_def)
qed

lemma InsertTuple_grow:
  assumes "bpm_idle b m k l" and "0 < k" and "0 < l" and "row_width_ok (schema h)"
    and "m (last_page_id h) = Some bs" and "length t = unat (tuple_size (schema h))"
    and "\<not> unat (NumTuples bs) < rows_per_page (unat (tuple_size (schema h)))"
  shows "\<exists>q b'. InsertTuple t (h, b) = (Ok (Some \<lparr>page_id = q, slot_num = 0\<rparr>), (h\<lparr>last_page_id := q\<rparr>, b')) \<and>
    m q = None \<and> bpm_idle b' (m(last_page_id h \<mapsto> set_NextPageId q bs,
      q \<mapsto> with_row (unat (tuple_size (schema h))) t fresh_heap_page)) k (l - 1)"
proof -
  let ?sz = "unat (tuple_size (schema h))"
  obtain mx where mx: "MaxTuplesPerPage (schema h) = Ok mx" "unat mx = rows_per_page ?sz"
    using MaxTuplesPerPage_ok [OF assms(4)] by blast
  obtain f b1 q g b2 where f: "FetchPage (last_page_id h) b = (Ok (Some f), b1)" "GetData f b1 = bs"
      "grow_chain (h, b1) = (Ok (Some g), (h\<lparr>last_page_id := q\<rparr>, b2))" "GetData g b2 = fresh_heap_page"
      "m q = None"
      "\<And>bs'. length bs' = PAGE_SIZE \<Longrightarrow> \<exists>b'. UnpinPage q True (SetData g bs' b2) = (Ok True, b') \<and>
        bpm_idle b' (m(last_page_id h \<mapsto> set_NextPageId q bs, q \<mapsto> bs')) k (l - 1)"
    using grow_chain_ok [OF assms(1-3,5)] by metis
  let ?h = "h\<lparr>last_page_id := q\<rparr>" and ?bs = "with_row ?sz t fresh_heap_page"
  have pos: "unat (NumTuples fresh_heap_page) < rows_per_page ?sz"
    using assms(4) by (simp add: row_width_ok_def rows_per_page_def div_greater_zero_iff)
  have fresh: "page_fits ?sz fresh_heap_page" by (simp add: page_fits_def)
  have "length ?bs = PAGE_SIZE" using with_row_ok(1) [OF _ pos assms(6)] by (simp add: page_fits_def)
  then obtain b3 where b3: "UnpinPage q True (SetData g ?bs b2) = (Ok True, b3)"
      "bpm_idle b3 (m(last_page_id h \<mapsto> set_NextPageId q bs, q \<mapsto> ?bs)) k (l - 1)"
    using f(6) by blast
  have "put_tuple t g (?h, b2) = (Ok (Some \<lparr>page_id = q, slot_num = 0\<rparr>), (?h, b3))"
    using put_tuple_ok [of g b2 fresh_heap_page ?h t b3] fresh pos assms(6) f(4) b3(1) by simp
  moreover have "mx \<le> NumTuples bs" using assms(7) mx(2) by (simp add: word_le_nat_alt)
  ultimately show ?thesis using f(1-3,5) mx(1) b3(2) by (simp add: InsertTuple_def on_pool_def)
qed

lemma InsertTuple_ok:
  assumes "bpm_idle b m k l" and "0 < k" and "0 < l" and "heap_inv m h ps"
    and "length t = unat (tuple_size (schema h))"
  shows "\<exists>rid h' b' m' ps' l'. InsertTuple t (h, b) = (Ok (Some rid), (h', b')) \<and>
    bpm_idle b' m' k l' \<and> l - 1 \<le> l' \<and> heap_inv m' h' ps' \<and> schema h' = schema h \<and>
    first_page_id h' = first_page_id h \<and>
    heap_rows m' (unat (tuple_size (schema h))) ps' = heap_rows m (unat (tuple_size (schema h))) ps @ [(rid, t)] \<and>
    (\<forall>q. m q \<noteq> None \<longrightarrow> q \<notin> set ps \<longrightarrow> m' q = m q) \<and> set ps' \<subseteq> set ps \<union> {q. m q = None}"
proof -
  let ?sz = "unat (tuple_size (schema h))"
  note H = assms(4) [unfolded heap_inv_def]
  have lst: "last_page_id h = last ps" "last ps \<in> set ps" "row_width_ok (schema h)" using H by auto
  obtain bs where bs: "m (last ps) = Some bs" using H chain_dom lst(2) by metis
  have fits: "page_fits ?sz bs" using H bs lst(2) by (metis option.sel)
  show ?thesis
  proof (cases "unat (NumTuples bs) < rows_per_page ?sz")
    case True
    let ?bs = "with_row ?sz t bs"
    obtain b' where "InsertTuple t (h, b) = (Ok (Some \<lparr>page_id = last ps, slot_num = NumTuples bs\<rparr>), (h, b'))"
        "bpm_idle b' (m(last ps \<mapsto> ?bs)) k l"
      using InsertTuple_room [OF assms(1,2) lst(3) _ fits assms(5) True] bs lst(1) by auto
    then show ?thesis
      using lst(2) heap_inv_add_row [OF assms(4) bs assms(5) True refl]
      by (intro exI conjI) (assumption | fastforce)+
  next
    case False
    let ?bs = "with_row ?sz t fresh_heap_page"
    obtain q b' where ins: "m q = None"
        "InsertTuple t (h, b) = (Ok (Some \<lparr>page_id = q, slot_num = 0\<rparr>), (h\<lparr>last_page_id := q\<rparr>, b'))"
        "bpm_idle b' (m(last ps \<mapsto> set_NextPageId q bs, q \<mapsto> ?bs)) k (l - 1)"
      using InsertTuple_grow [OF assms(1-3) lst(3) _ assms(5) False] bs lst(1) by auto
    let ?m' = "m(last ps \<mapsto> set_NextPageId q bs, q \<mapsto> ?bs)" and ?h = "h\<lparr>last_page_id := q\<rparr>"
    have full: "unat (NumTuples bs) = rows_per_page ?sz" using False fits by (simp add: page_fits_def)
    have pos: "unat (NumTuples fresh_heap_page) < rows_per_page ?sz"
      using lst(3) by (simp add: row_width_ok_def rows_per_page_def div_greater_zero_iff)
    note page = heap_inv_add_page [OF assms(4) bs ins(1) full refl]
    have row: "heap_inv ?m' ?h (ps @ [q])"
      "heap_rows ?m' ?sz (ps @ [q]) = heap_rows m ?sz ps @ [(\<lparr>page_id = q, slot_num = 0\<rparr>, t)]"
      using heap_inv_add_row [OF page(1), of fresh_heap_page t ?m'] pos assms(5) page(2) by simp_all
    have "\<forall>r. m r \<noteq> None \<longrightarrow> r \<notin> set ps \<longrightarrow> ?m' r = m r" using lst(2) ins(1) by auto
    moreover have "set (ps @ [q]) \<subseteq> set ps \<union> {q. m q = None}" using ins(1) by simp
    ultimately show ?thesis using ins(2,3) row by (intro exI conjI) (assumption | simp)+
  qed
qed

lemma page_rows_ids:
  assumes "page_fits sz bs"
  shows "distinct (map fst (page_rows p sz bs))" "(r, t) \<in> set (page_rows p sz bs) \<Longrightarrow> page_id r = p"
proof -
  have "inj_on (\<lambda>i. \<lparr>page_id = p, slot_num = word_of_nat i :: u32\<rparr>) {0..<unat (NumTuples bs)}"
    using unsigned_less [of "NumTuples bs", where 'a = nat]
    by (intro inj_onI) (auto simp: word_of_nat_eq_iff take_bit_nat_eq_self)
  then show "distinct (map fst (page_rows p sz bs))"
    by (simp add: page_rows_def comp_def distinct_map)
qed (auto simp: page_rows_def)

lemma heap_rows_distinct:
  assumes "distinct ps" and "\<forall>p \<in> set ps. page_fits sz (the (m p))"
  shows "distinct (map fst (heap_rows m sz ps))"
  using assms
proof (induction ps)
  case (Cons p ps)
  have "page_id r \<in> set ps" if "(r, t) \<in> set (heap_rows m sz ps)" for r t
    using that Cons.prems(2) page_rows_ids(2) by (fastforce simp: heap_rows_def)
  moreover have "page_id r = p" if "(r, t) \<in> set (page_rows p sz (the (m p)))" for r t
    using that page_rows_ids(2) Cons.prems(2) by auto
  ultimately have "fst ` set (page_rows p sz (the (m p))) \<inter> fst ` set (heap_rows m sz ps) = {}"
    using Cons.prems(1) by fastforce
  moreover have "heap_rows m sz (p # ps) = page_rows p sz (the (m p)) @ heap_rows m sz ps"
    by (simp add: heap_rows_def)
  ultimately show ?case using Cons page_rows_ids(1) by simp
qed (simp add: heap_rows_def)

section \<open>The interface: a store of rows\<close>

definition collect :: "RID \<Rightarrow> Tuple \<Rightarrow> (RID \<times> Tuple) list \<Rightarrow> bool \<times> (RID \<times> Tuple) list" where
  "collect r t acc = (True, acc @ [(r, t)])"

fun insert_list :: "(Tuple \<Rightarrow> 's \<Rightarrow> (RID option, 's) res) \<Rightarrow> Tuple list \<Rightarrow> 's \<Rightarrow> (RID list option, 's) res" where
  "insert_list ins [] s = (Ok (Some []), s)"
| "insert_list ins (t # ts) s = bind_res (ins t s) (\<lambda>ro s1. case ro of
      None \<Rightarrow> (Ok None, s1)
    | Some r \<Rightarrow> bind_res (insert_list ins ts s1) (\<lambda>rs s2. (Ok (map_option ((#) r) rs), s2)))"

text \<open>\<open>holds h s rows n\<close>: the store has these rows, and there is room to insert \<open>n\<close> more.\<close>

locale row_store =
  fixes holds :: "'h \<Rightarrow> 's \<Rightarrow> (RID \<times> Tuple) list \<Rightarrow> nat \<Rightarrow> bool"
    and width :: "'h \<Rightarrow> nat"
    and ins :: "Tuple \<Rightarrow> 'h \<times> 's \<Rightarrow> (RID option, 'h \<times> 's) res"
    and scan :: "'h \<Rightarrow> (RID \<Rightarrow> Tuple \<Rightarrow> (RID \<times> Tuple) list \<Rightarrow> bool \<times> (RID \<times> Tuple) list) \<Rightarrow>
      (RID \<times> Tuple) list \<Rightarrow> 's \<Rightarrow> ((RID \<times> Tuple) list, 's) res option"
  assumes ins_ok: "holds h s rows (Suc n) \<Longrightarrow> length t = width h \<Longrightarrow>
      \<exists>r h' s'. ins t (h, s) = (Ok (Some r), (h', s')) \<and> width h' = width h \<and> holds h' s' (rows @ [(r, t)]) n"
    and scan_ok: "holds h s rows n \<Longrightarrow>
      \<exists>s'. scan h cb c s = Some (Ok (snd (feed cb rows c)), s') \<and> holds h s' rows n"
    and ids_distinct: "holds h s rows n \<Longrightarrow> distinct (map fst rows)"
begin

lemma feed_collect: "feed collect rows acc = (True, acc @ rows)"
  by (induction rows arbitrary: acc) (auto simp: collect_def)

lemma scan_all: "holds h s rows n \<Longrightarrow> \<exists>s'. scan h collect [] s = Some (Ok rows, s') \<and> holds h s' rows n"
  using scan_ok [of h s rows n collect "[]"] by (simp add: feed_collect)

lemma insert_list_ok:
  assumes "holds h s rows (length ts + n)" and "\<forall>t \<in> set ts. length t = width h"
  shows "\<exists>rs h' s'. insert_list ins ts (h, s) = (Ok (Some rs), (h', s')) \<and> width h' = width h \<and>
    length rs = length ts \<and> holds h' s' (rows @ zip rs ts) n"
  using assms
proof (induction ts arbitrary: h s rows)
  case (Cons t ts)
  obtain r h1 s1 where 1: "ins t (h, s) = (Ok (Some r), (h1, s1))" "width h1 = width h"
      "holds h1 s1 (rows @ [(r, t)]) (length ts + n)"
    using ins_ok [of h s rows "length ts + n" t] Cons.prems by auto
  obtain rs h2 s2 where "insert_list ins ts (h1, s1) = (Ok (Some rs), (h2, s2))" "width h2 = width h1"
      "length rs = length ts" "holds h2 s2 ((rows @ [(r, t)]) @ zip rs ts) n"
    using Cons.IH [OF 1(3)] Cons.prems(2) 1(2) by auto
  with 1 show ?case by (intro exI [of _ "r # rs"] exI [of _ h2] exI [of _ s2]) simp
qed simp

theorem insert_list_scan:
  assumes "holds h s rows (length ts)" and "\<forall>t \<in> set ts. length t = width h"
  shows "\<exists>rs h' s' s''. insert_list ins ts (h, s) = (Ok (Some rs), (h', s')) \<and> length rs = length ts \<and>
    scan h' collect [] s' = Some (Ok (rows @ zip rs ts), s'') \<and> distinct (map fst rows @ rs)"
proof -
  obtain rs h' s' where 1: "insert_list ins ts (h, s) = (Ok (Some rs), (h', s'))" "length rs = length ts"
      "holds h' s' (rows @ zip rs ts) 0"
    using insert_list_ok [of h s rows ts 0] assms by auto
  then show ?thesis using scan_all [OF 1(3)] ids_distinct [OF 1(3)] by auto
qed

end

definition heap_holds :: "HeapFile \<Rightarrow> BufferPoolManager \<Rightarrow> (RID \<times> Tuple) list \<Rightarrow> nat \<Rightarrow> bool" where
  "heap_holds h b rows n \<longleftrightarrow> (\<exists>m k l ps. bpm_idle b m k l \<and> 0 < k \<and> n \<le> l \<and> heap_inv m h ps \<and>
     rows = heap_rows m (unat (tuple_size (schema h))) ps)"

abbreviation row_width :: "HeapFile \<Rightarrow> nat" where
  "row_width h \<equiv> unat (tuple_size (schema h))"

lemma heap_holdsI:
  "bpm_idle b m k l \<Longrightarrow> 0 < k \<Longrightarrow> n \<le> l \<Longrightarrow> heap_inv m h ps \<Longrightarrow>
   heap_holds h b (heap_rows m (row_width h) ps) n"
  by (auto simp: heap_holds_def)

lemma Scan_ok:
  assumes "heap_holds h b rows n"
  shows "\<exists>b'. Scan h cb c b = Some (Ok (snd (feed cb rows c)), b') \<and> heap_holds h b' rows n"
proof -
  obtain m k l ps where H: "bpm_idle b m k l" "0 < k" "n \<le> l" "heap_inv m h ps" "rows = heap_rows m (row_width h) ps"
    using assms by (auto simp: heap_holds_def)
  then have "first_page_id h = hd (ps @ [INVALID_PAGE_ID])" "chain m INVALID_PAGE_ID ps"
      "\<forall>p \<in> set ps. page_fits (row_width h) (the (m p))"
    by (auto simp: heap_inv_def)
  then show ?thesis
    using scan_from_ok [of m ps b k l "tuple_size (schema h)" cb c] H
    by (auto simp: Scan_def intro: heap_holdsI)
qed

interpretation heap: row_store heap_holds row_width InsertTuple Scan
proof
  fix h b rows n and t :: Tuple
  assume "heap_holds h b rows (Suc n)" and t: "length t = row_width h"
  then obtain m k l ps where H: "bpm_idle b m k l" "0 < k" "Suc n \<le> l" "heap_inv m h ps"
      "rows = heap_rows m (row_width h) ps"
    by (auto simp: heap_holds_def)
  have "0 < l" using H(3) by simp
  from InsertTuple_ok [OF H(1,2) this H(4) t]
  obtain rid h' b' m' ps' l' where "InsertTuple t (h, b) = (Ok (Some rid), (h', b'))" "bpm_idle b' m' k l'"
      "l - 1 \<le> l'" "heap_inv m' h' ps'" "schema h' = schema h"
      "heap_rows m' (row_width h) ps' = heap_rows m (row_width h) ps @ [(rid, t)]"
    by blast
  moreover then have "heap_holds h' b' (rows @ [(rid, t)]) n"
    using H(2,3,5) heap_holdsI [of b' m' k l' n h' ps'] by simp
  ultimately show "\<exists>r h' s'. InsertTuple t (h, b) = (Ok (Some r), (h', s')) \<and> row_width h' = row_width h \<and>
      heap_holds h' s' (rows @ [(r, t)]) n"
    by auto
next
  show "\<exists>s'. Scan h cb c b = Some (Ok (snd (feed cb rows c)), s') \<and> heap_holds h s' rows n"
    if "heap_holds h b rows n" for h b rows n cb and c :: "(RID \<times> Tuple) list"
    using that by (rule Scan_ok)
  show "distinct (map fst rows)" if "heap_holds h b rows n" for h b rows n
    using that by (auto simp: heap_holds_def heap_inv_def heap_rows_distinct)
qed

section \<open>Pages in any order\<close>

fun scan_each :: "HeapFile \<Rightarrow> (RID \<Rightarrow> Tuple \<Rightarrow> 'c \<Rightarrow> 'c) \<Rightarrow> page_id_t list \<Rightarrow> 'c \<Rightarrow>
    BufferPoolManager \<Rightarrow> ('c, BufferPoolManager) res" where
  "scan_each h cb [] c b = (Ok c, b)"
| "scan_each h cb (p # ps) c b = bind_res (ScanPage h p cb c b) (scan_each h cb ps)"

lemma scan_each_ok:
  assumes "bpm_idle b m k l" and "0 < k" and "\<forall>p \<in> set ps. m p \<noteq> None \<and> page_fits (row_width h) (the (m p))"
  shows "\<exists>b'. scan_each h cb ps c b = (Ok (fold (\<lambda>(r, t). cb r t) (heap_rows m (row_width h) ps) c), b') \<and>
    bpm_idle b' m k l"
  using assms(1,3)
proof (induction ps arbitrary: c b)
  case (Cons p ps)
  then obtain bs where bs: "m p = Some bs" "page_fits (row_width h) bs" by auto
  obtain b1 where b1: "bpm_idle b1 m k l"
      "ScanPage h p cb c b = (Ok (fold (\<lambda>(r, t). cb r t) (page_rows p (row_width h) bs) c), b1)"
    using ScanPage_ok [OF Cons.prems(1) assms(2) bs, of cb c] by blast
  show ?case
    using Cons.IH [OF b1(1)] Cons.prems(2) b1(2) bs(1) by (simp add: heap_rows_def)
qed (simp add: heap_rows_def)

lemma mset_heap_rows: "mset ps = mset qs \<Longrightarrow> mset (heap_rows m sz ps) = mset (heap_rows m sz qs)"
proof -
  have "mset (heap_rows m sz xs) = (\<Sum>p\<in>#mset xs. mset (page_rows p sz (the (m p))))" for xs
    by (induction xs) (simp_all add: heap_rows_def)
  then show "mset ps = mset qs \<Longrightarrow> ?thesis" by simp
qed

lemma fold_collect: "fold (\<lambda>(r, t) acc. acc @ [(r, t)]) rows acc = acc @ rows"
  by (induction rows arbitrary: acc) auto

section \<open>Properties\<close>

text \<open>A table of one integer column in a pool of two frames.\<close>

definition int_row :: Schema where
  "int_row = mk_Schema [\<lparr>col_name = ''a'', col_type = ColumnType_Int\<rparr>]"

lemma int_row_simps: "tuple_size int_row = 4" "row_width_ok int_row"
  by (simp_all add: int_row_def mk_Schema_def ColumnType_Int_def GetFixedSize_def row_width_ok_def
      PAGE_SIZE_def HEAP_HEADER_SIZE_def)

lemma small_pool_idle: "\<exists>m. bpm_idle small_pool m 2 (pages_left small_pool)" "2 < pages_left small_pool"
  using small_pool_inv
  by (auto simp: bpm_idle_def small_pool_def mk_BufferPoolManager_def pins_def pages_left_def
      one_page_disk_def INT32_MAX_def)

lemma small_heap:
  "\<exists>h b m p. HeapFile_create int_row small_pool = (Ok h, b) \<and> schema h = int_row \<and>
     bpm_idle b m 2 (pages_left small_pool - 1) \<and> heap_inv m h [p] \<and> heap_holds h b [] 2"
proof -
  obtain m where i: "bpm_idle small_pool m 2 (pages_left small_pool)" using small_pool_idle(1) by blast
  obtain h p b where h: "HeapFile_create int_row small_pool = (Ok h, b)" "schema h = int_row"
      "bpm_idle b (m(p \<mapsto> fresh_heap_page)) 2 (pages_left small_pool - 1)"
      "heap_inv (m(p \<mapsto> fresh_heap_page)) h [p]"
    using HeapFile_create_ok [OF i _ _ int_row_simps(2)] small_pool_idle(2) by auto
  moreover have "heap_rows (m(p \<mapsto> fresh_heap_page)) (row_width h) [p] = []" by simp
  ultimately show ?thesis
    using heap_holdsI [OF h(3) _ _ h(4), of 2] small_pool_idle(2) by (intro exI) auto
qed

text \<open>(C12) Rows inserted into a heap file come back from a scan: after inserting a list of rows, the
  scan yields the rows it had before, then the new ones in the order of insertion, each under the
  record id its insertion returned, and no record id occurs twice. Nothing fails as long as the
  file can grow by a page per row.\<close>

theorem heap_insert_scan:
  assumes "heap_holds h b rows (length ts)" and "\<forall>t \<in> set ts. length t = row_width h"
  shows "\<exists>rs h' b' b''. insert_list InsertTuple ts (h, b) = (Ok (Some rs), (h', b')) \<and> length rs = length ts \<and>
    Scan h' collect [] b' = Some (Ok (rows @ zip rs ts), b'') \<and> distinct (map fst rows @ rs)"
  using assms by (rule heap.insert_list_scan)

theorem heap_insert_scan_witness:
  "\<exists>h b rs h' b' b''. HeapFile_create int_row small_pool = (Ok h, b) \<and>
    insert_list InsertTuple [[1, 0, 0, 0], [2, 0, 0, 0]] (h, b) = (Ok (Some rs), (h', b')) \<and> length rs = 2 \<and>
    Scan h' collect [] b' = Some (Ok (zip rs [[1, 0, 0, 0], [2, 0, 0, 0]]), b'') \<and> distinct rs"
proof -
  obtain h b where h: "HeapFile_create int_row small_pool = (Ok h, b)" "schema h = int_row" "heap_holds h b [] 2"
    using small_heap by blast
  let ?ts = "[[1, 0, 0, 0], [2, 0, 0, 0]] :: Tuple list"
  have "heap_holds h b [] (length ?ts)" using h(3) by (simp add: numeral_2_eq_2)
  moreover have "\<forall>t \<in> set ?ts. length t = row_width h" by (simp add: h(2) int_row_simps(1))
  ultimately show ?thesis
    using heap_insert_scan [of h b "[]" ?ts] h(1) by (simp del: insert_list.simps add: numeral_2_eq_2)
qed

text \<open>One insertion, in full: it returns the record id of the new row, appends the row, keeps
  the invariant of the file (a chain of distinct pages, all but the last one full) and its first
  page, takes at most one new page, and changes no page of any other file.\<close>

theorem heap_insert_isolated:
  assumes "bpm_idle b m k l" and "0 < k" and "0 < l" and "heap_inv m h ps" and "length t = row_width h"
  shows "\<exists>rid h' b' m' ps' l'. InsertTuple t (h, b) = (Ok (Some rid), (h', b')) \<and>
    bpm_idle b' m' k l' \<and> l - 1 \<le> l' \<and> heap_inv m' h' ps' \<and> schema h' = schema h \<and>
    first_page_id h' = first_page_id h \<and>
    heap_rows m' (row_width h) ps' = heap_rows m (row_width h) ps @ [(rid, t)] \<and>
    (\<forall>q. m q \<noteq> None \<longrightarrow> q \<notin> set ps \<longrightarrow> m' q = m q) \<and> set ps' \<subseteq> set ps \<union> {q. m q = None}"
  using assms by (rule InsertTuple_ok)

theorem heap_insert_isolated_witness:
  "\<exists>h b m p rid h' b' m' ps' l'. HeapFile_create int_row small_pool = (Ok h, b) \<and>
    InsertTuple [1, 0, 0, 0] (h, b) = (Ok (Some rid), (h', b')) \<and> bpm_idle b' m' 2 l' \<and> heap_inv m' h' ps' \<and>
    heap_rows m' 4 ps' = heap_rows m 4 [p] @ [(rid, [1, 0, 0, 0])] \<and>
    (\<forall>q. m q \<noteq> None \<longrightarrow> q \<notin> set [p] \<longrightarrow> m' q = m q)"
proof -
  obtain h b m p where h: "HeapFile_create int_row small_pool = (Ok h, b)" "schema h = int_row"
      "bpm_idle b m 2 (pages_left small_pool - 1)" "heap_inv m h [p]"
    using small_heap by blast
  have w: "unat (tuple_size (schema h)) = 4" by (simp add: h(2) int_row_simps(1))
  have "0 < pages_left small_pool - 1" using small_pool_idle(2) by simp
  from heap_insert_isolated [OF h(3) _ this h(4), of "[1, 0, 0, 0]"] h(1) show ?thesis
    unfolding w by simp blast
qed

text \<open>A scan calls its callback on the rows in order and stops at the first row the callback
  refuses; it always ends, and leaves every page as it was.\<close>

theorem heap_scan_callback:
  assumes "bpm_idle b m k l" and "0 < k" and "heap_inv m h ps"
  shows "\<exists>b'. Scan h cb c b = Some (Ok (snd (feed cb (heap_rows m (row_width h) ps) c)), b') \<and> bpm_idle b' m k l"
  using scan_from_ok [of m ps b k l "tuple_size (schema h)" cb c] assms
  by (auto simp: Scan_def heap_inv_def)

theorem heap_scan_callback_witness:
  "\<exists>h b b'. HeapFile_create int_row small_pool = (Ok h, b) \<and> Scan h collect [] b = Some (Ok [], b')"
proof -
  obtain h b m p where h: "HeapFile_create int_row small_pool = (Ok h, b)"
      "bpm_idle b m 2 (pages_left small_pool - 1)" "heap_inv m h [p]" "heap_holds h b [] 2"
    using small_heap by blast
  then have "snd (feed collect (heap_rows m (row_width h) [p]) []) = []"
    using heap.scan_all [OF h(4)] heap_scan_callback [OF h(2) _ h(3), of collect "[]"] by auto
  with h(1) show ?thesis using heap_scan_callback [OF h(2) _ h(3), of collect "[]"] by auto
qed

lemma HeapFile_open_ok:
  assumes "bpm_idle b m k l" and "0 < k" and "heap_inv m h ps"
  shows "\<exists>b'. HeapFile_open (schema h) (first_page_id h) b = Some (Ok h, b') \<and> bpm_idle b' m k l"
proof -
  obtain p qs where ps: "ps = p # qs" using assms(3) by (cases ps) (auto simp: heap_inv_def)
  then have "\<exists>b'. walk_chain p b = Some (Ok (last ps), b') \<and> bpm_idle b' m k l"
    using walk_chain_ok [of m p qs b k l] assms by (auto simp: heap_inv_def)
  then show ?thesis using assms(3) ps by (auto simp: HeapFile_open_def heap_inv_def)
qed

text \<open>Opening a heap file by its first page id finds the file again: the walk along the chain
  ends at the last page, and the pages are left as they were.\<close>

theorem heap_reopen:
  assumes "bpm_idle b m k l" and "0 < k" and "heap_inv m h ps"
  shows "\<exists>b'. HeapFile_open (schema h) (first_page_id h) b = Some (Ok h, b') \<and> bpm_idle b' m k l"
  using HeapFile_open_ok [OF assms] .

theorem heap_reopen_witness:
  "\<exists>h b b'. HeapFile_create int_row small_pool = (Ok h, b) \<and>
    HeapFile_open int_row (first_page_id h) b = Some (Ok h, b')"
proof -
  obtain h b m p where h: "HeapFile_create int_row small_pool = (Ok h, b)" "schema h = int_row"
      "bpm_idle b m 2 (pages_left small_pool - 1)" "heap_inv m h [p]"
    using small_heap by blast
  then show ?thesis using heap_reopen [OF h(3) _ h(4)] by auto
qed

text \<open>Scanning page by page, as the workers of a parallel scan do: \<open>GetPageIds\<close> lists the pages
  of the file, and calling \<open>ScanPage\<close> on them in any order visits the rows of the file, each once.\<close>

theorem heap_pages_cover_rows:
  assumes "bpm_idle b m k l" and "0 < k" and "heap_inv m h ps"
  shows "\<exists>ids b'. GetPageIds h b = Some (Ok ids, b') \<and> distinct ids \<and>
    (\<forall>order. mset order = mset ids \<longrightarrow>
      (\<exists>rows b''. scan_each h (\<lambda>r t acc. acc @ [(r, t)]) order [] b' = (Ok rows, b'') \<and>
        mset rows = mset (heap_rows m (row_width h) ps) \<and> bpm_idle b'' m k l))"
proof -
  have H: "chain m INVALID_PAGE_ID ps" "first_page_id h = hd (ps @ [INVALID_PAGE_ID])" "distinct ps"
    "\<forall>p \<in> set ps. page_fits (row_width h) (the (m p))"
    using assms(3) by (auto simp: heap_inv_def)
  obtain b' where b': "GetPageIds h b = Some (Ok ps, b')" "bpm_idle b' m k l"
    using page_ids_from_ok [OF H(1) assms(1,2), of "[]"] H(2) by (auto simp: GetPageIds_def)
  have "\<exists>rows b''. scan_each h (\<lambda>r t acc. acc @ [(r, t)]) order [] b' = (Ok rows, b'') \<and>
      mset rows = mset (heap_rows m (row_width h) ps) \<and> bpm_idle b'' m k l"
    if order: "mset order = mset ps" for order
  proof -
    have "set order = set ps" using order by (rule mset_eq_setD)
    then have "\<forall>p \<in> set order. m p \<noteq> None \<and> page_fits (row_width h) (the (m p))"
      using H(4) chain_dom [OF H(1)] by auto
    then show ?thesis
      using scan_each_ok [OF b'(2) assms(2), of order h "\<lambda>r t acc. acc @ [(r, t)]" "[]"]
        mset_heap_rows [OF order, of m "row_width h"] by (auto simp: fold_collect)
  qed
  with b'(1) H(3) show ?thesis by blast
qed

theorem heap_pages_cover_rows_witness:
  "\<exists>h b ids b'. HeapFile_create int_row small_pool = (Ok h, b) \<and> GetPageIds h b = Some (Ok ids, b') \<and> distinct ids"
proof -
  obtain h b m p where h: "HeapFile_create int_row small_pool = (Ok h, b)"
      "bpm_idle b m 2 (pages_left small_pool - 1)" "heap_inv m h [p]"
    using small_heap by blast
  then show ?thesis using heap_pages_cover_rows [OF h(2) _ h(3)] by auto
qed

text \<open>When every frame of the pool is pinned and the last page is not, an insertion returns false
  and changes nothing.\<close>

theorem heap_insert_no_frame:
  assumes "bpm_inv b" and "\<not> card (pinned b) < pool_size b" and "pins b (last_page_id h) = 0"
  shows "InsertTuple t (h, b) = (Ok None, (h, b))"
proof -
  have wf: "bpm_wf b" using assms(1) by (simp add: bpm_inv_def)
  then have "page_table b (last_page_id h) = None"
    using cached_unpinned_room [OF wf] assms(2,3) by (cases "page_table b (last_page_id h)") auto
  then show ?thesis using assms(2) wf by (simp add: InsertTuple_def on_pool_def FetchPage_full)
qed

theorem heap_insert_no_frame_witness:
  "InsertTuple [] (\<lparr>schema = int_row, first_page_id = mk32 0, last_page_id = mk32 0\<rparr>,
     mk_BufferPoolManager 0 one_page_disk) =
   (Ok None, (\<lparr>schema = int_row, first_page_id = mk32 0, last_page_id = mk32 0\<rparr>,
     mk_BufferPoolManager 0 one_page_disk))"
  by (rule heap_insert_no_frame [OF bpm_inv_init [OF one_page_disk_inv(1)]])
    (simp_all add: mk_BufferPoolManager_def pins_def)

text \<open>(C39) A schema whose rows have no bytes (only \<open>VARCHAR(0)\<close> columns), or more bytes than fit a
  page, is accepted when the file is created, and the first insertion faults: by a division by zero,
  or by a copy beyond the end of the page.\<close>

theorem heap_bad_width_faults:
  assumes "bpm_idle b m k l" and "0 < k" and "1 < l" and "\<not> row_width_ok sch"
  shows "\<exists>h b'. HeapFile_create sch b = (Ok h, b') \<and> fst (InsertTuple t (h, b')) = Fault"
proof -
  obtain p b1 where p: "AllocateHeapPage b = (Ok p, b1)" "bpm_idle b1 (m(p \<mapsto> fresh_heap_page)) k (l - 1)"
    using AllocateHeapPage_ok [OF assms(1,2)] assms(3) by auto
  let ?h = "\<lparr>schema = sch, first_page_id = p, last_page_id = p\<rparr>"
  have "0 < l - 1" using assms(3) by simp
  from grow_chain_ok [OF p(2) assms(2) this, of ?h fresh_heap_page]
  obtain f b2 q g b3 where f: "FetchPage p b1 = (Ok (Some f), b2)" "GetData f b2 = fresh_heap_page"
      "grow_chain (?h, b2) = (Ok (Some g), (?h\<lparr>last_page_id := q\<rparr>, b3))" "GetData g b3 = fresh_heap_page"
    by auto
  have "fst (InsertTuple t (?h, b1)) = Fault"
  proof (cases "tuple_size sch = 0")
    case True
    with f(1) show ?thesis by (simp add: InsertTuple_def on_pool_def MaxTuplesPerPage_def)
  next
    case False
    then have wide: "PAGE_SIZE - HEAP_HEADER_SIZE < unat (tuple_size sch)"
      using assms(4) by (auto simp: row_width_ok_def unat_eq_0)
    then have "(word_of_nat (PAGE_SIZE - HEAP_HEADER_SIZE) :: u32) div tuple_size sch = 0"
      by (intro word_unat_eq_iff [THEN iffD2]) (simp add: unat_div_distrib unat_of_nat PAGE_SIZE_def HEAP_HEADER_SIZE_def)
    moreover have "PAGE_SIZE < HEAP_HEADER_SIZE + unat (tuple_size sch)" using wide by linarith
    ultimately show ?thesis
      using False f
      by (simp add: InsertTuple_def on_pool_def MaxTuplesPerPage_def put_tuple_def TupleSlot_def Let_def)
  qed
  with p(1) show ?thesis by (simp add: HeapFile_create_def)
qed

theorem heap_bad_width_faults_witness:
  "\<exists>h b'. HeapFile_create (mk_Schema []) small_pool = (Ok h, b') \<and> fst (InsertTuple [] (h, b')) = Fault"
proof -
  obtain m where "bpm_idle small_pool m 2 (pages_left small_pool)" using small_pool_idle(1) by blast
  then show ?thesis
    by (rule heap_bad_width_faults) (use small_pool_idle(2) in \<open>auto simp: row_width_ok_def mk_Schema_def\<close>)
qed

end
