(* ===== verification/Catalog.thy ===== *)
theory Catalog
  imports Heap_File
begin

text \<open>
  \<open>src/src/catalog\<close>: the tables by name, each with its schema and its heap file. The abstract value
  of a catalog over the pages of the pool is a map from table names to schemas and rows; the
  invariant keeps the pages of the tables apart.
\<close>

section \<open>Definitions\<close>

record TableInfo =
  ti_name :: string
  ti_schema :: Schema
  heap_file :: HeapFile
  ti_first_page_id :: page_id_t

type_synonym Catalog = "string \<rightharpoonup> TableInfo"

definition mk_Catalog :: Catalog where
  "mk_Catalog = Map.empty"

definition TableExists :: "Catalog \<Rightarrow> string \<Rightarrow> bool" where
  "TableExists c name = (c name \<noteq> None)"

definition CreateTable :: "string \<Rightarrow> Schema \<Rightarrow> Catalog \<times> BufferPoolManager \<Rightarrow> (unit, Catalog \<times> BufferPoolManager) res" where
  "CreateTable name sch s = (let (c, b) = s in
     if TableExists c name then (Throw (Runtime_Error (''Table already exists: '' @ name)), s)
     else (case HeapFile_create sch b of
         (Ok h, b1) \<Rightarrow> (Ok (), (c(name \<mapsto> \<lparr>ti_name = name, ti_schema = sch, heap_file = h, ti_first_page_id = first_page_id h\<rparr>), b1))
       | (Throw e, b1) \<Rightarrow> (Throw e, (c, b1))
       | (Fault, b1) \<Rightarrow> (Fault, (c, b1))))"

definition GetTable :: "string \<Rightarrow> Catalog \<Rightarrow> TableInfo outcome" where
  "GetTable name c = (case c name of
      None \<Rightarrow> Throw (Runtime_Error (''Table not found: '' @ name))
    | Some info \<Rightarrow> Ok info)"

section \<open>The tables of a catalog\<close>

text \<open>\<open>pss\<close> gives the pages of each table. Tables do not share pages.\<close>

definition cat_inv :: "(page_id_t \<Rightarrow> byte list option) \<Rightarrow> Catalog \<Rightarrow> (string \<Rightarrow> page_id_t list) \<Rightarrow> bool" where
  "cat_inv m c pss \<longleftrightarrow>
     (\<forall>name info. c name = Some info \<longrightarrow> heap_inv m (heap_file info) (pss name) \<and> ti_schema info = schema (heap_file info)) \<and>
     (\<forall>x y. x \<noteq> y \<longrightarrow> c x \<noteq> None \<longrightarrow> c y \<noteq> None \<longrightarrow> set (pss x) \<inter> set (pss y) = {})"

type_synonym tables = "string \<rightharpoonup> Schema \<times> Tuple list"

definition cat_tables :: "(page_id_t \<Rightarrow> byte list option) \<Rightarrow> Catalog \<Rightarrow> (string \<Rightarrow> page_id_t list) \<Rightarrow> tables" where
  "cat_tables m c pss name = map_option
     (\<lambda>info. (ti_schema info, map snd (heap_rows m (row_width (heap_file info)) (pss name)))) (c name)"

text \<open>The catalog and the pool hold these tables, and \<open>n\<close> more pages can be allocated.\<close>

definition cat_holds :: "Catalog \<Rightarrow> BufferPoolManager \<Rightarrow> tables \<Rightarrow> nat \<Rightarrow> bool" where
  "cat_holds c b T n \<longleftrightarrow> (\<exists>m k l pss. bpm_idle b m k l \<and> 0 < k \<and> n \<le> l \<and> cat_inv m c pss \<and> T = cat_tables m c pss)"

lemma cat_holdsE:
  assumes "cat_holds c b T n"
  obtains m k l pss where "bpm_idle b m k l" "0 < k" "n \<le> l" "cat_inv m c pss" "T = cat_tables m c pss"
  using assms by (auto simp: cat_holds_def)

lemma cat_invD:
  "cat_inv m c pss \<Longrightarrow> c name = Some info \<Longrightarrow> heap_inv m (heap_file info) (pss name) \<and> ti_schema info = schema (heap_file info)"
  "cat_inv m c pss \<Longrightarrow> x \<noteq> y \<Longrightarrow> c x = Some i \<Longrightarrow> c y = Some j \<Longrightarrow> set (pss x) \<inter> set (pss y) = {}"
  by (auto simp: cat_inv_def)

lemma heap_inv_pages: "heap_inv m h ps \<Longrightarrow> p \<in> set ps \<Longrightarrow> m p \<noteq> None"
  using chain_dom by (fastforce simp: heap_inv_def)

lemma heap_inv_cong:
  assumes "heap_inv m h ps" and "\<And>p. p \<in> set ps \<Longrightarrow> m' p = m p"
  shows "heap_inv m' h ps" and "heap_rows m' sz ps = heap_rows m sz ps"
proof -
  show "heap_rows m' sz ps = heap_rows m sz ps" by (rule heap_rows_cong) (rule assms(2))
  have "chain m' INVALID_PAGE_ID ps" using chain_cong [of m INVALID_PAGE_ID ps m'] assms by (simp add: heap_inv_def)
  moreover have "\<forall>p \<in> set (butlast ps). m' p = m p" using assms(2) in_set_butlastD by fast
  ultimately show "heap_inv m' h ps" using assms by (simp add: heap_inv_def)
qed

text \<open>Replacing one table, on pages no other table uses.\<close>

lemma cat_inv_upd:
  assumes inv: "cat_inv m c pss" and h: "heap_inv m' (heap_file info) ps" "ti_schema info = schema (heap_file info)"
    and same: "\<And>x i p. x \<noteq> name \<Longrightarrow> c x = Some i \<Longrightarrow> p \<in> set (pss x) \<Longrightarrow> m' p = m p \<and> p \<notin> set ps"
  shows "cat_inv m' (c(name \<mapsto> info)) (pss(name := ps))"
    and "cat_tables m' (c(name \<mapsto> info)) (pss(name := ps)) =
      (cat_tables m c pss)(name \<mapsto> (ti_schema info, map snd (heap_rows m' (row_width (heap_file info)) ps)))"
proof -
  have other: "heap_inv m' (heap_file i) (pss x)" "heap_rows m' sz (pss x) = heap_rows m sz (pss x)" "set (pss x) \<inter> set ps = {}"
    if "x \<noteq> name" "c x = Some i" for x i sz
    using heap_inv_cong [of m "heap_file i" "pss x" m'] cat_invD(1) [OF inv that(2)] same [OF that] by auto
  have "heap_inv m' (heap_file i) ((pss(name := ps)) x) \<and> ti_schema i = schema (heap_file i)" if "(c(name \<mapsto> info)) x = Some i" for x i
    using that h other(1) [of x i] cat_invD(1) [OF inv, of x i] by (auto split: if_splits)
  moreover have "set ((pss(name := ps)) x) \<inter> set ((pss(name := ps)) y) = {}"
    if "x \<noteq> y" "(c(name \<mapsto> info)) x \<noteq> None" "(c(name \<mapsto> info)) y \<noteq> None" for x y
    using that other(3) [of x] other(3) [of y] cat_invD(2) [OF inv, of x y] by (auto split: if_splits)
  ultimately show "cat_inv m' (c(name \<mapsto> info)) (pss(name := ps))" unfolding cat_inv_def by blast
  show "cat_tables m' (c(name \<mapsto> info)) (pss(name := ps)) =
      (cat_tables m c pss)(name \<mapsto> (ti_schema info, map snd (heap_rows m' (row_width (heap_file info)) ps)))"
    using other(2) by (auto simp: cat_tables_def fun_eq_iff split: option.split intro!: option.map_cong)
qed

lemma cat_tables_exists: "cat_holds c b T n \<Longrightarrow> TableExists c name \<longleftrightarrow> T name \<noteq> None"
  by (auto simp: cat_holds_def cat_tables_def TableExists_def)

lemma CreateTable_ok:
  assumes "cat_holds c b T (Suc n)" and "T name = None" and "row_width_ok sch"
  shows "\<exists>c' b'. CreateTable name sch (c, b) = (Ok (), (c', b')) \<and> cat_holds c' b' (T(name \<mapsto> (sch, []))) n"
proof -
  obtain m k l pss where H: "bpm_idle b m k l" "0 < k" "Suc n \<le> l" "cat_inv m c pss" "T = cat_tables m c pss"
    using assms(1) by (rule cat_holdsE)
  obtain h p b' where h: "HeapFile_create sch b = (Ok h, b')" "schema h = sch" "m p = None"
      "bpm_idle b' (m(p \<mapsto> fresh_heap_page)) k (l - 1)" "heap_inv (m(p \<mapsto> fresh_heap_page)) h [p]"
    using HeapFile_create_ok [OF H(1,2) _ assms(3)] H(3) by auto
  let ?m = "m(p \<mapsto> fresh_heap_page)"
  let ?info = "\<lparr>ti_name = name, ti_schema = sch, heap_file = h, ti_first_page_id = first_page_id h\<rparr>"
  have "\<And>x i q. x \<noteq> name \<Longrightarrow> c x = Some i \<Longrightarrow> q \<in> set (pss x) \<Longrightarrow> ?m q = m q \<and> q \<notin> set [p]"
    using cat_invD(1) [OF H(4)] heap_inv_pages h(3) by fastforce
  note upd = cat_inv_upd [OF H(4), of ?m ?info "[p]" name, OF _ _ this]
  have "cat_inv ?m (c(name \<mapsto> ?info)) (pss(name := [p]))" "cat_tables ?m (c(name \<mapsto> ?info)) (pss(name := [p])) = T(name \<mapsto> (sch, []))"
    using upd h(2,5) H(5) by (simp_all add: page_rows_def)
  then have "cat_holds (c(name \<mapsto> ?info)) b' (T(name \<mapsto> (sch, []))) n" using h(4) H(2,3) unfolding cat_holds_def by fastforce
  moreover have "c name = None" using assms(2) H(5) by (simp add: cat_tables_def)
  ultimately show ?thesis using h(1) by (simp add: CreateTable_def TableExists_def)
qed

lemma CreateTable_exists:
  "cat_holds c b T n \<Longrightarrow> T name \<noteq> None \<Longrightarrow>
   CreateTable name sch (c, b) = (Throw (Runtime_Error (''Table already exists: '' @ name)), (c, b))"
  using cat_tables_exists [of c b T n name] by (simp add: CreateTable_def)

lemma GetTable_cases:
  assumes "cat_holds c b T n"
  shows "T name = None \<Longrightarrow> GetTable name c = Throw (Runtime_Error (''Table not found: '' @ name))"
    and "T name = Some (sch, rows) \<Longrightarrow> \<exists>info. GetTable name c = Ok info \<and> c name = Some info \<and> ti_schema info = sch"
  using assms by (auto simp: cat_holds_def cat_tables_def GetTable_def split: option.splits)

lemma insert_row_ok:
  assumes "cat_holds c b T (Suc n)" and "T name = Some (sch, rows)" and "length t = unat (tuple_size sch)"
  shows "\<exists>info rid h b'. c name = Some info \<and> ti_schema info = sch \<and> InsertTuple t (heap_file info, b) = (Ok (Some rid), (h, b')) \<and>
    cat_holds (c(name \<mapsto> info\<lparr>heap_file := h\<rparr>)) b' (T(name \<mapsto> (sch, rows @ [t]))) n"
proof -
  obtain m k l pss where H: "bpm_idle b m k l" "0 < k" "Suc n \<le> l" "cat_inv m c pss" "T = cat_tables m c pss"
    using assms(1) by (rule cat_holdsE)
  obtain info where info: "c name = Some info" "ti_schema info = sch" "rows = map snd (heap_rows m (row_width (heap_file info)) (pss name))"
    using assms(2) H(5) by (auto simp: cat_tables_def)
  have hi: "heap_inv m (heap_file info) (pss name)" and sch: "schema (heap_file info) = sch" using cat_invD(1) [OF H(4) info(1)] info(2) by auto
  obtain rid h b' m' ps' l' where I: "InsertTuple t (heap_file info, b) = (Ok (Some rid), (h, b'))" "bpm_idle b' m' k l'" "l - 1 \<le> l'"
      "heap_inv m' h ps'" "schema h = sch" "heap_rows m' (row_width h) ps' = heap_rows m (row_width h) (pss name) @ [(rid, t)]"
      and same: "\<forall>q. m q \<noteq> None \<longrightarrow> q \<notin> set (pss name) \<longrightarrow> m' q = m q" and new: "set ps' \<subseteq> set (pss name) \<union> {q. m q = None}"
    using InsertTuple_ok [OF H(1,2) _ hi, of t] H(3) assms(3) sch by auto
  let ?info = "info\<lparr>heap_file := h\<rparr>"
  have "\<And>x i q. x \<noteq> name \<Longrightarrow> c x = Some i \<Longrightarrow> q \<in> set (pss x) \<Longrightarrow> m' q = m q \<and> q \<notin> set ps'"
  proof -
    fix x i q assume x: "x \<noteq> name" "c x = Some i" "q \<in> set (pss x)"
    have "m q \<noteq> None" using cat_invD(1) [OF H(4) x(2)] heap_inv_pages x(3) by blast
    moreover have "q \<notin> set (pss name)" using cat_invD(2) [OF H(4) x(1,2) info(1)] x(3) by blast
    ultimately show "m' q = m q \<and> q \<notin> set ps'" using same new by (auto dest: subsetD)
  qed
  note upd = cat_inv_upd [OF H(4), of m' ?info ps' name, OF _ _ this]
  have "cat_inv m' (c(name \<mapsto> ?info)) (pss(name := ps'))" "cat_tables m' (c(name \<mapsto> ?info)) (pss(name := ps')) = T(name \<mapsto> (sch, rows @ [t]))"
    using upd I(4-6) info(2,3) H(5) sch by simp_all
  then have "cat_holds (c(name \<mapsto> ?info)) b' (T(name \<mapsto> (sch, rows @ [t]))) n" using I(2,3) H(2,3) unfolding cat_holds_def by fastforce
  then show ?thesis using info(1,2) I(1) by blast
qed

end
