(* ===== verification/Lexer.thy ===== *)
theory Lexer
  imports DB_Prelude
begin

text \<open>
  \<open>src/src/parser/token.h\<close> and \<open>lexer.cpp\<close>: the text of a statement is cut into tokens. The lexer
  object is its state: the text, the position, the line. The theorems relate the loop to a lexical
  grammar: which spellings are a token, what may stand between tokens, and where a token ends.
\<close>

section \<open>Definitions\<close>

subsection \<open>Characters, in the C locale\<close>

abbreviation ccode :: "char \<Rightarrow> nat" where "ccode c \<equiv> of_char c"

definition isdigit :: "char \<Rightarrow> bool" where "isdigit c \<longleftrightarrow> 48 \<le> ccode c \<and> ccode c \<le> 57"
definition isupper :: "char \<Rightarrow> bool" where "isupper c \<longleftrightarrow> 65 \<le> ccode c \<and> ccode c \<le> 90"
definition islower :: "char \<Rightarrow> bool" where "islower c \<longleftrightarrow> 97 \<le> ccode c \<and> ccode c \<le> 122"
definition isalpha :: "char \<Rightarrow> bool" where "isalpha c \<longleftrightarrow> isupper c \<or> islower c"
definition isalnum :: "char \<Rightarrow> bool" where "isalnum c \<longleftrightarrow> isalpha c \<or> isdigit c"
definition isspace :: "char \<Rightarrow> bool" where "isspace c \<longleftrightarrow> ccode c = 32 \<or> (9 \<le> ccode c \<and> ccode c \<le> 13)"
definition toupper :: "char \<Rightarrow> char" where "toupper c = (if islower c then char_of (ccode c - 32) else c)"

abbreviation newline :: char where "newline \<equiv> CHR 0x0A"
abbreviation quote :: char where "quote \<equiv> CHR 0x27"

subsection \<open>Tokens\<close>

datatype TokenType =
    TK_CREATE | TK_TABLE | TK_INSERT | TK_INTO | TK_VALUES
  | TK_SELECT | TK_FROM | TK_WHERE | TK_AS
  | TK_JOIN | TK_ON | TK_AND | TK_OR | TK_NOT
  | TK_GROUP | TK_BY | TK_ORDER | TK_ASC | TK_DESC
  | TK_EXPLAIN
  | TK_INT_KW | TK_VARCHAR_KW
  | TK_COUNT | TK_SUM | TK_AVG | TK_MIN | TK_MAX
  | TK_INT_LITERAL | TK_STRING_LITERAL
  | TK_IDENTIFIER
  | TK_LPAREN | TK_RPAREN | TK_COMMA | TK_SEMICOLON | TK_DOT | TK_STAR
  | TK_EQ | TK_LT | TK_GT | TK_LEQ | TK_GEQ | TK_NEQ
  | TK_EOF

record Token =
  tok_type :: TokenType
  tok_value :: string
  tok_line :: int

definition KEYWORDS :: "(string \<times> TokenType) list" where
  "KEYWORDS = [
     (''CREATE'', TK_CREATE), (''TABLE'', TK_TABLE),
     (''INSERT'', TK_INSERT), (''INTO'', TK_INTO),
     (''VALUES'', TK_VALUES), (''SELECT'', TK_SELECT),
     (''FROM'', TK_FROM), (''WHERE'', TK_WHERE),
     (''AS'', TK_AS), (''JOIN'', TK_JOIN),
     (''ON'', TK_ON), (''AND'', TK_AND),
     (''OR'', TK_OR), (''NOT'', TK_NOT),
     (''GROUP'', TK_GROUP), (''BY'', TK_BY),
     (''ORDER'', TK_ORDER), (''ASC'', TK_ASC),
     (''DESC'', TK_DESC), (''EXPLAIN'', TK_EXPLAIN),
     (''INT'', TK_INT_KW), (''VARCHAR'', TK_VARCHAR_KW),
     (''COUNT'', TK_COUNT), (''SUM'', TK_SUM),
     (''AVG'', TK_AVG), (''MIN'', TK_MIN),
     (''MAX'', TK_MAX)]"

subsection \<open>The lexer\<close>

record Lexer =
  lx_input :: string
  lx_pos :: nat
  lx_line :: int

definition mk_Lexer :: "string \<Rightarrow> Lexer" where
  "mk_Lexer s = \<lparr>lx_input = s, lx_pos = 0, lx_line = 1\<rparr>"

definition IsAtEnd :: "Lexer \<Rightarrow> bool" where
  "IsAtEnd l \<longleftrightarrow> length (lx_input l) \<le> lx_pos l"

definition Peek :: "Lexer \<Rightarrow> char" where
  "Peek l = (if IsAtEnd l then CHR 0x00 else lx_input l ! lx_pos l)"

text \<open>The character \<open>Advance\<close> returns is the one \<open>Peek\<close> shows; no caller uses it.\<close>

definition Advance :: "Lexer \<Rightarrow> Lexer" where
  "Advance l = l\<lparr>lx_pos := Suc (lx_pos l)\<rparr>"

definition count_line :: "Lexer \<Rightarrow> Lexer" where
  "count_line l = l\<lparr>lx_line := lx_line l + 1\<rparr>"

text \<open>A loop that advances while the next character satisfies \<open>P\<close>.\<close>

function advance_while :: "(char \<Rightarrow> bool) \<Rightarrow> Lexer \<Rightarrow> Lexer" where
  "advance_while P l = (if \<not> IsAtEnd l \<and> P (Peek l) then advance_while P (Advance l) else l)"
  by auto
termination
  by (relation "measure (\<lambda>(P, l). length (lx_input l) - lx_pos l)") (auto simp: IsAtEnd_def Advance_def)

declare advance_while.simps [simp del]

text \<open>What is left of the text.\<close>

definition rest :: "Lexer \<Rightarrow> string" where
  "rest l = drop (lx_pos l) (lx_input l)"

lemma IsAtEnd_rest: "IsAtEnd l \<longleftrightarrow> rest l = []"
  by (simp add: IsAtEnd_def rest_def)

lemma Peek_rest: "Peek l = (case rest l of [] \<Rightarrow> CHR 0x00 | c # cs \<Rightarrow> c)"
  by (auto simp: Peek_def IsAtEnd_rest rest_def drop_eq_Nil not_le Cons_nth_drop_Suc [symmetric] split: list.split)

lemma rest_Advance [simp]: "rest (Advance l) = tl (rest l)"
  by (simp add: rest_def Advance_def drop_Suc tl_drop)

lemma rest_count_line [simp]: "rest (count_line l) = rest l"
  by (simp add: rest_def count_line_def)

lemma line_simps [simp]:
  "lx_line (Advance l) = lx_line l" "lx_line (count_line l) = lx_line l + 1"
  "lx_input (Advance l) = lx_input l" "lx_input (count_line l) = lx_input l"
  by (simp_all add: Advance_def count_line_def)

lemma advance_while_ok:
  "rest (advance_while P l) = dropWhile P (rest l) \<and> lx_line (advance_while P l) = lx_line l \<and>
   lx_input (advance_while P l) = lx_input l"
proof (induction P l rule: advance_while.induct)
  case (1 P l)
  then show ?case
    by (cases "rest l") (auto simp: advance_while.simps [of P l] IsAtEnd_rest Peek_rest)
qed

lemmas rest_advance_while [simp] = advance_while_ok [THEN conjunct1]
lemmas line_advance_while [simp] = advance_while_ok [THEN conjunct2, THEN conjunct1]

function SkipWhitespace :: "Lexer \<Rightarrow> Lexer" where
  "SkipWhitespace l =
     (if IsAtEnd l then l
      else (let c = Peek l
            in if c = newline then SkipWhitespace (Advance (count_line l))
               else if isspace c then SkipWhitespace (Advance l)
               else if c = CHR ''-'' \<and> lx_pos l + 1 < length (lx_input l) \<and> lx_input l ! (lx_pos l + 1) = CHR ''-''
               then SkipWhitespace (advance_while (\<lambda>c. c \<noteq> newline) l)
               else l))"
  by auto
termination
  by (relation "measure (\<lambda>l. length (rest l))")
    (auto simp: IsAtEnd_rest Peek_rest less_Suc_eq_le length_dropWhile_le split: list.splits)

declare SkipWhitespace.simps [simp del]

definition token_here :: "TokenType \<Rightarrow> string \<Rightarrow> Lexer \<Rightarrow> Token" where
  "token_here ty v l = \<lparr>tok_type = ty, tok_value = v, tok_line = lx_line l\<rparr>"

text \<open>\<open>input_.substr(start, pos_ - start)\<close>\<close>

definition text_since :: "Lexer \<Rightarrow> Lexer \<Rightarrow> string" where
  "text_since start l = take (lx_pos l - lx_pos start) (drop (lx_pos start) (lx_input l))"

definition ReadNumber :: "Lexer \<Rightarrow> (Token, Lexer) res" where
  "ReadNumber l = (let l1 = advance_while isdigit l
     in (Ok (token_here TK_INT_LITERAL (text_since l l1) l1), l1))"

text \<open>The loop of \<open>ReadString\<close>, which counts the lines.\<close>

function string_body :: "Lexer \<Rightarrow> Lexer" where
  "string_body l =
     (if \<not> IsAtEnd l \<and> Peek l \<noteq> quote
      then string_body (Advance (if Peek l = newline then count_line l else l)) else l)"
  by auto
termination
  by (relation "measure (\<lambda>l. length (rest l))") (auto simp: IsAtEnd_rest)

declare string_body.simps [simp del]

definition ReadString :: "Lexer \<Rightarrow> (Token, Lexer) res" where
  "ReadString l = (let l1 = Advance l; l2 = string_body l1
     in if IsAtEnd l2 then (Throw (Runtime_Error ''Unterminated string literal''), l2)
        else let l3 = Advance l2
             in (Ok (token_here TK_STRING_LITERAL (text_since l1 l2) l3), l3))"

definition idchar :: "char \<Rightarrow> bool" where
  "idchar c \<longleftrightarrow> isalnum c \<or> c = CHR ''_''"

definition ReadIdentifierOrKeyword :: "Lexer \<Rightarrow> (Token, Lexer) res" where
  "ReadIdentifierOrKeyword l =
     (let l1 = advance_while idchar l; raw = text_since l l1; upper = map toupper raw
      in case map_of KEYWORDS upper of
           Some ty \<Rightarrow> (Ok (token_here ty upper l1), l1)
         | None \<Rightarrow> (Ok (token_here TK_IDENTIFIER raw l1), l1))"

definition next_is :: "char \<Rightarrow> Lexer \<Rightarrow> bool" where
  "next_is c l \<longleftrightarrow> \<not> IsAtEnd l \<and> Peek l = c"

definition emit :: "TokenType \<Rightarrow> string \<Rightarrow> Lexer \<Rightarrow> (Token, Lexer) res" where
  "emit ty v l = (Ok (token_here ty v l), l)"

text \<open>The \<open>switch\<close> of \<open>NextToken\<close> on a character already consumed.\<close>

definition punctuation :: "char \<Rightarrow> Lexer \<Rightarrow> (Token, Lexer) res" where
  "punctuation c l =
     (if c = CHR ''('' then emit TK_LPAREN ''('' l
      else if c = CHR '')'' then emit TK_RPAREN '')'' l
      else if c = CHR '','' then emit TK_COMMA '','' l
      else if c = CHR '';'' then emit TK_SEMICOLON '';'' l
      else if c = CHR ''.'' then emit TK_DOT ''.'' l
      else if c = CHR ''*'' then emit TK_STAR ''*'' l
      else if c = CHR ''='' then emit TK_EQ ''='' l
      else if c = CHR ''<'' then
        (if next_is (CHR ''='') l then emit TK_LEQ ''<='' (Advance l)
         else if next_is (CHR ''>'') l then emit TK_NEQ ''<>'' (Advance l)
         else emit TK_LT ''<'' l)
      else if c = CHR ''>'' then
        (if next_is (CHR ''='') l then emit TK_GEQ ''>='' (Advance l)
         else emit TK_GT ''>'' l)
      else if c = CHR ''!'' then
        (if next_is (CHR ''='') l then emit TK_NEQ ''!='' (Advance l)
         else (Throw (Runtime_Error ''Unexpected character: !''), l))
      else (Throw (Runtime_Error (''Unexpected character: '' @ [c])), l))"

definition NextToken :: "Lexer \<Rightarrow> (Token, Lexer) res" where
  "NextToken l0 =
     (let l = SkipWhitespace l0
      in if IsAtEnd l then (Ok (token_here TK_EOF [] l), l)
         else (let c = Peek l
               in if isdigit c then ReadNumber l
                  else if c = quote then ReadString l
                  else if isalpha c \<or> c = CHR ''_'' then ReadIdentifierOrKeyword l
                  else punctuation c (Advance l)))"

section \<open>The lexical grammar\<close>

text \<open>What a token may look like: a number, a quoted string, a word (a keyword in any mix of cases,
  or an identifier), punctuation.\<close>

definition PUNCTUATION :: "(string \<times> TokenType) list" where
  "PUNCTUATION = [(''('', TK_LPAREN), ('')'', TK_RPAREN), ('','', TK_COMMA), ('';'', TK_SEMICOLON),
     (''.'', TK_DOT), (''*'', TK_STAR), (''='', TK_EQ), (''<='', TK_LEQ), (''<>'', TK_NEQ), (''<'', TK_LT),
     (''>='', TK_GEQ), (''>'', TK_GT), (''!='', TK_NEQ)]"

definition idstart :: "char \<Rightarrow> bool" where
  "idstart c \<longleftrightarrow> isalpha c \<or> c = CHR ''_''"

inductive spells :: "string \<Rightarrow> TokenType \<Rightarrow> string \<Rightarrow> bool" where
  number: "w \<noteq> [] \<Longrightarrow> list_all isdigit w \<Longrightarrow> spells w TK_INT_LITERAL w"
| quoted: "quote \<notin> set v \<Longrightarrow> spells (quote # v @ [quote]) TK_STRING_LITERAL v"
| keyword: "idstart (hd w) \<Longrightarrow> list_all idchar w \<Longrightarrow> w \<noteq> [] \<Longrightarrow>
    map_of KEYWORDS (map toupper w) = Some ty \<Longrightarrow> spells w ty (map toupper w)"
| ident: "idstart (hd w) \<Longrightarrow> list_all idchar w \<Longrightarrow> w \<noteq> [] \<Longrightarrow>
    map_of KEYWORDS (map toupper w) = None \<Longrightarrow> spells w TK_IDENTIFIER w"
| punct: "(w, ty) \<in> set PUNCTUATION \<Longrightarrow> spells w ty w"

text \<open>The text after a token must not continue it.\<close>

definition separated :: "string \<Rightarrow> string \<Rightarrow> bool" where
  "separated w s \<longleftrightarrow> s = [] \<or>
     ((isdigit (hd w) \<longrightarrow> \<not> isdigit (hd s)) \<and> (idstart (hd w) \<longrightarrow> \<not> idchar (hd s)) \<and>
      (w = ''<'' \<longrightarrow> hd s \<noteq> CHR ''='' \<and> hd s \<noteq> CHR ''>'') \<and> (w = ''>'' \<longrightarrow> hd s \<noteq> CHR ''=''))"

text \<open>White space and comments up to the end of the line stand between tokens.\<close>

inductive skips :: "string \<Rightarrow> string \<Rightarrow> bool" where
  skip_none: "skips s s"
| skip_space: "isspace c \<Longrightarrow> skips s s' \<Longrightarrow> skips (c # s) s'"
| skip_comment: "newline \<notin> set c \<Longrightarrow> s = [] \<or> hd s = newline \<Longrightarrow> skips s s' \<Longrightarrow> skips (''--'' @ c @ s) s'"

definition gap_starts :: "string \<Rightarrow> bool" where
  "gap_starts s \<longleftrightarrow> (s \<noteq> [] \<and> isspace (hd s)) \<or> take 2 s = ''--''"

definition newlines :: "string \<Rightarrow> int" where
  "newlines s = int (count_list s newline)"

text \<open>\<open>reads n s t s'\<close>: on line \<open>n\<close>, the text \<open>s\<close> starts with the token \<open>t\<close> and goes on with \<open>s'\<close>.\<close>

definition reads :: "int \<Rightarrow> string \<Rightarrow> Token \<Rightarrow> string \<Rightarrow> bool" where
  "reads n s t s' \<longleftrightarrow> tok_line t = n + newlines s - newlines s' \<and>
     ((skips s [] \<and> s' = [] \<and> tok_type t = TK_EOF \<and> tok_value t = []) \<or>
      (\<exists>w. skips s (w @ s') \<and> spells w (tok_type t) (tok_value t) \<and> separated w s'))"

inductive lexes :: "int \<Rightarrow> string \<Rightarrow> Token list \<Rightarrow> bool" where
  lex_end: "reads n s t s' \<Longrightarrow> tok_type t = TK_EOF \<Longrightarrow> lexes n s [t]"
| lex_token: "reads n s t s' \<Longrightarrow> tok_type t \<noteq> TK_EOF \<Longrightarrow> lexes (tok_line t) s' ts \<Longrightarrow> lexes n s (t # ts)"

inductive_cases lexes_Cons: "lexes n s (t # ts)"

section \<open>The lexer follows the grammar\<close>

text \<open>\<open>eats l w l'\<close>: going from \<open>l\<close> to \<open>l'\<close> consumed the text \<open>w\<close>.\<close>

definition eats :: "Lexer \<Rightarrow> string \<Rightarrow> Lexer \<Rightarrow> bool" where
  "eats l w l' \<longleftrightarrow> lx_input l' = lx_input l \<and> lx_pos l' = lx_pos l + length w \<and> take (length w) (rest l) = w"

lemma eats_refl [simp]: "eats l [] l"
  by (simp add: eats_def)

lemma eats_rest: "eats l w l' \<Longrightarrow> rest l = w @ rest l'"
  unfolding eats_def rest_def by (metis append_take_drop_id drop_drop add.commute)

lemma eats_text: "eats l w l' \<Longrightarrow> text_since l l' = w"
  by (simp add: eats_def text_since_def rest_def)

lemma eatsI: "lx_input l' = lx_input l \<Longrightarrow> lx_pos l' = lx_pos l + length w \<Longrightarrow> rest l = w @ s \<Longrightarrow> eats l w l'"
  by (simp add: eats_def)

lemma eats_trans: "eats l v l1 \<Longrightarrow> eats l1 w l2 \<Longrightarrow> eats l (v @ w) l2"
proof (rule eatsI [where s = "rest l2"])
  assume e: "eats l v l1" "eats l1 w l2"
  show "lx_input l2 = lx_input l" "lx_pos l2 = lx_pos l + length (v @ w)" using e by (simp_all add: eats_def)
  show "rest l = (v @ w) @ rest l2" using eats_rest [OF e(1)] eats_rest [OF e(2)] by simp
qed

lemma eats_Advance: "rest l \<noteq> [] \<Longrightarrow> eats l [hd (rest l)] (Advance l)"
  by (cases "rest l") (simp_all add: eats_def Advance_def)

lemma eats_count_line: "eats (count_line l) w l' \<longleftrightarrow> eats l w l'"
  by (simp add: eats_def count_line_def rest_def)

lemma eats_Cons: "rest l = c # s \<Longrightarrow> eats (Advance l) w l' \<Longrightarrow> eats l (c # w) l'"
  using eats_trans [OF eats_Advance, of l w l'] by simp

lemma eats_while: "eats l (takeWhile P (rest l)) (advance_while P l)"
proof (induction P l rule: advance_while.induct)
  case (1 P l)
  then show ?case
    using eats_Cons [of l "hd (rest l)" "tl (rest l)"]
    by (cases "rest l") (auto simp: advance_while.simps [of P l] IsAtEnd_rest Peek_rest)
qed

lemma newlines_simps [simp]:
  "newlines [] = 0" "newlines (c # s) = (if c = newline then 1 else 0) + newlines s"
  "newlines (s @ s') = newlines s + newlines s'"
  by (simp_all add: newlines_def)

lemma newlines_none: "newline \<notin> set s \<Longrightarrow> newlines s = 0"
  by (simp add: newlines_def count_list_0_iff)

lemma newlines_line [simp]: "newlines (takeWhile (\<lambda>c. c \<noteq> newline) s) = 0"
  by (rule newlines_none) (auto dest: set_takeWhileD)

lemma string_body_ok:
  "eats l (takeWhile (\<lambda>c. c \<noteq> quote) (rest l)) (string_body l) \<and>
   lx_line (string_body l) = lx_line l + newlines (takeWhile (\<lambda>c. c \<noteq> quote) (rest l))"
proof (induction l rule: string_body.induct)
  case (1 l)
  show ?case
  proof (cases "rest l")
    case Nil
    then show ?thesis by (simp add: string_body.simps [of l] IsAtEnd_rest)
  next
    case (Cons c s)
    show ?thesis
    proof (cases "c = quote")
      case True
      with Cons show ?thesis by (simp add: string_body.simps [of l] IsAtEnd_rest Peek_rest)
    next
      case False
      let ?l = "if c = newline then count_line l else l"
      have r: "rest ?l = c # s" using Cons by simp
      have "eats (Advance ?l) (takeWhile (\<lambda>c. c \<noteq> quote) s) (string_body (Advance ?l))"
        "lx_line (string_body (Advance ?l)) = lx_line (Advance ?l) + newlines (takeWhile (\<lambda>c. c \<noteq> quote) s)"
        using 1 Cons False by (auto simp: IsAtEnd_rest Peek_rest split: if_splits)
      moreover have "string_body l = string_body (Advance ?l)"
        using Cons False by (simp add: string_body.simps [of l] IsAtEnd_rest Peek_rest)
      ultimately show ?thesis
        using eats_Cons [OF r, of _ "string_body l"] Cons False by (auto simp: eats_count_line split: if_splits)
    qed
  qed
qed

lemma spells_not_eof: "spells w ty v \<Longrightarrow> ty \<noteq> TK_EOF"
  by (erule spells.cases) (auto simp: PUNCTUATION_def KEYWORDS_def split: if_splits)

lemma gap_starts_simps [simp]:
  "\<not> gap_starts []" "isspace c \<Longrightarrow> gap_starts (c # s)"
  "gap_starts (CHR ''-'' # CHR ''-'' # s)"
  by (simp_all add: gap_starts_def)

lemma isspace_newline [simp]: "isspace newline"
  by (simp add: isspace_def)

lemma char_classes:
  "isspace c \<Longrightarrow> \<not> isdigit c" "isspace c \<Longrightarrow> \<not> idstart c" "isspace c \<Longrightarrow> c \<noteq> quote" "isspace c \<Longrightarrow> c \<noteq> CHR ''-''"
  "isdigit c \<Longrightarrow> \<not> idstart c" "isdigit c \<Longrightarrow> c \<noteq> quote" "idstart c \<Longrightarrow> c \<noteq> quote" "idstart c \<Longrightarrow> c \<noteq> CHR ''-''"
  "isdigit c \<Longrightarrow> c \<noteq> CHR ''-''" "idstart c \<Longrightarrow> idchar c"
  by (auto simp: isspace_def isdigit_def idstart_def isalpha_def isupper_def islower_def idchar_def isalnum_def)

lemma comment_starts:
  "rest l = c # s \<Longrightarrow> lx_pos l + 1 < length (lx_input l) \<and> lx_input l ! (lx_pos l + 1) = CHR ''-'' \<longleftrightarrow>
     (\<exists>s'. s = CHR ''-'' # s')"
proof -
  assume r: "rest l = c # s"
  then have "length (lx_input l) - lx_pos l = Suc (length s)"
    using arg_cong [OF r [unfolded rest_def], of length] by simp
  then have p: "length (lx_input l) = lx_pos l + Suc (length s)" by linarith
  have "s ! 0 = lx_input l ! (lx_pos l + 1)" if "s \<noteq> []"
    using arg_cong [OF r [unfolded rest_def], of "\<lambda>x. x ! 1"] p by simp
  then show ?thesis using p by (cases s) auto
qed

lemma SkipWhitespace_step:
  "SkipWhitespace l = (case rest l of [] \<Rightarrow> l
    | c # s \<Rightarrow>
        if c = newline then SkipWhitespace (Advance (count_line l))
        else if isspace c then SkipWhitespace (Advance l)
        else if c = CHR ''-'' \<and> (\<exists>s'. s = CHR ''-'' # s') then SkipWhitespace (advance_while (\<lambda>c. c \<noteq> newline) l)
        else l)"
proof (cases "rest l")
  case (Cons c s)
  show ?thesis
    using comment_starts [OF Cons] Cons by (auto simp: SkipWhitespace.simps [of l] IsAtEnd_rest Peek_rest Let_def)
qed (simp add: SkipWhitespace.simps [of l] IsAtEnd_rest)

lemma skips_comment_line:
  assumes "skips (dropWhile (\<lambda>c. c \<noteq> newline) s) s'"
  shows "skips (CHR ''-'' # CHR ''-'' # s) s'"
proof -
  let ?c = "takeWhile (\<lambda>c. c \<noteq> newline) s" and ?r = "dropWhile (\<lambda>c. c \<noteq> newline) s"
  have "?r = [] \<or> hd ?r = newline" using hd_dropWhile [of "\<lambda>c. c \<noteq> newline" s] by auto
  then have "skips (''--'' @ ?c @ ?r) s'" using assms by (intro skip_comment) (auto dest: set_takeWhileD)
  then show ?thesis by simp
qed

lemma SkipWhitespace_ok:
  "\<exists>g. eats l g (SkipWhitespace l) \<and> lx_line (SkipWhitespace l) = lx_line l + newlines g \<and>
     skips (rest l) (rest (SkipWhitespace l)) \<and> \<not> gap_starts (rest (SkipWhitespace l))"
proof (induction l rule: SkipWhitespace.induct)
  case (1 l)
  show ?case
  proof (cases "rest l")
    case Nil
    then show ?thesis by (auto simp: SkipWhitespace_step [of l] intro: skip_none exI [of _ "[]"])
  next
    case (Cons c s)
    consider "c = newline" | "c \<noteq> newline" "isspace c" | s' where "\<not> isspace c" "c = CHR ''-''" "s = CHR ''-'' # s'"
      | "\<not> isspace c" "\<not> (c = CHR ''-'' \<and> (\<exists>s'. s = CHR ''-'' # s'))" by blast
    then show ?thesis
    proof cases
      case 1
      then have st: "SkipWhitespace l = SkipWhitespace (Advance (count_line l))"
        using Cons by (simp add: SkipWhitespace_step [of l])
      obtain g where "eats (Advance (count_line l)) g (SkipWhitespace l)" "lx_line (SkipWhitespace l) = lx_line l + 1 + newlines g"
          "skips s (rest (SkipWhitespace l))" "\<not> gap_starts (rest (SkipWhitespace l))"
        using "1.IH"(1) Cons 1 st by (auto simp: IsAtEnd_rest Peek_rest)
      then show ?thesis
        using Cons 1 eats_Cons [of "count_line l" c s g "SkipWhitespace l"]
        by (intro exI [of _ "c # g"]) (auto simp: eats_count_line intro: skip_space)
    next
      case 2
      then have st: "SkipWhitespace l = SkipWhitespace (Advance l)" using Cons by (simp add: SkipWhitespace_step [of l])
      obtain g where "eats (Advance l) g (SkipWhitespace l)" "lx_line (SkipWhitespace l) = lx_line l + newlines g"
          "skips s (rest (SkipWhitespace l))" "\<not> gap_starts (rest (SkipWhitespace l))"
        using "1.IH"(2) Cons 2 st by (auto simp: IsAtEnd_rest Peek_rest)
      then show ?thesis
        using Cons 2 eats_Cons [of l c s g "SkipWhitespace l"] by (intro exI [of _ "c # g"]) (auto intro: skip_space)
    next
      case 3
      let ?P = "\<lambda>c. c \<noteq> newline"
      have st: "SkipWhitespace l = SkipWhitespace (advance_while ?P l)"
        using Cons 3 by (auto simp: SkipWhitespace_step [of l])
      obtain g where "eats (advance_while ?P l) g (SkipWhitespace l)" "lx_line (SkipWhitespace l) = lx_line l + newlines g"
          "skips (dropWhile ?P s') (rest (SkipWhitespace l))" "\<not> gap_starts (rest (SkipWhitespace l))"
        using "1.IH"(3) Cons 3 st comment_starts [OF Cons] by (auto simp: IsAtEnd_rest Peek_rest)
      then show ?thesis
        using Cons 3 eats_trans [OF eats_while [of l ?P], of g "SkipWhitespace l"] skips_comment_line [of s']
        by (intro exI [of _ "takeWhile ?P (rest l) @ g"]) auto
    next
      case 4
      then have "SkipWhitespace l = l" using Cons by (auto simp: SkipWhitespace_step [of l])
      moreover have "\<not> gap_starts (c # s)" using 4 by (cases s) (auto simp: gap_starts_def)
      ultimately show ?thesis using Cons by (auto intro: skip_none exI [of _ "[]"])
    qed
  qed
qed

lemma skips_SkipWhitespace:
  "skips s m \<Longrightarrow> \<not> gap_starts m \<Longrightarrow> rest l = s \<Longrightarrow> rest (SkipWhitespace l) = m"
proof (induction s m arbitrary: l rule: skips.induct)
  case (skip_none s)
  then show ?case by (cases s) (auto simp: SkipWhitespace_step [of l])
next
  case (skip_space c s m)
  then show ?case by (auto simp: SkipWhitespace_step [of l])
next
  case (skip_comment c s m)
  have "dropWhile (\<lambda>c. c \<noteq> newline) (''--'' @ c @ s) = s"
    using skip_comment(1,2) by (cases s) (auto simp: dropWhile_append)
  then show ?case using skip_comment.prems skip_comment.IH [of "advance_while (\<lambda>c. c \<noteq> newline) l"]
    by (auto simp: SkipWhitespace_step [of l] isspace_def)
qed

text \<open>The part of \<open>NextToken\<close> after the white space.\<close>

definition token_at :: "Lexer \<Rightarrow> (Token, Lexer) res" where
  "token_at l = (let c = Peek l
     in if isdigit c then ReadNumber l
        else if c = quote then ReadString l
        else if idstart c then ReadIdentifierOrKeyword l
        else punctuation c (Advance l))"

lemma NextToken_eq:
  "NextToken l = (let l1 = SkipWhitespace l in
     if rest l1 = [] then (Ok (token_here TK_EOF [] l1), l1) else token_at l1)"
  by (simp add: NextToken_def token_at_def IsAtEnd_rest idstart_def Let_def)

text \<open>\<open>took l t l'\<close>: the lexer consumed a spelling of \<open>t\<close>.\<close>

definition took :: "Lexer \<Rightarrow> Token \<Rightarrow> Lexer \<Rightarrow> bool" where
  "took l t l' \<longleftrightarrow> (\<exists>w. eats l w l' \<and> spells w (tok_type t) (tok_value t) \<and> separated w (rest l') \<and>
     tok_line t = lx_line l' \<and> lx_line l' = lx_line l + newlines w)"

lemma no_newlines: "list_all idchar w \<Longrightarrow> newlines w = 0" "list_all isdigit w \<Longrightarrow> newlines w = 0"
proof -
  have "\<not> idchar newline" "\<not> isdigit newline"
    by (simp_all add: idchar_def isalnum_def isalpha_def isupper_def islower_def isdigit_def)
  then show "list_all idchar w \<Longrightarrow> newlines w = 0" "list_all isdigit w \<Longrightarrow> newlines w = 0"
    by (auto intro!: newlines_none simp: list_all_iff)
qed

lemma hd_dropWhile_not: "dropWhile P s = [] \<or> \<not> P (hd (dropWhile P s))"
  using hd_dropWhile [of P s] by auto

lemma list_all_takeWhile: "list_all P (takeWhile P s)"
  by (auto simp: list_all_iff dest: set_takeWhileD)

lemma ReadNumber_took:
  assumes "rest l = c # s" and "isdigit c" and "ReadNumber l = (Ok t, l')"
  shows "took l t l'"
proof -
  let ?w = "takeWhile isdigit (rest l)"
  have e: "eats l ?w l'" and t: "t = token_here TK_INT_LITERAL ?w l'" and l': "l' = advance_while isdigit l"
    using assms(3) eats_while [of l isdigit] eats_text [OF eats_while [of l isdigit]] by (auto simp: ReadNumber_def Let_def)
  have "spells ?w TK_INT_LITERAL ?w" using assms(1,2) by (intro number) (simp_all add: list_all_takeWhile)
  moreover have "separated ?w (rest l')"
    using hd_dropWhile_not [of isdigit "rest l"] assms(1,2) char_classes(5) [of c] l'
    by (auto simp: separated_def isdigit_def)
  moreover have "newlines ?w = 0" using list_all_takeWhile no_newlines(2) by blast
  ultimately show ?thesis using e l' unfolding took_def by (intro exI [of _ ?w]) (simp add: t token_here_def)
qed

lemma ReadString_took:
  assumes "rest l = quote # s" and "ReadString l = (Ok t, l')"
  shows "took l t l'"
proof -
  let ?l1 = "Advance l" and ?v = "takeWhile (\<lambda>c. c \<noteq> quote) s"
  let ?l2 = "string_body ?l1"
  have b: "eats ?l1 ?v ?l2" "lx_line ?l2 = lx_line l + newlines ?v" using string_body_ok [of ?l1] assms(1) by auto
  have l': "rest ?l2 \<noteq> []" "l' = Advance ?l2" "t = token_here TK_STRING_LITERAL ?v l'"
    using assms(2) eats_text [OF b(1)] by (auto simp: ReadString_def IsAtEnd_rest Let_def split: if_splits)
  have "s = ?v @ rest ?l2" using eats_rest [OF b(1)] assms(1) by simp
  moreover have "s = ?v @ dropWhile (\<lambda>c. c \<noteq> quote) s" by simp
  ultimately have "rest ?l2 = dropWhile (\<lambda>c. c \<noteq> quote) s" by (metis same_append_eq)
  then have hd: "hd (rest ?l2) = quote" using hd_dropWhile_not [of "\<lambda>c. c \<noteq> quote" s] l'(1) by auto
  have "eats l (quote # ?v @ [quote]) l'"
    using eats_Cons [OF assms(1) eats_trans [OF b(1) eats_Advance [OF l'(1)]]] hd l'(2) by simp
  moreover have "spells (quote # ?v @ [quote]) TK_STRING_LITERAL ?v" by (rule quoted) (auto dest: set_takeWhileD)
  moreover have "separated (quote # ?v @ [quote]) (rest l')"
    by (auto simp: separated_def isdigit_def idstart_def isalpha_def isupper_def islower_def)
  ultimately show ?thesis
    using b(2) l'(2,3) unfolding took_def by (intro exI [of _ "quote # ?v @ [quote]"]) (simp add: token_here_def)
qed

lemma ReadIdentifier_took:
  assumes "rest l = c # s" and "idstart c" and "ReadIdentifierOrKeyword l = (Ok t, l')"
  shows "took l t l'"
proof -
  let ?w = "takeWhile idchar (rest l)"
  have c: "idchar c" "\<not> isdigit c" "c \<noteq> CHR ''<''" "c \<noteq> CHR ''>''"
    using assms(2) char_classes(5,10) [of c]
    by (auto simp: idstart_def isalpha_def isupper_def islower_def)
  have e: "eats l ?w (advance_while idchar l)" by (rule eats_while)
  have t: "l' = advance_while idchar l" "t = (case map_of KEYWORDS (map toupper ?w) of
      Some ty \<Rightarrow> token_here ty (map toupper ?w) l' | None \<Rightarrow> token_here TK_IDENTIFIER ?w l')"
    using assms(3) eats_text [OF e] by (auto simp: ReadIdentifierOrKeyword_def Let_def split: option.splits)
  have w: "?w \<noteq> []" "idstart (hd ?w)" "list_all idchar ?w" using assms(1,2) c list_all_takeWhile by auto
  have "spells ?w (tok_type t) (tok_value t)"
    using keyword [OF w(2,3,1)] ident [OF w(2,3,1)] t(2) by (cases "map_of KEYWORDS (map toupper ?w)") (auto simp: token_here_def)
  moreover have "separated ?w (rest l')"
    using hd_dropWhile_not [of idchar "rest l"] assms(1) c t(1) by (auto simp: separated_def)
  moreover have "newlines ?w = 0" using w(3) no_newlines(1) by blast
  moreover have "tok_line t = lx_line l'" using t(2) by (cases "map_of KEYWORDS (map toupper ?w)") (auto simp: token_here_def)
  ultimately show ?thesis using e t(1) unfolding took_def by (intro exI [of _ ?w]) auto
qed

lemma next_is_rest: "next_is c l \<longleftrightarrow> (\<exists>s. rest l = c # s)"
  by (cases "rest l") (auto simp: next_is_def IsAtEnd_rest Peek_rest)

lemma eats_two: "rest l = c # d # s \<Longrightarrow> eats l [c, d] (Advance (Advance l))"
  using eats_Cons [of l c "d # s" "[d]"] eats_Advance [of "Advance l"] by simp

lemma took_punct:
  assumes "rest l = c # s" and "spells w ty w" and "separated w (rest l')" and "newlines w = 0"
    and "w = [c] \<and> l' = Advance l \<or> (\<exists>d s'. w = [c, d] \<and> s = d # s' \<and> l' = Advance (Advance l))"
  shows "took l (token_here ty w l') l'"
  unfolding took_def using assms eats_Advance [of l] eats_two [of l c]
  by (intro exI [of _ w]) (auto simp: token_here_def)

lemma punctuation_took:
  assumes "rest l = c # s" and "punctuation c (Advance l) = (Ok t, l')"
  shows "took l t l'"
proof -
  have P: "(w, ty) \<in> set PUNCTUATION \<Longrightarrow> spells w ty w" for w ty by (rule punct)
  show ?thesis
    using assms
    by (auto simp: punctuation_def emit_def next_is_rest split: if_splits
        intro!: took_punct P simp: PUNCTUATION_def separated_def isdigit_def idstart_def isalpha_def isupper_def islower_def
          neq_Nil_conv)
qed

lemma token_at_took:
  assumes "rest l \<noteq> []" and "token_at l = (Ok t, l')"
  shows "took l t l'"
proof -
  obtain c s where r: "rest l = c # s" using assms(1) by (cases "rest l") auto
  then show ?thesis
    using assms(2) ReadNumber_took [OF r] ReadString_took [of l s] ReadIdentifier_took [OF r] punctuation_took [OF r]
    by (auto simp: token_at_def Peek_rest Let_def split: if_splits)
qed

text \<open>The other direction: a spelling that is not continued is read as its token.\<close>

lemma takeWhile_word: "list_all P w \<Longrightarrow> s = [] \<or> \<not> P (hd s) \<Longrightarrow> takeWhile P (w @ s) = w \<and> dropWhile P (w @ s) = s"
  by (cases s) (auto simp: list_all_iff takeWhile_append dropWhile_append)

lemma spells_start: "spells w ty v \<Longrightarrow> w \<noteq> [] \<and> \<not> gap_starts (w @ s)"
proof (induction rule: spells.induct)
  case (number w)
  then show ?case using char_classes(1,9) [of "hd w"] by (cases w) (auto simp: gap_starts_def)
next
  case (keyword w ty)
  then show ?case using char_classes(2,8) [of "hd w"] by (cases w) (auto simp: gap_starts_def)
next
  case (ident w)
  then show ?case using char_classes(2,8) [of "hd w"] by (cases w) (auto simp: gap_starts_def)
qed (auto simp: gap_starts_def isspace_def PUNCTUATION_def)

definition gives :: "(Token, Lexer) res \<Rightarrow> TokenType \<Rightarrow> string \<Rightarrow> string \<Rightarrow> bool" where
  "gives r ty v s \<longleftrightarrow> (\<exists>t l'. r = (Ok t, l') \<and> tok_type t = ty \<and> tok_value t = v \<and> rest l' = s)"

lemma gives_emit [simp]: "gives (emit ty v l) ty' v' s \<longleftrightarrow> ty = ty' \<and> v = v' \<and> rest l = s"
  by (auto simp: gives_def emit_def token_here_def)

lemma token_at_word:
  assumes "idstart (hd w)" and "list_all idchar w" and "w \<noteq> []" and "rest l = w @ s" and "separated w s"
  shows "token_at l = ReadIdentifierOrKeyword l \<and> text_since l (advance_while idchar l) = w \<and>
    rest (advance_while idchar l) = s"
proof -
  have "s = [] \<or> \<not> idchar (hd s)" using assms(1,5) by (auto simp: separated_def)
  then have "takeWhile idchar (rest l) = w" "dropWhile idchar (rest l) = s"
    using takeWhile_word [OF assms(2)] assms(4) by auto
  moreover have "\<not> isdigit (hd w)" "hd w \<noteq> quote" using assms(1) char_classes(5,7) by auto
  then have "token_at l = ReadIdentifierOrKeyword l" using assms(1,3,4) by (cases w) (auto simp: token_at_def Peek_rest)
  ultimately show ?thesis using eats_text [OF eats_while [of l idchar]] by simp
qed

lemma token_at_punct:
  assumes "(w, ty) \<in> set PUNCTUATION" and "rest l = w @ s" and "separated w s"
  shows "gives (token_at l) ty w s"
proof -
  obtain c cs where w: "w = c # cs" using assms(1) by (cases w) (simp_all add: PUNCTUATION_def)
  have "\<not> isdigit c \<and> c \<noteq> quote \<and> \<not> idstart c"
    using assms(1) unfolding w PUNCTUATION_def
    by simp (elim disjE conjE; simp add: isdigit_def idstart_def isalpha_def isupper_def islower_def)
  then have t: "token_at l = punctuation c (Advance l)" using assms(2) w by (simp add: token_at_def Peek_rest)
  have r: "tl (rest l) = cs @ s" using assms(2) w by simp
  show ?thesis
    unfolding t using assms(1,3) unfolding w PUNCTUATION_def
    by simp (elim disjE conjE; cases s; simp add: punctuation_def next_is_rest r separated_def)
qed

lemma token_at_spelling:
  assumes "spells w ty v" and "rest l = w @ s" and "separated w s"
  shows "gives (token_at l) ty v s"
  using assms
proof (induction rule: spells.induct)
  case (number w)
  have "s = [] \<or> \<not> isdigit (hd s)" using number by (cases w) (auto simp: separated_def)
  then have "takeWhile isdigit (rest l) = w" "dropWhile isdigit (rest l) = s"
    using takeWhile_word [OF number(2)] number(3) by auto
  then show ?case
    using number eats_text [OF eats_while [of l isdigit]]
    by (cases w) (auto simp: token_at_def Peek_rest ReadNumber_def Let_def gives_def token_here_def)
next
  case (quoted v)
  have r: "rest (Advance l) = v @ quote # s" using quoted by simp
  have t: "takeWhile (\<lambda>c. c \<noteq> quote) (v @ quote # s) = v"
    using quoted(1) by (induction v) auto
  then have e: "eats (Advance l) v (string_body (Advance l))" using string_body_ok [of "Advance l"] r by simp
  then have "rest (string_body (Advance l)) = quote # s" using eats_rest [OF e] r by simp
  then show ?case
    using quoted(2) eats_text [OF e]
    by (auto simp: token_at_def Peek_rest isdigit_def ReadString_def IsAtEnd_rest Let_def gives_def token_here_def)
next
  case (keyword w ty)
  then show ?case
    using token_at_word [of w l s] by (auto simp: ReadIdentifierOrKeyword_def Let_def gives_def token_here_def)
next
  case (ident w)
  then show ?case
    using token_at_word [of w l s] by (auto simp: ReadIdentifierOrKeyword_def Let_def gives_def token_here_def)
next
  case (punct w ty)
  then show ?case by (rule token_at_punct)
qed

lemma NextToken_reads:
  assumes "NextToken l = (Ok t, l')"
  shows "reads (lx_line l) (rest l) t (rest l')" "lx_line l' = tok_line t"
    "tok_type t \<noteq> TK_EOF \<Longrightarrow> length (rest l') < length (rest l)"
proof -
  let ?l = "SkipWhitespace l"
  obtain g where g: "eats l g ?l" "lx_line ?l = lx_line l + newlines g" "skips (rest l) (rest ?l)"
    using SkipWhitespace_ok by blast
  note r = eats_rest [OF g(1)]
  have "reads (lx_line l) (rest l) t (rest l') \<and> lx_line l' = tok_line t \<and>
      (tok_type t \<noteq> TK_EOF \<longrightarrow> length (rest l') < length (rest l))"
  proof (cases "rest ?l = []")
    case True
    then show ?thesis using assms g r by (auto simp: NextToken_eq reads_def token_here_def)
  next
    case False
    then obtain w where w: "eats ?l w l'" "spells w (tok_type t) (tok_value t)" "separated w (rest l')"
        "tok_line t = lx_line l'" "lx_line l' = lx_line ?l + newlines w"
      using token_at_took [of ?l t l'] assms by (auto simp: NextToken_eq took_def)
    then show ?thesis
      using g r eats_rest [OF w(1)] spells_start [OF w(2)] by (auto simp: reads_def)
  qed
  then show "reads (lx_line l) (rest l) t (rest l')" "lx_line l' = tok_line t"
    "tok_type t \<noteq> TK_EOF \<Longrightarrow> length (rest l') < length (rest l)" by auto
qed

lemma reads_NextToken:
  assumes "reads (lx_line l) (rest l) t s"
  shows "\<exists>l'. NextToken l = (Ok t, l') \<and> rest l' = s"
proof -
  let ?l = "SkipWhitespace l"
  have "gives (NextToken l) (tok_type t) (tok_value t) s"
    using assms unfolding reads_def
  proof (elim conjE disjE exE)
    assume "skips (rest l) []" "s = []" "tok_type t = TK_EOF" "tok_value t = []"
    then show ?thesis using skips_SkipWhitespace [of "rest l" "[]" l] by (auto simp: NextToken_eq gives_def token_here_def Let_def)
  next
    fix w assume w: "skips (rest l) (w @ s)" "spells w (tok_type t) (tok_value t)" "separated w s"
    then have "rest ?l = w @ s" using skips_SkipWhitespace [OF w(1) _ refl] spells_start [OF w(2)] by blast
    then show ?thesis
      using token_at_spelling [OF w(2) _ w(3), of ?l] spells_start [OF w(2)] by (auto simp: NextToken_eq Let_def)
  qed
  then obtain t' l' where n: "NextToken l = (Ok t', l')" "tok_type t' = tok_type t" "tok_value t' = tok_value t" "rest l' = s"
    by (auto simp: gives_def)
  moreover have "tok_line t' = tok_line t" using NextToken_reads(1) [OF n(1)] assms n(4) by (simp add: reads_def)
  ultimately show ?thesis by (metis Token.equality old.unit.exhaust)
qed

section \<open>Tokenize\<close>

function tokenize_loop :: "Token list \<Rightarrow> Lexer \<Rightarrow> (Token list, Lexer) res" where
  "tokenize_loop tokens l = bind_res (NextToken l) (\<lambda>t l'.
     let tokens' = tokens @ [t]
     in if tok_type t = TK_EOF then (Ok tokens', l') else tokenize_loop tokens' l')"
  by auto
termination
  by (relation "measure (\<lambda>(tokens, l). length (rest l))") (auto dest: NextToken_reads(3))

declare tokenize_loop.simps [simp del]

definition Tokenize :: "Lexer \<Rightarrow> (Token list, Lexer) res" where
  "Tokenize l = tokenize_loop [] l"

lemma tokenize_loop_lexes:
  "tokenize_loop acc l = (Ok toks, l') \<Longrightarrow> \<exists>ts. toks = acc @ ts \<and> lexes (lx_line l) (rest l) ts"
proof (induction acc l rule: tokenize_loop.induct)
  case (1 acc l)
  obtain t l1 where n: "NextToken l = (Ok t, l1)"
    using "1.prems" by (cases "NextToken l"; cases "fst (NextToken l)") (auto simp: tokenize_loop.simps [of acc l])
  show ?case
  proof (cases "tok_type t = TK_EOF")
    case True
    then show ?thesis using "1.prems" n NextToken_reads(1) [OF n] by (auto simp: tokenize_loop.simps [of acc l] intro: lex_end)
  next
    case False
    then obtain ts where "toks = acc @ t # ts" "lexes (lx_line l1) (rest l1) ts"
      using "1.IH" [OF n refl False] "1.prems" n by (auto simp: tokenize_loop.simps [of acc l])
    then show ?thesis using NextToken_reads(1,2) [OF n] False by (auto intro: lex_token)
  qed
qed

lemma lexes_tokenize_loop:
  "lexes n s ts \<Longrightarrow> n = lx_line l \<Longrightarrow> s = rest l \<Longrightarrow> \<exists>l'. tokenize_loop acc l = (Ok (acc @ ts), l')"
proof (induction n s ts arbitrary: acc l rule: lexes.induct)
  case (lex_end n s t s')
  then show ?case using reads_NextToken [of l t s'] by (auto simp: tokenize_loop.simps [of acc l])
next
  case (lex_token n s t s' ts)
  then obtain l1 where n: "NextToken l = (Ok t, l1)" "rest l1 = s'" using reads_NextToken [of l t s'] by auto
  then show ?case
    using lex_token.IH [of l1 "acc @ [t]"] lex_token.hyps(2) NextToken_reads(2) [OF n(1)] by (auto simp: tokenize_loop.simps [of acc l])
qed

lemma Tokenize_iff: "(\<exists>l'. Tokenize l = (Ok ts, l')) \<longleftrightarrow> lexes (lx_line l) (rest l) ts"
  using tokenize_loop_lexes [of "[]" l ts] lexes_tokenize_loop [of _ _ ts l "[]"] by (auto simp: Tokenize_def)

lemma mk_Lexer_rest [simp]: "rest (mk_Lexer s) = s" "lx_line (mk_Lexer s) = 1"
  by (simp_all add: rest_def mk_Lexer_def)

lemma lexes_eof: "lexes n s ts \<Longrightarrow> \<exists>us e. ts = us @ [e] \<and> tok_type e = TK_EOF \<and> TK_EOF \<notin> tok_type ` set us"
proof (induction rule: lexes.induct)
  case (lex_token n s t s' ts)
  then obtain us e where "ts = us @ [e]" "tok_type e = TK_EOF" "TK_EOF \<notin> tok_type ` set us" by blast
  then show ?case using lex_token.hyps(2) by (intro exI [of _ "t # us"] exI [of _ e]) auto
qed auto

text \<open>The ways lexing can fail.\<close>

definition lex_error :: "exn \<Rightarrow> bool" where
  "lex_error e \<longleftrightarrow> e = Runtime_Error ''Unterminated string literal'' \<or>
     (\<exists>c. e = Runtime_Error (''Unexpected character: '' @ [c]))"

lemma NextToken_error: "\<exists>t l'. NextToken l = (Ok t, l') \<or> (\<exists>e. NextToken l = (Throw e, l') \<and> lex_error e)"
  unfolding NextToken_eq token_at_def Let_def
  by (auto simp: ReadNumber_def ReadString_def ReadIdentifierOrKeyword_def punctuation_def emit_def lex_error_def Let_def
      split: option.split)

lemma tokenize_loop_error:
  "\<exists>ts l'. tokenize_loop acc l = (Ok ts, l') \<or> (\<exists>e. tokenize_loop acc l = (Throw e, l') \<and> lex_error e)"
proof (induction acc l rule: tokenize_loop.induct)
  case (1 acc l)
  obtain t l1 where "NextToken l = (Ok t, l1) \<or> (\<exists>e. NextToken l = (Throw e, l1) \<and> lex_error e)"
    using NextToken_error by blast
  then show ?case using 1 [of t l1] by (auto simp: tokenize_loop.simps [of acc l] Let_def)
qed

text \<open>Words with a space after each.\<close>

definition spaced :: "string list \<Rightarrow> string" where
  "spaced ws = concat (map (\<lambda>w. w @ '' '') ws)"

definition strip :: "Token \<Rightarrow> TokenType \<times> string" where
  "strip t = (tok_type t, tok_value t)"

lemma strip_Token [simp]: "strip \<lparr>tok_type = ty, tok_value = v, tok_line = n\<rparr> = (ty, v)"
  by (simp add: strip_def)

lemma separated_space: "separated w ('' '' @ s)"
  by (simp add: separated_def isdigit_def idchar_def isalnum_def isalpha_def isupper_def islower_def)

lemma spaced_lexes:
  assumes "list_all2 (\<lambda>w (ty, v). spells w ty v) ws tvs" and "sp = [] \<or> sp = '' ''"
    and after: "\<And>n sp. sp = [] \<or> sp = '' '' \<Longrightarrow> \<exists>ts. lexes n (sp @ r) ts \<and> map strip ts = us"
  shows "\<exists>ts. lexes n (sp @ spaced ws @ r) ts \<and> map strip ts = tvs @ us"
  using assms(1,2)
proof (induction ws tvs arbitrary: n sp rule: list_all2_induct)
  case Nil
  then show ?case using after [of sp n] by (simp add: spaced_def)
next
  case (Cons w ws tv tvs)
  obtain ty v where tv: "tv = (ty, v)" by (cases tv)
  let ?s = "'' '' @ spaced ws @ r"
  let ?t = "\<lparr>tok_type = ty, tok_value = v, tok_line = n + newlines (sp @ w @ ?s) - newlines ?s\<rparr>"
  have "skips (sp @ w @ ?s) (w @ ?s)"
    using Cons.prems skip_space [OF _ skip_none, of "CHR '' ''" "w @ ?s"] by (auto intro: skip_none simp: isspace_def)
  then have rd: "reads n (sp @ w @ ?s) ?t ?s" using Cons.hyps(1) tv separated_space [of w "spaced ws @ r"] by (auto simp: reads_def)
  obtain ts where "lexes (tok_line ?t) ?s ts" "map strip ts = tvs @ us" using Cons.IH [of "'' ''"] by blast
  then have "lexes n (sp @ w @ ?s) (?t # ts)"
    using lex_token [OF rd] spells_not_eof [of w ty v] Cons.hyps(1) tv by simp
  then show ?case
    using \<open>map strip ts = _\<close> tv by (intro exI [of _ "?t # ts"]) (simp add: spaced_def)
qed

lemma gap_lexes: "sp = [] \<or> sp = '' '' \<Longrightarrow> \<exists>ts. lexes n sp ts \<and> map strip ts = [(TK_EOF, [])]"
proof -
  assume sp: "sp = [] \<or> sp = '' ''"
  let ?t = "\<lparr>tok_type = TK_EOF, tok_value = [], tok_line = n\<rparr>"
  have "skips sp []" using sp by (auto intro: skip_none skip_space simp: isspace_def)
  then have "reads n sp ?t []" using sp by (auto simp: reads_def)
  then show ?thesis using lex_end [of n sp ?t "[]"] by (auto simp: strip_def)
qed

lemma semicolon_lexes:
  "sp = [] \<or> sp = '' '' \<Longrightarrow> \<exists>ts. lexes n (sp @ '';'') ts \<and> map strip ts = [(TK_SEMICOLON, '';''), (TK_EOF, [])]"
proof -
  assume sp: "sp = [] \<or> sp = '' ''"
  let ?t = "\<lparr>tok_type = TK_SEMICOLON, tok_value = '';'', tok_line = n + newlines (sp @ '';'') - newlines []\<rparr>"
  have "skips (sp @ '';'') '';''"
    using sp skip_space [OF _ skip_none, of "CHR '' ''" "'';''"] by (auto intro: skip_none simp: isspace_def)
  moreover have "spells '';'' TK_SEMICOLON '';''" by (rule punct) (simp add: PUNCTUATION_def)
  moreover have "separated '';'' []" by (simp add: separated_def)
  ultimately have "reads n (sp @ '';'') ?t []" unfolding reads_def by (intro conjI disjI2 exI [of _ "'';''"]) simp_all
  moreover obtain ts where "lexes (tok_line ?t) [] ts" "map strip ts = [(TK_EOF, [])]"
    using gap_lexes [of "[]" "tok_line ?t", OF disjI1 [OF refl]] by (elim exE conjE)
  ultimately show ?thesis using lex_token [of n "sp @ '';''" ?t "[]" ts] by (intro exI [of _ "?t # ts"]) simp
qed

lemma Tokenize_spaced:
  assumes "list_all2 (\<lambda>w (ty, v). spells w ty v) ws tvs"
  shows "\<exists>ts l'. Tokenize (mk_Lexer (spaced ws)) = (Ok ts, l') \<and> map strip ts = tvs @ [(TK_EOF, [])]"
    and "\<exists>ts l'. Tokenize (mk_Lexer (spaced ws @ '';'')) = (Ok ts, l') \<and> map strip ts = tvs @ [(TK_SEMICOLON, '';''), (TK_EOF, [])]"
proof -
  have tok: "\<exists>ts l'. Tokenize (mk_Lexer s) = (Ok ts, l') \<and> map strip ts = us" if l: "\<exists>ts. lexes 1 s ts \<and> map strip ts = us" for s us
  proof -
    obtain ts where "lexes 1 s ts" "map strip ts = us" using l by blast
    then show ?thesis using Tokenize_iff [of "mk_Lexer s" ts] by auto
  qed
  show "\<exists>ts l'. Tokenize (mk_Lexer (spaced ws)) = (Ok ts, l') \<and> map strip ts = tvs @ [(TK_EOF, [])]"
    using spaced_lexes [OF assms, of "[]" "[]" "[(TK_EOF, [])]" 1] gap_lexes by (intro tok) simp
  show "\<exists>ts l'. Tokenize (mk_Lexer (spaced ws @ '';'')) = (Ok ts, l') \<and> map strip ts = tvs @ [(TK_SEMICOLON, '';''), (TK_EOF, [])]"
    by (rule tok, rule spaced_lexes [OF assms, of "[]", simplified]) (rule semicolon_lexes)
qed

section \<open>Properties\<close>

text \<open>(C31) The lexer implements the lexical grammar: \<open>Tokenize\<close> succeeds on a text exactly when the
  text is a sequence of spellings (a number, a quoted string, a keyword in any case, an identifier,
  punctuation) with white space and comments between them, none continued by what follows; it
  returns the tokens of those spellings in order and an end token, each with the number of the
  line it ends on.\<close>

theorem lexer_follows_grammar: "(\<exists>l'. Tokenize (mk_Lexer s) = (Ok ts, l')) \<longleftrightarrow> lexes 1 s ts"
  using Tokenize_iff [of "mk_Lexer s" ts] by simp

text \<open>The lexer ends on every text. It returns tokens of which the last one, and no other, is the
  end token, or throws one of its two errors; it never reads outside the text.\<close>

theorem lexer_total:
  "\<exists>l'. (\<exists>us e. Tokenize (mk_Lexer s) = (Ok (us @ [e]), l') \<and> tok_type e = TK_EOF \<and> TK_EOF \<notin> tok_type ` set us) \<or>
    Tokenize (mk_Lexer s) = (Throw (Runtime_Error ''Unterminated string literal''), l') \<or>
    (\<exists>c. Tokenize (mk_Lexer s) = (Throw (Runtime_Error (''Unexpected character: '' @ [c])), l'))"
proof -
  obtain ts l' where "Tokenize (mk_Lexer s) = (Ok ts, l') \<or> (\<exists>e. Tokenize (mk_Lexer s) = (Throw e, l') \<and> lex_error e)"
    using tokenize_loop_error [of "[]" "mk_Lexer s"] by (auto simp: Tokenize_def)
  then show ?thesis
    using Tokenize_iff [of "mk_Lexer s" ts] lexes_eof [of 1 s ts] by (auto simp: lex_error_def)
qed

end
