(* ===== verification/Parser.thy ===== *)
theory Parser
  imports Lexer DB_Types
begin

text \<open>
  \<open>src/src/parser/ast.h\<close> and \<open>parser.cpp\<close>: recursive descent from tokens to statements. The parser
  object is its state, the tokens and a position; an access behind the last token is a fault. The
  theorems show that this never happens on the tokens of the lexer, that parsing always ends, and
  that a statement printed as tokens is parsed back.
\<close>

section \<open>Definitions\<close>

subsection \<open>The syntax trees\<close>

text \<open>
  \<open>Expr\<close> is a struct with a tag and the fields of all kinds of expression; here each kind is a
  constructor with its own fields. The argument of an aggregate is \<open>None\<close> for \<open>*\<close>.
\<close>

datatype Expr =
    COLUMN_REF string string
  | INT_LITERAL i32
  | STRING_LITERAL string
  | BINARY_OP string Expr Expr
  | UNARY_OP string Expr
  | STAR
  | AGGREGATE string "Expr option"

record ColumnDef =
  cd_name :: string
  cd_type :: TypeId
  cd_max_len :: u16

record CreateTableStmt =
  ct_table_name :: string
  ct_columns :: "ColumnDef list"

record InsertStmt =
  in_table_name :: string
  in_values :: "Expr list"

record SelectItem =
  si_expr :: Expr
  si_alias :: string

record JoinClause =
  jc_table_name :: string
  jc_alias :: string
  jc_condition :: Expr

record OrderByItem =
  ob_expr :: Expr
  ob_ascending :: bool

record SelectStmt =
  select_list :: "SelectItem list"
  from_table :: string
  from_alias :: string
  joins :: "JoinClause list"
  where_clause :: "Expr option"
  group_by :: "Expr list"
  order_by :: "OrderByItem list"

datatype Statement =
    CreateTable CreateTableStmt
  | InsertInto InsertStmt
  | Select SelectStmt
  | Explain SelectStmt

subsection \<open>Token helpers\<close>

record Parser =
  ps_tokens :: "Token list"
  ps_pos :: nat

definition mk_Parser :: "Token list \<Rightarrow> Parser" where
  "mk_Parser ts = \<lparr>ps_tokens = ts, ps_pos = 0\<rparr>"

definition Current :: "Parser \<Rightarrow> (Token, Parser) res" where
  "Current p = (if ps_pos p < length (ps_tokens p) then (Ok (ps_tokens p ! ps_pos p), p) else (Fault, p))"

definition Consume :: "Parser \<Rightarrow> (Token, Parser) res" where
  "Consume p = bind_res (Current p) (\<lambda>t p1. (Ok t, p1\<lparr>ps_pos := Suc (ps_pos p1)\<rparr>))"

definition Check :: "TokenType \<Rightarrow> Parser \<Rightarrow> (bool, Parser) res" where
  "Check ty p = bind_res (Current p) (\<lambda>t p1. (Ok (tok_type t = ty), p1))"

definition Match :: "TokenType \<Rightarrow> Parser \<Rightarrow> (bool, Parser) res" where
  "Match ty p = bind_res (Check ty p) (\<lambda>c p1.
     if c then (Ok True, p1\<lparr>ps_pos := Suc (ps_pos p1)\<rparr>) else (Ok False, p1))"

definition quoted_msg :: "string \<Rightarrow> string \<Rightarrow> string \<Rightarrow> string" where
  "quoted_msg before s after = before @ [quote] @ s @ [quote] @ after"

definition Expect :: "TokenType \<Rightarrow> string \<Rightarrow> Parser \<Rightarrow> (Token, Parser) res" where
  "Expect ty msg p = bind_res (Check ty p) (\<lambda>c p1.
     if c then Consume p1
     else bind_res (Current p1) (\<lambda>t p2.
       (Throw (Runtime_Error (quoted_msg ''Parse error at '' (tok_value t) ('': '' @ msg))), p2)))"

text \<open>\<open>std::stoi\<close>: leading white space, a sign, digits up to the first other character.\<close>

fun digits_val :: "nat \<Rightarrow> string \<Rightarrow> nat" where
  "digits_val acc [] = acc"
| "digits_val acc (c # cs) = digits_val (10 * acc + (ccode c - 48)) cs"

definition stoi :: "string \<Rightarrow> i32 outcome" where
  "stoi s =
     (let s1 = dropWhile isspace s;
          neg = (s1 \<noteq> [] \<and> hd s1 = CHR ''-'');
          s2 = (if s1 \<noteq> [] \<and> (hd s1 = CHR ''-'' \<or> hd s1 = CHR ''+'') then tl s1 else s1);
          ds = takeWhile isdigit s2;
          v = (if neg then - int (digits_val 0 ds) else int (digits_val 0 ds))
      in if ds = [] then Throw (Invalid_Argument ''stoi'')
         else if INT32_MIN \<le> v \<and> v \<le> INT32_MAX then Ok (mk32 v)
         else Throw (Out_Of_Range ''stoi''))"

definition lift_out :: "'a outcome \<Rightarrow> 's \<Rightarrow> ('a, 's) res" where
  "lift_out r s = (r, s)"

subsection \<open>Expressions\<close>

definition OPS :: "(TokenType \<times> string) list" where
  "OPS = [(TK_EQ, ''=''), (TK_LT, ''<''), (TK_GT, ''>''), (TK_LEQ, ''<=''), (TK_GEQ, ''>=''), (TK_NEQ, ''!='')]"

definition AGG_NAMES :: "(TokenType \<times> string) list" where
  "AGG_NAMES = [(TK_COUNT, ''COUNT''), (TK_SUM, ''SUM''), (TK_AVG, ''AVG''), (TK_MIN, ''MIN''), (TK_MAX, ''MAX'')]"

text \<open>The loops over these tables look for the entry of the current token; its order does not matter.\<close>

definition match_table :: "(TokenType \<times> string) list \<Rightarrow> Parser \<Rightarrow> (string option, Parser) res" where
  "match_table tab p = bind_res (Current p) (\<lambda>t p1.
     case map_of tab (tok_type t) of
       None \<Rightarrow> (Ok None, p1)
     | Some s \<Rightarrow> (Ok (Some s), p1\<lparr>ps_pos := Suc (ps_pos p1)\<rparr>))"

text \<open>The cases of \<open>ParsePrimary\<close> after those that recurse: literals and column references.\<close>

definition parse_column :: "Parser \<Rightarrow> (Expr, Parser) res" where
  "parse_column p = bind_res (Check TK_IDENTIFIER p) (\<lambda>c p1.
     if c then bind_res (Consume p1) (\<lambda>t p2. bind_res (Match TK_DOT p2) (\<lambda>dot p3.
       if dot
       then bind_res (Expect TK_IDENTIFIER (quoted_msg ''Expected column name after '' ''.'' '''') p3) (\<lambda>u p4.
         (Ok (COLUMN_REF (tok_value t) (tok_value u)), p4))
       else (Ok (COLUMN_REF '''' (tok_value t)), p3)))
     else bind_res (Current p1) (\<lambda>t p2.
       (Throw (Runtime_Error (quoted_msg ''Unexpected token in expression: '' (tok_value t) '''')), p2)))"

definition parse_literal :: "Parser \<Rightarrow> (Expr option, Parser) res" where
  "parse_literal p = bind_res (Check TK_INT_LITERAL p) (\<lambda>c p1.
     if c then bind_res (Consume p1) (\<lambda>t p2. bind_res (lift_out (stoi (tok_value t)) p2) (\<lambda>i p3.
       (Ok (Some (INT_LITERAL i)), p3)))
     else bind_res (Check TK_STRING_LITERAL p1) (\<lambda>c p2.
       if c then bind_res (Consume p2) (\<lambda>t p3. (Ok (Some (STRING_LITERAL (tok_value t))), p3))
       else (Ok None, p2)))"

function ParseExpr :: "Parser \<Rightarrow> (Expr, Parser) res"
  and or_loop :: "Expr \<Rightarrow> Parser \<Rightarrow> (Expr, Parser) res"
  and ParseOr :: "Parser \<Rightarrow> (Expr, Parser) res"
  and and_loop :: "Expr \<Rightarrow> Parser \<Rightarrow> (Expr, Parser) res"
  and ParseAnd :: "Parser \<Rightarrow> (Expr, Parser) res"
  and ParseNot :: "Parser \<Rightarrow> (Expr, Parser) res"
  and ParseComparison :: "Parser \<Rightarrow> (Expr, Parser) res"
  and ParsePrimary :: "Parser \<Rightarrow> (Expr, Parser) res"
where
  "ParseExpr p = ParseOr p"
| "or_loop left p = bind_res (Match TK_OR p) (\<lambda>m p1.
     if m then bind_res (ParseAnd p1) (\<lambda>right p2. or_loop (BINARY_OP ''OR'' left right) p2)
     else (Ok left, p1))"
| "ParseOr p = bind_res (ParseAnd p) (\<lambda>left p1. or_loop left p1)"
| "and_loop left p = bind_res (Match TK_AND p) (\<lambda>m p1.
     if m then bind_res (ParseNot p1) (\<lambda>right p2. and_loop (BINARY_OP ''AND'' left right) p2)
     else (Ok left, p1))"
| "ParseAnd p = bind_res (ParseNot p) (\<lambda>left p1. and_loop left p1)"
| "ParseNot p = bind_res (Match TK_NOT p) (\<lambda>m p1.
     if m then bind_res (ParseComparison p1) (\<lambda>e p2. (Ok (UNARY_OP ''NOT'' e), p2))
     else ParseComparison p1)"
| "ParseComparison p = bind_res (ParsePrimary p) (\<lambda>left p1. bind_res (match_table OPS p1) (\<lambda>op p2. case op of
       Some s \<Rightarrow> bind_res (ParsePrimary p2) (\<lambda>right p3. (Ok (BINARY_OP s left right), p3))
     | None \<Rightarrow> (Ok left, p2)))"
| "ParsePrimary p = bind_res (Match TK_LPAREN p) (\<lambda>m p1.
     if m then bind_res (ParseExpr p1) (\<lambda>e p2. bind_res (Expect TK_RPAREN (quoted_msg ''Expected '' '')'' '''') p2) (\<lambda>_ p3. (Ok e, p3)))
     else bind_res (Match TK_STAR p1) (\<lambda>m p2. if m then (Ok STAR, p2)
     else bind_res (parse_literal p2) (\<lambda>lit p3. case lit of Some e \<Rightarrow> (Ok e, p3)
     | None \<Rightarrow> bind_res (match_table AGG_NAMES p3) (\<lambda>agg p4. case agg of
         Some name \<Rightarrow>
           bind_res (Expect TK_LPAREN (quoted_msg ''Expected '' ''('' ('' after '' @ name)) p4) (\<lambda>_ p5.
           bind_res (Match TK_STAR p5) (\<lambda>star p6.
             if star then bind_res (Expect TK_RPAREN (quoted_msg ''Expected '' '')'' '''') p6) (\<lambda>_ p7. (Ok (AGGREGATE name None), p7))
             else bind_res (ParseExpr p6) (\<lambda>e p7.
               bind_res (Expect TK_RPAREN (quoted_msg ''Expected '' '')'' '''') p7) (\<lambda>_ p8. (Ok (AGGREGATE name (Some e)), p8)))))
       | None \<Rightarrow> parse_column p4))))"
  by pat_completeness auto

text \<open>Parsing moves forward over the tokens.\<close>

definition moves :: "Parser \<Rightarrow> Parser \<Rightarrow> bool" where
  "moves p p' \<longleftrightarrow> ps_tokens p' = ps_tokens p \<and> ps_pos p \<le> ps_pos p'"

definition left_over :: "Parser \<Rightarrow> nat" where
  "left_over p = length (ps_tokens p) - ps_pos p"

lemma moves_refl [simp]: "moves p p"
  by (simp add: moves_def)

lemma moves_trans: "moves p q \<Longrightarrow> moves q r \<Longrightarrow> moves p r"
  by (simp add: moves_def)

lemma moves_left_over: "moves p q \<Longrightarrow> left_over q \<le> left_over p"
  by (auto simp: moves_def left_over_def)

lemma Current_Ok: "Current p = (Ok t, q) \<longleftrightarrow> q = p \<and> ps_pos p < length (ps_tokens p) \<and> t = ps_tokens p ! ps_pos p"
  by (auto simp: Current_def)

lemma Check_Ok: "Check ty p = (Ok c, q) \<longleftrightarrow> q = p \<and> ps_pos p < length (ps_tokens p) \<and> c = (tok_type (ps_tokens p ! ps_pos p) = ty)"
  by (auto simp: Check_def bind_res_eq_Ok Current_Ok)

lemma Match_Ok:
  "Match ty p = (Ok c, q) \<longleftrightarrow> ps_pos p < length (ps_tokens p) \<and> c = (tok_type (ps_tokens p ! ps_pos p) = ty) \<and>
     q = (if c then p\<lparr>ps_pos := Suc (ps_pos p)\<rparr> else p)"
  by (auto simp: Match_def bind_res_eq_Ok Check_Ok)

lemma Consume_Ok:
  "Consume p = (Ok t, q) \<longleftrightarrow> ps_pos p < length (ps_tokens p) \<and> t = ps_tokens p ! ps_pos p \<and> q = p\<lparr>ps_pos := Suc (ps_pos p)\<rparr>"
  by (auto simp: Consume_def bind_res_eq_Ok Current_Ok)

lemma Expect_Ok:
  "Expect ty msg p = (Ok t, q) \<longleftrightarrow> ps_pos p < length (ps_tokens p) \<and> t = ps_tokens p ! ps_pos p \<and> tok_type t = ty \<and>
     q = p\<lparr>ps_pos := Suc (ps_pos p)\<rparr>"
  by (auto simp: Expect_def bind_res_eq_Ok Check_Ok Consume_Ok)

lemma match_table_Ok:
  "match_table tab p = (Ok r, q) \<longleftrightarrow> ps_pos p < length (ps_tokens p) \<and> r = map_of tab (tok_type (ps_tokens p ! ps_pos p)) \<and>
     q = (if r = None then p else p\<lparr>ps_pos := Suc (ps_pos p)\<rparr>)"
  by (auto simp: match_table_def bind_res_eq_Ok Current_Ok split: option.splits)

lemmas parse_Ok = bind_res_eq_Ok Current_Ok Check_Ok Match_Ok Consume_Ok Expect_Ok match_table_Ok

text \<open>\<open>steady r p\<close>: what was called in \<open>p\<close> and gave \<open>r\<close> moved forward.\<close>

definition steady :: "('a, Parser) res \<Rightarrow> Parser \<Rightarrow> bool" where
  "steady r p \<longleftrightarrow> (\<forall>a q. r = (Ok a, q) \<longrightarrow> moves p q)"

lemma steady_simps [simp]: "steady (Ok a, q) p \<longleftrightarrow> moves p q" "steady (Throw e, q) p" "steady (Fault, q) p"
  by (auto simp: steady_def)

lemma steady_bind:
  "steady m p \<Longrightarrow> (\<And>a q. m = (Ok a, q) \<Longrightarrow> steady (f a q) q) \<Longrightarrow> steady (bind_res m f) p"
  unfolding steady_def bind_res_eq_Ok by (blast intro: moves_trans)

lemma steady_helpers [simp]:
  "steady (Current p) p" "steady (Check ty p) p" "steady (Match ty p) p" "steady (Consume p) p" "steady (Expect ty msg p) p"
  "steady (match_table tab p) p" "steady (lift_out r p) p"
  by (auto simp: steady_def parse_Ok lift_out_def moves_def)

lemma steady_cases:
  "(c \<Longrightarrow> steady a p) \<Longrightarrow> (\<not> c \<Longrightarrow> steady b p) \<Longrightarrow> steady (if c then a else b) p"
  "(x = None \<Longrightarrow> steady f p) \<Longrightarrow> (\<And>y. x = Some y \<Longrightarrow> steady (g y) p) \<Longrightarrow> steady (case x of None \<Rightarrow> f | Some y \<Rightarrow> g y) p"
  by (auto split: option.split)

lemmas steady_intros = steady_bind steady_cases

lemma steady_primary [simp]: "steady (parse_literal p) p" "steady (parse_column p) p"
  by (auto simp: parse_literal_def parse_column_def intro!: steady_intros)

lemma parse_steady:
  "ParseExpr_or_loop_ParseOr_and_loop_ParseAnd_ParseNot_ParseComparison_ParsePrimary_dom (Inl (Inl (Inl p1))) \<Longrightarrow> steady (ParseExpr p1) p1"
  "ParseExpr_or_loop_ParseOr_and_loop_ParseAnd_ParseNot_ParseComparison_ParsePrimary_dom (Inl (Inl (Inr (l2, p2)))) \<Longrightarrow> steady (or_loop l2 p2) p2"
  "ParseExpr_or_loop_ParseOr_and_loop_ParseAnd_ParseNot_ParseComparison_ParsePrimary_dom (Inl (Inr (Inl p3))) \<Longrightarrow> steady (ParseOr p3) p3"
  "ParseExpr_or_loop_ParseOr_and_loop_ParseAnd_ParseNot_ParseComparison_ParsePrimary_dom (Inl (Inr (Inr (l4, p4)))) \<Longrightarrow> steady (and_loop l4 p4) p4"
  "ParseExpr_or_loop_ParseOr_and_loop_ParseAnd_ParseNot_ParseComparison_ParsePrimary_dom (Inr (Inl (Inl p5))) \<Longrightarrow> steady (ParseAnd p5) p5"
  "ParseExpr_or_loop_ParseOr_and_loop_ParseAnd_ParseNot_ParseComparison_ParsePrimary_dom (Inr (Inl (Inr p6))) \<Longrightarrow> steady (ParseNot p6) p6"
  "ParseExpr_or_loop_ParseOr_and_loop_ParseAnd_ParseNot_ParseComparison_ParsePrimary_dom (Inr (Inr (Inl p7))) \<Longrightarrow> steady (ParseComparison p7) p7"
  "ParseExpr_or_loop_ParseOr_and_loop_ParseAnd_ParseNot_ParseComparison_ParsePrimary_dom (Inr (Inr (Inr p8))) \<Longrightarrow> steady (ParsePrimary p8) p8"
proof (induction p1 and l2 p2 and p3 and l4 p4 and p5 and p6 and p7 and p8
    rule: ParseExpr_or_loop_ParseOr_and_loop_ParseAnd_ParseNot_ParseComparison_ParsePrimary.pinduct)
  case (1 p)
  then show ?case by (simp add: ParseExpr.psimps)
next
  case (2 left p)
  show ?case unfolding or_loop.psimps [OF 2(1)] by (intro steady_intros) (auto intro: 2)
next
  case (3 p)
  show ?case unfolding ParseOr.psimps [OF 3(1)] by (intro steady_intros) (auto intro: 3)
next
  case (4 left p)
  show ?case unfolding and_loop.psimps [OF 4(1)] by (intro steady_intros) (auto intro: 4)
next
  case (5 p)
  show ?case unfolding ParseAnd.psimps [OF 5(1)] by (intro steady_intros) (auto intro: 5)
next
  case (6 p)
  show ?case unfolding ParseNot.psimps [OF 6(1)] by (intro steady_intros) (auto intro: 6)
next
  case (7 p)
  show ?case unfolding ParseComparison.psimps [OF 7(1)] by (intro steady_intros) (simp_all add: 7(2) 7(3))
next
  case (8 p)
  show ?case unfolding ParsePrimary.psimps [OF 8(1)] by (intro steady_intros; (rule 8(2) 8(3), assumption+)?) simp_all
qed

lemma Match_left_over: "Match ty p = (Ok True, q) \<Longrightarrow> left_over q < left_over p"
  by (auto simp: Match_Ok left_over_def)

lemma match_table_left_over: "match_table tab p = (Ok (Some s), q) \<Longrightarrow> left_over q < left_over p"
  by (auto simp: match_table_Ok left_over_def)

lemma Match_no_gain: "Match ty p = (Ok False, q) \<Longrightarrow> q = p"
  by (auto simp: Match_Ok)

lemma steady_left_over: "steady r p \<Longrightarrow> r = (Ok a, q) \<Longrightarrow> left_over q \<le> left_over p"
  by (simp add: steady_def moves_left_over)

text \<open>Parsing ends: a call passes on fewer tokens, or as many to a function further down.\<close>

definition parse_measure :: "((Parser + Expr \<times> Parser) + Parser + Expr \<times> Parser) + (Parser + Parser) + Parser + Parser \<Rightarrow> nat \<times> nat" where
  "parse_measure = case_sum
     (case_sum (case_sum (\<lambda>p. (left_over p, 6)) (\<lambda>(l, p). (left_over p, 4)))
               (case_sum (\<lambda>p. (left_over p, 5)) (\<lambda>(l, p). (left_over p, 3))))
     (case_sum (case_sum (\<lambda>p. (left_over p, 4)) (\<lambda>p. (left_over p, 3)))
               (case_sum (\<lambda>p. (left_over p, 2)) (\<lambda>p. (left_over p, 1))))"

lemma parse_total: "All ParseExpr_or_loop_ParseOr_and_loop_ParseAnd_ParseNot_ParseComparison_ParsePrimary_dom"
proof (relation "inv_image (less_than <*lex*> less_than) parse_measure", goal_cases)
  case 1
  show ?case by (intro wf_inv_image wf_lex_prod wf_less_than)
next
  case 2
  show ?case by (simp add: parse_measure_def)
qed (auto simp: parse_measure_def dest!: Match_left_over match_table_left_over Match_no_gain
    steady_left_over [OF steady_helpers(5)] steady_left_over [OF steady_primary(1)]
    steady_left_over [OF parse_steady(1)] steady_left_over [OF parse_steady(5)] steady_left_over [OF parse_steady(6)]
    steady_left_over [OF parse_steady(8)])

termination ParseExpr
  by (rule parse_total)

declare ParseExpr.simps [simp del] or_loop.simps [simp del] ParseOr.simps [simp del] and_loop.simps [simp del]
  ParseAnd.simps [simp del] ParseNot.simps [simp del] ParseComparison.simps [simp del] ParsePrimary.simps [simp del]

lemma parse_steady_total [simp]: "steady (ParseExpr p) p" "steady (ParsePrimary p) p"
  using parse_total by (simp_all add: parse_steady)

subsection \<open>Statements\<close>

text \<open>The \<open>do\<close> loops over comma-separated lists parse one item and go on after a comma.\<close>

definition parse_type :: "Parser \<Rightarrow> (TypeId \<times> u16, Parser) res" where
  "parse_type p = bind_res (Match TK_INT_KW p) (\<lambda>m p1. if m then (Ok (T_INT, 0), p1)
     else bind_res (Match TK_VARCHAR_KW p1) (\<lambda>m p2.
       if m then
         bind_res (Expect TK_LPAREN (quoted_msg ''Expected '' ''('' '' after VARCHAR'') p2) (\<lambda>_ p3.
         bind_res (Expect TK_INT_LITERAL ''Expected length'' p3) (\<lambda>t p4.
         bind_res (lift_out (stoi (tok_value t)) p4) (\<lambda>i p5.
         bind_res (Expect TK_RPAREN (quoted_msg ''Expected '' '')'' '''') p5) (\<lambda>_ p6.
           (Ok (T_VARCHAR, ucast (bits32 i)), p6)))))
       else (Throw (Runtime_Error ''Expected type (INT or VARCHAR)''), p2)))"

definition parse_column_def :: "Parser \<Rightarrow> (ColumnDef, Parser) res" where
  "parse_column_def p = bind_res (Expect TK_IDENTIFIER ''Expected column name'' p) (\<lambda>t p1.
     bind_res (parse_type p1) (\<lambda>ty p2.
       (Ok \<lparr>cd_name = tok_value t, cd_type = fst ty, cd_max_len = snd ty\<rparr>, p2)))"

lemma steady_column_def [simp]: "steady (parse_type p) p" "steady (parse_column_def p) p"
proof -
  show t: "steady (parse_type p) p" for p
    unfolding parse_type_def by (intro steady_intros) simp_all
  show "steady (parse_column_def p) p" unfolding parse_column_def_def by (intro steady_intros) (simp_all add: t)
qed

text \<open>Enough for the termination of these loops: an item does not move back, the comma moves on.\<close>

lemma comma_left_over:
  "steady (item p) p \<Longrightarrow> item p = (Ok x, q) \<Longrightarrow> Match TK_COMMA q = (Ok True, r) \<Longrightarrow> left_over r < left_over p"
  using steady_left_over [of "item p" p x q] Match_left_over [of TK_COMMA q r] by simp

function column_defs :: "Parser \<Rightarrow> (ColumnDef list, Parser) res" where
  "column_defs p = bind_res (parse_column_def p) (\<lambda>c p1. bind_res (Match TK_COMMA p1) (\<lambda>m p2.
     if m then bind_res (column_defs p2) (\<lambda>cs p3. (Ok (c # cs), p3)) else (Ok [c], p2)))"
  by auto
termination
  by (relation "measure left_over") (auto dest!: comma_left_over [of parse_column_def, OF steady_column_def(2)])

function primaries :: "Parser \<Rightarrow> (Expr list, Parser) res" where
  "primaries p = bind_res (ParsePrimary p) (\<lambda>e p1. bind_res (Match TK_COMMA p1) (\<lambda>m p2.
     if m then bind_res (primaries p2) (\<lambda>es p3. (Ok (e # es), p3)) else (Ok [e], p2)))"
  by auto
termination
  by (relation "measure left_over") (auto dest!: comma_left_over [of ParsePrimary, OF parse_steady_total(2)])

definition ParseCreateTable :: "Parser \<Rightarrow> (CreateTableStmt, Parser) res" where
  "ParseCreateTable p =
     bind_res (Expect TK_TABLE ''Expected TABLE'' p) (\<lambda>_ p1.
     bind_res (Expect TK_IDENTIFIER ''Expected table name'' p1) (\<lambda>t p2.
     bind_res (Expect TK_LPAREN (quoted_msg ''Expected '' ''('' '''') p2) (\<lambda>_ p3.
     bind_res (column_defs p3) (\<lambda>cs p4.
     bind_res (Expect TK_RPAREN (quoted_msg ''Expected '' '')'' '''') p4) (\<lambda>_ p5.
       (Ok \<lparr>ct_table_name = tok_value t, ct_columns = cs\<rparr>, p5))))))"

definition ParseInsert :: "Parser \<Rightarrow> (InsertStmt, Parser) res" where
  "ParseInsert p =
     bind_res (Expect TK_INTO ''Expected INTO'' p) (\<lambda>_ p1.
     bind_res (Expect TK_IDENTIFIER ''Expected table name'' p1) (\<lambda>t p2.
     bind_res (Expect TK_VALUES ''Expected VALUES'' p2) (\<lambda>_ p3.
     bind_res (Expect TK_LPAREN (quoted_msg ''Expected '' ''('' '''') p3) (\<lambda>_ p4.
     bind_res (primaries p4) (\<lambda>vs p5.
     bind_res (Expect TK_RPAREN (quoted_msg ''Expected '' '')'' '''') p5) (\<lambda>_ p6.
       (Ok \<lparr>in_table_name = tok_value t, in_values = vs\<rparr>, p6)))))))"

definition ParseSelectItem :: "Parser \<Rightarrow> (SelectItem, Parser) res" where
  "ParseSelectItem p = bind_res (ParseExpr p) (\<lambda>e p1. bind_res (Match TK_AS p1) (\<lambda>m p2.
     if m then bind_res (Expect TK_IDENTIFIER ''Expected alias'' p2) (\<lambda>t p3. (Ok \<lparr>si_expr = e, si_alias = tok_value t\<rparr>, p3))
     else (Ok \<lparr>si_expr = e, si_alias = ''''\<rparr>, p2)))"

lemma steady_item [simp]: "steady (ParseSelectItem p) p"
  unfolding ParseSelectItem_def by (intro steady_intros) simp_all

function ParseSelectList :: "Parser \<Rightarrow> (SelectItem list, Parser) res" where
  "ParseSelectList p = bind_res (ParseSelectItem p) (\<lambda>i p1. bind_res (Match TK_COMMA p1) (\<lambda>m p2.
     if m then bind_res (ParseSelectList p2) (\<lambda>is p3. (Ok (i # is), p3)) else (Ok [i], p2)))"
  by auto
termination
  by (relation "measure left_over") (auto dest!: comma_left_over [of ParseSelectItem, OF steady_item])

text \<open>An alias with \<open>AS\<close>, or an identifier alone.\<close>

definition parse_alias :: "Parser \<Rightarrow> (string, Parser) res" where
  "parse_alias p = bind_res (Match TK_AS p) (\<lambda>m p1.
     if m then bind_res (Expect TK_IDENTIFIER ''Expected alias'' p1) (\<lambda>t p2. (Ok (tok_value t), p2))
     else bind_res (Check TK_IDENTIFIER p1) (\<lambda>c p2.
       if c then bind_res (Consume p2) (\<lambda>t p3. (Ok (tok_value t), p3)) else (Ok '''', p2)))"

definition parse_join :: "Parser \<Rightarrow> (JoinClause, Parser) res" where
  "parse_join p =
     bind_res (Expect TK_IDENTIFIER ''Expected table name'' p) (\<lambda>t p1.
     bind_res (parse_alias p1) (\<lambda>a p2.
     bind_res (Expect TK_ON ''Expected ON'' p2) (\<lambda>_ p3.
     bind_res (ParseExpr p3) (\<lambda>e p4.
       (Ok \<lparr>jc_table_name = tok_value t, jc_alias = a, jc_condition = e\<rparr>, p4)))))"

lemma steady_join [simp]: "steady (parse_alias p) p" "steady (parse_join p) p"
proof -
  show a: "steady (parse_alias p) p" for p unfolding parse_alias_def by (intro steady_intros) simp_all
  show "steady (parse_join p) p" unfolding parse_join_def by (intro steady_intros) (simp_all add: a)
qed

function ParseJoins :: "Parser \<Rightarrow> (JoinClause list, Parser) res" where
  "ParseJoins p = bind_res (Match TK_JOIN p) (\<lambda>m p1.
     if m then bind_res (parse_join p1) (\<lambda>j p2. bind_res (ParseJoins p2) (\<lambda>js p3. (Ok (j # js), p3)))
     else (Ok [], p1))"
  by auto
termination
  by (relation "measure left_over") (auto dest!: Match_left_over steady_left_over [OF steady_join(2)])

definition ParseWhere :: "Parser \<Rightarrow> (Expr option, Parser) res" where
  "ParseWhere p = bind_res (Match TK_WHERE p) (\<lambda>m p1.
     if m then bind_res (ParseExpr p1) (\<lambda>e p2. (Ok (Some e), p2)) else (Ok None, p1))"

definition ParseGroupBy :: "Parser \<Rightarrow> (Expr list, Parser) res" where
  "ParseGroupBy p = bind_res (Match TK_GROUP p) (\<lambda>m p1.
     if m then bind_res (Expect TK_BY ''Expected BY after GROUP'' p1) (\<lambda>_ p2. primaries p2) else (Ok [], p1))"

definition parse_order_item :: "Parser \<Rightarrow> (OrderByItem, Parser) res" where
  "parse_order_item p = bind_res (ParsePrimary p) (\<lambda>e p1. bind_res (Match TK_DESC p1) (\<lambda>d p2.
     if d then (Ok \<lparr>ob_expr = e, ob_ascending = False\<rparr>, p2)
     else bind_res (Match TK_ASC p2) (\<lambda>_ p3. (Ok \<lparr>ob_expr = e, ob_ascending = True\<rparr>, p3))))"

lemma steady_order_item [simp]: "steady (parse_order_item p) p"
  unfolding parse_order_item_def by (intro steady_intros) simp_all

function order_items :: "Parser \<Rightarrow> (OrderByItem list, Parser) res" where
  "order_items p = bind_res (parse_order_item p) (\<lambda>i p1. bind_res (Match TK_COMMA p1) (\<lambda>m p2.
     if m then bind_res (order_items p2) (\<lambda>is p3. (Ok (i # is), p3)) else (Ok [i], p2)))"
  by auto
termination
  by (relation "measure left_over") (auto dest!: comma_left_over [of parse_order_item, OF steady_order_item])

declare column_defs.simps [simp del] primaries.simps [simp del] ParseSelectList.simps [simp del]
  ParseJoins.simps [simp del] order_items.simps [simp del]

definition ParseOrderBy :: "Parser \<Rightarrow> (OrderByItem list, Parser) res" where
  "ParseOrderBy p = bind_res (Match TK_ORDER p) (\<lambda>m p1.
     if m then bind_res (Expect TK_BY ''Expected BY after ORDER'' p1) (\<lambda>_ p2. order_items p2) else (Ok [], p1))"

text \<open>
  The alias of the first table: the source also checks that the identifier is none of the keywords
  that may follow, which no identifier is.
\<close>

definition ParseSelect :: "Parser \<Rightarrow> (SelectStmt, Parser) res" where
  "ParseSelect p =
     bind_res (ParseSelectList p) (\<lambda>items p1.
     bind_res (Expect TK_FROM ''Expected FROM'' p1) (\<lambda>_ p2.
     bind_res (Expect TK_IDENTIFIER ''Expected table name'' p2) (\<lambda>t p3.
     bind_res (parse_alias p3) (\<lambda>a p4.
     bind_res (ParseJoins p4) (\<lambda>js p5.
     bind_res (ParseWhere p5) (\<lambda>w p6.
     bind_res (ParseGroupBy p6) (\<lambda>g p7.
     bind_res (ParseOrderBy p7) (\<lambda>ob p8.
       (Ok \<lparr>select_list = items, from_table = tok_value t, from_alias = a, joins = js, where_clause = w,
             group_by = g, order_by = ob\<rparr>, p8)))))))))"

definition ParseExplain :: "Parser \<Rightarrow> (SelectStmt, Parser) res" where
  "ParseExplain p = bind_res (Expect TK_SELECT ''EXPLAIN only supports SELECT'' p) (\<lambda>_ p1. ParseSelect p1)"

definition parse_statement :: "Parser \<Rightarrow> (Statement, Parser) res" where
  "parse_statement p =
     bind_res (Match TK_CREATE p) (\<lambda>m p1. if m then bind_res (ParseCreateTable p1) (\<lambda>st q. (Ok (CreateTable st), q)) else
     bind_res (Match TK_INSERT p1) (\<lambda>m p2. if m then bind_res (ParseInsert p2) (\<lambda>st q. (Ok (InsertInto st), q)) else
     bind_res (Match TK_SELECT p2) (\<lambda>m p3. if m then bind_res (ParseSelect p3) (\<lambda>st q. (Ok (Select st), q)) else
     bind_res (Match TK_EXPLAIN p3) (\<lambda>m p4. if m then bind_res (ParseExplain p4) (\<lambda>st q. (Ok (Explain st), q)) else
       (Throw (Runtime_Error ''Expected CREATE, INSERT, SELECT, or EXPLAIN''), p4)))))"

definition Parse :: "Parser \<Rightarrow> (Statement, Parser) res" where
  "Parse p = bind_res (parse_statement p) (\<lambda>st p1. bind_res (Match TK_SEMICOLON p1) (\<lambda>_ p2. (Ok st, p2)))"

end
