(* ===== verification/Executor.thy ===== *)
theory Executor
  imports Catalog Parser "HOL-Library.List_Lexorder" "HOL-Library.Char_ord" "HOL-Library.Signed_Division"
begin

text \<open>
  \<open>src/src/executor\<close>: the physical operators of a query. Every operator implements \<open>Init\<close>, \<open>Next\<close>,
  \<open>Close\<close> and \<open>GetOutputSchema\<close>; an operator tree is a value of the type \<open>Operator\<close>, with the
  state of each operator in its node, and a virtual call is a case on the node. Only \<open>Init\<close> reads
  pages, since the scans buffer their table.
\<close>

section \<open>Expression evaluation\<close>

definition column_key :: "string \<Rightarrow> string \<Rightarrow> string" where
  "column_key t c = (if t = '''' then c else t @ ''.'' @ c)"

fun EvalExpr :: "Expr \<Rightarrow> Tuple \<Rightarrow> Schema \<Rightarrow> Value outcome" where
  "EvalExpr (INT_LITERAL i) t sch = Ok (MakeInt i)"
| "EvalExpr (STRING_LITERAL s) t sch = Ok (MakeVarchar s 255)"
| "EvalExpr (COLUMN_REF tab c) t sch = bind_out (GetColumnIdx sch (column_key tab c)) (\<lambda>i. GetValue t sch i)"
| "EvalExpr _ t sch = Throw (Runtime_Error ''EvalExpr: unsupported expression type'')"

definition unsupported_predicate :: exn where
  "unsupported_predicate = Runtime_Error ''EvalPred: unsupported predicate''"

definition compare_op :: "string \<Rightarrow> 'a :: ord \<Rightarrow> 'a \<Rightarrow> bool outcome" where
  "compare_op op l r =
     (if op = ''='' then Ok (l = r) else if op = ''<'' then Ok (l < r) else if op = ''>'' then Ok (l > r)
      else if op = ''<='' then Ok (l \<le> r) else if op = ''>='' then Ok (l \<ge> r) else if op = ''!='' then Ok (l \<noteq> r)
      else Throw unsupported_predicate)"

text \<open>Strings are compared bytewise, as unsigned characters: the lexical order of the library.\<close>

definition compare_values :: "string \<Rightarrow> Value \<Rightarrow> Value \<Rightarrow> bool outcome" where
  "compare_values op lv rv =
     (if v_type lv = T_INT \<and> v_type rv = T_INT then compare_op op (int_val lv) (int_val rv)
      else compare_op op (str_val lv) (str_val rv))"

fun EvalPred :: "Expr \<Rightarrow> Tuple \<Rightarrow> Schema \<Rightarrow> bool outcome" where
  "EvalPred (UNARY_OP op e) t sch =
     (if op = ''NOT'' then bind_out (EvalPred e t sch) (\<lambda>b. Ok (\<not> b)) else Throw unsupported_predicate)"
| "EvalPred (BINARY_OP op l r) t sch =
     (if op = ''AND'' then bind_out (EvalPred l t sch) (\<lambda>b. if b then EvalPred r t sch else Ok False)
      else if op = ''OR'' then bind_out (EvalPred l t sch) (\<lambda>b. if b then Ok True else EvalPred r t sch)
      else bind_out (EvalExpr l t sch) (\<lambda>lv. bind_out (EvalExpr r t sch) (\<lambda>rv. compare_values op lv rv)))"
| "EvalPred _ t sch = Throw unsupported_predicate"

section \<open>The operators\<close>

record AggExpr =
  ae_func :: string
  ae_arg :: "Expr option"
  ae_is_star :: bool
  ae_output_name :: string

record JoinState =
  hash_table :: "string \<rightharpoonup> Tuple list"
  right_buffer :: "Tuple list"
  right_cursor :: nat
  match_cursor :: nat
  current_key :: string

definition empty_join :: JoinState where
  "empty_join = \<lparr>hash_table = Map.empty, right_buffer = [], right_cursor = 0, match_cursor = 0, current_key = ''''\<rparr>"

record Group =
  key_vals :: "Value list"
  counts :: "int list"
  sums :: "int list"
  mins :: "i32 list"
  maxs :: "i32 list"

record AggState =
  groups :: "string \<rightharpoonup> Group"
  group_order :: "string list"
  agg_cursor :: nat

definition empty_agg :: AggState where
  "empty_agg = \<lparr>groups = Map.empty, group_order = [], agg_cursor = 0\<rparr>"

datatype Operator =
    SeqScan HeapFile Schema "Tuple list" nat
  | Filter Operator Expr
  | Projection Operator "Expr list" "string list" Schema
  | HashJoin Operator Operator Expr Expr Schema JoinState
  | Sort Operator "OrderByItem list" "Tuple list" nat
  | HashAggregate Operator "Expr list" "AggExpr list" Schema AggState

fun GetOutputSchema :: "Operator \<Rightarrow> Schema" where
  "GetOutputSchema (SeqScan h sch buf cur) = sch"
| "GetOutputSchema (Filter child p) = GetOutputSchema child"
| "GetOutputSchema (Projection child es names sch) = sch"
| "GetOutputSchema (HashJoin l r lk rk sch js) = sch"
| "GetOutputSchema (Sort child ob buf cur) = GetOutputSchema child"
| "GetOutputSchema (HashAggregate child gb aes sch st) = sch"

fun Close :: "Operator \<Rightarrow> Operator" where
  "Close (SeqScan h sch buf cur) = SeqScan h sch [] cur"
| "Close (Filter child p) = Filter (Close child) p"
| "Close (Projection child es names sch) = Projection (Close child) es names sch"
| "Close (HashJoin l r lk rk sch js) = HashJoin l r lk rk sch (js\<lparr>hash_table := Map.empty, right_buffer := []\<rparr>)"
| "Close (Sort child ob buf cur) = Sort child ob [] cur"
| "Close (HashAggregate child gb aes sch st) = HashAggregate child gb aes sch (st\<lparr>groups := Map.empty, group_order := []\<rparr>)"

subsection \<open>Constructors\<close>

definition MakeOutputSchema :: "Schema \<Rightarrow> string \<Rightarrow> Schema" where
  "MakeOutputSchema base alias =
     (if alias = '''' then base
      else mk_Schema (map (\<lambda>c. c\<lparr>col_name := alias @ ''.'' @ col_name c\<rparr>) (columns base)))"

definition mk_SeqScan :: "TableInfo \<Rightarrow> string \<Rightarrow> Operator" where
  "mk_SeqScan info alias = SeqScan (heap_file info) (MakeOutputSchema (ti_schema info) alias) [] 0"

definition ConcatSchemas :: "Schema \<Rightarrow> Schema \<Rightarrow> Schema" where
  "ConcatSchemas l r = mk_Schema (columns l @ columns r)"

definition mk_HashJoin :: "Operator \<Rightarrow> Operator \<Rightarrow> Expr \<Rightarrow> Expr \<Rightarrow> Operator" where
  "mk_HashJoin l r lk rk = HashJoin l r lk rk (ConcatSchemas (GetOutputSchema l) (GetOutputSchema r)) empty_join"

definition mk_Sort :: "Operator \<Rightarrow> OrderByItem list \<Rightarrow> Operator" where
  "mk_Sort child ob = Sort child ob [] 0"

definition mk_HashAggregate :: "Operator \<Rightarrow> Expr list \<Rightarrow> AggExpr list \<Rightarrow> Schema \<Rightarrow> Operator" where
  "mk_HashAggregate child gb aes sch = HashAggregate child gb aes sch empty_agg"

subsection \<open>Next\<close>

fun eval_list :: "Expr list \<Rightarrow> Tuple \<Rightarrow> Schema \<Rightarrow> Value list outcome" where
  "eval_list [] t sch = Ok []"
| "eval_list (e # es) t sch = bind_out (EvalExpr e t sch) (\<lambda>v. bind_out (eval_list es t sch) (\<lambda>vs. Ok (v # vs)))"

definition project :: "Expr list \<Rightarrow> Schema \<Rightarrow> Tuple \<Rightarrow> Schema \<Rightarrow> Tuple outcome" where
  "project es inp t out = bind_out (eval_list es t inp) (\<lambda>vs. mk_Tuple vs out)"

text \<open>\<open>memcpy\<close> of the two rows into a buffer of \<open>total\<close> bytes; \<open>total\<close> is a sum of \<open>uint32_t\<close>.\<close>

definition Concat :: "Tuple \<Rightarrow> Tuple \<Rightarrow> Schema \<Rightarrow> Schema \<Rightarrow> Tuple outcome" where
  "Concat l r ls rs =
     (let nl = unat (tuple_size ls); nr = unat (tuple_size rs); total = unat (tuple_size ls + tuple_size rs)
      in if length l < nl \<or> length r < nr \<or> total < nl + nr then Fault
         else FromBytes (poke nl (take nr r) (poke 0 (take nl l) (replicate total 0))) total)"

definition join_key :: "Expr \<Rightarrow> Tuple \<Rightarrow> Schema \<Rightarrow> string outcome" where
  "join_key e t sch = bind_out (EvalExpr e t sch) (\<lambda>v. Ok (ToString v))"

text \<open>The loop of \<open>HashJoin::Next\<close>: the matches of the current key, then the next right row.\<close>

definition join_match :: "JoinState \<Rightarrow> Tuple option" where
  "join_match js = (if current_key js = '''' then None
     else case hash_table js (current_key js) of
       None \<Rightarrow> None
     | Some ts \<Rightarrow> if match_cursor js < length ts then Some (ts ! match_cursor js) else None)"

function join_next :: "Schema \<Rightarrow> Schema \<Rightarrow> Expr \<Rightarrow> JoinState \<Rightarrow> (Tuple option, JoinState) res" where
  "join_next ls rs rk js =
     (case join_match js of
        Some l \<Rightarrow>
          (if 0 < right_cursor js \<and> right_cursor js \<le> length (right_buffer js)
           then (case Concat l (right_buffer js ! (right_cursor js - 1)) ls rs of
                   Ok t \<Rightarrow> (Ok (Some t), js\<lparr>match_cursor := Suc (match_cursor js)\<rparr>)
                 | Throw e \<Rightarrow> (Throw e, js\<lparr>match_cursor := Suc (match_cursor js)\<rparr>)
                 | Fault \<Rightarrow> (Fault, js))
           else (Fault, js))
      | None \<Rightarrow>
          (let js1 = (if current_key js = '''' then js else js\<lparr>current_key := '''', match_cursor := 0\<rparr>)
           in if length (right_buffer js1) \<le> right_cursor js1 then (Ok None, js1)
              else (let js2 = js1\<lparr>right_cursor := Suc (right_cursor js1)\<rparr>
                    in case join_key rk (right_buffer js1 ! right_cursor js1) rs of
                         Ok k \<Rightarrow> join_next ls rs rk (js2\<lparr>current_key := k, match_cursor := 0\<rparr>)
                       | Throw e \<Rightarrow> (Throw e, js2)
                       | Fault \<Rightarrow> (Fault, js2))))"
  by auto
termination
  by (relation "measure (\<lambda>(ls, rs, rk, js). length (right_buffer js) - right_cursor js)") (auto simp: Let_def split: if_splits)

declare join_next.simps [simp del]

text \<open>The row of a group: the key values and a value per aggregate. An unknown function adds none.\<close>

definition trunc_div :: "int \<Rightarrow> int \<Rightarrow> int" where
  "trunc_div a b = a sdiv b"

definition agg_value :: "string \<Rightarrow> Group \<Rightarrow> nat \<Rightarrow> Value list" where
  "agg_value f g i =
     (if f = ''COUNT'' then [MakeInt (mk32 (counts g ! i))]
      else if f = ''SUM'' then [MakeInt (mk32 (sums g ! i))]
      else if f = ''AVG'' then [MakeInt (mk32 (trunc_div (sums g ! i) (if counts g ! i > 0 then counts g ! i else 1)))]
      else if f = ''MIN'' then [MakeInt (mins g ! i)]
      else if f = ''MAX'' then [MakeInt (maxs g ! i)]
      else [])"

definition group_row :: "AggExpr list \<Rightarrow> Group \<Rightarrow> Value list" where
  "group_row aes g = key_vals g @ concat (map (\<lambda>i. agg_value (ae_func (aes ! i)) g i) [0..<length aes])"

definition agg_next :: "AggExpr list \<Rightarrow> Schema \<Rightarrow> AggState \<Rightarrow> (Tuple option, AggState) res" where
  "agg_next aes sch st =
     (if length (group_order st) \<le> agg_cursor st then (Ok None, st)
      else let st' = st\<lparr>agg_cursor := Suc (agg_cursor st)\<rparr>
           in case groups st (group_order st ! agg_cursor st) of
                None \<Rightarrow> (Fault, st')
              | Some g \<Rightarrow> (case mk_Tuple (group_row aes g) sch of
                    Ok t \<Rightarrow> (Ok (Some t), st') | Throw e \<Rightarrow> (Throw e, st') | Fault \<Rightarrow> (Fault, st')))"

definition buffer_next :: "Tuple list \<Rightarrow> nat \<Rightarrow> Tuple option \<times> nat" where
  "buffer_next buf cur = (if length buf \<le> cur then (None, cur) else (Some (buf ! cur), Suc cur))"

text \<open>\<open>None\<close> would be a call that does not return; it is shown not to occur.\<close>

partial_function (option) Next :: "Operator \<Rightarrow> (Tuple option, Operator) res option" where
  "Next op = (case op of
     SeqScan h sch buf cur \<Rightarrow> Some (case buffer_next buf cur of (r, cur') \<Rightarrow> (Ok r, SeqScan h sch buf cur'))
   | Filter child p \<Rightarrow> Option.bind (Next child) (\<lambda>x. case x of
         (Ok None, child') \<Rightarrow> Some (Ok None, Filter child' p)
       | (Ok (Some t), child') \<Rightarrow>
           (case EvalPred p t (GetOutputSchema child') of
              Ok b \<Rightarrow> if b then Some (Ok (Some t), Filter child' p) else Next (Filter child' p)
            | Throw e \<Rightarrow> Some (Throw e, Filter child' p)
            | Fault \<Rightarrow> Some (Fault, Filter child' p))
       | (Throw e, child') \<Rightarrow> Some (Throw e, Filter child' p)
       | (Fault, child') \<Rightarrow> Some (Fault, Filter child' p))
   | Projection child es names sch \<Rightarrow> Option.bind (Next child) (\<lambda>x. case x of
         (Ok None, child') \<Rightarrow> Some (Ok None, Projection child' es names sch)
       | (Ok (Some t), child') \<Rightarrow>
           (case project es (GetOutputSchema child') t sch of
              Ok t' \<Rightarrow> Some (Ok (Some t'), Projection child' es names sch)
            | Throw e \<Rightarrow> Some (Throw e, Projection child' es names sch)
            | Fault \<Rightarrow> Some (Fault, Projection child' es names sch))
       | (Throw e, child') \<Rightarrow> Some (Throw e, Projection child' es names sch)
       | (Fault, child') \<Rightarrow> Some (Fault, Projection child' es names sch))
   | HashJoin l r lk rk sch js \<Rightarrow>
       Some (case join_next (GetOutputSchema l) (GetOutputSchema r) rk js of (x, js') \<Rightarrow> (x, HashJoin l r lk rk sch js'))
   | Sort child ob buf cur \<Rightarrow> Some (case buffer_next buf cur of (r, cur') \<Rightarrow> (Ok r, Sort child ob buf cur'))
   | HashAggregate child gb aes sch st \<Rightarrow>
       Some (case agg_next aes sch st of (x, st') \<Rightarrow> (x, HashAggregate child gb aes sch st')))"

subsection \<open>Init\<close>

text \<open>\<open>while (child_->Next(&t)) body\<close>\<close>

partial_function (option) drain :: "(Tuple \<Rightarrow> 'a \<Rightarrow> 'a outcome) \<Rightarrow> 'a \<Rightarrow> Operator \<Rightarrow> ('a, Operator) res option" where
  "drain body acc op = Option.bind (Next op) (\<lambda>x. case x of
      (Ok None, op') \<Rightarrow> Some (Ok acc, op')
    | (Ok (Some t), op') \<Rightarrow>
        (case body t acc of
           Ok acc' \<Rightarrow> drain body acc' op'
         | Throw e \<Rightarrow> Some (Throw e, op')
         | Fault \<Rightarrow> Some (Fault, op'))
    | (Throw e, op') \<Rightarrow> Some (Throw e, op')
    | (Fault, op') \<Rightarrow> Some (Fault, op'))"

definition bind_opt :: "('a, 's) res option \<Rightarrow> ('a \<Rightarrow> 's \<Rightarrow> ('b, 's) res option) \<Rightarrow> ('b, 's) res option" where
  "bind_opt m f = Option.bind m (\<lambda>x. case x of
      (Ok a, s) \<Rightarrow> f a s
    | (Throw e, s) \<Rightarrow> Some (Throw e, s)
    | (Fault, s) \<Rightarrow> Some (Fault, s))"

text \<open>A loop over a child that touches no page: the pool stays as it is.\<close>

definition beside :: "('a, Operator) res option \<Rightarrow> BufferPoolManager \<Rightarrow> ('a \<times> Operator, BufferPoolManager) res option" where
  "beside m b = map_option (\<lambda>(r, op). (bind_out r (\<lambda>a. Ok (a, op)), b)) m"

definition build_row :: "Expr \<Rightarrow> Schema \<Rightarrow> Tuple \<Rightarrow> (string \<rightharpoonup> Tuple list) \<Rightarrow> (string \<rightharpoonup> Tuple list) outcome" where
  "build_row lk sch t ht = bind_out (join_key lk t sch) (\<lambda>k.
     Ok (ht(k \<mapsto> (case ht k of None \<Rightarrow> [] | Some ts \<Rightarrow> ts) @ [t])))"

definition MakeKey :: "Expr list \<Rightarrow> Schema \<Rightarrow> Tuple \<Rightarrow> string outcome" where
  "MakeKey gb sch t = bind_out (eval_list gb t sch) (\<lambda>vs. Ok (concat (map (\<lambda>v. ToString v @ ''|'') vs)))"

text \<open>\<open>int64_t\<close> addition; an overflow is a fault.\<close>

definition add64 :: "int \<Rightarrow> int \<Rightarrow> int outcome" where
  "add64 a b = (if - (2 ^ 63) \<le> a + b \<and> a + b < 2 ^ 63 then Ok (a + b) else Fault)"

text \<open>One aggregate of a group takes a row in. \<open>SUM(*)\<close> and its like follow a null pointer.\<close>

definition agg_update :: "AggExpr \<Rightarrow> Schema \<Rightarrow> Tuple \<Rightarrow> nat \<Rightarrow> Group \<Rightarrow> Group outcome" where
  "agg_update ae sch t i g =
     bind_out (add64 (counts g ! i) 1) (\<lambda>n.
       let g1 = g\<lparr>counts := (counts g)[i := n]\<rparr>
       in if ae_func ae = ''COUNT'' then Ok g1
          else (case ae_arg ae of
              None \<Rightarrow> Fault
            | Some e \<Rightarrow>
                bind_out (EvalExpr e t sch) (\<lambda>val.
                let v = int_val val
                in bind_out (add64 (sums g1 ! i) (ival v)) (\<lambda>s.
                  Ok (g1\<lparr>sums := (sums g1)[i := s],
                         mins := (if v < mins g1 ! i then (mins g1)[i := v] else mins g1),
                         maxs := (if v > maxs g1 ! i then (maxs g1)[i := v] else maxs g1)\<rparr>)))))"

fun agg_updates :: "AggExpr list \<Rightarrow> Schema \<Rightarrow> Tuple \<Rightarrow> nat \<Rightarrow> Group \<Rightarrow> Group outcome" where
  "agg_updates [] sch t i g = Ok g"
| "agg_updates (ae # aes) sch t i g = bind_out (agg_update ae sch t i g) (\<lambda>g'. agg_updates aes sch t (Suc i) g')"

definition new_group :: "nat \<Rightarrow> Value list \<Rightarrow> Group" where
  "new_group n vs = \<lparr>key_vals = vs, counts = replicate n 0, sums = replicate n 0,
     mins = replicate n (mk32 INT32_MAX), maxs = replicate n (mk32 INT32_MIN)\<rparr>"

definition agg_row :: "Expr list \<Rightarrow> AggExpr list \<Rightarrow> Schema \<Rightarrow> Tuple \<Rightarrow> AggState \<Rightarrow> AggState outcome" where
  "agg_row gb aes sch t st =
     bind_out (MakeKey gb sch t) (\<lambda>key.
     bind_out (case groups st key of
         Some g \<Rightarrow> Ok (g, st)
       | None \<Rightarrow> bind_out (eval_list gb t sch) (\<lambda>vs. Ok (new_group (length aes) vs, st\<lparr>group_order := group_order st @ [key]\<rparr>)))
       (\<lambda>(g, st1). bind_out (agg_updates aes sch t 0 g) (\<lambda>g'. Ok (st1\<lparr>groups := (groups st1)(key \<mapsto> g')\<rparr>))))"

text \<open>The comparison function that \<open>Sort::Init\<close> passes to \<open>std::sort\<close>.\<close>

fun order_less :: "OrderByItem list \<Rightarrow> Schema \<Rightarrow> Tuple \<Rightarrow> Tuple \<Rightarrow> bool outcome" where
  "order_less [] sch a b = Ok False"
| "order_less (i # is) sch a b =
     bind_out (EvalExpr (ob_expr i) a sch) (\<lambda>va. bind_out (EvalExpr (ob_expr i) b sch) (\<lambda>vb.
       if v_type va = T_INT
       then (if int_val va \<noteq> int_val vb
             then Ok (if ob_ascending i then int_val va < int_val vb else int_val va > int_val vb)
             else order_less is sch a b)
       else (if str_val va \<noteq> str_val vb
             then Ok (if ob_ascending i then str_val va < str_val vb else str_val va > str_val vb)
             else order_less is sch a b)))"

text \<open>
  \<open>std::sort\<close> is an argument: it gets a comparison function and the rows. An exception of the
  comparison leaves \<open>std::sort\<close>. Whether an expression of the order list can be evaluated does
  not depend on the row, and an item is evaluated for two rows when they agree on the items before,
  so every sorting algorithm meets the exception if some pair of rows causes it.
\<close>

type_synonym sorter = "(Tuple \<Rightarrow> Tuple \<Rightarrow> bool) \<Rightarrow> Tuple list \<Rightarrow> Tuple list"

definition pair_outcomes :: "OrderByItem list \<Rightarrow> Schema \<Rightarrow> Tuple list \<Rightarrow> bool outcome list" where
  "pair_outcomes ob sch rows =
     concat (map (\<lambda>i. concat (map (\<lambda>j. if i = j then [] else [order_less ob sch (rows ! i) (rows ! j)]) [0..<length rows]))
       [0..<length rows])"

definition sort_rows :: "sorter \<Rightarrow> OrderByItem list \<Rightarrow> Schema \<Rightarrow> Tuple list \<Rightarrow> Tuple list outcome" where
  "sort_rows srt ob sch rows =
     (case find (\<lambda>r. case r of Ok _ \<Rightarrow> False | _ \<Rightarrow> True) (pair_outcomes ob sch rows) of
        None \<Rightarrow> Ok (srt (\<lambda>a b. order_less ob sch a b = Ok True) rows)
      | Some r \<Rightarrow> bind_out r (\<lambda>_. Ok []))"

text \<open>What the scan, the sort and the aggregate do in \<open>Init\<close>; the last two once their child is ready.\<close>

definition scan_load :: "HeapFile \<Rightarrow> Schema \<Rightarrow> BufferPoolManager \<Rightarrow> (Operator, BufferPoolManager) res option" where
  "scan_load h sch b =
     bind_opt (Scan h (\<lambda>rid t acc. (True, acc @ [t])) [] b) (\<lambda>rows b1. Some (Ok (SeqScan h sch rows 0), b1))"

definition sort_load :: "sorter \<Rightarrow> OrderByItem list \<Rightarrow> Operator \<Rightarrow> BufferPoolManager \<Rightarrow> (Operator, BufferPoolManager) res option" where
  "sort_load srt ob c1 b1 =
     bind_opt (beside (drain (\<lambda>t acc. Ok (acc @ [t])) [] c1) b1) (\<lambda>(rows, c2) b2.
     bind_opt (Some (sort_rows srt ob (GetOutputSchema c2) rows, b2)) (\<lambda>rows' b3.
       Some (Ok (Sort (Close c2) ob rows' 0), b3)))"

definition agg_load :: "Expr list \<Rightarrow> AggExpr list \<Rightarrow> Schema \<Rightarrow> Operator \<Rightarrow> BufferPoolManager \<Rightarrow> (Operator, BufferPoolManager) res option" where
  "agg_load gb aes sch c1 b1 =
     bind_opt (beside (drain (agg_row gb aes (GetOutputSchema c1)) empty_agg c1) b1) (\<lambda>(st', c2) b2.
       Some (Ok (HashAggregate (Close c2) gb aes sch st'), b2))"

fun Init :: "sorter \<Rightarrow> Operator \<Rightarrow> BufferPoolManager \<Rightarrow> (Operator, BufferPoolManager) res option" where
  "Init srt (SeqScan h sch buf cur) b = scan_load h sch b"
| "Init srt (Filter child p) b = bind_opt (Init srt child b) (\<lambda>child' b1. Some (Ok (Filter child' p), b1))"
| "Init srt (Projection child es names sch) b =
     bind_opt (Init srt child b) (\<lambda>child' b1. Some (Ok (Projection child' es names sch), b1))"
| "Init srt (HashJoin l r lk rk sch js) b =
     bind_opt (Init srt l b) (\<lambda>l1 b1.
     bind_opt (beside (drain (build_row lk (GetOutputSchema l1)) Map.empty l1) b1) (\<lambda>(ht, l2) b2.
     bind_opt (Init srt r b2) (\<lambda>r1 b3.
     bind_opt (beside (drain (\<lambda>t acc. Ok (acc @ [t])) [] r1) b3) (\<lambda>(rb, r2) b4.
       Some (Ok (HashJoin (Close l2) (Close r2) lk rk sch
         (js\<lparr>hash_table := ht, right_buffer := rb, right_cursor := 0, match_cursor := 0\<rparr>)), b4)))))"
| "Init srt (Sort child ob buf cur) b = bind_opt (Init srt child b) (\<lambda>c1 b1. sort_load srt ob c1 b1)"
| "Init srt (HashAggregate child gb aes sch st) b = bind_opt (Init srt child b) (\<lambda>c1 b1. agg_load gb aes sch c1 b1)"

end
