(* ===== verification/Planner.thy ===== *)
theory Planner
  imports Executor
begin

text \<open>
  \<open>src/src/planner\<close>: the operator tree of a \<open>SELECT\<close> statement, and the text of \<open>EXPLAIN\<close>. The planner
  only reads the catalog, so that the catalog is an argument.
\<close>

section \<open>Definitions\<close>

definition is_aggregate :: "Expr \<Rightarrow> bool" where
  "is_aggregate e = (case e of AGGREGATE f a \<Rightarrow> True | _ \<Rightarrow> False)"

definition HasAggregate :: "SelectItem list \<Rightarrow> bool" where
  "HasAggregate items = list_ex (\<lambda>it. is_aggregate (si_expr it)) items"

text \<open>The fields \<open>table_alias\<close> and \<open>col_name\<close> of an expression, which only a column reference sets.\<close>

fun table_alias :: "Expr \<Rightarrow> string" where
  "table_alias (COLUMN_REF t c) = t"
| "table_alias _ = ''''"

fun ref_name :: "Expr \<Rightarrow> string" where
  "ref_name (COLUMN_REF t c) = c"
| "ref_name _ = ''''"

definition referenced_column :: "Expr \<Rightarrow> Schema \<Rightarrow> Column outcome" where
  "referenced_column e inp = bind_out (GetColumnIdx inp (column_key (table_alias e) (ref_name e))) (\<lambda>i. Ok (columns inp ! i))"

definition projection_column :: "SelectItem \<Rightarrow> Schema \<Rightarrow> Column outcome" where
  "projection_column it inp =
     (case si_expr it of
        COLUMN_REF t c \<Rightarrow> bind_out (referenced_column (si_expr it) inp) (\<lambda>col.
          Ok \<lparr>col_name = (if si_alias it = '''' then c else si_alias it), col_type = col_type col\<rparr>)
      | _ \<Rightarrow> Ok \<lparr>col_name = (if si_alias it = '''' then ''?'' else si_alias it), col_type = ColumnType_Int\<rparr>)"

fun map_out :: "('a \<Rightarrow> 'b outcome) \<Rightarrow> 'a list \<Rightarrow> 'b list outcome" where
  "map_out f [] = Ok []"
| "map_out f (x # xs) = bind_out (f x) (\<lambda>y. bind_out (map_out f xs) (\<lambda>ys. Ok (y # ys)))"

definition BuildProjectionSchema :: "SelectItem list \<Rightarrow> Schema \<Rightarrow> Schema outcome" where
  "BuildProjectionSchema items inp = bind_out (map_out (\<lambda>it. projection_column it inp) items) (\<lambda>cols. Ok (mk_Schema cols))"

definition BuildAggSchema :: "Expr list \<Rightarrow> AggExpr list \<Rightarrow> Schema \<Rightarrow> Schema outcome" where
  "BuildAggSchema gb aggs inp =
     bind_out (map_out (\<lambda>e. bind_out (referenced_column e inp) (\<lambda>col. Ok (col\<lparr>col_name := ref_name e\<rparr>))) gb) (\<lambda>cols.
       Ok (mk_Schema (cols @ map (\<lambda>ae. \<lparr>col_name = ae_output_name ae, col_type = ColumnType_Int\<rparr>) aggs)))"

definition scan_of :: "Catalog \<Rightarrow> string \<Rightarrow> string \<Rightarrow> Operator outcome" where
  "scan_of c table alias = bind_out (GetTable table c) (\<lambda>info. Ok (mk_SeqScan info (if alias = '''' then table else alias)))"

fun plan_joins :: "Catalog \<Rightarrow> JoinClause list \<Rightarrow> Operator \<Rightarrow> Operator outcome" where
  "plan_joins c [] plan = Ok plan"
| "plan_joins c (j # js) plan =
     bind_out (scan_of c (jc_table_name j) (jc_alias j)) (\<lambda>right.
       case jc_condition j of
         BINARY_OP op l r \<Rightarrow>
           if op = ''='' then plan_joins c js (mk_HashJoin plan right l r)
           else Throw (Runtime_Error ''Only equality join conditions are supported'')
       | _ \<Rightarrow> Throw (Runtime_Error ''Only equality join conditions are supported''))"

definition is_star_list :: "SelectItem list \<Rightarrow> bool" where
  "is_star_list items = (length items = 1 \<and> si_expr (items ! 0) = STAR)"

text \<open>The aggregates of the select list, in its order.\<close>

fun agg_exprs :: "SelectItem list \<Rightarrow> AggExpr list" where
  "agg_exprs [] = []"
| "agg_exprs (it # items) = (case si_expr it of
      AGGREGATE f a \<Rightarrow> \<lparr>ae_func = f, ae_arg = a, ae_is_star = (a = None),
        ae_output_name = (if si_alias it = '''' then f else si_alias it)\<rparr> # agg_exprs items
    | _ \<Rightarrow> agg_exprs items)"

definition sort_plan :: "OrderByItem list \<Rightarrow> Operator \<Rightarrow> Operator" where
  "sort_plan ob plan = (if ob = [] then plan else mk_Sort plan ob)"

definition proj_names :: "SelectItem list \<Rightarrow> string list" where
  "proj_names items = map (\<lambda>it. case si_expr it of
      COLUMN_REF t c \<Rightarrow> if si_alias it = '''' then c else si_alias it
    | _ \<Rightarrow> si_alias it) items"

definition plan_source :: "Catalog \<Rightarrow> SelectStmt \<Rightarrow> Operator outcome" where
  "plan_source c st =
     bind_out (scan_of c (from_table st) (from_alias st)) (\<lambda>scan.
     bind_out (plan_joins c (joins st) scan) (\<lambda>plan.
       Ok (case where_clause st of None \<Rightarrow> plan | Some w \<Rightarrow> Filter plan w)))"

definition Plan :: "Catalog \<Rightarrow> SelectStmt \<Rightarrow> Operator outcome" where
  "Plan c st =
     bind_out (plan_source c st) (\<lambda>plan.
       let is_star = is_star_list (select_list st) in
       if \<not> is_star \<and> (HasAggregate (select_list st) \<or> group_by st \<noteq> []) then
         (let aggs = agg_exprs (select_list st) in
          bind_out (BuildAggSchema (group_by st) aggs (GetOutputSchema plan)) (\<lambda>sch.
            Ok (sort_plan (order_by st) (mk_HashAggregate plan (group_by st) aggs sch))))
       else if \<not> is_star then
         (let sorted = sort_plan (order_by st) plan in
          bind_out (BuildProjectionSchema (select_list st) (GetOutputSchema sorted)) (\<lambda>sch.
            Ok (Projection sorted (map si_expr (select_list st)) (proj_names (select_list st)) sch)))
       else Ok (sort_plan (order_by st) plan))"

subsection \<open>Explain\<close>

definition plan_line :: "nat \<Rightarrow> string \<Rightarrow> string" where
  "plan_line depth s = replicate (2 * depth) (CHR '' '') @ s @ [CHR 0x0A]"

text \<open>A line for an operator that is there, one level deeper.\<close>

definition plan_level :: "bool \<Rightarrow> string \<Rightarrow> string \<times> nat \<Rightarrow> string \<times> nat" where
  "plan_level p s acc = (case acc of (out, depth) \<Rightarrow> if p then (out @ plan_line depth s, Suc depth) else acc)"

definition ExplainText :: "SelectStmt \<Rightarrow> string" where
  "ExplainText st =
     (let has_agg = HasAggregate (select_list st) \<or> group_by st \<noteq> [];
          is_star = is_star_list (select_list st);
          (out, depth) =
            plan_level (joins st \<noteq> []) ''HashJoin''
              (plan_level (where_clause st \<noteq> None) ''Filter''
                (if has_agg then plan_level True ''HashAggregate'' (plan_level (order_by st \<noteq> []) ''Sort'' ([], 0))
                 else plan_level (\<not> is_star) ''Projection'' (plan_level (order_by st \<noteq> []) ''Sort'' ([], 0))))
      in out @ plan_line depth (''SeqScan ['' @ from_table st @ '']'') @
         concat (map (\<lambda>j. plan_line depth (''SeqScan ['' @ jc_table_name j @ '']'')) (joins st)))"

end
