(* ===== verification/Query_Streams.thy ===== *)
theory Query_Streams
  imports Executor
begin

text \<open>
  What an operator tree computes, without cursors and pages: a stream is the rows an operator
  delivers and how it ends, in order or with an exception. The theorem is that \<open>Init\<close> and the
  calls of \<open>Next\<close> after it deliver the stream of the tree over the rows of the tables.
\<close>

section \<open>Streams\<close>

type_synonym stream = "Tuple list \<times> unit outcome"

fun s_filter :: "(Tuple \<Rightarrow> bool outcome) \<Rightarrow> Tuple list \<Rightarrow> unit outcome \<Rightarrow> stream" where
  "s_filter p [] fin = ([], fin)"
| "s_filter p (t # ts) fin = (case p t of
      Ok b \<Rightarrow> (let (rs, f) = s_filter p ts fin in (if b then t # rs else rs, f))
    | Throw e \<Rightarrow> ([], Throw e)
    | Fault \<Rightarrow> ([], Fault))"

fun s_map :: "(Tuple \<Rightarrow> Tuple outcome) \<Rightarrow> Tuple list \<Rightarrow> unit outcome \<Rightarrow> stream" where
  "s_map g [] fin = ([], fin)"
| "s_map g (t # ts) fin = (case g t of
      Ok t' \<Rightarrow> (let (rs, f) = s_map g ts fin in (t' # rs, f))
    | Throw e \<Rightarrow> ([], Throw e)
    | Fault \<Rightarrow> ([], Fault))"

text \<open>Rows computed one after the other, each of which may fail.\<close>

fun s_list :: "Tuple outcome list \<Rightarrow> stream \<Rightarrow> stream" where
  "s_list [] after = after"
| "s_list (x # xs) after = (case x of
      Ok t \<Rightarrow> (let (rs, f) = s_list xs after in (t # rs, f))
    | Throw e \<Rightarrow> ([], Throw e)
    | Fault \<Rightarrow> ([], Fault))"

text \<open>The left rows filed under a key. The empty key is never looked up.\<close>

definition bucket :: "(string \<rightharpoonup> Tuple list) \<Rightarrow> string \<Rightarrow> Tuple list" where
  "bucket ht k = (if k = '''' then [] else case ht k of None \<Rightarrow> [] | Some ts \<Rightarrow> ts)"

fun s_join :: "(Tuple \<Rightarrow> string outcome) \<Rightarrow> (Tuple \<Rightarrow> Tuple \<Rightarrow> Tuple outcome) \<Rightarrow> (string \<rightharpoonup> Tuple list) \<Rightarrow> Tuple list \<Rightarrow> stream" where
  "s_join key glue ht [] = ([], Ok ())"
| "s_join key glue ht (r # rs) = (case key r of
      Ok k \<Rightarrow> s_list (map (\<lambda>l. glue l r) (bucket ht k)) (s_join key glue ht rs)
    | Throw e \<Rightarrow> ([], Throw e)
    | Fault \<Rightarrow> ([], Fault))"

fun fold_out :: "('t \<Rightarrow> 'a \<Rightarrow> 'a outcome) \<Rightarrow> 't list \<Rightarrow> 'a \<Rightarrow> 'a outcome" where
  "fold_out body [] acc = Ok acc"
| "fold_out body (t # ts) acc = bind_out (body t acc) (\<lambda>acc'. fold_out body ts acc')"

definition s_drain :: "(Tuple \<Rightarrow> 'a \<Rightarrow> 'a outcome) \<Rightarrow> 'a \<Rightarrow> stream \<Rightarrow> 'a outcome" where
  "s_drain body acc s = bind_out (fold_out body (fst s) acc) (\<lambda>a. bind_out (snd s) (\<lambda>_. Ok a))"

definition s_rows :: "stream \<Rightarrow> Tuple list outcome" where
  "s_rows s = bind_out (snd s) (\<lambda>_. Ok (fst s))"

definition agg_rows :: "AggExpr list \<Rightarrow> Schema \<Rightarrow> AggState \<Rightarrow> Tuple outcome list" where
  "agg_rows aes sch st = map (\<lambda>k. case groups st k of None \<Rightarrow> Fault | Some g \<Rightarrow> mk_Tuple (group_row aes g) sch) (group_order st)"

text \<open>The outer outcome is that of \<open>Init\<close>; \<open>tab\<close> gives the rows of each table.\<close>

fun stream_of :: "sorter \<Rightarrow> (HeapFile \<Rightarrow> Tuple list) \<Rightarrow> Operator \<Rightarrow> stream outcome" where
  "stream_of srt tab (SeqScan h sch buf cur) = Ok (tab h, Ok ())"
| "stream_of srt tab (Filter child p) =
     bind_out (stream_of srt tab child) (\<lambda>(rows, fin). Ok (s_filter (\<lambda>t. EvalPred p t (GetOutputSchema child)) rows fin))"
| "stream_of srt tab (Projection child es names sch) =
     bind_out (stream_of srt tab child) (\<lambda>(rows, fin). Ok (s_map (\<lambda>t. project es (GetOutputSchema child) t sch) rows fin))"
| "stream_of srt tab (HashJoin l r lk rk sch js) =
     bind_out (stream_of srt tab l) (\<lambda>ls.
     bind_out (s_drain (build_row lk (GetOutputSchema l)) Map.empty ls) (\<lambda>ht.
     bind_out (stream_of srt tab r) (\<lambda>rs.
     bind_out (s_rows rs) (\<lambda>rrows.
       Ok (s_join (\<lambda>t. join_key rk t (GetOutputSchema r))
             (\<lambda>l' r'. Concat l' r' (GetOutputSchema l) (GetOutputSchema r)) ht rrows)))))"
| "stream_of srt tab (Sort child ob buf cur) =
     bind_out (stream_of srt tab child) (\<lambda>s. bind_out (s_rows s) (\<lambda>rows.
     bind_out (sort_rows srt ob (GetOutputSchema child) rows) (\<lambda>rows'. Ok (rows', Ok ()))))"
| "stream_of srt tab (HashAggregate child gb aes sch st) =
     bind_out (stream_of srt tab child) (\<lambda>s.
     bind_out (s_drain (agg_row gb aes (GetOutputSchema child)) empty_agg s) (\<lambda>st'.
       Ok (s_list (agg_rows aes sch st') ([], Ok ()))))"

section \<open>Delivering a stream\<close>

text \<open>The calls of \<open>Next\<close> return the rows of the stream and then its end.\<close>

fun delivers :: "Operator \<Rightarrow> Tuple list \<Rightarrow> unit outcome \<Rightarrow> bool" where
  "delivers op [] fin \<longleftrightarrow> (\<exists>op'. Next op = Some (bind_out fin (\<lambda>_. Ok None), op') \<and> GetOutputSchema op' = GetOutputSchema op)"
| "delivers op (t # ts) fin \<longleftrightarrow>
     (\<exists>op'. Next op = Some (Ok (Some t), op') \<and> GetOutputSchema op' = GetOutputSchema op \<and> delivers op' ts fin)"

abbreviation delivers_stream :: "Operator \<Rightarrow> stream \<Rightarrow> bool" where
  "delivers_stream op s \<equiv> delivers op (fst s) (snd s)"

lemma delivers_end: "Next op = Some (bind_out fin (\<lambda>_. Ok None), op') \<Longrightarrow> GetOutputSchema op' = GetOutputSchema op \<Longrightarrow> delivers op [] fin"
  by auto

lemma delivers_error:
  "Next op = Some (Throw e, op') \<Longrightarrow> GetOutputSchema op' = GetOutputSchema op \<Longrightarrow> delivers op [] (Throw e)"
  "Next op = Some (Fault, op') \<Longrightarrow> GetOutputSchema op' = GetOutputSchema op \<Longrightarrow> delivers op [] Fault"
  by auto

lemma drain_delivers:
  "delivers op rows fin \<Longrightarrow> \<exists>op'. drain body acc op = Some (s_drain body acc (rows, fin), op') \<and> GetOutputSchema op' = GetOutputSchema op"
proof (induction rows arbitrary: op acc)
  case Nil
  then show ?case by (cases fin) (auto simp: drain.simps [of body acc op] s_drain_def)
next
  case (Cons t ts)
  then obtain op1 where n: "Next op = Some (Ok (Some t), op1)" "GetOutputSchema op1 = GetOutputSchema op" "delivers op1 ts fin" by auto
  show ?case
  proof (cases "body t acc")
    case (Ok acc')
    then show ?thesis using Cons.IH [OF n(3), of acc'] n(1,2) by (auto simp: drain.simps [of body acc op] s_drain_def)
  qed (use n in \<open>auto simp: drain.simps [of body acc op] s_drain_def\<close>)
qed

lemma delivers_buffer:
  "Next op = Some (Ok (fst (buffer_next buf cur)), f (snd (buffer_next buf cur))) \<Longrightarrow>
   (\<And>c. Next (f c) = Some (Ok (fst (buffer_next buf c)), f (snd (buffer_next buf c)))) \<Longrightarrow>
   (\<And>c. GetOutputSchema (f c) = GetOutputSchema op) \<Longrightarrow> delivers op (drop cur buf) (Ok ())"
proof (induction "length buf - cur" arbitrary: cur op)
  case 0
  then show ?case by (auto simp: buffer_next_def)
next
  case (Suc n)
  then have c: "cur < length buf" by simp
  have "delivers (f (Suc cur)) (drop (Suc cur) buf) (Ok ())" using Suc by (intro Suc.hyps(1)) auto
  then show ?case using c Suc.prems by (simp add: Cons_nth_drop_Suc [symmetric] buffer_next_def)
qed

lemma delivers_scan: "delivers (SeqScan h sch buf cur) (drop cur buf) (Ok ())"
  by (rule delivers_buffer [where f = "\<lambda>c. SeqScan h sch buf c" and buf = buf]) (auto simp: Next.simps split: prod.split)

lemma delivers_sort: "delivers (Sort child ob buf cur) (drop cur buf) (Ok ())"
  by (rule delivers_buffer [where f = "\<lambda>c. Sort child ob buf c" and buf = buf]) (auto simp: Next.simps split: prod.split)

lemma delivers_filter:
  "delivers child rows fin \<Longrightarrow>
   delivers_stream (Filter child p) (s_filter (\<lambda>t. EvalPred p t (GetOutputSchema child)) rows fin)"
proof (induction rows arbitrary: child)
  case Nil
  then show ?case by (cases fin) (auto simp: Next.simps [of "Filter child p"])
next
  case (Cons t ts)
  then obtain c1 where n: "Next child = Some (Ok (Some t), c1)" "GetOutputSchema c1 = GetOutputSchema child" "delivers c1 ts fin" by auto
  note IH = Cons.IH [OF n(3), unfolded n(2)]
  show ?case
  proof (cases "EvalPred p t (GetOutputSchema child)")
    case (Ok b)
    show ?thesis
    proof (cases b)
      case True
      then show ?thesis using IH n Ok by (auto simp: Next.simps [of "Filter child p"] split: prod.split)
    next
      case False
      then have "Next (Filter child p) = Next (Filter c1 p)" using n Ok by (simp add: Next.simps [of "Filter child p"])
      then have "delivers (Filter child p) xs f = delivers (Filter c1 p) xs f" for xs f using n(2) by (cases xs) auto
      then show ?thesis using IH False Ok by (auto split: prod.split)
    qed
  qed (use n in \<open>auto simp: Next.simps [of "Filter child p"]\<close>)
qed

lemma delivers_projection:
  "delivers child rows fin \<Longrightarrow>
   delivers_stream (Projection child es names sch) (s_map (\<lambda>t. project es (GetOutputSchema child) t sch) rows fin)"
proof (induction rows arbitrary: child)
  case Nil
  then show ?case by (cases fin) (auto simp: Next.simps [of "Projection child es names sch"])
next
  case (Cons t ts)
  then obtain c1 where n: "Next child = Some (Ok (Some t), c1)" "GetOutputSchema c1 = GetOutputSchema child" "delivers c1 ts fin" by auto
  note IH = Cons.IH [OF n(3), unfolded n(2)]
  show ?case
    using IH n by (cases "project es (GetOutputSchema child) t sch") (auto simp: Next.simps [of "Projection child es names sch"] split: prod.split)
qed

lemma delivers_cong:
  "Next a = Next b \<Longrightarrow> GetOutputSchema a = GetOutputSchema b \<Longrightarrow> delivers a xs f = delivers b xs f"
  by (cases xs) auto

lemma join_match_bucket:
  "join_match js = (let ts = bucket (hash_table js) (current_key js)
     in if match_cursor js < length ts then Some (ts ! match_cursor js) else None)"
  by (auto simp: join_match_def bucket_def split: option.split)

text \<open>The join with the matches of the current right row all delivered.\<close>

definition spent :: "JoinState \<Rightarrow> bool" where
  "spent js \<longleftrightarrow> length (bucket (hash_table js) (current_key js)) \<le> match_cursor js"

lemma join_next_spent:
  assumes "spent js"
  shows "length (right_buffer js) \<le> right_cursor js \<Longrightarrow> \<exists>js'. join_next ls rs rk js = (Ok None, js')"
    and "right_cursor js < length (right_buffer js) \<Longrightarrow> join_key rk (right_buffer js ! right_cursor js) rs = Ok k \<Longrightarrow>
      join_next ls rs rk js = join_next ls rs rk (js\<lparr>right_cursor := Suc (right_cursor js), current_key := k, match_cursor := 0\<rparr>)"
    and "right_cursor js < length (right_buffer js) \<Longrightarrow> join_key rk (right_buffer js ! right_cursor js) rs = Throw e \<Longrightarrow>
      \<exists>js'. join_next ls rs rk js = (Throw e, js')"
    and "right_cursor js < length (right_buffer js) \<Longrightarrow> join_key rk (right_buffer js ! right_cursor js) rs = Fault \<Longrightarrow>
      \<exists>js'. join_next ls rs rk js = (Fault, js')"
  using assms by (auto simp: join_next.simps [of ls rs rk js] join_match_bucket spent_def Let_def)

abbreviation glue :: "Operator \<Rightarrow> Operator \<Rightarrow> Tuple \<Rightarrow> Tuple \<Rightarrow> Tuple outcome" where
  "glue l r t u \<equiv> Concat t u (GetOutputSchema l) (GetOutputSchema r)"

lemma delivers_matches:
  assumes "0 < right_cursor js" "right_cursor js \<le> length (right_buffer js)"
    and "ts = bucket (hash_table js) (current_key js)"
    and "\<And>n. length ts \<le> n \<Longrightarrow> delivers_stream (HashJoin l r lk rk sch (js\<lparr>match_cursor := n\<rparr>)) after"
  shows "delivers_stream (HashJoin l r lk rk sch (js\<lparr>match_cursor := n\<rparr>))
    (s_list (map (\<lambda>t. glue l r t (right_buffer js ! (right_cursor js - 1))) (drop n ts)) after)"
proof (induction "length ts - n" arbitrary: n)
  case 0
  then show ?case using assms(4) by simp
next
  case (Suc d)
  then have n: "n < length ts" by simp
  let ?js = "js\<lparr>match_cursor := n\<rparr>"
  have m: "join_match ?js = Some (ts ! n)" using n assms(3) by (simp add: join_match_bucket)
  have IH: "delivers_stream (HashJoin l r lk rk sch (js\<lparr>match_cursor := Suc n\<rparr>))
      (s_list (map (\<lambda>t. glue l r t (right_buffer js ! (right_cursor js - 1))) (drop (Suc n) ts)) after)"
    using Suc by simp
  have d: "drop n ts = ts ! n # drop (Suc n) ts" using n by (simp add: Cons_nth_drop_Suc)
  show ?case
  proof (cases "glue l r (ts ! n) (right_buffer js ! (right_cursor js - 1))")
    case (Ok t)
    then have "Next (HashJoin l r lk rk sch ?js) = Some (Ok (Some t), HashJoin l r lk rk sch (js\<lparr>match_cursor := Suc n\<rparr>))"
      using m assms(1,2) by (simp add: Next.simps join_next.simps [of _ _ _ ?js])
    then show ?thesis using IH Ok by (simp add: d case_prod_beta)
  qed (use m assms(1,2) in \<open>simp_all add: d Next.simps join_next.simps [of _ _ _ ?js]\<close>)
qed

lemma delivers_join:
  assumes "spent js"
  shows "delivers_stream (HashJoin l r lk rk sch js)
    (s_join (\<lambda>t. join_key rk t (GetOutputSchema r)) (glue l r) (hash_table js) (drop (right_cursor js) (right_buffer js)))"
  using assms
proof (induction "length (right_buffer js) - right_cursor js" arbitrary: js)
  case 0
  then show ?case using join_next_spent(1) [OF 0(2), of "GetOutputSchema l" "GetOutputSchema r" rk] by (auto simp: Next.simps)
next
  case (Suc d)
  let ?rs = "GetOutputSchema r"
  let ?c = "right_cursor js"
  have c: "?c < length (right_buffer js)" using Suc.hyps(2) by simp
  then have d: "drop ?c (right_buffer js) = right_buffer js ! ?c # drop (Suc ?c) (right_buffer js)" by (simp add: Cons_nth_drop_Suc)
  show ?case
  proof (cases "join_key rk (right_buffer js ! ?c) ?rs")
    case (Ok k)
    let ?js = "js\<lparr>right_cursor := Suc ?c, current_key := k\<rparr>"
    have "delivers_stream (HashJoin l r lk rk sch (?js\<lparr>match_cursor := n\<rparr>))
        (s_join (\<lambda>t. join_key rk t ?rs) (glue l r) (hash_table js) (drop (Suc ?c) (right_buffer js)))"
      if "length (bucket (hash_table js) k) \<le> n" for n
      using Suc.hyps(1) [of "?js\<lparr>match_cursor := n\<rparr>"] Suc.hyps(2) that by (simp add: spent_def)
    then have "delivers_stream (HashJoin l r lk rk sch (?js\<lparr>match_cursor := 0\<rparr>))
        (s_list (map (\<lambda>t. glue l r t (right_buffer js ! ?c)) (bucket (hash_table js) k))
          (s_join (\<lambda>t. join_key rk t ?rs) (glue l r) (hash_table js) (drop (Suc ?c) (right_buffer js))))"
      using delivers_matches [where js = ?js and ts = "bucket (hash_table js) k" and n = 0] c by simp
    moreover have "Next (HashJoin l r lk rk sch js) = Next (HashJoin l r lk rk sch (?js\<lparr>match_cursor := 0\<rparr>))"
      using join_next_spent(2) [OF Suc.prems c Ok] by (simp add: Next.simps)
    ultimately show ?thesis using Ok by (simp add: d delivers_cong [of "HashJoin l r lk rk sch js" "HashJoin l r lk rk sch (?js\<lparr>match_cursor := 0\<rparr>)"])
  next
    case (Throw e)
    then show ?thesis using join_next_spent(3) [OF Suc.prems c Throw, of "GetOutputSchema l"] by (auto simp: d Next.simps)
  next
    case Fault
    then show ?thesis using join_next_spent(4) [OF Suc.prems c Fault, of "GetOutputSchema l"] by (auto simp: d Next.simps)
  qed
qed

lemma delivers_aggregate:
  "delivers_stream (HashAggregate child gb aes sch st) (s_list (drop (agg_cursor st) (agg_rows aes sch st)) ([], Ok ()))"
proof (induction "length (group_order st) - agg_cursor st" arbitrary: st)
  case 0
  then show ?case by (simp add: Next.simps agg_next_def agg_rows_def)
next
  case (Suc d)
  let ?c = "agg_cursor st"
  let ?st = "st\<lparr>agg_cursor := Suc ?c\<rparr>"
  let ?x = "case groups st (group_order st ! ?c) of None \<Rightarrow> Fault | Some g \<Rightarrow> mk_Tuple (group_row aes g) sch"
  have c: "?c < length (group_order st)" using Suc.hyps(2) by simp
  then have d: "drop ?c (agg_rows aes sch st) = ?x # drop (Suc ?c) (agg_rows aes sch ?st)"
    by (simp add: agg_rows_def drop_map Cons_nth_drop_Suc [symmetric])
  have IH: "delivers_stream (HashAggregate child gb aes sch ?st) (s_list (drop (Suc ?c) (agg_rows aes sch ?st)) ([], Ok ()))"
    using Suc.hyps(1) [of ?st] Suc.hyps(2) by simp
  have nx: "Next (HashAggregate child gb aes sch st) = Some (bind_out ?x (\<lambda>t. Ok (Some t)), HashAggregate child gb aes sch ?st)"
    using c by (auto simp: Next.simps agg_next_def Let_def split: option.split outcome.split)
  show ?case using IH nx by (cases ?x) (simp_all add: d case_prod_beta)
qed

lemma Close_schema [simp]: "GetOutputSchema (Close op) = GetOutputSchema op"
  by (induction op) auto

section \<open>Init\<close>

text \<open>A tree as the planner builds it: no join has a key yet. \<open>Init\<close> does not reset it.\<close>

fun fresh :: "Operator \<Rightarrow> bool" where
  "fresh (SeqScan h sch buf cur) = True"
| "fresh (Filter child p) = fresh child"
| "fresh (Projection child es names sch) = fresh child"
| "fresh (HashJoin l r lk rk sch js) = (fresh l \<and> fresh r \<and> current_key js = '''')"
| "fresh (Sort child ob buf cur) = fresh child"
| "fresh (HashAggregate child gb aes sch st) = fresh child"

fun tables_of :: "Operator \<Rightarrow> HeapFile set" where
  "tables_of (SeqScan h sch buf cur) = {h}"
| "tables_of (Filter child p) = tables_of child"
| "tables_of (Projection child es names sch) = tables_of child"
| "tables_of (HashJoin l r lk rk sch js) = tables_of l \<union> tables_of r"
| "tables_of (Sort child ob buf cur) = tables_of child"
| "tables_of (HashAggregate child gb aes sch st) = tables_of child"

definition table_rows :: "(page_id_t \<Rightarrow> byte list option) \<Rightarrow> HeapFile \<Rightarrow> Tuple list \<Rightarrow> bool" where
  "table_rows m h rows \<longleftrightarrow> (\<exists>ps. heap_inv m h ps \<and> rows = map snd (heap_rows m (row_width h) ps))"

text \<open>The result of \<open>Init\<close> agrees with a stream: an operator that delivers it, or the error.\<close>

definition init_agrees :: "Schema \<Rightarrow> (BufferPoolManager \<Rightarrow> bool) \<Rightarrow> stream outcome \<Rightarrow>
    (Operator, BufferPoolManager) res option \<Rightarrow> bool" where
  "init_agrees sch P so r \<longleftrightarrow> (\<exists>b. P b \<and> (case so of
      Ok s \<Rightarrow> \<exists>op. r = Some (Ok op, b) \<and> GetOutputSchema op = sch \<and> delivers_stream op s
    | Throw e \<Rightarrow> r = Some (Throw e, b)
    | Fault \<Rightarrow> r = Some (Fault, b)))"

lemma bind_opt_simps [simp]:
  "bind_opt (Some (Ok a, s)) f = f a s"
  "bind_opt (Some (Throw e, s)) f = Some (Throw e, s)"
  "bind_opt (Some (Fault, s)) f = Some (Fault, s)"
  by (simp_all add: bind_opt_def)

lemma init_agreesI:
  "P b \<Longrightarrow> GetOutputSchema op = sch \<Longrightarrow> delivers_stream op s \<Longrightarrow> init_agrees sch P (Ok s) (Some (Ok op, b))"
  by (auto simp: init_agrees_def)

lemma init_agrees_bind:
  assumes "init_agrees sch P so r"
    and "\<And>s op b. so = Ok s \<Longrightarrow> GetOutputSchema op = sch \<Longrightarrow> delivers_stream op s \<Longrightarrow> P b \<Longrightarrow> init_agrees sch' P (f s) (g op b)"
  shows "init_agrees sch' P (bind_out so f) (bind_opt r g)"
proof (cases so)
  case (Ok s)
  then obtain op b where "r = Some (Ok op, b)" "GetOutputSchema op = sch" "delivers_stream op s" "P b"
    using assms(1) by (auto simp: init_agrees_def)
  with assms(2) [OF Ok this(2-4)] Ok show ?thesis by simp
qed (use assms(1) in \<open>auto simp: init_agrees_def\<close>)

text \<open>A value computed on the way, the same in the stream and in the run.\<close>

lemma init_agrees_step:
  assumes "P b" and "\<And>a. x = Ok a \<Longrightarrow> init_agrees sch P (f a) (g (h a) b)"
  shows "init_agrees sch P (bind_out x f) (bind_opt (Some (bind_out x (\<lambda>a. Ok (h a)), b)) g)"
  using assms by (cases x) (auto simp: init_agrees_def bind_opt_def)

lemma bind_out_Ok: "bind_out x Ok = x"
  by (cases x) auto

lemmas init_agrees_value = init_agrees_step [where h = "\<lambda>a. a", unfolded bind_out_Ok]

lemma init_agrees_drain:
  assumes "P b" and "delivers_stream op s" and "x = s_drain body acc s"
    and "\<And>a op'. x = Ok a \<Longrightarrow> GetOutputSchema op' = GetOutputSchema op \<Longrightarrow> init_agrees sch P (f a) (g (a, op') b)"
  shows "init_agrees sch P (bind_out x f) (bind_opt (beside (drain body acc op) b) g)"
proof -
  obtain op' where "drain body acc op = Some (x, op')" "GetOutputSchema op' = GetOutputSchema op"
    using drain_delivers [OF assms(2), of body acc] assms(3) by auto
  then show ?thesis
    using init_agrees_step [of P b x sch f g "\<lambda>a. (a, op')"] assms(1,4) by (simp add: beside_def)
qed

lemma s_rows_drain: "s_rows s = s_drain (\<lambda>t acc. Ok (acc @ [t])) [] s"
proof -
  have "fold_out (\<lambda>t acc. Ok (acc @ [t])) ts acc = Ok (acc @ ts)" for ts acc :: "Tuple list"
    by (induction ts arbitrary: acc) auto
  then show ?thesis by (simp add: s_drain_def s_rows_def)
qed

lemma feed_rows: "feed (\<lambda>rid t acc. (True, acc @ [t])) rows acc = (True, acc @ map snd rows)"
  by (induction rows arbitrary: acc) auto

lemma scan_rows:
  assumes "bpm_idle b m k l" and "0 < k" and "table_rows m h rows"
  shows "\<exists>b'. Scan h (\<lambda>rid t acc. (True, acc @ [t])) [] b = Some (Ok rows, b') \<and> bpm_idle b' m k l"
proof -
  obtain ps where ps: "heap_inv m h ps" "rows = map snd (heap_rows m (row_width h) ps)"
    using assms(3) by (auto simp: table_rows_def)
  then show ?thesis
    using scan_from_ok [of m ps b k l "tuple_size (schema h)" "\<lambda>rid t acc. (True, acc @ [t])" "[]"] assms(1,2)
    by (auto simp: Scan_def heap_inv_def feed_rows)
qed

lemma fold_out_inv:
  "fold_out body ts acc = Ok a \<Longrightarrow> I acc \<Longrightarrow> (\<And>t x y. t \<in> set ts \<Longrightarrow> body t x = Ok y \<Longrightarrow> I x \<Longrightarrow> I y) \<Longrightarrow> I a"
proof (induction ts arbitrary: acc)
  case (Cons t ts)
  then obtain y where y: "body t acc = Ok y" "fold_out body ts y = Ok a" by (cases "body t acc") auto
  then show ?case using Cons by (metis list.set_intros)
qed simp

lemma s_drain_OkD: "s_drain body acc s = Ok a \<Longrightarrow> fold_out body (fst s) acc = Ok a \<and> snd s = Ok ()"
  by (cases "fold_out body (fst s) acc"; cases "snd s") (auto simp: s_drain_def)

lemma agg_cursor_start: "s_drain (agg_row gb aes sch) empty_agg s = Ok st \<Longrightarrow> agg_cursor st = 0"
proof -
  assume "s_drain (agg_row gb aes sch) empty_agg s = Ok st"
  then have "fold_out (agg_row gb aes sch) (fst s) empty_agg = Ok st" by (simp add: s_drain_OkD)
  moreover have "agg_cursor y = 0" if "agg_row gb aes sch t x = Ok y" "agg_cursor x = 0" for t x y
    using that by (auto simp: agg_row_def bind_out_eq_Ok split: option.splits prod.splits)
  ultimately show ?thesis using fold_out_inv [where I = "\<lambda>st. agg_cursor st = 0"] by (metis (full_types) empty_agg_def AggState.select_convs(3))
qed

lemma Init_agrees:
  assumes "bpm_idle b m k n" and "0 < k" and "fresh op" and "\<forall>h \<in> tables_of op. table_rows m h (tab h)"
  shows "init_agrees (GetOutputSchema op) (\<lambda>b. bpm_idle b m k n) (stream_of srt tab op) (Init srt op b)"
  using assms(1,3,4)
proof (induction op arbitrary: b)
  case (SeqScan h sch buf cur)
  then obtain b' where "Scan h (\<lambda>rid t acc. (True, acc @ [t])) [] b = Some (Ok (tab h), b')" "bpm_idle b' m k n"
    using scan_rows [OF _ assms(2)] by fastforce
  then show ?case using delivers_scan [of h sch "tab h" 0] by (auto simp: scan_load_def intro!: init_agreesI)
next
  case (Filter child p)
  have "init_agrees (GetOutputSchema child) (\<lambda>b. bpm_idle b m k n) (stream_of srt tab child) (Init srt child b)"
    using Filter by simp
  then show ?case
    unfolding Init.simps stream_of.simps
    by (rule init_agrees_bind) (auto intro!: init_agreesI dest: delivers_filter [where p = p])
next
  case (Projection child es names sch)
  have "init_agrees (GetOutputSchema child) (\<lambda>b. bpm_idle b m k n) (stream_of srt tab child) (Init srt child b)"
    using Projection by simp
  then show ?case
    unfolding Init.simps stream_of.simps
    by (rule init_agrees_bind) (auto intro!: init_agreesI dest: delivers_projection [where es = es and names = names and sch = sch])
next
  case (HashJoin l r lk rk sch js)
  have l: "init_agrees (GetOutputSchema l) (\<lambda>b. bpm_idle b m k n) (stream_of srt tab l) (Init srt l b)"
    using HashJoin by simp
  have r: "init_agrees (GetOutputSchema r) (\<lambda>b. bpm_idle b m k n) (stream_of srt tab r) (Init srt r b)" if "bpm_idle b m k n" for b
    using HashJoin that by simp
  have j: "delivers_stream (HashJoin (Close l2) (Close r2) lk rk sch
        (js\<lparr>hash_table := ht, right_buffer := rb, right_cursor := 0, match_cursor := 0\<rparr>))
      (s_join (\<lambda>t. join_key rk t (GetOutputSchema r)) (glue l r) ht rb)"
    if "GetOutputSchema l2 = GetOutputSchema l" "GetOutputSchema r2 = GetOutputSchema r" for l2 r2 ht rb
    using delivers_join [of "js\<lparr>hash_table := ht, right_buffer := rb, right_cursor := 0, match_cursor := 0\<rparr>" "Close l2" "Close r2"]
      that HashJoin.prems(2) by (simp add: spent_def bucket_def)
  show ?case
    unfolding Init.simps stream_of.simps
    apply (rule init_agrees_bind [OF l])
    apply (rule init_agrees_drain)
       apply assumption+
     apply simp
    apply simp
    apply (rule init_agrees_bind [OF r])
     apply assumption
    apply (rule init_agrees_drain)
       apply assumption+
     apply (rule s_rows_drain)
    apply simp
    apply (rule init_agreesI)
      apply (simp_all add: j)
    done
next
  case (Sort child ob buf cur)
  have "init_agrees (GetOutputSchema child) (\<lambda>b. bpm_idle b m k n) (stream_of srt tab child) (Init srt child b)"
    using Sort by simp
  then show ?case
    unfolding Init.simps sort_load_def stream_of.simps
    apply (rule init_agrees_bind)
    apply (rule init_agrees_drain)
       apply assumption+
     apply (rule s_rows_drain)
    apply (simp del: bind_opt_simps)
    apply (rule init_agrees_value)
     apply assumption
    apply (rule init_agreesI)
      apply (simp_all add: delivers_sort [where cur = 0, simplified])
    done
next
  case (HashAggregate child gb aes sch st)
  have "init_agrees (GetOutputSchema child) (\<lambda>b. bpm_idle b m k n) (stream_of srt tab child) (Init srt child b)"
    using HashAggregate by simp
  then show ?case
    unfolding Init.simps agg_load_def stream_of.simps
    apply (rule init_agrees_bind)
    apply (rule init_agrees_drain)
       apply assumption+
     apply simp
    apply simp
    apply (rule init_agreesI)
      apply assumption
     apply simp
    apply (drule sym, drule agg_cursor_start)
    subgoal for s op b st' op' using delivers_aggregate [of "Close op'" gb aes sch st'] by simp
    done
qed

end
