(* ===== verification/Query_Types.thy ===== *)
theory Query_Types
  imports Query_Streams
begin

text \<open>
  Types of expressions and operator trees: evaluating an expression on a row of a schema gives a
  value of the type of the expression, or an exception that does not depend on the row. A tree
  whose schemas fit together delivers rows of the width of its schema and never faults.
\<close>

section \<open>Expressions\<close>

definition schema_ok :: "Schema \<Rightarrow> bool" where
  "schema_ok sch \<longleftrightarrow> sch = mk_Schema (columns sch) \<and> row_size (columns sch) < 2 ^ 32"

abbreviation row_ok :: "Schema \<Rightarrow> Tuple \<Rightarrow> bool" where
  "row_ok sch t \<equiv> length t = unat (tuple_size sch)"

fun expr_type :: "Expr \<Rightarrow> Schema \<Rightarrow> ColumnType outcome" where
  "expr_type (INT_LITERAL i) sch = Ok ColumnType_Int"
| "expr_type (STRING_LITERAL s) sch = Ok (ColumnType_Varchar 255)"
| "expr_type (COLUMN_REF tab c) sch = bind_out (GetColumnIdx sch (column_key tab c)) (\<lambda>i. Ok (col_type (columns sch ! i)))"
| "expr_type _ sch = Throw (Runtime_Error ''EvalExpr: unsupported expression type'')"

definition has_type :: "ColumnType \<Rightarrow> Value \<Rightarrow> bool" where
  "has_type ct v \<longleftrightarrow> v_type v = type_id ct \<and> (v_type v = T_VARCHAR \<longrightarrow> v_max_len v = max_len ct)"

lemma find_exact_bound: "find_exact cs k name = Some i \<Longrightarrow> k \<le> i \<and> i < k + length cs"
  by (induction cs k name rule: find_exact.induct) (auto split: if_splits)

lemma find_unqualified_bound:
  "find_unqualified cs k found name = Ok (Some i) \<Longrightarrow> found = Some i \<or> (k \<le> i \<and> i < k + length cs)"
  by (induction cs k found name rule: find_unqualified.induct) (auto split: if_splits)

lemma find_unqualified_no_fault: "find_unqualified cs k found name \<noteq> Fault"
  by (induction cs k found name rule: find_unqualified.induct) auto

lemma GetColumnIdx_bound: "GetColumnIdx sch name = Ok i \<Longrightarrow> i < length (columns sch)"
  by (auto simp: GetColumnIdx_def find_qualified_def bind_out_eq_Ok split: option.splits if_splits
      dest!: find_exact_bound find_unqualified_bound)

lemma GetColumnIdx_no_fault: "GetColumnIdx sch name \<noteq> Fault"
  using find_unqualified_no_fault [of "columns sch" 0 None name]
  by (auto simp: GetColumnIdx_def bind_out_def split: option.splits outcome.splits)

lemma row_size_take: "i < length cs \<Longrightarrow> row_size (take i cs) + col_size (cs ! i) \<le> row_size cs"
proof -
  assume i: "i < length cs"
  then have "row_size cs = row_size (take i cs) + row_size (cs ! i # drop (Suc i) cs)"
    by (metis Cons_nth_drop_Suc append_take_drop_id map_append sum_list_append)
  then show ?thesis by simp
qed

lemma DeserializeFrom_typed:
  assumes "unat (GetFixedSize ct) \<le> length src"
  shows "\<exists>v. DeserializeFrom src ct = Ok v \<and> has_type ct v"
proof (cases "type_id ct")
  case T_INT
  then show ?thesis using assms by (simp add: DeserializeFrom_def has_type_def GetFixedSize_def MakeInt_def)
next
  case T_VARCHAR
  let ?s = "takeWhile (\<lambda>b. b \<noteq> 0) (take (unat (max_len ct)) src)"
  have "unat (max_len ct) \<le> length src" using assms T_VARCHAR by (simp add: GetFixedSize_def unat_ucast_16_32)
  then have "\<not> (length ?s = length src \<and> length ?s < unat (max_len ct))" by linarith
  then show ?thesis using T_VARCHAR by (simp add: DeserializeFrom_def has_type_def MakeVarchar_def Let_def)
qed

lemma GetValue_typed:
  assumes "schema_ok sch" and "row_ok sch t" and i: "i < length (columns sch)"
  shows "\<exists>v. GetValue t sch i = Ok v \<and> has_type (col_type (columns sch ! i)) v"
proof -
  let ?cs = "columns sch"
  have sch: "sch = mk_Schema ?cs" and sz: "row_size ?cs < 2 ^ 32" using assms(1) by (auto simp: schema_ok_def)
  have off: "unat (offsets sch ! i) = row_size (take i ?cs)"
    using schema_layout_nth [of 0 ?cs i] sz i by (subst sch) simp
  have "unat (tuple_size sch) = row_size ?cs"
    using schema_layout_total [of 0 ?cs] sz by (subst sch) simp
  then have len: "length t = row_size ?cs" using assms(2) by simp
  have "length (offsets sch) = length ?cs" by (subst sch) (simp add: length_schema_layout)
  then show ?thesis
    using row_size_take [OF i] off len i DeserializeFrom_typed [of "col_type (?cs ! i)" "drop (unat (offsets sch ! i)) t"]
    by (simp add: GetValue_def)
qed

lemma EvalExpr_typed:
  assumes "schema_ok sch" and "row_ok sch t"
  shows "case expr_type e sch of
      Ok ct \<Rightarrow> \<exists>v. EvalExpr e t sch = Ok v \<and> has_type ct v
    | Throw x \<Rightarrow> EvalExpr e t sch = Throw x
    | Fault \<Rightarrow> False"
proof (cases e)
  case (COLUMN_REF tab c)
  then show ?thesis
    using GetColumnIdx_no_fault [of sch "column_key tab c"] GetValue_typed [OF assms] GetColumnIdx_bound [of sch "column_key tab c"]
    by (cases "GetColumnIdx sch (column_key tab c)") auto
qed (auto simp: has_type_def MakeInt_def MakeVarchar_def ColumnType_Int_def ColumnType_Varchar_def)

lemma EvalExpr_Ok: "schema_ok sch \<Longrightarrow> row_ok sch t \<Longrightarrow> expr_type e sch = Ok ct \<Longrightarrow> \<exists>v. EvalExpr e t sch = Ok v \<and> has_type ct v"
  using EvalExpr_typed [of sch t e] by simp

lemma EvalExpr_no_fault: "schema_ok sch \<Longrightarrow> row_ok sch t \<Longrightarrow> EvalExpr e t sch \<noteq> Fault"
  using EvalExpr_typed [of sch t e] by (auto split: outcome.splits)

lemma EvalExpr_type_unique:
  "schema_ok sch \<Longrightarrow> row_ok sch t \<Longrightarrow> row_ok sch u \<Longrightarrow> EvalExpr e t sch = Ok v \<Longrightarrow>
   \<exists>w. EvalExpr e u sch = Ok w \<and> v_type w = v_type v"
  using EvalExpr_typed [of sch t e] EvalExpr_typed [of sch u e] by (auto simp: has_type_def split: outcome.splits)

lemma compare_values_no_fault: "compare_values op v w \<noteq> Fault"
  by (simp add: compare_values_def compare_op_def)

lemma bind_out_eq_Fault: "bind_out m f = Fault \<longleftrightarrow> m = Fault \<or> (\<exists>a. m = Ok a \<and> f a = Fault)"
  by (cases m) auto

lemma EvalPred_no_fault:
  assumes "schema_ok sch" and "row_ok sch t"
  shows "EvalPred p t sch \<noteq> Fault"
  by (induction p) (simp_all add: bind_out_eq_Fault EvalExpr_no_fault [OF assms] compare_values_no_fault unsupported_predicate_def)

lemma eval_list_no_fault: "schema_ok sch \<Longrightarrow> row_ok sch t \<Longrightarrow> eval_list es t sch \<noteq> Fault"
  by (induction es) (simp_all add: bind_out_eq_Fault EvalExpr_no_fault)

text \<open>The columns fit the expressions: each has the type of its expression, if that has one.\<close>

definition expr_fits :: "Schema \<Rightarrow> Column \<Rightarrow> Expr \<Rightarrow> bool" where
  "expr_fits sch c e = (case expr_type e sch of Ok ct \<Rightarrow> ct = col_type c | _ \<Rightarrow> True)"

lemma eval_list_typed:
  assumes "schema_ok sch" and "row_ok sch t"
  shows "list_all2 (expr_fits sch) cs es \<Longrightarrow> eval_list es t sch = Ok vs \<Longrightarrow> list_all2 value_typed cs vs"
proof (induction cs es arbitrary: vs rule: list_all2_induct)
  case (Cons c cs e es)
  then obtain v ws where v: "EvalExpr e t sch = Ok v" "eval_list es t sch = Ok ws" "vs = v # ws"
    by (auto simp: bind_out_eq_Ok)
  then have "value_typed c v"
    using EvalExpr_typed [OF assms, of e] Cons.hyps(1)
    by (auto simp: expr_fits_def has_type_def value_typed_def split: outcome.splits)
  then show ?case using Cons.IH v by simp
qed simp

lemma tuple_size_row_size: "schema_ok sch \<Longrightarrow> unat (tuple_size sch) = row_size (columns sch)"
proof -
  assume s: "schema_ok sch"
  then have "tuple_size sch = snd (schema_layout (columns sch) 0)" by (metis mk_Schema_sel(3) schema_ok_def)
  then show ?thesis using schema_layout_total [of 0 "columns sch"] s by (simp add: schema_ok_def)
qed

lemma mk_Tuple_row:
  assumes "schema_ok sch" and "list_all2 value_typed (columns sch) vs"
  shows "\<exists>t. mk_Tuple vs sch = Ok t \<and> row_ok sch t"
proof -
  have "mk_Tuple vs sch = Ok (concat (map value_bytes vs))"
    using mk_Tuple_typed [OF assms(2)] assms(1) by (metis schema_ok_def)
  then show ?thesis
    using length_value_bytes_list [OF assms(2)] tuple_size_row_size [OF assms(1)] by simp
qed

lemma project_typed:
  assumes "schema_ok inp" and "row_ok inp t" and "schema_ok out" and "list_all2 (expr_fits inp) (columns out) es"
  shows "project es inp t out \<noteq> Fault" and "project es inp t out = Ok t' \<Longrightarrow> row_ok out t'"
proof -
  show "project es inp t out \<noteq> Fault"
    using mk_Tuple_row [OF assms(3)] eval_list_typed [OF assms(1,2,4)] eval_list_no_fault [OF assms(1,2)]
    by (fastforce simp: project_def bind_out_eq_Fault)
  show "row_ok out t'" if "project es inp t out = Ok t'"
    using that mk_Tuple_row [OF assms(3)] eval_list_typed [OF assms(1,2,4)] by (fastforce simp: project_def bind_out_eq_Ok)
qed

section \<open>The comparison function\<close>

definition strict_weak :: "'a set \<Rightarrow> ('a \<Rightarrow> 'a \<Rightarrow> bool) \<Rightarrow> bool" where
  "strict_weak S R \<longleftrightarrow> (\<forall>a \<in> S. \<forall>b \<in> S. R a b \<longrightarrow> \<not> R b a) \<and>
     (\<forall>a \<in> S. \<forall>b \<in> S. \<forall>c \<in> S. \<not> R a b \<longrightarrow> \<not> R b c \<longrightarrow> \<not> R a c)"

lemma strict_weak_lex:
  fixes f :: "'a \<Rightarrow> 'k :: linorder"
  assumes "strict_weak S R"
  shows "strict_weak S (\<lambda>a b. if f a \<noteq> f b then (if up then f a < f b else f b < f a) else R a b)"
proof -
  let ?Q = "\<lambda>a b. if f a \<noteq> f b then (if up then f a < f b else f b < f a) else R a b"
  have asym: "R a b \<Longrightarrow> \<not> R b a" if "a \<in> S" "b \<in> S" for a b 
    using assms that unfolding strict_weak_def by blast
  have neg: "\<not> R a b \<Longrightarrow> \<not> R b c \<Longrightarrow> \<not> R a c" if "a \<in> S" "b \<in> S" "c \<in> S" for a b c
    using assms that unfolding strict_weak_def by blast
  have "\<not> ?Q b a" if "a \<in> S" "b \<in> S" "?Q a b" for a b 
    using asym [OF that(1,2)] that(3) by (cases "f a = f b"; cases up) auto
  moreover have "\<not> ?Q a c" if "a \<in> S" "b \<in> S" "c \<in> S" "\<not> ?Q a b" "\<not> ?Q b c" for a b c
    using neg [OF that(1-3)] that(4,5) by (cases "f a = f b"; cases "f b = f c"; cases up) auto
  ultimately show ?thesis unfolding strict_weak_def by blast
qed

lemma strict_weak_cong:
  "(\<And>a b. a \<in> S \<Longrightarrow> b \<in> S \<Longrightarrow> R a b = Q a b) \<Longrightarrow> strict_weak S Q \<Longrightarrow> strict_weak S R"
  unfolding strict_weak_def by blast

text \<open>The value an expression has on a row, where it has one.\<close>

definition val_of :: "Expr \<Rightarrow> Schema \<Rightarrow> Tuple \<Rightarrow> Value" where
  "val_of e sch t = (case EvalExpr e t sch of Ok v \<Rightarrow> v | _ \<Rightarrow> MakeInt (mk32 0))"

lemma val_of_Ok: "EvalExpr e t sch = Ok v \<Longrightarrow> val_of e sch t = v"
  by (simp add: val_of_def)

lemma order_less_weak:
  assumes "schema_ok sch" and "\<forall>t \<in> S. row_ok sch t"
  shows "strict_weak S (\<lambda>a b. order_less ob sch a b = Ok True)"
proof (induction ob)
  case Nil
  then show ?case by (simp add: strict_weak_def)
next
  case (Cons i ob)
  let ?e = "ob_expr i"
  show ?case
  proof (cases "expr_type ?e sch")
    case (Ok ct)
    then have ev: "EvalExpr ?e t sch = Ok (val_of ?e sch t)" "v_type (val_of ?e sch t) = type_id ct" if "t \<in> S" for t
      using EvalExpr_Ok [OF assms(1) _ Ok, of t] assms(2) that by (auto simp: has_type_def val_of_Ok)
    show ?thesis
    proof (cases "type_id ct")
      case T_INT
      show ?thesis
        by (rule strict_weak_cong [OF _ strict_weak_lex [OF Cons.IH, of "\<lambda>t. int_val (val_of ?e sch t)" "ob_ascending i"]])
          (simp add: ev T_INT)
    next
      case T_VARCHAR
      show ?thesis
        by (rule strict_weak_cong [OF _ strict_weak_lex [OF Cons.IH, of "\<lambda>t. str_val (val_of ?e sch t)" "ob_ascending i"]])
          (simp add: ev T_VARCHAR)
    qed
  next
    case (Throw x)
    then have "EvalExpr ?e t sch = Throw x" if "t \<in> S" for t using EvalExpr_typed [OF assms(1), of t ?e] assms(2) that by simp
    then show ?thesis by (simp add: strict_weak_def)
  next
    case Fault
    then have "S = {}" using EvalExpr_typed [OF assms(1), of _ ?e] assms(2) by fastforce
    then show ?thesis by (simp add: strict_weak_def)
  qed
qed

lemma order_less_no_fault:
  "schema_ok sch \<Longrightarrow> row_ok sch a \<Longrightarrow> row_ok sch b \<Longrightarrow> order_less ob sch a b \<noteq> Fault"
  by (induction ob) (simp_all add: bind_out_eq_Fault EvalExpr_no_fault)

lemma find_SomeD: "find P xs = Some x \<Longrightarrow> P x \<and> x \<in> set xs"
  by (induction xs) (auto split: if_splits)

text \<open>What the C++ standard promises of \<open>std::sort\<close> for a strict weak order.\<close>

definition std_sort :: "sorter \<Rightarrow> bool" where
  "std_sort srt \<longleftrightarrow> (\<forall>less xs. strict_weak (set xs) less \<longrightarrow>
     mset (srt less xs) = mset xs \<and> sorted_wrt (\<lambda>a b. \<not> less b a) (srt less xs))"

lemma sort_rows_ok:
  assumes "std_sort srt" and "schema_ok sch" and "\<forall>t \<in> set rows. row_ok sch t" and "sort_rows srt ob sch rows = Ok rows'"
  shows "mset rows' = mset rows \<and> sorted_wrt (\<lambda>a b. order_less ob sch b a \<noteq> Ok True) rows'"
proof -
  have "rows' = srt (\<lambda>a b. order_less ob sch a b = Ok True) rows"
    using assms(4) by (cases "find (\<lambda>r. case r of Ok _ \<Rightarrow> False | _ \<Rightarrow> True) (pair_outcomes ob sch rows)")
      (auto simp: sort_rows_def bind_out_eq_Ok dest!: find_SomeD)
  then show ?thesis using assms(1) order_less_weak [OF assms(2,3), of ob] by (auto simp: std_sort_def)
qed

lemma sort_rows_no_fault:
  assumes "schema_ok sch" and "\<forall>t \<in> set rows. row_ok sch t"
  shows "sort_rows srt ob sch rows \<noteq> Fault"
proof -
  have "Fault \<notin> set (pair_outcomes ob sch rows)"
    using order_less_no_fault [OF assms(1), of "rows ! i" "rows ! j" ob for i j] assms(2)
    by (auto simp: pair_outcomes_def split: if_splits) (metis nth_mem)
  then show ?thesis
    by (auto simp: sort_rows_def bind_out_eq_Fault find_Some_iff split: option.splits) (metis nth_mem)
qed

end
