(* ===== verification/Query_Aggregates.thy ===== *)
theory Query_Aggregates
  imports Query_Types
begin

text \<open>
  The groups that \<open>HashAggregate::Init\<close> builds, in closed form: one group per key, in the order in
  which the keys appear, with the counts, sums, minima and maxima of its rows. Rows get the same
  key when their group values agree, as long as no string contains the separator.
\<close>

section \<open>One group\<close>

definition agg_vals :: "AggExpr \<Rightarrow> Schema \<Rightarrow> Tuple list \<Rightarrow> i32 list" where
  "agg_vals ae sch ts = (if ae_func ae = ''COUNT'' then [] else case ae_arg ae of
      None \<Rightarrow> [] | Some e \<Rightarrow> map (\<lambda>t. int_val (val_of e sch t)) ts)"

abbreviation int_sum :: "i32 list \<Rightarrow> int" where
  "int_sum xs \<equiv> sum_list (map ival xs)"

text \<open>The group after each aggregate has taken in its rows: \<open>ps\<close> pairs aggregates and rows.\<close>

definition mk_group :: "Schema \<Rightarrow> Value list \<Rightarrow> (AggExpr \<times> Tuple list) list \<Rightarrow> Group" where
  "mk_group sch vs ps = \<lparr>key_vals = vs,
     counts = map (\<lambda>(ae, ts). int (length ts)) ps,
     sums = map (\<lambda>(ae, ts). int_sum (agg_vals ae sch ts)) ps,
     mins = map (\<lambda>(ae, ts). fold min (agg_vals ae sch ts) (mk32 INT32_MAX)) ps,
     maxs = map (\<lambda>(ae, ts). fold max (agg_vals ae sch ts) (mk32 INT32_MIN)) ps\<rparr>"

definition agg_type :: "AggExpr \<Rightarrow> Schema \<Rightarrow> unit outcome" where
  "agg_type ae sch = (if ae_func ae = ''COUNT'' then Ok () else case ae_arg ae of
      None \<Rightarrow> Fault | Some e \<Rightarrow> bind_out (expr_type e sch) (\<lambda>_. Ok ()))"

lemma int_sum_bound: "\<bar>int_sum xs\<bar> \<le> int (length xs) * 2 ^ 31"
proof (induction xs)
  case (Cons x xs)
  have "\<bar>ival x\<bar> \<le> 2 ^ 31" using ival_bounds [of x] by (simp add: INT32_MIN_def INT32_MAX_def)
  then show ?case using Cons by (simp add: algebra_simps)
qed simp

lemma length_agg_vals: "length (agg_vals ae sch ts) \<le> length ts"
  by (auto simp: agg_vals_def split: option.split)

lemma add64_small: "\<bar>a\<bar> \<le> 2 ^ 62 \<Longrightarrow> \<bar>b\<bar> \<le> 2 ^ 31 \<Longrightarrow> add64 a b = Ok (a + b)"
  by (auto simp: add64_def abs_le_iff)

lemma new_group_mk: "new_group (length aes) vs = mk_group sch vs (map (\<lambda>ae. (ae, [])) aes)"
  by (auto simp: new_group_def mk_group_def agg_vals_def comp_def map_replicate_const [symmetric] split: option.split)

lemma agg_update_mk:
  assumes "schema_ok sch" and "row_ok sch t" and "length ts < 2 ^ 31"
  shows "agg_update ae sch t (length pre) (mk_group sch vs (pre @ (ae, ts) # suf)) =
    bind_out (agg_type ae sch) (\<lambda>_. Ok (mk_group sch vs (pre @ (ae, ts @ [t]) # suf)))"
proof -
  have n: "add64 (int (length ts)) 1 = Ok (int (length ts) + 1)" using assms(3) by (intro add64_small) auto
  show ?thesis
  proof (cases "ae_func ae = ''COUNT''")
    case True
    then show ?thesis using n
      by (simp add: agg_update_def mk_group_def agg_type_def agg_vals_def nth_append list_update_append)
  next
    case False
    show ?thesis
    proof (cases "ae_arg ae")
      case None
      then show ?thesis using False n by (simp add: agg_update_def mk_group_def agg_type_def nth_append)
    next
      case (Some e)
      let ?v = "int_val (val_of e sch t)"
      let ?xs = "agg_vals ae sch ts"
      have xs: "agg_vals ae sch (ts @ [t]) = ?xs @ [?v]" using False Some by (simp add: agg_vals_def)
      have "\<bar>int_sum ?xs\<bar> \<le> 2 ^ 31 * 2 ^ 31"
        using int_sum_bound [of ?xs] length_agg_vals [of ae sch ts] assms(3) by (simp add: order_trans)
      moreover have "\<bar>ival ?v\<bar> \<le> 2 ^ 31" using ival_bounds [of ?v] by (simp add: INT32_MIN_def INT32_MAX_def)
      ultimately have s: "add64 (int_sum ?xs) (ival ?v) = Ok (int_sum ?xs + ival ?v)" by (intro add64_small) auto
      show ?thesis
      proof (cases "expr_type e sch")
        case (Ok ct)
        then have "EvalExpr e t sch = Ok (val_of e sch t)"
          using EvalExpr_Ok [OF assms(1,2) Ok] by (auto simp: val_of_Ok)
        then show ?thesis using n s False Some Ok
          by (simp add: agg_update_def mk_group_def agg_type_def xs nth_append list_update_append min_def max_def not_less)
            (auto simp: Let_def list_update_append)
      next
        case (Throw x)
        then have "EvalExpr e t sch = Throw x" using EvalExpr_typed [OF assms(1,2), of e] by simp
        then show ?thesis using n False Some Throw by (simp add: agg_update_def mk_group_def agg_type_def nth_append)
      next
        case Fault
        then show ?thesis using EvalExpr_typed [OF assms(1,2), of e] by simp
      qed
    qed
  qed
qed

fun agg_types :: "AggExpr list \<Rightarrow> Schema \<Rightarrow> unit outcome" where
  "agg_types [] sch = Ok ()"
| "agg_types (ae # aes) sch = bind_out (agg_type ae sch) (\<lambda>_. agg_types aes sch)"

lemma agg_updates_mk:
  assumes "schema_ok sch" and "row_ok sch t" and "length ts < 2 ^ 31"
  shows "agg_updates aes sch t (length pre) (mk_group sch vs (pre @ map (\<lambda>ae. (ae, ts)) aes)) =
    bind_out (agg_types aes sch) (\<lambda>_. Ok (mk_group sch vs (pre @ map (\<lambda>ae. (ae, ts @ [t])) aes)))"
proof (induction aes arbitrary: pre)
  case (Cons ae aes)
  show ?case
    using agg_update_mk [OF assms, of ae pre vs "map (\<lambda>ae. (ae, ts)) aes"] Cons.IH [of "pre @ [(ae, ts @ [t])]"]
    by (cases "agg_type ae sch") auto
qed simp

lemmas agg_updates_start = agg_updates_mk [where pre = "[]", simplified]


section \<open>All groups\<close>

definition group_vals :: "Expr list \<Rightarrow> Schema \<Rightarrow> Tuple \<Rightarrow> Value list" where
  "group_vals gb sch t = map (\<lambda>e. val_of e sch t) gb"

definition key_text :: "Value list \<Rightarrow> string" where
  "key_text vs = concat (map (\<lambda>v. ToString v @ ''|'') vs)"

text \<open>The values of a list in the order in which they first appear.\<close>

definition firsts :: "'a list \<Rightarrow> 'a list" where
  "firsts xs = rev (remdups (rev xs))"

lemma firsts_simps [simp]:
  "firsts [] = []"
  "firsts (xs @ [x]) = (if x \<in> set xs then firsts xs else firsts xs @ [x])"
  by (simp_all add: firsts_def)

lemma set_firsts [simp]: "set (firsts xs) = set xs" and distinct_firsts [simp]: "distinct (firsts xs)"
  by (simp_all add: firsts_def)

lemma firsts_map_inj: "inj_on f (set xs) \<Longrightarrow> firsts (map f xs) = map f (firsts xs)"
proof (induction xs rule: rev_induct)
  case (snoc x xs)
  then have "f x \<in> f ` set xs \<longleftrightarrow> x \<in> set xs" by (auto simp: inj_on_def)
  then show ?case using snoc by (auto simp: inj_on_def)
qed simp

definition rows_with :: "(Tuple \<Rightarrow> 'k) \<Rightarrow> 'k \<Rightarrow> Tuple list \<Rightarrow> Tuple list" where
  "rows_with f k ts = filter (\<lambda>t. f t = k) ts"

definition group_state :: "Expr list \<Rightarrow> AggExpr list \<Rightarrow> Schema \<Rightarrow> Tuple list \<Rightarrow> AggState" where
  "group_state gb aes sch ts = (let key = (\<lambda>t. key_text (group_vals gb sch t)) in
     \<lparr>groups = (\<lambda>k. let us = rows_with key k ts in
        if us = [] then None else Some (mk_group sch (group_vals gb sch (hd us)) (map (\<lambda>ae. (ae, us)) aes))),
      group_order = firsts (map key ts), agg_cursor = 0\<rparr>)"

lemma eval_list_Ok:
  assumes "schema_ok sch" and "row_ok sch t"
  shows "\<forall>e \<in> set es. \<exists>ct. expr_type e sch = Ok ct \<Longrightarrow> eval_list es t sch = Ok (map (\<lambda>e. val_of e sch t) es)"
proof (induction es)
  case (Cons e es)
  then obtain v where "EvalExpr e t sch = Ok v" using EvalExpr_Ok [OF assms] by fastforce
  then show ?case using Cons by (simp add: val_of_Ok)
qed simp

lemma rows_with_append [simp]:
  "rows_with f k (ts @ [t]) = rows_with f k ts @ (if f t = k then [t] else [])"
  by (simp add: rows_with_def)

lemma rows_with_Nil: "rows_with f k ts = [] \<longleftrightarrow> k \<notin> f ` set ts"
  by (auto simp: rows_with_def filter_empty_conv)

lemma length_rows_with: "length (rows_with f k ts) \<le> length ts"
  by (simp add: rows_with_def)

lemma agg_row_step:
  assumes "schema_ok sch" and "row_ok sch t" and "length ts < 2 ^ 31"
    and gb: "\<forall>e \<in> set gb. \<exists>ct. expr_type e sch = Ok ct"
  shows "agg_row gb aes sch t (group_state gb aes sch ts) =
    bind_out (agg_types aes sch) (\<lambda>_. Ok (group_state gb aes sch (ts @ [t])))"
proof -
  let ?key = "\<lambda>t. key_text (group_vals gb sch t)"
  let ?us = "rows_with ?key (?key t) ts"
  have vs: "eval_list gb t sch = Ok (group_vals gb sch t)" using eval_list_Ok [OF assms(1,2) gb] by (simp add: group_vals_def)
  then have key: "MakeKey gb sch t = Ok (?key t)" by (simp add: MakeKey_def key_text_def)
  have up: "agg_updates aes sch t 0 (mk_group sch ws (map (\<lambda>ae. (ae, ?us)) aes)) =
      bind_out (agg_types aes sch) (\<lambda>_. Ok (mk_group sch ws (map (\<lambda>ae. (ae, ?us @ [t])) aes)))" for ws
    using agg_updates_start [OF assms(1,2), of ?us aes ws] length_rows_with [of ?key "?key t" ts] assms(3) by simp
  show ?thesis
  proof (cases "?us = []")
    case True
    then have "?key t \<notin> ?key ` set ts" by (simp add: rows_with_Nil)
    then have new: "firsts (map ?key (ts @ [t])) = firsts (map ?key ts) @ [?key t]" by simp
    have g: "groups (group_state gb aes sch (ts @ [t])) = (groups (group_state gb aes sch ts))(?key t \<mapsto>
        mk_group sch (group_vals gb sch t) (map (\<lambda>ae. (ae, [t])) aes))"
      using True by (auto simp: group_state_def Let_def fun_eq_iff)
    have "agg_updates aes sch t 0 (new_group (length aes) (group_vals gb sch t)) =
      bind_out (agg_types aes sch) (\<lambda>_. Ok (mk_group sch (group_vals gb sch t) (map (\<lambda>ae. (ae, [t])) aes)))"
      using up [of "group_vals gb sch t"] True by (simp add: new_group_mk [where sch = sch])
    then show ?thesis
      using True g new vs by (cases "agg_types aes sch") (simp_all add: agg_row_def key group_state_def Let_def)
  next
    case False
    then have "?key t \<in> ?key ` set ts" by (simp add: rows_with_Nil)
    then have new: "firsts (map ?key (ts @ [t])) = firsts (map ?key ts)" by simp
    have g: "groups (group_state gb aes sch (ts @ [t])) = (groups (group_state gb aes sch ts))(?key t \<mapsto>
        mk_group sch (group_vals gb sch (hd ?us)) (map (\<lambda>ae. (ae, ?us @ [t])) aes))"
      using False by (auto simp: group_state_def Let_def fun_eq_iff)
    show ?thesis
      using False g new up [of "group_vals gb sch (hd ?us)"]
      by (cases "agg_types aes sch") (simp_all add: agg_row_def key group_state_def Let_def)
  qed
qed

lemma agg_fold:
  assumes "schema_ok sch" and "\<forall>t \<in> set ts. row_ok sch t" and "length ts < 2 ^ 31"
    and "\<forall>e \<in> set gb. \<exists>ct. expr_type e sch = Ok ct" and "agg_types aes sch = Ok ()"
  shows "fold_out (agg_row gb aes sch) ts empty_agg = Ok (group_state gb aes sch ts)"
proof -
  have "fold_out (agg_row gb aes sch) us (group_state gb aes sch ws) = Ok (group_state gb aes sch (ws @ us))"
    if "ts = ws @ us" for ws us
    using that
  proof (induction us arbitrary: ws)
    case (Cons u us)
    then have "agg_row gb aes sch u (group_state gb aes sch ws) = Ok (group_state gb aes sch (ws @ [u]))"
      using agg_row_step [OF assms(1) _ _ assms(4), of u ws aes] assms(2,3,5) by simp
    then show ?case using Cons.IH [of "ws @ [u]"] Cons.prems by simp
  qed simp
  from this [of "[]" ts] show ?thesis by (simp add: group_state_def empty_agg_def rows_with_def Let_def)
qed


section \<open>Keys and values\<close>

lemma EvalExpr_canonical:
  "EvalExpr e t sch = Ok v \<Longrightarrow> v = (if v_type v = T_INT then MakeInt (int_val v) else MakeVarchar (str_val v) (v_max_len v))"
  by (cases e) (auto simp: bind_out_eq_Ok GetValue_def DeserializeFrom_def MakeInt_def MakeVarchar_def Let_def split: if_splits)

lemma ToString_eqD:
  assumes "EvalExpr e t sch = Ok v" "EvalExpr e u sch = Ok w" "schema_ok sch" "row_ok sch t" "row_ok sch u" "ToString v = ToString w"
  shows "v = w"
proof -
  obtain ct where ct: "has_type ct v" "has_type ct w"
    using EvalExpr_typed [OF assms(3,4), of e] EvalExpr_typed [OF assms(3,5), of e] assms(1,2) by (auto split: outcome.splits)
  show ?thesis
  proof (cases "v_type v = T_INT")
    case True
    then have "v = MakeInt (int_val v)" "w = MakeInt (int_val w)" "int_val v = int_val w"
      using EvalExpr_canonical [OF assms(1)] EvalExpr_canonical [OF assms(2)] ct assms(6)
      by (auto simp: has_type_def ToString_def show_int_inj)
    then show ?thesis by metis
  next
    case False
    then have "v = MakeVarchar (str_val v) (v_max_len v)" "w = MakeVarchar (str_val w) (v_max_len w)"
        "str_val v = str_val w" "v_max_len v = v_max_len w"
      using EvalExpr_canonical [OF assms(1)] EvalExpr_canonical [OF assms(2)] ct assms(6)
      by (auto simp: has_type_def ToString_def type_id_cases)
    then show ?thesis by metis
  qed
qed

lemma bar_notin_show_int: "CHR ''|'' \<notin> set (show_int i)"
proof -
  have "digit_char d \<noteq> CHR ''|''" if "d < 10" for d
    using that by (auto simp: digit_char_def dest!: arg_cong [of _ _ "of_char :: char \<Rightarrow> nat"])
  then show ?thesis using show_nat_digits by (auto simp: show_int_def) metis+
qed

definition no_bar :: "Value \<Rightarrow> bool" where
  "no_bar v \<longleftrightarrow> CHR ''|'' \<notin> set (ToString v)"

lemma no_bar_int: "v_type v = T_INT \<Longrightarrow> no_bar v"
  by (simp add: no_bar_def ToString_def bar_notin_show_int)

lemma key_text_inj:
  assumes "list_all no_bar vs" and "list_all no_bar ws" and "length vs = length ws" and "key_text vs = key_text ws"
  shows "map ToString vs = map ToString ws"
  using assms(3,1,2,4)
proof (induction vs ws rule: list_induct2)
  case (Cons v vs w ws)
  have tw: "takeWhile (\<lambda>c. c \<noteq> CHR ''|'') (ToString x @ CHR ''|'' # z) = ToString x" if "no_bar x" for x z
    using that by (intro trans [OF takeWhile_append2]) (auto simp: no_bar_def)
  have e: "ToString v @ CHR ''|'' # key_text vs = ToString w @ CHR ''|'' # key_text ws"
    using Cons.prems by (simp add: key_text_def)
  then have "ToString v = ToString w" using tw [of v "key_text vs"] tw [of w "key_text ws"] Cons.prems by simp
  with e Cons show ?case by simp
qed simp

lemma group_vals_inj:
  assumes "schema_ok sch" and "\<forall>t \<in> set ts. row_ok sch t" and "\<forall>e \<in> set gb. \<exists>ct. expr_type e sch = Ok ct"
    and "\<forall>t \<in> set ts. list_all no_bar (group_vals gb sch t)"
  shows "inj_on key_text (group_vals gb sch ` set ts)"
proof (rule inj_onI, clarify)
  fix t u assume t: "t \<in> set ts" and u: "u \<in> set ts" and k: "key_text (group_vals gb sch t) = key_text (group_vals gb sch u)"
  then have "map ToString (group_vals gb sch t) = map ToString (group_vals gb sch u)"
    using key_text_inj [of "group_vals gb sch t" "group_vals gb sch u"] assms(4) by (simp add: group_vals_def)
  then have ts: "ToString (val_of e sch t) = ToString (val_of e sch u)" if "e \<in> set gb" for e
    using that by (auto simp: group_vals_def)
  have "val_of e sch t = val_of e sch u" if e: "e \<in> set gb" for e
  proof -
    obtain ct where ct: "expr_type e sch = Ok ct" using assms(3) e by blast
    obtain v w where "EvalExpr e t sch = Ok v" "EvalExpr e u sch = Ok w"
      using EvalExpr_Ok [OF assms(1) _ ct] assms(2) t u by blast
    then show ?thesis using ToString_eqD [of e t sch v u w] ts [OF e] assms(1,2) t u by (simp add: val_of_Ok)
  qed
  then show "group_vals gb sch t = group_vals gb sch u" by (simp add: group_vals_def)
qed

section \<open>The rows of the result\<close>

definition agg_functions :: "string list" where
  "agg_functions = [''COUNT'', ''SUM'', ''AVG'', ''MIN'', ''MAX'']"

definition agg_result :: "Schema \<Rightarrow> Tuple list \<Rightarrow> AggExpr \<Rightarrow> Value" where
  "agg_result sch us ae = (let xs = agg_vals ae sch us in MakeInt (
     if ae_func ae = ''COUNT'' then mk32 (int (length us))
     else if ae_func ae = ''SUM'' then mk32 (int_sum xs)
     else if ae_func ae = ''AVG'' then mk32 (int_sum xs sdiv int (length us))
     else if ae_func ae = ''MIN'' then Min (set xs)
     else Max (set xs)))"

lemma mk32_bounds: "x \<le> mk32 INT32_MAX" "mk32 INT32_MIN \<le> x"
  using ival_bounds [of x] by (simp_all add: less_eq_i32_def ival_mk32 INT32_MIN_def INT32_MAX_def)

lemma fold_min_Min: "xs \<noteq> [] \<Longrightarrow> fold min xs (mk32 INT32_MAX) = Min (set xs)"
  using Min.set_eq_fold [of "mk32 INT32_MAX" xs] by (simp add: min_absorb2 mk32_bounds)

lemma fold_max_Max: "xs \<noteq> [] \<Longrightarrow> fold max xs (mk32 INT32_MIN) = Max (set xs)"
  using Max.set_eq_fold [of "mk32 INT32_MIN" xs] by (simp add: max_absorb2 mk32_bounds)

lemma agg_value_mk:
  assumes "i < length aes" and "us \<noteq> []" and "ae_func (aes ! i) \<in> set agg_functions" and "agg_type (aes ! i) sch = Ok ()"
  shows "agg_value (ae_func (aes ! i)) (mk_group sch vs (map (\<lambda>ae. (ae, us)) aes)) i = [agg_result sch us (aes ! i)]"
proof -
  let ?ae = "aes ! i"
  have ne: "agg_vals ?ae sch us \<noteq> []" if "ae_func ?ae \<noteq> ''COUNT''"
    using assms(2,4) that by (auto simp: agg_vals_def agg_type_def split: option.splits)
  show ?thesis
    using assms ne by (auto simp: agg_functions_def agg_value_def mk_group_def agg_result_def trunc_div_def fold_min_Min fold_max_Max Let_def)
qed

lemma agg_types_nth: "agg_types aes sch = Ok () \<Longrightarrow> i < length aes \<Longrightarrow> agg_type (aes ! i) sch = Ok ()"
  by (induction aes arbitrary: i) (auto simp: bind_out_eq_Ok nth_Cons split: nat.split)

lemma group_row_mk:
  assumes "us \<noteq> []" and "\<forall>ae \<in> set aes. ae_func ae \<in> set agg_functions" and "agg_types aes sch = Ok ()"
  shows "group_row aes (mk_group sch vs (map (\<lambda>ae. (ae, us)) aes)) = vs @ map (agg_result sch us) aes"
proof -
  have "concat (map (\<lambda>i. agg_value (ae_func (aes ! i)) (mk_group sch vs (map (\<lambda>ae. (ae, us)) aes)) i) [0..<length aes]) =
      concat (map (\<lambda>i. [agg_result sch us (aes ! i)]) [0..<length aes])"
    by (rule arg_cong [where f = concat], rule map_cong [OF refl])
      (use assms in \<open>simp add: agg_value_mk agg_types_nth\<close>)
  also have "\<dots> = map (\<lambda>i. agg_result sch us (aes ! i)) [0..<length aes]" by (simp add: concat_map_singleton)
  also have "\<dots> = map (agg_result sch us) aes" by (rule nth_equalityI) auto
  finally show ?thesis by (simp add: group_row_def mk_group_def)
qed

lemma rows_with_inj:
  assumes "inj_on f (g ` set ts)" and "v \<in> g ` set ts"
  shows "rows_with (\<lambda>t. f (g t)) (f v) ts = rows_with g v ts"
  unfolding rows_with_def by (rule filter_cong) (use assms in \<open>auto simp: inj_on_def\<close>)

lemma agg_rows_state:
  assumes "schema_ok sch" and "\<forall>t \<in> set ts. row_ok sch t" and "\<forall>e \<in> set gb. \<exists>ct. expr_type e sch = Ok ct"
    and "\<forall>t \<in> set ts. list_all no_bar (group_vals gb sch t)"
    and "\<forall>ae \<in> set aes. ae_func ae \<in> set agg_functions" and "agg_types aes sch = Ok ()"
  shows "agg_rows aes out (group_state gb aes sch ts) =
    map (\<lambda>vs. mk_Tuple (vs @ map (agg_result sch (rows_with (group_vals gb sch) vs ts)) aes) out)
      (firsts (map (group_vals gb sch) ts))"
proof -
  let ?gv = "group_vals gb sch"
  have inj: "inj_on key_text (?gv ` set ts)" using group_vals_inj [OF assms(1-4)] .
  have order: "firsts (map (\<lambda>t. key_text (?gv t)) ts) = map key_text (firsts (map ?gv ts))"
    using firsts_map_inj [of key_text "map ?gv ts"] inj by (simp add: comp_def)
  have "(case groups (group_state gb aes sch ts) (key_text vs) of None \<Rightarrow> Fault | Some g \<Rightarrow> mk_Tuple (group_row aes g) out) =
      mk_Tuple (vs @ map (agg_result sch (rows_with ?gv vs ts)) aes) out" if vs: "vs \<in> ?gv ` set ts" for vs
  proof -
    let ?us = "rows_with ?gv vs ts"
    have ne: "?us \<noteq> []" using vs by (simp add: rows_with_Nil)
    then have "?gv (hd ?us) = vs" using hd_in_set [OF ne] by (auto simp: rows_with_def)
    then show ?thesis
      using rows_with_inj [OF inj vs] ne group_row_mk [OF ne assms(5,6)] by (simp add: group_state_def Let_def)
  qed
  then show ?thesis by (auto simp: agg_rows_def group_state_def Let_def order comp_def)
qed

end
