(* ===== verification/Query_Results.thy ===== *)
theory Query_Results
  imports Query_Aggregates
begin

text \<open>
  The results of the operators: the rows a scan, filter, projection, join, sort or aggregate
  delivers, written as list expressions over the rows of the tables, and the safety of trees whose
  schemas fit together.
\<close>

section \<open>Joins\<close>

lemma Concat_ok:
  assumes "row_ok ls l" and "row_ok rs r" and "unat (tuple_size ls) + unat (tuple_size rs) < 2 ^ 32"
  shows "Concat l r ls rs = Ok (l @ r)"
proof -
  have "unat (tuple_size ls + tuple_size rs) = length l + length r" using assms by (simp add: unat_word_ariths)
  then show ?thesis using assms by (simp add: Concat_def Let_def FromBytes_def poke_def)
qed

lemma ConcatSchemas_size:
  assumes "schema_ok ls" and "schema_ok rs" and "schema_ok (ConcatSchemas ls rs)"
  shows "unat (tuple_size (ConcatSchemas ls rs)) = unat (tuple_size ls) + unat (tuple_size rs)"
    and "unat (tuple_size ls) + unat (tuple_size rs) < 2 ^ 32"
  using tuple_size_row_size [OF assms(1)] tuple_size_row_size [OF assms(2)] tuple_size_row_size [OF assms(3)] assms(3)
  by (auto simp: ConcatSchemas_def schema_ok_def)

definition filed :: "(string \<rightharpoonup> Tuple list) \<Rightarrow> string \<Rightarrow> Tuple list" where
  "filed ht k = (case ht k of None \<Rightarrow> [] | Some ts \<Rightarrow> ts)"

lemma bucket_filed: "bucket ht k = (if k = '''' then [] else filed ht k)"
  by (simp add: bucket_def filed_def)

abbreviation join_text :: "Expr \<Rightarrow> Schema \<Rightarrow> Tuple \<Rightarrow> string" where
  "join_text e sch t \<equiv> ToString (val_of e sch t)"

lemma join_key_OkD: "join_key e t sch = Ok k \<Longrightarrow> k = join_text e sch t"
  by (auto simp: join_key_def bind_out_eq_Ok val_of_Ok)

lemma build_fold:
  "fold_out (build_row lk sch) ls ht0 = Ok ht \<Longrightarrow> filed ht k = filed ht0 k @ filter (\<lambda>t. join_text lk sch t = k) ls"
proof (induction ls arbitrary: ht0)
  case (Cons t ls)
  then obtain ht1 where ht1: "build_row lk sch t ht0 = Ok ht1" "fold_out (build_row lk sch) ls ht1 = Ok ht"
    by (auto simp: bind_out_eq_Ok)
  then have "filed ht1 k = filed ht0 k @ (if join_text lk sch t = k then [t] else [])"
    by (auto simp: build_row_def bind_out_eq_Ok filed_def dest!: join_key_OkD)
  then show ?case using Cons.IH [OF ht1(2)] by simp
qed simp

lemma build_table: "fold_out (build_row lk sch) ls Map.empty = Ok ht \<Longrightarrow> filed ht k = filter (\<lambda>t. join_text lk sch t = k) ls"
  using build_fold [of lk sch ls Map.empty ht k] by (simp add: filed_def)

lemma fold_out_no_fault: "(\<And>t a. t \<in> set ts \<Longrightarrow> body t a \<noteq> Fault) \<Longrightarrow> fold_out body ts acc \<noteq> Fault"
  by (induction ts arbitrary: acc) (auto simp: bind_out_eq_Fault)

lemma fold_out_Ok: "(\<And>t a. t \<in> set ts \<Longrightarrow> \<exists>b. body t a = Ok b) \<Longrightarrow> \<exists>b. fold_out body ts acc = Ok b"
proof (induction ts arbitrary: acc)
  case (Cons t ts)
  obtain b where "body t acc = Ok b" using Cons.prems [of t acc] by auto
  then show ?case using Cons.IH [of b] Cons.prems by auto
qed simp

lemma s_list_Ok: "s_list (map (\<lambda>x. Ok (f x)) xs) after = (map f xs @ fst after, snd after)"
  by (induction xs) auto

lemma s_join_Ok:
  assumes "\<forall>r \<in> set rs. key r = Ok (kt r)" and "\<forall>r \<in> set rs. \<forall>l \<in> set (bucket ht (kt r)). gl l r = Ok (l @ r)"
  shows "s_join key gl ht rs = (concat (map (\<lambda>r. map (\<lambda>l. l @ r) (bucket ht (kt r))) rs), Ok ())"
  using assms
proof (induction rs)
  case (Cons r rs)
  have m: "map (\<lambda>l. gl l r) (bucket ht (kt r)) = map (\<lambda>l. Ok (l @ r)) (bucket ht (kt r))"
    by (rule map_cong) (use Cons.prems in auto)
  then show ?case using Cons by (simp add: m s_list_Ok [of "\<lambda>l. l @ r"])
qed simp

section \<open>Streams without faults\<close>

lemma s_filter_safe:
  "\<forall>t \<in> set rows. p t \<noteq> Fault \<Longrightarrow> fin \<noteq> Fault \<Longrightarrow>
   snd (s_filter p rows fin) \<noteq> Fault \<and> set (fst (s_filter p rows fin)) \<subseteq> set rows \<and> length (fst (s_filter p rows fin)) \<le> length rows"
  by (induction rows) (auto split: outcome.split prod.split)

lemma s_map_safe:
  "\<forall>t \<in> set rows. g t \<noteq> Fault \<Longrightarrow> fin \<noteq> Fault \<Longrightarrow>
   snd (s_map g rows fin) \<noteq> Fault \<and> (\<forall>t' \<in> set (fst (s_map g rows fin)). \<exists>t \<in> set rows. g t = Ok t') \<and>
   length (fst (s_map g rows fin)) \<le> length rows"
  by (induction rows) (auto split: outcome.split prod.split)

lemma s_list_safe:
  "Fault \<notin> set xs \<Longrightarrow> snd after \<noteq> Fault \<Longrightarrow>
   snd (s_list xs after) \<noteq> Fault \<and> (\<forall>t \<in> set (fst (s_list xs after)). Ok t \<in> set xs \<or> t \<in> set (fst after)) \<and>
   length (fst (s_list xs after)) \<le> length xs + length (fst after)"
  by (induction xs) (auto split: outcome.split prod.split)

lemma s_join_safe:
  assumes "\<forall>r \<in> set rs. key r \<noteq> Fault" and "\<And>k. length (bucket ht k) \<le> n"
    and "\<And>r k l. r \<in> set rs \<Longrightarrow> l \<in> set (bucket ht k) \<Longrightarrow> gl l r = Ok (l @ r)"
  shows "snd (s_join key gl ht rs) \<noteq> Fault \<and>
    (\<forall>t \<in> set (fst (s_join key gl ht rs)). \<exists>r \<in> set rs. \<exists>k. \<exists>l \<in> set (bucket ht k). t = l @ r) \<and>
    length (fst (s_join key gl ht rs)) \<le> n * length rs"
  using assms(1,3)
proof (induction rs)
  case (Cons r rs)
  have IH: "snd (s_join key gl ht rs) \<noteq> Fault"
    "\<forall>t \<in> set (fst (s_join key gl ht rs)). \<exists>r \<in> set rs. \<exists>k. \<exists>l \<in> set (bucket ht k). t = l @ r"
    "length (fst (s_join key gl ht rs)) \<le> n * length rs"
    using Cons by auto
  show ?case
  proof (cases "key r")
    case (Ok k)
    have m: "map (\<lambda>l. gl l r) (bucket ht k) = map (\<lambda>l. Ok (l @ r)) (bucket ht k)" using Cons.prems(2) [of r] by simp
    have e: "s_join key gl ht (r # rs) = (map (\<lambda>l. l @ r) (bucket ht k) @ fst (s_join key gl ht rs), snd (s_join key gl ht rs))"
      using Ok s_list_Ok [of "\<lambda>l. l @ r" "bucket ht k"] by (simp add: m)
    show ?thesis unfolding e using IH assms(2) [of k] by fastforce
  qed (use Cons.prems(1) in auto)
qed simp

section \<open>Well-typed trees\<close>

text \<open>A bound on the number of rows a tree delivers.\<close>

fun row_bound :: "(HeapFile \<Rightarrow> Tuple list) \<Rightarrow> Operator \<Rightarrow> nat" where
  "row_bound tab (SeqScan h sch buf cur) = length (tab h)"
| "row_bound tab (Filter child p) = row_bound tab child"
| "row_bound tab (Projection child es names sch) = row_bound tab child"
| "row_bound tab (HashJoin l r lk rk sch js) = row_bound tab l * row_bound tab r"
| "row_bound tab (Sort child ob buf cur) = row_bound tab child"
| "row_bound tab (HashAggregate child gb aes sch st) = row_bound tab child"

definition agg_ok :: "AggExpr \<Rightarrow> bool" where
  "agg_ok ae \<longleftrightarrow> ae_func ae \<in> set agg_functions \<and> (ae_func ae = ''COUNT'' \<or> ae_arg ae \<noteq> None)"

definition agg_schema_fits :: "Schema \<Rightarrow> Expr list \<Rightarrow> AggExpr list \<Rightarrow> Column list \<Rightarrow> bool" where
  "agg_schema_fits sch gb aes cs \<longleftrightarrow> length cs = length gb + length aes \<and>
     list_all2 (expr_fits sch) (take (length gb) cs) gb \<and> (\<forall>c \<in> set (drop (length gb) cs). col_type c = ColumnType_Int)"

text \<open>
  The schemas of a tree fit together. A sum of 64 bits cannot overflow below \<open>2 ^ 31\<close> rows.
\<close>

fun op_ok :: "(HeapFile \<Rightarrow> Tuple list) \<Rightarrow> Operator \<Rightarrow> bool" where
  "op_ok tab (SeqScan h sch buf cur) \<longleftrightarrow> schema_ok sch \<and> (\<forall>t \<in> set (tab h). row_ok sch t)"
| "op_ok tab (Filter child p) \<longleftrightarrow> op_ok tab child"
| "op_ok tab (Projection child es names sch) \<longleftrightarrow>
     op_ok tab child \<and> schema_ok sch \<and> list_all2 (expr_fits (GetOutputSchema child)) (columns sch) es"
| "op_ok tab (HashJoin l r lk rk sch js) \<longleftrightarrow>
     op_ok tab l \<and> op_ok tab r \<and> schema_ok sch \<and> sch = ConcatSchemas (GetOutputSchema l) (GetOutputSchema r)"
| "op_ok tab (Sort child ob buf cur) \<longleftrightarrow> op_ok tab child"
| "op_ok tab (HashAggregate child gb aes sch st) \<longleftrightarrow>
     op_ok tab child \<and> schema_ok sch \<and> row_bound tab child < 2 ^ 31 \<and> (\<forall>ae \<in> set aes. agg_ok ae) \<and>
     agg_schema_fits (GetOutputSchema child) gb aes (columns sch)"

definition stream_typed :: "Schema \<Rightarrow> nat \<Rightarrow> stream outcome \<Rightarrow> bool" where
  "stream_typed sch n so \<longleftrightarrow> (case so of
      Ok (rows, fin) \<Rightarrow> (\<forall>t \<in> set rows. row_ok sch t) \<and> length rows \<le> n \<and> fin \<noteq> Fault
    | Throw e \<Rightarrow> True
    | Fault \<Rightarrow> False)"

lemma stream_typed_simps [simp]:
  "stream_typed sch n (Ok (rows, fin)) \<longleftrightarrow> (\<forall>t \<in> set rows. row_ok sch t) \<and> length rows \<le> n \<and> fin \<noteq> Fault"
  "stream_typed sch n (Throw e)"
  "\<not> stream_typed sch n Fault"
  by (simp_all add: stream_typed_def)

lemma stream_typed_bind:
  assumes "stream_typed sch n so"
    and "\<And>rows fin. so = Ok (rows, fin) \<Longrightarrow> \<forall>t \<in> set rows. row_ok sch t \<Longrightarrow> length rows \<le> n \<Longrightarrow> fin \<noteq> Fault \<Longrightarrow> stream_typed sch' n' (f (rows, fin))"
  shows "stream_typed sch' n' (bind_out so f)"
  using assms by (cases so) auto

lemma stream_typed_value: "x \<noteq> Fault \<Longrightarrow> (\<And>a. x = Ok a \<Longrightarrow> stream_typed sch n (f a)) \<Longrightarrow> stream_typed sch n (bind_out x f)"
  by (cases x) auto

lemma op_ok_schema: "op_ok tab op \<Longrightarrow> schema_ok (GetOutputSchema op)"
  by (induction op) auto

lemma s_drain_no_fault: "fold_out body (fst s) acc \<noteq> Fault \<Longrightarrow> snd s \<noteq> Fault \<Longrightarrow> s_drain body acc s \<noteq> Fault"
  by (auto simp: s_drain_def bind_out_eq_Fault)

lemma s_rows_simps: "s_rows (rows, fin) = bind_out fin (\<lambda>_. Ok rows)"
  by (simp add: s_rows_def)

lemma join_key_no_fault: "schema_ok sch \<Longrightarrow> row_ok sch t \<Longrightarrow> join_key e t sch \<noteq> Fault"
  by (simp add: join_key_def bind_out_eq_Fault EvalExpr_no_fault)

lemma stream_typed_join:
  assumes "op_ok tab (HashJoin l r lk rk sch js)" and "stream_typed (GetOutputSchema l) n (stream_of srt tab l)"
    and "stream_typed (GetOutputSchema r) n' (stream_of srt tab r)"
  shows "stream_typed sch (n * n') (stream_of srt tab (HashJoin l r lk rk sch js))"
  unfolding stream_of.simps
proof (rule stream_typed_bind [OF assms(2)], rule stream_typed_value)
  let ?ls = "GetOutputSchema l" and ?rs = "GetOutputSchema r"
  have ok: "schema_ok ?ls" "schema_ok ?rs" using assms(1) op_ok_schema by auto
  have sz: "unat (tuple_size sch) = unat (tuple_size ?ls) + unat (tuple_size ?rs)" "unat (tuple_size ?ls) + unat (tuple_size ?rs) < 2 ^ 32"
    using ConcatSchemas_size [OF ok] assms(1) by auto
  fix lrows and fin :: "unit outcome"
  assume L: "\<forall>t \<in> set lrows. row_ok ?ls t" "length lrows \<le> n" "fin \<noteq> Fault"
  show "s_drain (build_row lk ?ls) Map.empty (lrows, fin) \<noteq> Fault"
    using L join_key_no_fault [OF ok(1)]
    by (intro s_drain_no_fault fold_out_no_fault) (auto simp: build_row_def bind_out_eq_Fault)
  fix ht assume "s_drain (build_row lk ?ls) Map.empty (lrows, fin) = Ok ht"
  then have ht: "filed ht k = filter (\<lambda>t. join_text lk ?ls t = k) lrows" for k using build_table s_drain_OkD by fastforce
  show "stream_typed sch (n * n') (bind_out (stream_of srt tab r) (\<lambda>rs. bind_out (s_rows rs) (\<lambda>rrows.
      Ok (s_join (\<lambda>t. join_key rk t ?rs) (glue l r) ht rrows))))"
  proof (rule stream_typed_bind [OF assms(3)], rule stream_typed_value)
    fix rrows and rfin :: "unit outcome"
    assume R: "\<forall>t \<in> set rrows. row_ok ?rs t" "length rrows \<le> n'" "rfin \<noteq> Fault"
    then show "s_rows (rrows, rfin) \<noteq> Fault" by (simp add: s_rows_simps bind_out_eq_Fault)
    fix rows assume "s_rows (rrows, rfin) = Ok rows"
    then have rows: "rows = rrows" by (simp add: s_rows_simps bind_out_eq_Ok)
    let ?j = "s_join (\<lambda>t. join_key rk t ?rs) (glue l r) ht rows"
    have b: "length (bucket ht k) \<le> n" "set (bucket ht k) \<subseteq> set lrows" for k
      using L(2) by (auto simp: bucket_filed ht intro: order_trans [OF length_filter_le])
    have "snd ?j \<noteq> Fault \<and> (\<forall>t \<in> set (fst ?j). \<exists>r \<in> set rows. \<exists>k. \<exists>l \<in> set (bucket ht k). t = l @ r) \<and> length (fst ?j) \<le> n * length rows"
    proof (rule s_join_safe)
      show "\<forall>r \<in> set rows. join_key rk r ?rs \<noteq> Fault" using R(1) rows join_key_no_fault [OF ok(2)] by blast
      show "length (bucket ht k) \<le> n" for k by (rule b)
      show "Concat t u ?ls ?rs = Ok (t @ u)" if "u \<in> set rows" "t \<in> set (bucket ht k)" for u k t
        using that Concat_ok [of t ?ls u ?rs] L(1) R(1) rows b(2) sz(2) by blast
    qed
    moreover have "length (fst ?j) \<le> n * n'" if "length (fst ?j) \<le> n * length rows"
      using that R(2) rows by (meson le_trans mult_le_mono2)
    ultimately show "stream_typed sch (n * n') (Ok ?j)"
      using L(1) R(1) rows b(2) sz(1) by (cases ?j) (fastforce simp: subset_iff)
  qed
qed

lemma agg_types_no_fault:
  assumes "schema_ok sch" and "row_ok sch t" and "\<forall>ae \<in> set aes. agg_ok ae"
  shows "agg_types aes sch \<noteq> Fault"
  using assms(3)
proof (induction aes)
  case (Cons ae aes)
  have "expr_type e sch \<noteq> Fault" for e using EvalExpr_typed [OF assms(1,2), of e] by (auto split: outcome.splits)
  then show ?case using Cons by (auto simp: agg_type_def agg_ok_def bind_out_eq_Fault split: option.splits if_splits)
qed simp

lemma agg_fold_cases:
  assumes "schema_ok sch" and "\<forall>t \<in> set ts. row_ok sch t" and "length ts < 2 ^ 31" and "\<forall>ae \<in> set aes. agg_ok ae"
  shows "(\<exists>e. fold_out (agg_row gb aes sch) ts empty_agg = Throw e) \<or>
    (ts = [] \<or> agg_types aes sch = Ok () \<and> (\<forall>e \<in> set gb. \<exists>ct. expr_type e sch = Ok ct)) \<and>
    fold_out (agg_row gb aes sch) ts empty_agg = Ok (group_state gb aes sch ts)"
proof (cases ts)
  case Nil
  then show ?thesis by (simp add: group_state_def empty_agg_def rows_with_def Let_def)
next
  case (Cons t us)
  then have t: "row_ok sch t" using assms(2) by simp
  show ?thesis
  proof (cases "\<forall>e \<in> set gb. \<exists>ct. expr_type e sch = Ok ct")
    case True
    show ?thesis
    proof (cases "agg_types aes sch")
      case (Ok u)
      then show ?thesis using agg_fold [OF assms(1-3) True] True by simp
    next
      case (Throw e)
      have "empty_agg = group_state gb aes sch []" by (simp add: group_state_def empty_agg_def rows_with_def Let_def)
      then have "agg_row gb aes sch t empty_agg = Throw e" using agg_row_step [OF assms(1) t _ True, of "[]" aes] Throw by simp
      then show ?thesis using Cons by simp
    next
      case Fault
      then show ?thesis using agg_types_no_fault [OF assms(1) t assms(4)] by simp
    qed
  next
    case False
    then have "\<exists>x. eval_list gb t sch = Throw x"
    proof (induction gb)
      case (Cons e es)
      show ?case
      proof (cases "expr_type e sch")
        case (Ok ct)
        then obtain v where "EvalExpr e t sch = Ok v" using EvalExpr_Ok [OF assms(1) t] by blast
        then show ?thesis using Cons Ok by auto
      qed (use EvalExpr_typed [OF assms(1) t, of e] in auto)
    qed simp
    then have "\<exists>x. agg_row gb aes sch t empty_agg = Throw x" by (auto simp: agg_row_def MakeKey_def)
    then show ?thesis using Cons by auto
  qed
qed

lemma value_typed_result: "col_type c = ColumnType_Int \<Longrightarrow> value_typed c (agg_result sch us ae)"
  by (simp add: value_typed_def agg_result_def MakeInt_def ColumnType_Int_def Let_def)

lemma agg_result_fits:
  assumes "schema_ok sch" and "row_ok sch t" and "agg_schema_fits sch gb aes cs" and "eval_list gb t sch = Ok vs"
  shows "list_all2 value_typed cs (vs @ map (agg_result sch us) aes)"
proof -
  have "list_all2 value_typed (take (length gb) cs) vs"
    using eval_list_typed [OF assms(1,2) _ assms(4)] assms(3) by (auto simp: agg_schema_fits_def)
  moreover have "list_all2 value_typed (drop (length gb) cs) (map (agg_result sch us) aes)"
    using assms(3) by (auto simp: agg_schema_fits_def intro!: list_all2_all_nthI value_typed_result simp del: nth_drop)
  ultimately show ?thesis by (metis append_take_drop_id list_all2_appendI)
qed

lemma eval_list_group_vals: "eval_list gb t sch = Ok vs \<Longrightarrow> vs = group_vals gb sch t"
  by (induction gb arbitrary: vs) (auto simp: group_vals_def bind_out_eq_Ok val_of_Ok)

lemma stream_typed_aggregate:
  assumes "op_ok tab (HashAggregate child gb aes sch st)" and "stream_typed (GetOutputSchema child) (row_bound tab child) (stream_of srt tab child)"
  shows "stream_typed sch (row_bound tab child) (stream_of srt tab (HashAggregate child gb aes sch st))"
  unfolding stream_of.simps
proof (rule stream_typed_bind [OF assms(2)], rule stream_typed_value)
  let ?in = "GetOutputSchema child"
  have ok: "schema_ok ?in" "schema_ok sch" "row_bound tab child < 2 ^ 31" "\<forall>ae \<in> set aes. agg_ok ae" "agg_schema_fits ?in gb aes (columns sch)"
    using assms(1) op_ok_schema by auto
  fix ts and fin :: "unit outcome"
  assume T: "\<forall>t \<in> set ts. row_ok ?in t" "length ts \<le> row_bound tab child" "fin \<noteq> Fault"
  have c: "(\<exists>e. fold_out (agg_row gb aes ?in) ts empty_agg = Throw e) \<or>
      (ts = [] \<or> agg_types aes ?in = Ok () \<and> (\<forall>e \<in> set gb. \<exists>ct. expr_type e ?in = Ok ct)) \<and>
      fold_out (agg_row gb aes ?in) ts empty_agg = Ok (group_state gb aes ?in ts)"
    using agg_fold_cases [OF ok(1) T(1) _ ok(4)] T(2) ok(3) by simp
  then show "s_drain (agg_row gb aes ?in) empty_agg (ts, fin) \<noteq> Fault" using T(3) by (intro s_drain_no_fault) auto
  fix st' assume "s_drain (agg_row gb aes ?in) empty_agg (ts, fin) = Ok st'"
  then have f: "fold_out (agg_row gb aes ?in) ts empty_agg = Ok st'" using s_drain_OkD by fastforce
  then have st': "st' = group_state gb aes ?in ts" and ty: "ts = [] \<or> agg_types aes ?in = Ok () \<and> (\<forall>e \<in> set gb. \<exists>ct. expr_type e ?in = Ok ct)"
    using c by auto
  have row: "\<exists>t. x = Ok t \<and> row_ok sch t" if x: "x \<in> set (agg_rows aes sch st')" for x
  proof -
    let ?key = "\<lambda>t. key_text (group_vals gb ?in t)"
    obtain k where k: "k \<in> ?key ` set ts"
      and xk: "x = (case groups st' k of None \<Rightarrow> Fault | Some g \<Rightarrow> mk_Tuple (group_row aes g) sch)"
      using x by (auto simp: agg_rows_def st' group_state_def Let_def)
    let ?us = "rows_with ?key k ts"
    have ne: "?us \<noteq> []" using k by (simp add: rows_with_Nil)
    have u: "hd ?us \<in> set ts" using hd_in_set [OF ne] by (auto simp: rows_with_def)
    have "agg_types aes ?in = Ok ()" using ty k by auto
    then have gr: "x = mk_Tuple (group_vals gb ?in (hd ?us) @ map (agg_result ?in ?us) aes) sch"
      using group_row_mk [OF ne, of aes ?in] ok(4) ne by (auto simp: xk st' group_state_def Let_def agg_ok_def)
    have "\<exists>vs. eval_list gb (hd ?us) ?in = Ok vs"
      using eval_list_Ok [OF ok(1), of "hd ?us" gb] T(1) u ty k by auto
    then have "list_all2 value_typed (columns sch) (group_vals gb ?in (hd ?us) @ map (agg_result ?in ?us) aes)"
      using agg_result_fits [OF ok(1) _ ok(5)] T(1) u eval_list_group_vals by blast
    then show ?thesis using mk_Tuple_row [OF ok(2)] gr by blast
  qed
  then have nf: "Fault \<notin> set (agg_rows aes sch st')" by blast
  have "length (agg_rows aes sch st') \<le> length ts"
    using length_remdups_leq [of "rev (map (\<lambda>t. key_text (group_vals gb ?in t)) ts)"]
    by (simp add: agg_rows_def st' group_state_def Let_def firsts_def)
  then show "stream_typed sch (row_bound tab child) (Ok (s_list (agg_rows aes sch st') ([], Ok ())))"
    using s_list_safe [OF nf, of "([], Ok ())"] row T(2) by (cases "s_list (agg_rows aes sch st') ([], Ok ())") fastforce
qed

lemma stream_typed_filter:
  assumes "schema_ok sch" and "stream_typed sch n so"
  shows "stream_typed sch n (bind_out so (\<lambda>(rows, fin). Ok (s_filter (\<lambda>t. EvalPred p t sch) rows fin)))"
proof (rule stream_typed_bind [OF assms(2)])
  fix rows and fin :: "unit outcome"
  assume R: "\<forall>t \<in> set rows. row_ok sch t" "length rows \<le> n" "fin \<noteq> Fault"
  then have "\<forall>t \<in> set rows. EvalPred p t sch \<noteq> Fault" using EvalPred_no_fault [OF assms(1)] by blast
  from s_filter_safe [OF this R(3)] R(1,2)
  show "stream_typed sch n (case (rows, fin) of (rows, fin) \<Rightarrow> Ok (s_filter (\<lambda>t. EvalPred p t sch) rows fin))"
    by (cases "s_filter (\<lambda>t. EvalPred p t sch) rows fin") auto
qed

lemma stream_typed_projection:
  assumes "schema_ok inp" and "stream_typed inp n so" and "schema_ok out" and "list_all2 (expr_fits inp) (columns out) es"
  shows "stream_typed out n (bind_out so (\<lambda>(rows, fin). Ok (s_map (\<lambda>t. project es inp t out) rows fin)))"
proof (rule stream_typed_bind [OF assms(2)])
  fix rows and fin :: "unit outcome"
  assume R: "\<forall>t \<in> set rows. row_ok inp t" "length rows \<le> n" "fin \<noteq> Fault"
  note P = project_typed [OF assms(1) _ assms(3,4)]
  have "\<forall>t \<in> set rows. project es inp t out \<noteq> Fault" using P(1) R(1) by blast
  from s_map_safe [OF this R(3)] P(2) R(1,2)
  show "stream_typed out n (case (rows, fin) of (rows, fin) \<Rightarrow> Ok (s_map (\<lambda>t. project es inp t out) rows fin))"
    by (cases "s_map (\<lambda>t. project es inp t out) rows fin") fastforce
qed

lemma stream_typed_sort:
  assumes "std_sort srt" and "schema_ok sch" and "stream_typed sch n so"
  shows "stream_typed sch n (bind_out so (\<lambda>s. bind_out (s_rows s) (\<lambda>rows. bind_out (sort_rows srt ob sch rows) (\<lambda>rows'. Ok (rows', Ok ())))))"
proof (rule stream_typed_bind [OF assms(3)], rule stream_typed_value)
  fix rows and fin :: "unit outcome"
  assume R: "\<forall>t \<in> set rows. row_ok sch t" "length rows \<le> n" "fin \<noteq> Fault"
  then show "s_rows (rows, fin) \<noteq> Fault" by (simp add: s_rows_simps bind_out_eq_Fault)
  fix ts assume "s_rows (rows, fin) = Ok ts"
  then have ts: "ts = rows" by (simp add: s_rows_simps bind_out_eq_Ok)
  show "stream_typed sch n (bind_out (sort_rows srt ob sch ts) (\<lambda>rows'. Ok (rows', Ok ())))"
  proof (rule stream_typed_value)
    show "sort_rows srt ob sch ts \<noteq> Fault" using sort_rows_no_fault [OF assms(2)] R(1) ts by simp
    fix us assume "sort_rows srt ob sch ts = Ok us"
    then have "mset us = mset rows" using sort_rows_ok [OF assms(1,2)] R(1) ts by blast
    then have "set us = set rows" "length us = length rows" by (metis set_mset_mset, metis size_mset)
    then show "stream_typed sch n (Ok (us, Ok ()))" using R by simp
  qed
qed

lemma stream_safe:
  assumes "std_sort srt"
  shows "op_ok tab op \<Longrightarrow> stream_typed (GetOutputSchema op) (row_bound tab op) (stream_of srt tab op)"
proof (induction op)
  case (Filter child p)
  then show ?case using stream_typed_filter [OF op_ok_schema] by simp
next
  case (Projection child es names sch)
  then show ?case using stream_typed_projection [OF op_ok_schema [of tab child]] by simp
next
  case (HashJoin l r lk rk sch js)
  then show ?case using stream_typed_join [OF HashJoin.prems] by simp
next
  case (Sort child ob buf cur)
  then show ?case using stream_typed_sort [OF assms op_ok_schema] by simp
next
  case (HashAggregate child gb aes sch st)
  then show ?case using stream_typed_aggregate [OF HashAggregate.prems] by simp
qed simp

section \<open>Loading and delivering\<close>

lemma Init_delivers:
  assumes "bpm_idle b m k n" and "0 < k" and "fresh op" and "\<forall>h \<in> tables_of op. table_rows m h (tab h)"
    and "stream_of srt tab op = Ok (rows, fin)"
  shows "\<exists>op' b'. Init srt op b = Some (Ok op', b') \<and> bpm_idle b' m k n \<and> delivers op' rows fin"
  using Init_agrees [OF assms(1-4), of srt] assms(5) by (auto simp: init_agrees_def)

text \<open>Values match as join keys: equal integers, or equal strings that are not empty.\<close>

definition key_match :: "Value \<Rightarrow> Value \<Rightarrow> bool" where
  "key_match v w \<longleftrightarrow> (if v_type v = T_INT then int_val v = int_val w else str_val v = str_val w \<and> str_val v \<noteq> '''')"

lemma key_match_text: "v_type v = v_type w \<Longrightarrow> ToString v = ToString w \<and> ToString w \<noteq> '''' \<longleftrightarrow> key_match v w"
  by (auto simp: key_match_def ToString_def show_int_inj)

lemma join_stream:
  assumes "stream_of srt tab l = Ok (ls, Ok ())" and "stream_of srt tab r = Ok (rs, Ok ())"
    and ok: "op_ok tab (HashJoin l r lk rk sch js)"
    and L: "\<forall>t \<in> set ls. row_ok (GetOutputSchema l) t" and R: "\<forall>t \<in> set rs. row_ok (GetOutputSchema r) t"
    and lt: "expr_type lk (GetOutputSchema l) = Ok ct" and rt: "expr_type rk (GetOutputSchema r) = Ok ct'" and ct: "type_id ct = type_id ct'"
  shows "stream_of srt tab (HashJoin l r lk rk sch js) =
    Ok (concat (map (\<lambda>t. map (\<lambda>u. u @ t) (filter (\<lambda>u. key_match (val_of lk (GetOutputSchema l) u) (val_of rk (GetOutputSchema r) t)) ls)) rs), Ok ())"
proof -
  let ?ls = "GetOutputSchema l" and ?rs = "GetOutputSchema r"
  have ok: "schema_ok ?ls" "schema_ok ?rs" and sz: "unat (tuple_size ?ls) + unat (tuple_size ?rs) < 2 ^ 32"
    using ok op_ok_schema ConcatSchemas_size(2) [of ?ls ?rs] by auto
  have le: "EvalExpr lk u ?ls = Ok (val_of lk ?ls u)" "has_type ct (val_of lk ?ls u)" if "u \<in> set ls" for u
    using EvalExpr_Ok [OF ok(1) _ lt, of u] L that by (auto simp: val_of_Ok)
  have re: "EvalExpr rk t ?rs = Ok (val_of rk ?rs t)" "has_type ct' (val_of rk ?rs t)" if "t \<in> set rs" for t
    using EvalExpr_Ok [OF ok(2) _ rt, of t] R that by (auto simp: val_of_Ok)
  obtain ht where f: "fold_out (build_row lk ?ls) ls Map.empty = Ok ht"
    using fold_out_Ok [of ls "build_row lk ?ls" Map.empty] le(1) by (auto simp: build_row_def join_key_def)
  have b: "bucket ht (join_text rk ?rs t) = filter (\<lambda>u. key_match (val_of lk ?ls u) (val_of rk ?rs t)) ls" if t: "t \<in> set rs" for t
  proof -
    have "bucket ht (join_text rk ?rs t) = filter (\<lambda>u. join_text lk ?ls u = join_text rk ?rs t \<and> join_text rk ?rs t \<noteq> '''') ls"
      by (simp add: bucket_filed build_table [OF f])
    also have "\<dots> = filter (\<lambda>u. key_match (val_of lk ?ls u) (val_of rk ?rs t)) ls"
      by (rule filter_cong) (use key_match_text le(2) re(2) [OF t] ct in \<open>simp_all add: has_type_def\<close>)
    finally show ?thesis .
  qed
  have "s_join (\<lambda>t. join_key rk t ?rs) (glue l r) ht rs =
      (concat (map (\<lambda>t. map (\<lambda>u. u @ t) (bucket ht (join_text rk ?rs t))) rs), Ok ())"
  proof (rule s_join_Ok)
    show "\<forall>t \<in> set rs. join_key rk t ?rs = Ok (join_text rk ?rs t)" using re(1) by (simp add: join_key_def)
    show "\<forall>t \<in> set rs. \<forall>u \<in> set (bucket ht (join_text rk ?rs t)). glue l r u t = Ok (u @ t)"
      using Concat_ok [of _ ?ls _ ?rs] L R sz b by auto
  qed
  also have "\<dots> = (concat (map (\<lambda>t. map (\<lambda>u. u @ t) (filter (\<lambda>u. key_match (val_of lk ?ls u) (val_of rk ?rs t)) ls)) rs), Ok ())"
    by (simp add: b cong: map_cong)
  finally show ?thesis using assms(1,2) f by (simp add: s_drain_def s_rows_def)
qed

lemma stream_rows:
  "std_sort srt \<Longrightarrow> op_ok tab op \<Longrightarrow> stream_of srt tab op = Ok (rows, fin) \<Longrightarrow>
   (\<forall>t \<in> set rows. row_ok (GetOutputSchema op) t) \<and> length rows \<le> row_bound tab op \<and> fin \<noteq> Fault"
  using stream_safe [of srt tab op] by simp

text \<open>The order that an \<open>ORDER BY\<close> list asks for, on the values of its expressions.\<close>

definition val_less :: "Value \<Rightarrow> Value \<Rightarrow> bool" where
  "val_less v w \<longleftrightarrow> (if v_type v = T_INT then int_val v < int_val w else str_val v < str_val w)"

fun in_order :: "OrderByItem list \<Rightarrow> Schema \<Rightarrow> Tuple \<Rightarrow> Tuple \<Rightarrow> bool" where
  "in_order [] sch t u \<longleftrightarrow> True"
| "in_order (i # is) sch t u \<longleftrightarrow>
     (let v = val_of (ob_expr i) sch t; w = val_of (ob_expr i) sch u
      in if ob_ascending i then val_less v w \<or> \<not> val_less w v \<and> in_order is sch t u
         else val_less w v \<or> \<not> val_less v w \<and> in_order is sch t u)"

lemma order_less_in_order:
  assumes "schema_ok sch" and "row_ok sch t" and "row_ok sch u"
  shows "\<forall>i \<in> set ob. \<exists>ct. expr_type (ob_expr i) sch = Ok ct \<Longrightarrow> order_less ob sch u t = Ok (\<not> in_order ob sch t u)"
proof (induction ob)
  case (Cons i ob)
  then obtain ct where ct: "expr_type (ob_expr i) sch = Ok ct" by auto
  obtain v w where v: "EvalExpr (ob_expr i) t sch = Ok v" "EvalExpr (ob_expr i) u sch = Ok w" "v_type v = v_type w"
    using EvalExpr_Ok [OF assms(1,2) ct] EvalExpr_Ok [OF assms(1,3) ct] by (auto simp: has_type_def)
  then show ?case using Cons by (auto simp: val_of_Ok val_less_def Let_def)
qed simp

lemma sort_rows_typed:
  assumes "schema_ok sch" and "\<forall>t \<in> set rows. row_ok sch t" and "\<forall>i \<in> set ob. \<exists>ct. expr_type (ob_expr i) sch = Ok ct"
  shows "sort_rows srt ob sch rows = Ok (srt (\<lambda>a b. order_less ob sch a b = Ok True) rows)"
proof -
  have "\<exists>b. x = Ok b" if "x \<in> set (pair_outcomes ob sch rows)" for x
    using that order_less_in_order [OF assms(1) _ _ assms(3)] assms(2) by (auto simp: pair_outcomes_def split: if_splits)
  then have "find (\<lambda>r. case r of Ok _ \<Rightarrow> False | _ \<Rightarrow> True) (pair_outcomes ob sch rows) = None"
    by (auto simp: find_None_iff split: outcome.splits)
  then show ?thesis by (simp add: sort_rows_def)
qed

lemma sort_stream:
  assumes "std_sort srt" and "op_ok tab child" and "stream_of srt tab child = Ok (rows, Ok ())"
    and "\<forall>i \<in> set ob. \<exists>ct. expr_type (ob_expr i) (GetOutputSchema child) = Ok ct"
  shows "\<exists>out. stream_of srt tab (Sort child ob buf cur) = Ok (out, Ok ()) \<and> mset out = mset rows \<and>
    sorted_wrt (in_order ob (GetOutputSchema child)) out"
proof -
  let ?sch = "GetOutputSchema child"
  have ok: "schema_ok ?sch" and R: "\<forall>t \<in> set rows. row_ok ?sch t"
    using stream_rows [OF assms(1-3)] op_ok_schema [OF assms(2)] by auto
  obtain out where out: "sort_rows srt ob ?sch rows = Ok out" using sort_rows_typed [OF ok R assms(4)] by blast
  then have p: "mset out = mset rows" "sorted_wrt (\<lambda>a b. order_less ob ?sch b a \<noteq> Ok True) out"
    using sort_rows_ok [OF assms(1) ok R] by blast+
  have "\<forall>t \<in> set out. row_ok ?sch t" using R mset_eq_setD [OF p(1)] by simp
  then have "sorted_wrt (in_order ob ?sch) out"
    using p(2) order_less_in_order [OF ok _ _ assms(4)] by (auto elim!: sorted_wrt_mono_rel [rotated])
  then show ?thesis using out p(1) assms(3) by (simp add: s_rows_def)
qed

lemma aggregate_stream:
  assumes "std_sort srt" and ok: "op_ok tab (HashAggregate child gb aes sch st)" and s: "stream_of srt tab child = Ok (rows, Ok ())"
    and gb: "\<forall>e \<in> set gb. \<exists>ct. expr_type e (GetOutputSchema child) = Ok ct" and ag: "agg_types aes (GetOutputSchema child) = Ok ()"
    and nb: "\<forall>t \<in> set rows. list_all no_bar (group_vals gb (GetOutputSchema child) t)"
  shows "stream_of srt tab (HashAggregate child gb aes sch st) =
    Ok (map (\<lambda>vs. concat (map value_bytes
          (vs @ map (agg_result (GetOutputSchema child) (rows_with (group_vals gb (GetOutputSchema child)) vs rows)) aes)))
        (firsts (map (group_vals gb (GetOutputSchema child)) rows)), Ok ())"
proof -
  let ?in = "GetOutputSchema child"
  let ?gv = "group_vals gb ?in"
  let ?row = "\<lambda>vs. vs @ map (agg_result ?in (rows_with ?gv vs rows)) aes"
  have sch: "schema_ok ?in" "schema_ok sch" "agg_schema_fits ?in gb aes (columns sch)" "\<forall>ae \<in> set aes. ae_func ae \<in> set agg_functions"
    using ok op_ok_schema by (auto simp: agg_ok_def)
  have R: "\<forall>t \<in> set rows. row_ok ?in t" "length rows < 2 ^ 31" using stream_rows [OF assms(1) _ s] ok by auto
  have "mk_Tuple (?row vs) sch = Ok (concat (map value_bytes (?row vs)))" if vs: "vs \<in> ?gv ` set rows" for vs
  proof -
    obtain t where t: "t \<in> set rows" "vs = ?gv t" using vs by blast
    have "eval_list gb t ?in = Ok vs" using eval_list_Ok [OF sch(1) _ gb, of t] R(1) t by (simp add: group_vals_def)
    then have "list_all2 value_typed (columns sch) (?row vs)" using agg_result_fits [OF sch(1) _ sch(3)] R(1) t(1) by blast
    then show ?thesis using mk_Tuple_typed sch(2) by (metis schema_ok_def)
  qed
  then have "agg_rows aes sch (group_state gb aes ?in rows) = map (\<lambda>vs. Ok (concat (map value_bytes (?row vs)))) (firsts (map ?gv rows))"
    using agg_rows_state [OF sch(1) R(1) gb nb sch(4) ag] by simp
  then have "s_list (agg_rows aes sch (group_state gb aes ?in rows)) ([], Ok ()) =
      (map (\<lambda>vs. concat (map value_bytes (?row vs))) (firsts (map ?gv rows)), Ok ())"
    by (simp only: s_list_Ok fst_conv snd_conv append_Nil2)
  then show ?thesis using s agg_fold [OF sch(1) R gb ag] by (simp add: s_drain_def)
qed

section \<open>A sorting function and a table for the examples\<close>

fun insert_by :: "('a \<Rightarrow> 'a \<Rightarrow> bool) \<Rightarrow> 'a \<Rightarrow> 'a list \<Rightarrow> 'a list" where
  "insert_by lt x [] = [x]"
| "insert_by lt x (y # ys) = (if lt y x then y # insert_by lt x ys else x # y # ys)"

definition insertion_sort :: "('a \<Rightarrow> 'a \<Rightarrow> bool) \<Rightarrow> 'a list \<Rightarrow> 'a list" where
  "insertion_sort lt xs = foldr (insert_by lt) xs []"

lemma mset_insert_by [simp]: "mset (insert_by lt x ys) = add_mset x (mset ys)"
  by (induction ys) auto

lemma set_insert_by [simp]: "set (insert_by lt x ys) = insert x (set ys)"
  by (induction ys) auto

lemma insert_by_sorted:
  assumes "strict_weak S lt" and "x \<in> S" and "set ys \<subseteq> S" and "sorted_wrt (\<lambda>a b. \<not> lt b a) ys"
  shows "sorted_wrt (\<lambda>a b. \<not> lt b a) (insert_by lt x ys)"
  using assms(3,4)
proof (induction ys)
  case (Cons y ys)
  have neg: "\<not> lt a c" if "\<not> lt a b" "\<not> lt b c" "a \<in> S" "b \<in> S" "c \<in> S" for a b c
    using assms(1) that unfolding strict_weak_def by blast
  have asym: "\<not> lt b a" if "lt a b" "a \<in> S" "b \<in> S" for a b using assms(1) that unfolding strict_weak_def by blast
  show ?case
  proof (cases "lt y x")
    case True
    then show ?thesis using Cons asym [OF True] assms(2) by auto
  next
    case False
    then show ?thesis using Cons neg assms(2) by (auto simp: subset_iff)
  qed
qed simp

lemma insertion_sort_sorts:
  assumes w: "strict_weak (set xs) lt"
  shows "mset (insertion_sort lt xs) = mset xs \<and> sorted_wrt (\<lambda>a b. \<not> lt b a) (insertion_sort lt xs)"
proof -
  have "mset (foldr (insert_by lt) ys []) = mset ys \<and> sorted_wrt (\<lambda>a b. \<not> lt b a) (foldr (insert_by lt) ys [])"
    if "set ys \<subseteq> set xs" for ys
    using that
  proof (induction ys)
    case (Cons y ys)
    then have "set (foldr (insert_by lt) ys []) = set ys" by (auto dest: mset_eq_setD)
    then show ?case using Cons insert_by_sorted [OF w, of y "foldr (insert_by lt) ys []"] by auto
  qed simp
  then show ?thesis by (simp add: insertion_sort_def)
qed

lemma insertion_sort_std: "std_sort insertion_sort"
  unfolding std_sort_def using insertion_sort_sorts by blast

lemma small_table:
  "\<exists>h b m k n. bpm_idle b m k n \<and> 0 < k \<and> table_rows m h [[2, 0, 0, 0], [1, 0, 0, 0]]"
proof -
  obtain h b where h: "schema h = int_row" "heap_holds h b [] 2" using small_heap by blast
  let ?ts = "[[2, 0, 0, 0], [1, 0, 0, 0]] :: Tuple list"
  have "heap_holds h b [] (length ?ts + 0)" using h(2) by (simp add: numeral_2_eq_2)
  moreover have "\<forall>t \<in> set ?ts. length t = row_width h" by (simp add: h(1) int_row_simps(1))
  ultimately obtain rs h' b' where "length rs = length ?ts" "heap_holds h' b' (zip rs ?ts) 0"
    using heap.insert_list_ok [of h b "[]" ?ts 0] by (auto simp del: insert_list.simps)
  moreover from this(1) have "map snd (zip rs ?ts) = ?ts" by (simp add: map_snd_zip)
  ultimately show ?thesis unfolding heap_holds_def table_rows_def by metis
qed

lemma int_row_ok: "schema_ok int_row"
  by (simp add: schema_ok_def int_row_def ColumnType_Int_def GetFixedSize_def)

lemma schema_ok_mk: "schema_ok (mk_Schema cs) \<longleftrightarrow> row_size cs < 2 ^ 32"
  by (simp add: schema_ok_def)

lemma col_int: "GetFixedSize ColumnType_Int = 4"
  by (simp add: GetFixedSize_def ColumnType_Int_def)

section \<open>Properties\<close>

text \<open>(C5) The iterators compute the query: \<open>Init\<close> on an operator tree returns with the pages as they
  were, and then the calls of \<open>Next\<close> return one after the other the rows of the stream that the
  tree denotes over the rows of its tables, and then its end: false, or the exception. When
  loading the inputs fails, \<open>Init\<close> ends with that failure. No call hangs.\<close>

theorem operators_refine:
  assumes "bpm_idle b m k n" and "0 < k" and "fresh op" and "\<forall>h \<in> tables_of op. table_rows m h (tab h)"
  shows "\<exists>b'. bpm_idle b' m k n \<and> (case stream_of srt tab op of
      Ok (rows, fin) \<Rightarrow> \<exists>op'. Init srt op b = Some (Ok op', b') \<and> delivers op' rows fin
    | Throw e \<Rightarrow> Init srt op b = Some (Throw e, b')
    | Fault \<Rightarrow> Init srt op b = Some (Fault, b'))"
  using Init_agrees [OF assms, of srt] by (cases "stream_of srt tab op") (auto simp: init_agrees_def)

theorem operators_refine_witness:
  "\<exists>h b op' b'. Init insertion_sort (Filter (SeqScan h int_row [] 0)
      (BINARY_OP ''<'' (COLUMN_REF '''' ''a'') (INT_LITERAL (mk32 2)))) b = Some (Ok op', b') \<and> delivers op' [[1, 0, 0, 0]] (Ok ())"
proof -
  obtain h b m k n where h: "bpm_idle b m k n" "0 < k" "table_rows m h [[2, 0, 0, 0], [1, 0, 0, 0]]" using small_table by blast
  let ?op = "Filter (SeqScan h int_row [] 0) (BINARY_OP ''<'' (COLUMN_REF '''' ''a'') (INT_LITERAL (mk32 2)))"
  let ?tab = "\<lambda>h. [[2, 0, 0, 0], [1, 0, 0, 0]] :: Tuple list"
  have s: "stream_of insertion_sort ?tab ?op = Ok ([[1, 0, 0, 0]], Ok ())" by code_simp
  show ?thesis using operators_refine [OF h(1,2), of ?op ?tab insertion_sort, unfolded s] h(3)
    by (auto simp del: Init.simps delivers.simps)
qed

text \<open>(C24) Types: over a tree whose schemas fit together, with a projection that has a column of the
  right type for each expression and aggregates that have an argument where they need one,
  neither \<open>Init\<close> nor \<open>Next\<close> faults, and every delivered row has the width of the output schema.\<close>

theorem operators_type_safe:
  assumes "bpm_idle b m k n" and "0 < k" and "fresh op" and "\<forall>h \<in> tables_of op. table_rows m h (tab h)"
    and "std_sort srt" and "op_ok tab op"
  shows "\<exists>r b'. Init srt op b = Some (r, b') \<and> r \<noteq> Fault \<and>
    (\<forall>op'. r = Ok op' \<longrightarrow> (\<exists>rows fin. delivers op' rows fin \<and> fin \<noteq> Fault \<and> (\<forall>t \<in> set rows. row_ok (GetOutputSchema op) t)))"
  using Init_agrees [OF assms(1-4), of srt] stream_safe [OF assms(5,6)]
  by (cases "stream_of srt tab op") (auto simp: init_agrees_def, blast)

theorem operators_type_safe_witness:
  "\<exists>h b r b'. Init insertion_sort (Projection (SeqScan h int_row [] 0) [COLUMN_REF '''' ''a'', INT_LITERAL (mk32 7)] [''a'', '''']
      (mk_Schema [\<lparr>col_name = ''a'', col_type = ColumnType_Int\<rparr>, \<lparr>col_name = ''?'', col_type = ColumnType_Int\<rparr>])) b = Some (r, b') \<and>
    r \<noteq> Fault"
proof -
  obtain h b m k n where h: "bpm_idle b m k n" "0 < k" "table_rows m h [[2, 0, 0, 0], [1, 0, 0, 0]]" using small_table by blast
  let ?op = "Projection (SeqScan h int_row [] 0) [COLUMN_REF '''' ''a'', INT_LITERAL (mk32 7)] [''a'', '''']
      (mk_Schema [\<lparr>col_name = ''a'', col_type = ColumnType_Int\<rparr>, \<lparr>col_name = ''?'', col_type = ColumnType_Int\<rparr>])"
  let ?tab = "\<lambda>h. [[2, 0, 0, 0], [1, 0, 0, 0]] :: Tuple list"
  have "list_all2 (expr_fits int_row) [\<lparr>col_name = ''a'', col_type = ColumnType_Int\<rparr>, \<lparr>col_name = ''?'', col_type = ColumnType_Int\<rparr>]
      [COLUMN_REF [] ''a'', INT_LITERAL (mk32 7)]" by code_simp
  then have "op_ok ?tab ?op" by (simp add: int_row_ok int_row_simps schema_ok_mk col_int)
  then show ?thesis using operators_type_safe [OF h(1,2) _ _ insertion_sort_std, of ?op ?tab] h(3)
    by (auto simp del: Init.simps op_ok.simps)
qed

text \<open>(C16) The hash join is the nested-loop equijoin: for each right row in order, and each left row in
  order whose key matches, their concatenation. Keys match when they are equal integers or equal
  strings, except that an empty string matches nothing.\<close>

theorem hash_join_rows:
  assumes "bpm_idle b m k n" and "0 < k" and "fresh (HashJoin l r lk rk sch js)"
    and "\<forall>h \<in> tables_of (HashJoin l r lk rk sch js). table_rows m h (tab h)"
    and "std_sort srt" and "op_ok tab (HashJoin l r lk rk sch js)"
    and "stream_of srt tab l = Ok (ls, Ok ())" and "stream_of srt tab r = Ok (rs, Ok ())"
    and "expr_type lk (GetOutputSchema l) = Ok ct" and "expr_type rk (GetOutputSchema r) = Ok ct'" and "type_id ct = type_id ct'"
  shows "\<exists>op' b'. Init srt (HashJoin l r lk rk sch js) b = Some (Ok op', b') \<and>
    delivers op' (concat (map (\<lambda>t. map (\<lambda>u. u @ t)
      (filter (\<lambda>u. key_match (val_of lk (GetOutputSchema l) u) (val_of rk (GetOutputSchema r) t)) ls)) rs)) (Ok ())"
proof -
  have "\<forall>t \<in> set ls. row_ok (GetOutputSchema l) t" "\<forall>t \<in> set rs. row_ok (GetOutputSchema r) t"
    using stream_rows [OF assms(5) _ assms(7)] stream_rows [OF assms(5) _ assms(8)] assms(6) by auto
  from Init_delivers [OF assms(1-4) join_stream [OF assms(7,8,6) this assms(9-11)]] show ?thesis by blast
qed

theorem hash_join_rows_witness:
  "\<exists>h b op' b'. Init insertion_sort (mk_HashJoin (SeqScan h int_row [] 0) (SeqScan h int_row [] 0)
      (COLUMN_REF '''' ''a'') (COLUMN_REF '''' ''a'')) b = Some (Ok op', b') \<and>
    delivers op' [[2, 0, 0, 0, 2, 0, 0, 0], [1, 0, 0, 0, 1, 0, 0, 0]] (Ok ())"
proof -
  obtain h b m k n where h: "bpm_idle b m k n" "0 < k" "table_rows m h [[2, 0, 0, 0], [1, 0, 0, 0]]" using small_table by blast
  let ?s = "SeqScan h int_row [] 0" and ?e = "COLUMN_REF '''' ''a''"
  let ?op = "HashJoin ?s ?s ?e ?e (ConcatSchemas int_row int_row) empty_join"
  let ?rows = "[[2, 0, 0, 0], [1, 0, 0, 0]] :: Tuple list"
  have ok: "op_ok (\<lambda>h. ?rows) ?op"
    by (simp add: int_row_ok int_row_simps ConcatSchemas_def schema_ok_mk col_int int_row_def)
  have ty: "expr_type ?e int_row = Ok ColumnType_Int" by code_simp
  have rows: "concat (map (\<lambda>t. map (\<lambda>u. u @ t) (filter (\<lambda>u. key_match (val_of ?e int_row u) (val_of ?e int_row t)) ?rows)) ?rows) =
      [[2, 0, 0, 0, 2, 0, 0, 0], [1, 0, 0, 0, 1, 0, 0, 0]]" by code_simp
  show ?thesis
    using hash_join_rows [OF h(1,2) _ _ insertion_sort_std ok, of ?rows ?rows ColumnType_Int ColumnType_Int,
        unfolded GetOutputSchema.simps rows] h(3) ty
    by (auto simp: mk_HashJoin_def empty_join_def simp del: Init.simps delivers.simps op_ok.simps)
qed

text \<open>(C23) Sorting: the rows come out as a permutation of the rows that went in, in the order that the
  \<open>ORDER BY\<close> list asks for, ascending and descending items as marked, given that \<open>std::sort\<close>
  sorts by every strict weak order. The comparison function is one.\<close>

theorem sort_delivers_sorted:
  assumes "bpm_idle b m k n" and "0 < k" and "fresh child" and "\<forall>h \<in> tables_of child. table_rows m h (tab h)"
    and "std_sort srt" and "op_ok tab child" and "stream_of srt tab child = Ok (rows, Ok ())"
    and "\<forall>i \<in> set ob. \<exists>ct. expr_type (ob_expr i) (GetOutputSchema child) = Ok ct"
  shows "\<exists>op' b' out. Init srt (Sort child ob buf cur) b = Some (Ok op', b') \<and> delivers op' out (Ok ()) \<and>
    mset out = mset rows \<and> sorted_wrt (in_order ob (GetOutputSchema child)) out"
proof -
  obtain out where out: "stream_of srt tab (Sort child ob buf cur) = Ok (out, Ok ())" "mset out = mset rows"
      "sorted_wrt (in_order ob (GetOutputSchema child)) out"
    using sort_stream [OF assms(5-8)] by blast
  then show ?thesis using Init_delivers [OF assms(1,2) _ _ out(1)] assms(3,4) by auto
qed

theorem sort_delivers_sorted_witness:
  "\<exists>h b op' b' out. Init insertion_sort (mk_Sort (SeqScan h int_row [] 0) [\<lparr>ob_expr = COLUMN_REF '''' ''a'', ob_ascending = True\<rparr>]) b =
      Some (Ok op', b') \<and> delivers op' out (Ok ()) \<and> mset out = {#[2, 0, 0, 0], [1, 0, 0, 0]#} \<and>
    sorted_wrt (in_order [\<lparr>ob_expr = COLUMN_REF '''' ''a'', ob_ascending = True\<rparr>] int_row) out"
proof -
  obtain h b m k n where h: "bpm_idle b m k n" "0 < k" "table_rows m h [[2, 0, 0, 0], [1, 0, 0, 0]]" using small_table by blast
  let ?s = "SeqScan h int_row [] 0" and ?ob = "[\<lparr>ob_expr = COLUMN_REF '''' ''a'', ob_ascending = True\<rparr>]"
  let ?rows = "[[2, 0, 0, 0], [1, 0, 0, 0]] :: Tuple list"
  have ok: "op_ok (\<lambda>h. ?rows) ?s" by (simp add: int_row_ok int_row_simps)
  have ty: "expr_type (COLUMN_REF '''' ''a'') int_row = Ok ColumnType_Int" by code_simp
  have "\<forall>i \<in> set ?ob. \<exists>ct. expr_type (ob_expr i) (GetOutputSchema ?s) = Ok ct" using ty by simp
  from sort_delivers_sorted [OF h(1,2) _ _ insertion_sort_std ok _ this, of ?rows "[]" 0] h(3) show ?thesis
    by (auto simp: mk_Sort_def simp del: Init.simps delivers.simps in_order.simps)
qed



end
