(* ===== verification/Parser_Grammar.thy ===== *)
theory Parser_Grammar
  imports Parser
begin

text \<open>
  What the parser does: on the tokens of the lexer it never leaves the token vector, and every
  statement printed as tokens, with the parentheses its precedences need, is parsed back.
\<close>

section \<open>The parser stays inside its tokens\<close>

text \<open>The position is on a token, and the last token is the end token.\<close>

definition sound :: "Parser \<Rightarrow> bool" where
  "sound p \<longleftrightarrow> ps_pos p < length (ps_tokens p) \<and> tok_type (last (ps_tokens p)) = TK_EOF"

definition safe :: "('a, Parser) res \<Rightarrow> bool" where
  "safe r \<longleftrightarrow> fst r \<noteq> Fault \<and> sound (snd r)"

lemma safe_simps [simp]: "safe (Ok a, p) \<longleftrightarrow> sound p" "safe (Throw e, p) \<longleftrightarrow> sound p" "\<not> safe (Fault, p)"
  by (simp_all add: safe_def)

lemma safe_bind: "safe m \<Longrightarrow> (\<And>a q. m = (Ok a, q) \<Longrightarrow> sound q \<Longrightarrow> safe (f a q)) \<Longrightarrow> safe (bind_res m f)"
  by (cases m; cases "fst m") (auto simp: safe_def)

lemma safe_cases:
  "(c \<Longrightarrow> safe a) \<Longrightarrow> (\<not> c \<Longrightarrow> safe b) \<Longrightarrow> safe (if c then a else b)"
  "(x = None \<Longrightarrow> safe f) \<Longrightarrow> (\<And>y. x = Some y \<Longrightarrow> safe (g y)) \<Longrightarrow> safe (case x of None \<Rightarrow> f | Some y \<Rightarrow> g y)"
  by (auto split: option.split)

lemmas safe_intros = safe_bind safe_cases

text \<open>Only a token that is not the end token is ever consumed.\<close>

lemma sound_next:
  assumes "sound p" and "tok_type (ps_tokens p ! ps_pos p) \<noteq> TK_EOF"
  shows "sound (p\<lparr>ps_pos := Suc (ps_pos p)\<rparr>)"
proof -
  have "ps_pos p \<noteq> length (ps_tokens p) - 1"
    using assms last_conv_nth [of "ps_tokens p"] by (cases "ps_tokens p = []") (auto simp: sound_def)
  then show ?thesis using assms(1) unfolding sound_def by (simp, linarith)
qed

lemma safe_helpers [simp]:
  assumes "sound p"
  shows "safe (Current p)" "safe (Check ty p)" "ty \<noteq> TK_EOF \<Longrightarrow> safe (Match ty p)"
    "ty \<noteq> TK_EOF \<Longrightarrow> safe (Expect ty msg p)"
    "TK_EOF \<notin> fst ` set tab \<Longrightarrow> safe (match_table tab p)" "r \<noteq> Fault \<Longrightarrow> safe (lift_out r p)"
proof -
  note p = assms sound_next [OF assms]
  have c: "Current p = (Ok (ps_tokens p ! ps_pos p), p)" using assms by (simp add: Current_def sound_def)
  show "safe (Current p)" "safe (Check ty p)" "ty \<noteq> TK_EOF \<Longrightarrow> safe (Match ty p)"
    "ty \<noteq> TK_EOF \<Longrightarrow> safe (Expect ty msg p)"
    using p c by (simp_all add: Check_def Match_def Expect_def Consume_def)
  show "TK_EOF \<notin> fst ` set tab \<Longrightarrow> safe (match_table tab p)"
    using p c map_of_SomeD [of tab TK_EOF] by (force simp: match_table_def split: option.split)
  show "r \<noteq> Fault \<Longrightarrow> safe (lift_out r p)" using p(1) by (cases r) (simp_all add: lift_out_def)
qed

lemma safe_consume: "Check ty p = (Ok True, q) \<Longrightarrow> ty \<noteq> TK_EOF \<Longrightarrow> sound q \<Longrightarrow> safe (Consume q)"
  using sound_next [of q] by (auto simp: Check_Ok Consume_def Current_def)

lemma stoi_no_fault [simp]: "stoi s \<noteq> Fault"
  by (simp add: stoi_def Let_def)

lemma no_eof_tables [simp]: "TK_EOF \<notin> fst ` set OPS" "TK_EOF \<notin> fst ` set AGG_NAMES"
  by (simp_all add: OPS_def AGG_NAMES_def)

lemma safe_literal [simp]: "sound p \<Longrightarrow> safe (parse_literal p)"
  unfolding parse_literal_def by (intro safe_intros) (auto intro: safe_consume)

lemma safe_column [simp]: "sound p \<Longrightarrow> safe (parse_column p)"
  unfolding parse_column_def by (intro safe_intros) (auto intro: safe_consume)

lemma parse_safe:
  "sound p1 \<Longrightarrow> safe (ParseExpr p1)"
  "sound p2 \<Longrightarrow> safe (or_loop l2 p2)"
  "sound p3 \<Longrightarrow> safe (ParseOr p3)"
  "sound p4 \<Longrightarrow> safe (and_loop l4 p4)"
  "sound p5 \<Longrightarrow> safe (ParseAnd p5)"
  "sound p6 \<Longrightarrow> safe (ParseNot p6)"
  "sound p7 \<Longrightarrow> safe (ParseComparison p7)"
  "sound p8 \<Longrightarrow> safe (ParsePrimary p8)"
proof (induction p1 and l2 p2 and p3 and l4 p4 and p5 and p6 and p7 and p8
    rule: ParseExpr_or_loop_ParseOr_and_loop_ParseAnd_ParseNot_ParseComparison_ParsePrimary.induct)
  case (1 p)
  then show ?case by (simp add: ParseExpr.simps)
next
  case (2 left p)
  show ?case unfolding or_loop.simps [of left p] using 2 by (intro safe_intros) simp_all
next
  case (3 p)
  show ?case unfolding ParseOr.simps [of p] using 3 by (intro safe_intros) simp_all
next
  case (4 left p)
  show ?case unfolding and_loop.simps [of left p] using 4 by (intro safe_intros) simp_all
next
  case (5 p)
  show ?case unfolding ParseAnd.simps [of p] using 5 by (intro safe_intros) simp_all
next
  case (6 p)
  show ?case unfolding ParseNot.simps [of p] using 6 by (intro safe_intros) simp_all
next
  case (7 p)
  show ?case unfolding ParseComparison.simps [of p] using 7(3) by (intro safe_intros) (simp_all add: 7(1,2))
next
  case (8 p)
  show ?case unfolding ParsePrimary.simps [of p]
    by (insert 8(3), intro safe_intros; (rule 8(1) 8(2), assumption+)?) simp_all
qed

lemma safe_parse [simp]: "sound p \<Longrightarrow> safe (ParseExpr p)" "sound p \<Longrightarrow> safe (ParsePrimary p)"
  by (simp_all add: parse_safe)

lemma safe_column_def [simp]: "sound p \<Longrightarrow> safe (parse_type p)" "sound p \<Longrightarrow> safe (parse_column_def p)"
proof -
  show t: "safe (parse_type p)" if "sound p" for p
    unfolding parse_type_def using that by (intro safe_intros) simp_all
  show "sound p \<Longrightarrow> safe (parse_column_def p)" unfolding parse_column_def_def by (intro safe_intros) (simp_all add: t)
qed

lemma safe_item [simp]: "sound p \<Longrightarrow> safe (ParseSelectItem p)"
  unfolding ParseSelectItem_def by (intro safe_intros) simp_all

lemma safe_alias [simp]: "sound p \<Longrightarrow> safe (parse_alias p)"
  unfolding parse_alias_def by (intro safe_intros) (auto intro: safe_consume)

lemma safe_join [simp]: "sound p \<Longrightarrow> safe (parse_join p)"
  unfolding parse_join_def by (intro safe_intros) simp_all

lemma safe_order_item [simp]: "sound p \<Longrightarrow> safe (parse_order_item p)"
  unfolding parse_order_item_def by (intro safe_intros) simp_all

lemma safe_lists [simp]:
  "sound p \<Longrightarrow> safe (column_defs p)" "sound p \<Longrightarrow> safe (primaries p)" "sound p \<Longrightarrow> safe (ParseSelectList p)"
  "sound p \<Longrightarrow> safe (ParseJoins p)" "sound p \<Longrightarrow> safe (order_items p)"
proof -
  show "sound p \<Longrightarrow> safe (column_defs p)"
  proof (induction p rule: column_defs.induct)
    case (1 p)
    show ?case unfolding column_defs.simps [of p] using 1 by (intro safe_intros) simp_all
  qed
  show "sound p \<Longrightarrow> safe (primaries p)"
  proof (induction p rule: primaries.induct)
    case (1 p)
    show ?case unfolding primaries.simps [of p] using 1 by (intro safe_intros) simp_all
  qed
  show "sound p \<Longrightarrow> safe (ParseSelectList p)"
  proof (induction p rule: ParseSelectList.induct)
    case (1 p)
    show ?case unfolding ParseSelectList.simps [of p] using 1 by (intro safe_intros) simp_all
  qed
  show "sound p \<Longrightarrow> safe (ParseJoins p)"
  proof (induction p rule: ParseJoins.induct)
    case (1 p)
    show ?case unfolding ParseJoins.simps [of p] using 1 by (intro safe_intros) simp_all
  qed
  show "sound p \<Longrightarrow> safe (order_items p)"
  proof (induction p rule: order_items.induct)
    case (1 p)
    show ?case unfolding order_items.simps [of p] using 1 by (intro safe_intros) simp_all
  qed
qed

lemma safe_clauses [simp]:
  "sound p \<Longrightarrow> safe (ParseWhere p)" "sound p \<Longrightarrow> safe (ParseGroupBy p)" "sound p \<Longrightarrow> safe (ParseOrderBy p)"
  unfolding ParseWhere_def ParseGroupBy_def ParseOrderBy_def by (auto intro!: safe_intros)

lemma safe_select [simp]: "sound p \<Longrightarrow> safe (ParseSelect p)"
  unfolding ParseSelect_def by (intro safe_intros) simp_all

lemma safe_statements [simp]:
  "sound p \<Longrightarrow> safe (ParseCreateTable p)" "sound p \<Longrightarrow> safe (ParseInsert p)" "sound p \<Longrightarrow> safe (ParseExplain p)"
  unfolding ParseCreateTable_def ParseInsert_def ParseExplain_def by (auto intro!: safe_intros)

lemma safe_Parse: "sound p \<Longrightarrow> safe (Parse p)"
proof -
  have "safe (parse_statement p)" if "sound p"
    unfolding parse_statement_def using that by (intro safe_intros) simp_all
  then show "sound p \<Longrightarrow> safe (Parse p)" unfolding Parse_def by (intro safe_intros) simp_all
qed

section \<open>Printing expressions\<close>

text \<open>A token without its line, as the parser sees it.\<close>

type_synonym word_token = "TokenType \<times> string"

abbreviation kw :: "TokenType \<Rightarrow> string \<Rightarrow> word_token list" where "kw ty v \<equiv> [(ty, v)]"

abbreviation lparen :: "word_token list" where "lparen \<equiv> [(TK_LPAREN, ''('')]"
abbreviation rparen :: "word_token list" where "rparen \<equiv> [(TK_RPAREN, '')'')]"

text \<open>The precedence levels: \<open>OR\<close>, \<open>AND\<close>, \<open>NOT\<close>, comparisons, primaries.\<close>

fun level :: "Expr \<Rightarrow> nat" where
  "level (BINARY_OP op l r) = (if op = ''OR'' then 0 else if op = ''AND'' then 1 else 3)"
| "level (UNARY_OP op e) = 2"
| "level e = 4"

definition op_token :: "string \<Rightarrow> word_token" where
  "op_token s = (fst (hd (filter (\<lambda>x. snd x = s) OPS)), s)"

definition agg_token :: "string \<Rightarrow> word_token" where
  "agg_token s = (fst (hd (filter (\<lambda>x. snd x = s) AGG_NAMES)), s)"

definition in_parens :: "bool \<Rightarrow> word_token list \<Rightarrow> word_token list" where
  "in_parens b x = (if b then lparen @ x @ rparen else x)"

text \<open>\<open>print_at n e\<close>: the expression where an operand of level \<open>n\<close> or more is expected.\<close>

fun print_at :: "nat \<Rightarrow> Expr \<Rightarrow> word_token list" where
  "print_at n (COLUMN_REF t c) = (if t = '''' then kw TK_IDENTIFIER c
     else kw TK_IDENTIFIER t @ kw TK_DOT ''.'' @ kw TK_IDENTIFIER c)"
| "print_at n (INT_LITERAL i) = kw TK_INT_LITERAL (show_int (ival i))"
| "print_at n (STRING_LITERAL s) = kw TK_STRING_LITERAL s"
| "print_at n STAR = kw TK_STAR ''*''"
| "print_at n (AGGREGATE f None) = [agg_token f] @ lparen @ kw TK_STAR ''*'' @ rparen"
| "print_at n (AGGREGATE f (Some e)) = [agg_token f] @ lparen @ print_at 0 e @ rparen"
| "print_at n (UNARY_OP op e) = in_parens (2 < n) (kw TK_NOT ''NOT'' @ print_at 3 e)"
| "print_at n (BINARY_OP op l r) =
     (if op = ''OR'' then in_parens (0 < n) (print_at 0 l @ kw TK_OR ''OR'' @ print_at 1 r)
      else if op = ''AND'' then in_parens (1 < n) (print_at 1 l @ kw TK_AND ''AND'' @ print_at 2 r)
      else in_parens (3 < n) (print_at 4 l @ [op_token op] @ print_at 4 r))"

text \<open>Expressions that have a text: the operators of the grammar, literals that are not negative, and
  no \<open>*\<close> as the argument expression of an aggregate.\<close>

fun printable :: "Expr \<Rightarrow> bool" where
  "printable (COLUMN_REF t c) = True"
| "printable (INT_LITERAL i) = (0 \<le> ival i)"
| "printable (STRING_LITERAL s) = True"
| "printable STAR = True"
| "printable (AGGREGATE f None) = (f \<in> snd ` set AGG_NAMES)"
| "printable (AGGREGATE f (Some e)) = (f \<in> snd ` set AGG_NAMES \<and> printable e \<and> fst (hd (print_at 0 e)) \<noteq> TK_STAR)"
| "printable (UNARY_OP op e) = (op = ''NOT'' \<and> printable e)"
| "printable (BINARY_OP op l r) = ((op \<in> {''OR'', ''AND''} \<or> op \<in> snd ` set OPS) \<and> printable l \<and> printable r)"

section \<open>Running the parser on printed tokens\<close>

definition ahead :: "Parser \<Rightarrow> word_token list" where
  "ahead p = map strip (drop (ps_pos p) (ps_tokens p))"

definition yields :: "('a, Parser) res \<Rightarrow> 'a \<Rightarrow> word_token list \<Rightarrow> bool" where
  "yields r a xs \<longleftrightarrow> (\<exists>q. r = (Ok a, q) \<and> ahead q = xs)"

lemma yields_Ok [simp]: "yields (Ok a, q) b xs \<longleftrightarrow> a = b \<and> ahead q = xs"
  by (auto simp: yields_def)

lemma yields_bind:
  "yields m a xs \<Longrightarrow> (\<And>q. m = (Ok a, q) \<Longrightarrow> ahead q = xs \<Longrightarrow> yields (f a q) b ys) \<Longrightarrow> yields (bind_res m f) b ys"
  by (auto simp: yields_def)

lemma ahead_Cons:
  assumes "ahead p = (ty, v) # xs"
  shows "ps_pos p < length (ps_tokens p)" "tok_type (ps_tokens p ! ps_pos p) = ty" "tok_value (ps_tokens p ! ps_pos p) = v"
    "ahead (p\<lparr>ps_pos := Suc (ps_pos p)\<rparr>) = xs"
proof -
  obtain t ts where d: "drop (ps_pos p) (ps_tokens p) = t # ts" "strip t = (ty, v)" "map strip ts = xs"
    using assms by (auto simp: ahead_def map_eq_Cons_conv)
  then have "drop (Suc (ps_pos p)) (ps_tokens p) = ts" by (metis drop_Suc tl_drop list.sel(3))
  moreover have l: "ps_pos p < length (ps_tokens p)" using d(1) by (metis drop_eq_Nil list.distinct(1) not_le)
  moreover have "ps_tokens p ! ps_pos p = t" using d(1) l by (metis hd_drop_conv_nth list.sel(1))
  ultimately show "ps_pos p < length (ps_tokens p)" "tok_type (ps_tokens p ! ps_pos p) = ty"
    "tok_value (ps_tokens p ! ps_pos p) = v" "ahead (p\<lparr>ps_pos := Suc (ps_pos p)\<rparr>) = xs"
    using d by (simp_all add: ahead_def strip_def)
qed

lemma Current_ahead: "ahead p = (ty, v) # xs \<Longrightarrow> \<exists>t. Current p = (Ok t, p) \<and> tok_type t = ty \<and> tok_value t = v"
  using ahead_Cons [of p ty v xs] by (simp add: Current_def)

lemma Check_ahead: "ahead p = (ty', v) # xs \<Longrightarrow> Check ty p = (Ok (ty' = ty), p)"
  using Current_ahead [of p ty' v xs] by (auto simp: Check_def)

lemma Match_ahead:
  assumes "ahead p = (ty', v) # xs"
  shows "ty' = ty \<Longrightarrow> yields (Match ty p) True xs" "ty' \<noteq> ty \<Longrightarrow> Match ty p = (Ok False, p)"
  using Check_ahead [OF assms, of ty] ahead_Cons(4) [OF assms] by (simp_all add: Match_def)

lemma Consume_ahead: "ahead p = (ty, v) # xs \<Longrightarrow> \<exists>t q. Consume p = (Ok t, q) \<and> tok_value t = v \<and> ahead q = xs"
  using Current_ahead [of p ty v xs] ahead_Cons(4) [of p ty v xs] by (auto simp: Consume_def)

lemma Expect_ahead: "ahead p = (ty, v) # xs \<Longrightarrow> \<exists>t q. Expect ty msg p = (Ok t, q) \<and> tok_value t = v \<and> ahead q = xs"
  using Check_ahead [of p ty v xs ty] Consume_ahead [of p ty v xs] by (auto simp: Expect_def)

lemma match_table_ahead:
  assumes "ahead p = (ty, v) # xs"
  shows "map_of tab ty = Some s \<Longrightarrow> yields (match_table tab p) (Some s) xs"
    "map_of tab ty = None \<Longrightarrow> match_table tab p = (Ok None, p)"
  using Current_ahead [OF assms] ahead_Cons(4) [OF assms] by (auto simp: match_table_def)

text \<open>The tokens that would continue an expression of a level.\<close>

definition continues :: "nat \<Rightarrow> TokenType set" where
  "continues n = {TK_DOT} \<union> (if n \<le> 3 then fst ` set OPS else {}) \<union> (if n \<le> 1 then {TK_AND} else {}) \<union>
     (if n = 0 then {TK_OR} else {})"

definition stops :: "nat \<Rightarrow> word_token list \<Rightarrow> bool" where
  "stops n xs \<longleftrightarrow> xs \<noteq> [] \<and> fst (hd xs) \<notin> continues n"

lemma stopsE: "stops n xs \<Longrightarrow> (\<And>ty v ys. xs = (ty, v) # ys \<Longrightarrow> ty \<notin> continues n \<Longrightarrow> P) \<Longrightarrow> P"
  by (cases xs) (auto simp: stops_def)

lemma continues_mono: "n \<le> m \<Longrightarrow> continues m \<subseteq> continues n"
  unfolding continues_def by (intro Un_mono) auto

lemma stops_mono: "stops n xs \<Longrightarrow> n \<le> m \<Longrightarrow> stops m xs"
  using continues_mono [of n m] by (auto simp: stops_def)

text \<open>What it means that the tokens \<open>x\<close> are parsed to \<open>e\<close> at each level. The loops for \<open>AND\<close> and \<open>OR\<close>
  are left at the point where they look for another operand.\<close>

definition prim_ok :: "word_token list \<Rightarrow> Expr \<Rightarrow> bool" where
  "prim_ok x e \<longleftrightarrow> (\<forall>p r. ahead p = x @ r \<longrightarrow> stops 4 r \<longrightarrow> yields (ParsePrimary p) e r)"

definition cmp_ok :: "word_token list \<Rightarrow> Expr \<Rightarrow> bool" where
  "cmp_ok x e \<longleftrightarrow> (\<forall>p r. ahead p = x @ r \<longrightarrow> stops 3 r \<longrightarrow> yields (ParseComparison p) e r)"

definition not_ok :: "word_token list \<Rightarrow> Expr \<Rightarrow> bool" where
  "not_ok x e \<longleftrightarrow> (\<forall>p r. ahead p = x @ r \<longrightarrow> stops 2 r \<longrightarrow> yields (ParseNot p) e r)"

definition and_ok :: "word_token list \<Rightarrow> Expr \<Rightarrow> bool" where
  "and_ok x e \<longleftrightarrow> (\<forall>p r. ahead p = x @ r \<longrightarrow> stops 2 r \<longrightarrow> (\<exists>q. ahead q = r \<and> ParseAnd p = and_loop e q))"

definition or_ok :: "word_token list \<Rightarrow> Expr \<Rightarrow> bool" where
  "or_ok x e \<longleftrightarrow> (\<forall>p r. ahead p = x @ r \<longrightarrow> stops 1 r \<longrightarrow> (\<exists>q. ahead q = r \<and> ParseOr p = or_loop e q))"

lemma prim_okD: "prim_ok x e \<Longrightarrow> ahead p = x @ r \<Longrightarrow> stops 4 r \<Longrightarrow> \<exists>q. ParsePrimary p = (Ok e, q) \<and> ahead q = r"
  by (simp add: prim_ok_def yields_def)

lemma and_okD: "and_ok x e \<Longrightarrow> ahead p = x @ r \<Longrightarrow> stops 2 r \<Longrightarrow> \<exists>q. ahead q = r \<and> ParseAnd p = and_loop e q"
  by (simp add: and_ok_def)

lemma or_okD: "or_ok x e \<Longrightarrow> ahead p = x @ r \<Longrightarrow> stops 1 r \<Longrightarrow> \<exists>q. ahead q = r \<and> ParseOr p = or_loop e q"
  by (simp add: or_ok_def)

lemma prim_cmp: "prim_ok x e \<Longrightarrow> cmp_ok x e"
  unfolding cmp_ok_def
proof (intro allI impI)
  fix p r assume x: "prim_ok x e" "ahead p = x @ r" "stops 3 r"
  then obtain q where q: "ParsePrimary p = (Ok e, q)" "ahead q = r"
    using stops_mono [of 3 r 4] by (auto simp: prim_ok_def yields_def)
  obtain ty v ys where r: "r = (ty, v) # ys" "ty \<notin> continues 3" using x(3) by (rule stopsE)
  then have "map_of OPS ty = None" by (simp add: continues_def map_of_eq_None_iff)
  then show "yields (ParseComparison p) e r"
    using q r(1) match_table_ahead(2) [of q ty v ys OPS] by (simp add: ParseComparison.simps)
qed

lemma cmp_not: "cmp_ok x e \<Longrightarrow> x \<noteq> [] \<Longrightarrow> fst (hd x) \<noteq> TK_NOT \<Longrightarrow> not_ok x e"
  unfolding not_ok_def
proof (intro allI impI)
  fix p r assume x: "cmp_ok x e" "x \<noteq> []" "fst (hd x) \<noteq> TK_NOT" "ahead p = x @ r" "stops 2 r"
  obtain ty v ys where "x = (ty, v) # ys" using x(2) by (cases x) auto
  then have "Match TK_NOT p = (Ok False, p)" using Match_ahead(2) [of p ty v "ys @ r"] x(3,4) by simp
  moreover have "stops 3 r" using x(5) stops_mono [of 2 r 3] by simp
  ultimately show "yields (ParseNot p) e r" using x(1,4) by (simp add: ParseNot.simps cmp_ok_def)
qed

lemma not_and: "not_ok x e \<Longrightarrow> and_ok x e"
  by (fastforce simp: not_ok_def and_ok_def yields_def ParseAnd.simps)

lemma and_loop_stops: "ahead q = r \<Longrightarrow> stops 1 r \<Longrightarrow> and_loop e q = (Ok e, q)"
  by (erule stopsE) (auto simp: and_loop.simps continues_def dest!: Match_ahead(2) [where ty = TK_AND])

lemma or_loop_stops: "ahead q = r \<Longrightarrow> stops 0 r \<Longrightarrow> or_loop e q = (Ok e, q)"
  by (erule stopsE) (auto simp: or_loop.simps continues_def dest!: Match_ahead(2) [where ty = TK_OR])

lemma and_or: "and_ok x e \<Longrightarrow> or_ok x e"
  unfolding or_ok_def
proof (intro allI impI)
  fix p r assume x: "and_ok x e" "ahead p = x @ r" "stops 1 r"
  then obtain q where "ahead q = r" "ParseAnd p = and_loop e q" using stops_mono [of 1 r 2] by (auto simp: and_ok_def)
  then show "\<exists>q. ahead q = r \<and> ParseOr p = or_loop e q" using and_loop_stops [of q r e] x(3) by (auto simp: ParseOr.simps)
qed

lemma or_expr: "or_ok x e \<Longrightarrow> ahead p = x @ r \<Longrightarrow> stops 0 r \<Longrightarrow> yields (ParseExpr p) e r"
  using or_loop_stops [of _ r e] stops_mono [of 0 r 1] by (fastforce simp: or_ok_def ParseExpr.simps)

lemma stops_rparen: "stops n ((TK_RPAREN, v) # r)"
  by (auto simp: stops_def continues_def OPS_def)

lemma paren_prim: "or_ok x e \<Longrightarrow> prim_ok (lparen @ x @ rparen) e"
  unfolding prim_ok_def
proof (intro allI impI)
  fix p r assume x: "or_ok x e" "ahead p = (lparen @ x @ rparen) @ r"
  obtain p1 where p1: "Match TK_LPAREN p = (Ok True, p1)" "ahead p1 = x @ rparen @ r"
    using Match_ahead(1) [of p TK_LPAREN _ "x @ rparen @ r"] x(2) by (auto simp: yields_def)
  obtain p2 where p2: "ParseExpr p1 = (Ok e, p2)" "ahead p2 = rparen @ r"
    using or_expr [OF x(1) p1(2)] stops_rparen by (auto simp: yields_def)
  obtain t p3 where "Expect TK_RPAREN (quoted_msg ''Expected '' '')'' '''') p2 = (Ok t, p3)" "ahead p3 = r"
    using Expect_ahead [of p2 TK_RPAREN _ r] p2(2) by fastforce
  then show "yields (ParsePrimary p) e r" using p1(1) p2(1) by (simp add: ParsePrimary.simps)
qed

text \<open>All levels, for tokens printed for each of them.\<close>

definition all_ok :: "(nat \<Rightarrow> word_token list) \<Rightarrow> Expr \<Rightarrow> bool" where
  "all_ok f e \<longleftrightarrow> prim_ok (f 4) e \<and> cmp_ok (f 3) e \<and> not_ok (f 2) e \<and> and_ok (f 1) e \<and> or_ok (f 0) e"

lemma all_ok_prim: "prim_ok x e \<Longrightarrow> x \<noteq> [] \<Longrightarrow> fst (hd x) \<noteq> TK_NOT \<Longrightarrow> (\<And>n. f n = x) \<Longrightarrow> all_ok f e"
  by (simp add: all_ok_def prim_cmp cmp_not not_and and_or)

lemma all_ok_cmp: "cmp_ok x e \<Longrightarrow> x \<noteq> [] \<Longrightarrow> fst (hd x) \<noteq> TK_NOT \<Longrightarrow> (\<And>n. f n = in_parens (3 < n) x) \<Longrightarrow> all_ok f e"
  by (simp add: all_ok_def in_parens_def paren_prim [simplified] cmp_not not_and and_or)

lemma all_ok_not: "not_ok x e \<Longrightarrow> (\<And>n. f n = in_parens (2 < n) x) \<Longrightarrow> all_ok f e"
  by (simp add: all_ok_def in_parens_def paren_prim [simplified] prim_cmp not_and and_or)

lemma all_ok_and: "and_ok x e \<Longrightarrow> (\<And>n. f n = in_parens (1 < n) x) \<Longrightarrow> all_ok f e"
  using cmp_not [OF prim_cmp [OF paren_prim [of x e]]]
  by (simp add: all_ok_def in_parens_def paren_prim [simplified] prim_cmp and_or)

lemma all_ok_or: "or_ok x e \<Longrightarrow> (\<And>n. f n = in_parens (0 < n) x) \<Longrightarrow> all_ok f e"
  using cmp_not [OF prim_cmp [OF paren_prim [of x e]]] not_and [of "lparen @ x @ rparen" e]
  by (simp add: all_ok_def in_parens_def paren_prim [simplified] prim_cmp)

text \<open>The operators.\<close>

lemma op_token_OPS: "s \<in> snd ` set OPS \<Longrightarrow> map_of OPS (fst (op_token s)) = Some s"
  by (auto simp: OPS_def op_token_def)

lemma op_stops: "s \<in> snd ` set OPS \<Longrightarrow> stops 4 (op_token s # r)"
  by (auto simp: OPS_def op_token_def stops_def continues_def)

lemma cmp_pair:
  assumes "prim_ok x l" and "prim_ok y r" and "s \<in> snd ` set OPS"
  shows "cmp_ok (x @ [op_token s] @ y) (BINARY_OP s l r)"
  unfolding cmp_ok_def
proof (intro allI impI)
  fix p z assume p: "ahead p = (x @ [op_token s] @ y) @ z" "stops 3 z"
  obtain p1 where p1: "ParsePrimary p = (Ok l, p1)" "ahead p1 = op_token s # y @ z"
    using prim_okD [OF assms(1), of p "op_token s # y @ z"] p(1) op_stops [OF assms(3)] by auto
  obtain p2 where p2: "match_table OPS p1 = (Ok (Some s), p2)" "ahead p2 = y @ z"
    using match_table_ahead(1) [of p1 "fst (op_token s)" "snd (op_token s)" "y @ z" OPS s] p1(2) op_token_OPS [OF assms(3)]
    by (auto simp: yields_def)
  obtain p3 where "ParsePrimary p2 = (Ok r, p3)" "ahead p3 = z"
    using assms(2) p2(2) stops_mono [OF p(2), of 4] by (auto simp: prim_ok_def yields_def)
  then show "yields (ParseComparison p) (BINARY_OP s l r) z" using p1(1) p2(1) by (simp add: ParseComparison.simps)
qed

lemma not_negation: "cmp_ok x e \<Longrightarrow> not_ok (kw TK_NOT ''NOT'' @ x) (UNARY_OP ''NOT'' e)"
  unfolding not_ok_def
proof (intro allI impI)
  fix p z assume p: "cmp_ok x e" "ahead p = (kw TK_NOT ''NOT'' @ x) @ z" "stops 2 z"
  obtain p1 where p1: "Match TK_NOT p = (Ok True, p1)" "ahead p1 = x @ z"
    using Match_ahead(1) [of p TK_NOT _ "x @ z"] p(2) by (auto simp: yields_def)
  obtain p2 where "ParseComparison p1 = (Ok e, p2)" "ahead p2 = z"
    using p(1,3) p1(2) stops_mono [of 2 z 3] by (auto simp: cmp_ok_def yields_def)
  then show "yields (ParseNot p) (UNARY_OP ''NOT'' e) z" using p1(1) by (simp add: ParseNot.simps)
qed

lemma stops_AND: "stops 2 ((TK_AND, v) # z)" and stops_OR: "stops 1 ((TK_OR, v) # z)"
  by (auto simp: stops_def continues_def OPS_def)

lemma and_conj:
  assumes "and_ok x l" and "not_ok y r"
  shows "and_ok (x @ kw TK_AND ''AND'' @ y) (BINARY_OP ''AND'' l r)"
  unfolding and_ok_def
proof (intro allI impI)
  fix p z assume p: "ahead p = (x @ kw TK_AND ''AND'' @ y) @ z" "stops 2 z"
  obtain p1 where p1: "ParseAnd p = and_loop l p1" "ahead p1 = kw TK_AND ''AND'' @ y @ z"
    using and_okD [OF assms(1), of p "kw TK_AND ''AND'' @ y @ z"] p(1) stops_AND by auto
  obtain p2 where p2: "Match TK_AND p1 = (Ok True, p2)" "ahead p2 = y @ z"
    using Match_ahead(1) [of p1 TK_AND _ "y @ z"] p1(2) by (auto simp: yields_def)
  obtain p3 where "ParseNot p2 = (Ok r, p3)" "ahead p3 = z"
    using assms(2) p2(2) p(2) by (auto simp: not_ok_def yields_def)
  then show "\<exists>q. ahead q = z \<and> ParseAnd p = and_loop (BINARY_OP ''AND'' l r) q"
    using p1(1) p2(1) by (auto simp: and_loop.simps [of l p1])
qed

lemma or_disj:
  assumes "or_ok x l" and "and_ok y r"
  shows "or_ok (x @ kw TK_OR ''OR'' @ y) (BINARY_OP ''OR'' l r)"
  unfolding or_ok_def
proof (intro allI impI)
  fix p z assume p: "ahead p = (x @ kw TK_OR ''OR'' @ y) @ z" "stops 1 z"
  obtain p1 where p1: "ParseOr p = or_loop l p1" "ahead p1 = kw TK_OR ''OR'' @ y @ z"
    using or_okD [OF assms(1), of p "kw TK_OR ''OR'' @ y @ z"] p(1) stops_OR by auto
  obtain p2 where p2: "Match TK_OR p1 = (Ok True, p2)" "ahead p2 = y @ z"
    using Match_ahead(1) [of p1 TK_OR _ "y @ z"] p1(2) by (auto simp: yields_def)
  obtain p3 where p3: "ParseAnd p2 = and_loop r p3" "ahead p3 = z"
    using assms(2) p2(2) stops_mono [OF p(2), of 2] by (auto simp: and_ok_def)
  then show "\<exists>q. ahead q = z \<and> ParseOr p = or_loop (BINARY_OP ''OR'' l r) q"
    using p1(1) p2(1) and_loop_stops [OF p3(2) p(2), of r] by (auto simp: or_loop.simps [of l p1])
qed

text \<open>Integer literals.\<close>

lemma isdigit_digit_char: "n < 10 \<Longrightarrow> isdigit (digit_char n) \<and> ccode (digit_char n) - 48 = n"
  by (simp add: isdigit_def digit_char_def)

lemma digits_val_append: "digits_val acc (xs @ ys) = digits_val (digits_val acc xs) ys"
  by (induction xs arbitrary: acc) auto

lemma show_nat_number: "list_all isdigit (show_nat n) \<and> show_nat n \<noteq> [] \<and> digits_val 0 (show_nat n) = n"
proof (induction n rule: show_nat.induct)
  case (1 n)
  have d: "isdigit (digit_char (n mod 10))" "ccode (digit_char (n mod 10)) - 48 = n mod 10"
    using isdigit_digit_char [of "n mod 10"] by simp_all
  show ?case
  proof (cases "n < 10")
    case True
    then show ?thesis using d by (simp add: show_nat.simps [of n])
  next
    case False
    then show ?thesis using 1 d by (simp add: show_nat.simps [of n] digits_val_append)
  qed
qed

lemma stoi_digits:
  assumes "list_all isdigit s" and "s \<noteq> []" and "int (digits_val 0 s) \<le> INT32_MAX"
  shows "stoi s = Ok (mk32 (int (digits_val 0 s)))"
proof -
  obtain c cs where s: "s = c # cs" using assms(2) by (cases s) auto
  then have c: "\<not> isspace c" "c \<noteq> CHR ''-''" "c \<noteq> CHR ''+''"
    using assms(1) char_classes(1,9) [of c] by (auto simp: isdigit_def)
  then have "dropWhile isspace s = s" using s by simp
  moreover have "takeWhile isdigit s = s" using assms(1) by (simp add: takeWhile_eq_all_conv list_all_iff)
  moreover have "INT32_MIN \<le> int (digits_val 0 s)" by (simp add: INT32_MIN_def)
  ultimately show ?thesis using s c assms(3) by (simp add: stoi_def Let_def)
qed

lemma stoi_show_int: "0 \<le> ival i \<Longrightarrow> stoi (show_int (ival i)) = Ok i"
  using stoi_digits [of "show_nat (nat (ival i))"] show_nat_number [of "nat (ival i)"] ival_bounds(2) [of i]
  by (simp add: show_int_def)

text \<open>The primaries.\<close>

lemma Match_LPAREN_STAR:
  assumes "ahead p = (ty, v) # xs" and "ty \<noteq> TK_LPAREN" and "ty \<noteq> TK_STAR"
  shows "ParsePrimary p = bind_res (parse_literal p) (\<lambda>lit p3. case lit of Some e \<Rightarrow> (Ok e, p3)
     | None \<Rightarrow> bind_res (match_table AGG_NAMES p3) (\<lambda>agg p4. case agg of
         Some name \<Rightarrow>
           bind_res (Expect TK_LPAREN (quoted_msg ''Expected '' ''('' ('' after '' @ name)) p4) (\<lambda>_ p5.
           bind_res (Match TK_STAR p5) (\<lambda>star p6.
             if star then bind_res (Expect TK_RPAREN (quoted_msg ''Expected '' '')'' '''') p6) (\<lambda>_ p7. (Ok (AGGREGATE name None), p7))
             else bind_res (ParseExpr p6) (\<lambda>e p7.
               bind_res (Expect TK_RPAREN (quoted_msg ''Expected '' '')'' '''') p7) (\<lambda>_ p8. (Ok (AGGREGATE name (Some e)), p8)))))
       | None \<Rightarrow> parse_column p4))"
  using Match_ahead(2) [OF assms(1), of TK_LPAREN] Match_ahead(2) [OF assms(1), of TK_STAR] assms(2,3)
  by (simp add: ParsePrimary.simps [of p])

lemma prim_star: "prim_ok (kw TK_STAR ''*'') STAR"
  unfolding prim_ok_def
proof (intro allI impI)
  fix p z assume p: "ahead p = kw TK_STAR ''*'' @ z"
  then obtain q where "Match TK_STAR p = (Ok True, q)" "ahead q = z" "Match TK_LPAREN p = (Ok False, p)"
    using Match_ahead [of p TK_STAR "''*''" z] by (auto simp: yields_def)
  then show "yields (ParsePrimary p) STAR z" by (simp add: ParsePrimary.simps)
qed

lemma prim_int: "0 \<le> ival i \<Longrightarrow> prim_ok (kw TK_INT_LITERAL (show_int (ival i))) (INT_LITERAL i)"
  unfolding prim_ok_def
proof (intro allI impI)
  fix p z assume p: "0 \<le> ival i" "ahead p = kw TK_INT_LITERAL (show_int (ival i)) @ z"
  then obtain t q where "Consume p = (Ok t, q)" "tok_value t = show_int (ival i)" "ahead q = z"
    using Consume_ahead [of p] by fastforce
  then have "yields (parse_literal p) (Some (INT_LITERAL i)) z"
    using p Check_ahead [of p TK_INT_LITERAL] stoi_show_int [of i] by (simp add: parse_literal_def lift_out_def)
  then show "yields (ParsePrimary p) (INT_LITERAL i) z"
    using p Match_LPAREN_STAR [of p TK_INT_LITERAL "show_int (ival i)" z] by (auto simp: yields_def)
qed

lemma prim_string: "prim_ok (kw TK_STRING_LITERAL s) (STRING_LITERAL s)"
  unfolding prim_ok_def
proof (intro allI impI)
  fix p z assume p: "ahead p = kw TK_STRING_LITERAL s @ z"
  then obtain t q where "Consume p = (Ok t, q)" "tok_value t = s" "ahead q = z"
    using Consume_ahead [of p] by fastforce
  then have "yields (parse_literal p) (Some (STRING_LITERAL s)) z"
    using p Check_ahead [of p TK_STRING_LITERAL] by (simp add: parse_literal_def)
  then show "yields (ParsePrimary p) (STRING_LITERAL s) z"
    using p Match_LPAREN_STAR [of p TK_STRING_LITERAL s z] by (auto simp: yields_def)
qed

lemma parse_literal_none:
  "ahead p = (ty, v) # xs \<Longrightarrow> ty \<noteq> TK_INT_LITERAL \<Longrightarrow> ty \<noteq> TK_STRING_LITERAL \<Longrightarrow> parse_literal p = (Ok None, p)"
  by (simp add: parse_literal_def Check_ahead)

lemma prim_column:
  "prim_ok (kw TK_IDENTIFIER c) (COLUMN_REF '''' c)"
  "prim_ok (kw TK_IDENTIFIER t @ kw TK_DOT ''.'' @ kw TK_IDENTIFIER c) (COLUMN_REF t c)"
proof -
  have col: "ParsePrimary p = parse_column p" if "ahead p = (TK_IDENTIFIER, v) # xs" for p v xs
    using that Match_LPAREN_STAR [OF that] parse_literal_none [OF that] match_table_ahead(2) [OF that, of AGG_NAMES]
    by (simp add: AGG_NAMES_def)
  show "prim_ok (kw TK_IDENTIFIER c) (COLUMN_REF '''' c)"
    unfolding prim_ok_def
  proof (intro allI impI)
    fix p z assume p: "ahead p = kw TK_IDENTIFIER c @ z" "stops 4 z"
    obtain u q where q: "Consume p = (Ok u, q)" "tok_value u = c" "ahead q = z" using Consume_ahead [of p] p(1) by fastforce
    obtain ty v ys where "z = (ty, v) # ys" "ty \<noteq> TK_DOT" using p(2) by (rule stopsE) (auto simp: continues_def)
    then have "Match TK_DOT q = (Ok False, q)" using q(3) Match_ahead(2) by blast
    then show "yields (ParsePrimary p) (COLUMN_REF '''' c) z"
      using p(1) q Check_ahead [of p TK_IDENTIFIER] col [of p c z] by (simp add: parse_column_def)
  qed
  show "prim_ok (kw TK_IDENTIFIER t @ kw TK_DOT ''.'' @ kw TK_IDENTIFIER c) (COLUMN_REF t c)"
    unfolding prim_ok_def
  proof (intro allI impI)
    fix p z assume p: "ahead p = (kw TK_IDENTIFIER t @ kw TK_DOT ''.'' @ kw TK_IDENTIFIER c) @ z"
    obtain u q where q: "Consume p = (Ok u, q)" "tok_value u = t" "ahead q = kw TK_DOT ''.'' @ kw TK_IDENTIFIER c @ z"
      using Consume_ahead [of p] p by fastforce
    obtain q1 where q1: "Match TK_DOT q = (Ok True, q1)" "ahead q1 = kw TK_IDENTIFIER c @ z"
      using Match_ahead(1) [of q TK_DOT] q(3) by (fastforce simp: yields_def)
    obtain w q2 where "Expect TK_IDENTIFIER (quoted_msg ''Expected column name after '' ''.'' '''') q1 = (Ok w, q2)"
        "tok_value w = c" "ahead q2 = z"
      using Expect_ahead [of q1 TK_IDENTIFIER c z] q1(2) by fastforce
    then show "yields (ParsePrimary p) (COLUMN_REF t c) z"
      using p q q1 Check_ahead [of p TK_IDENTIFIER] col [of p t] by (simp add: parse_column_def)
  qed
qed

lemma agg_token_AGG:
  assumes "f \<in> snd ` set AGG_NAMES"
  shows "map_of AGG_NAMES (fst (agg_token f)) = Some f"
    "fst (agg_token f) \<notin> {TK_LPAREN, TK_STAR, TK_INT_LITERAL, TK_STRING_LITERAL, TK_NOT}"
  using assms by (auto simp: AGG_NAMES_def agg_token_def)

lemma prim_aggregate:
  assumes "f \<in> snd ` set AGG_NAMES"
  shows "prim_ok ([agg_token f] @ lparen @ kw TK_STAR ''*'' @ rparen) (AGGREGATE f None)"
    "or_ok x e \<Longrightarrow> x \<noteq> [] \<Longrightarrow> fst (hd x) \<noteq> TK_STAR \<Longrightarrow>
       prim_ok ([agg_token f] @ lparen @ x @ rparen) (AGGREGATE f (Some e))"
proof -
  let ?m = "quoted_msg ''Expected '' ''('' ('' after '' @ f)" and ?r = "quoted_msg ''Expected '' '')'' ''''"
  have start: "\<exists>p1 u p2. parse_literal p = (Ok None, p) \<and> match_table AGG_NAMES p = (Ok (Some f), p1) \<and>
      Expect TK_LPAREN ?m p1 = (Ok u, p2) \<and> ahead p2 = xs"
    if p: "ahead p = [agg_token f] @ lparen @ xs" for p xs
  proof -
    have a: "ahead p = (fst (agg_token f), snd (agg_token f)) # lparen @ xs" using p by simp
    have "parse_literal p = (Ok None, p)" using parse_literal_none [OF a] agg_token_AGG(2) [OF assms] by simp
    moreover obtain p1 where p1: "match_table AGG_NAMES p = (Ok (Some f), p1)" "ahead p1 = lparen @ xs"
      using match_table_ahead(1) [OF a agg_token_AGG(1) [OF assms]] by (auto simp: yields_def)
    moreover obtain u p2 where "Expect TK_LPAREN ?m p1 = (Ok u, p2)" "ahead p2 = xs"
      using Expect_ahead [of p1 TK_LPAREN "''(''" xs ?m] p1(2) by auto
    ultimately show ?thesis by blast
  qed
  have prim: "ParsePrimary p = bind_res (Match TK_STAR p2) (\<lambda>star p6.
             if star then bind_res (Expect TK_RPAREN ?r p6) (\<lambda>_ p7. (Ok (AGGREGATE f None), p7))
             else bind_res (ParseExpr p6) (\<lambda>e p7. bind_res (Expect TK_RPAREN ?r p7) (\<lambda>_ p8. (Ok (AGGREGATE f (Some e)), p8))))"
    if "ahead p = [agg_token f] @ lparen @ xs" and "parse_literal p = (Ok None, p)"
      and "match_table AGG_NAMES p = (Ok (Some f), p1)" and "Expect TK_LPAREN ?m p1 = (Ok u, p2)" for p xs p1 u p2
    using Match_LPAREN_STAR [of p "fst (agg_token f)" "snd (agg_token f)" "lparen @ xs"] agg_token_AGG(2) [OF assms] that
    by simp
  show "prim_ok ([agg_token f] @ lparen @ kw TK_STAR ''*'' @ rparen) (AGGREGATE f None)"
    unfolding prim_ok_def
  proof (intro allI impI)
    fix p z assume p: "ahead p = ([agg_token f] @ lparen @ kw TK_STAR ''*'' @ rparen) @ z"
    then have a: "ahead p = [agg_token f] @ lparen @ (kw TK_STAR ''*'' @ rparen @ z)" by simp
    obtain p1 u p2 where h: "parse_literal p = (Ok None, p)" "match_table AGG_NAMES p = (Ok (Some f), p1)"
        "Expect TK_LPAREN ?m p1 = (Ok u, p2)" "ahead p2 = kw TK_STAR ''*'' @ rparen @ z" using start [OF a] by blast
    obtain p3 where p3: "Match TK_STAR p2 = (Ok True, p3)" "ahead p3 = rparen @ z"
      using Match_ahead(1) [of p2 TK_STAR "''*''" "rparen @ z"] h(4) by (auto simp: yields_def)
    obtain w p4 where "Expect TK_RPAREN ?r p3 = (Ok w, p4)" "ahead p4 = z"
      using Expect_ahead [of p3 TK_RPAREN "'')''" z ?r] p3(2) by auto
    then show "yields (ParsePrimary p) (AGGREGATE f None) z" using prim [OF a h(1,2,3)] p3(1) by simp
  qed
  show "prim_ok ([agg_token f] @ lparen @ x @ rparen) (AGGREGATE f (Some e))"
    if x: "or_ok x e" "x \<noteq> []" "fst (hd x) \<noteq> TK_STAR"
    unfolding prim_ok_def
  proof (intro allI impI)
    fix p z assume p: "ahead p = ([agg_token f] @ lparen @ x @ rparen) @ z"
    then have a: "ahead p = [agg_token f] @ lparen @ (x @ rparen @ z)" by simp
    obtain p1 u p2 where h: "parse_literal p = (Ok None, p)" "match_table AGG_NAMES p = (Ok (Some f), p1)"
        "Expect TK_LPAREN ?m p1 = (Ok u, p2)" "ahead p2 = x @ rparen @ z" using start [OF a] by blast
    have "Match TK_STAR p2 = (Ok False, p2)"
      using Match_ahead(2) [of p2 "fst (hd x)" "snd (hd x)" "tl x @ rparen @ z" TK_STAR] x(2,3) h(4) by (cases x) auto
    moreover obtain p3 where p3: "ParseExpr p2 = (Ok e, p3)" "ahead p3 = rparen @ z"
      using or_expr [OF x(1) h(4)] stops_rparen by (auto simp: yields_def)
    moreover obtain w p4 where "Expect TK_RPAREN ?r p3 = (Ok w, p4)" "ahead p4 = z"
      using Expect_ahead [of p3 TK_RPAREN "'')''" z ?r] p3(2) by auto
    ultimately show "yields (ParsePrimary p) (AGGREGATE f (Some e)) z" using prim [OF a h(1,2,3)] by simp
  qed
qed

lemma print_at_hd: "printable e \<Longrightarrow> print_at n e \<noteq> [] \<and> (3 \<le> n \<longrightarrow> fst (hd (print_at n e)) \<noteq> TK_NOT)"
  by (induction n e rule: print_at.induct) (auto simp: in_parens_def AGG_NAMES_def agg_token_def)

text \<open>Every printable expression is parsed back at every level.\<close>

lemma print_parse: "printable e \<Longrightarrow> all_ok (\<lambda>n. print_at n e) e"
proof (induction e rule: printable.induct)
  case (1 t c)
  show ?case using prim_column by (intro all_ok_prim [where x = "print_at 4 (COLUMN_REF t c)"]) auto
next
  case (2 i)
  then show ?case using prim_int [of i] by (intro all_ok_prim) auto
next
  case (3 s)
  show ?case using prim_string by (intro all_ok_prim) auto
next
  case 4
  show ?case using prim_star by (intro all_ok_prim) auto
next
  case (5 f)
  then show ?case using prim_aggregate(1) [of f] agg_token_AGG(2) [of f] by (intro all_ok_prim) auto
next
  case (6 f e)
  then have "prim_ok ([agg_token f] @ lparen @ print_at 0 e @ rparen) (AGGREGATE f (Some e))"
    using prim_aggregate(2) [of f "print_at 0 e" e] print_at_hd [of e 0] by (simp add: all_ok_def)
  then show ?case using 6(2) agg_token_AGG(2) [of f] by (intro all_ok_prim) auto
next
  case (7 op e)
  then have "not_ok (kw TK_NOT ''NOT'' @ print_at 3 e) (UNARY_OP op e)" using not_negation [of "print_at 3 e" e] by (simp add: all_ok_def)
  then show ?case by (rule all_ok_not) simp
next
  case (8 op l r)
  then have IH: "all_ok (\<lambda>n. print_at n l) l" "all_ok (\<lambda>n. print_at n r) r" by auto
  consider "op = ''OR''" | "op = ''AND''" | "op \<in> snd ` set OPS" "op \<noteq> ''OR''" "op \<noteq> ''AND''" using 8(3) by auto
  then show ?case
  proof cases
    case 1
    then show ?thesis
      using or_disj [of "print_at 0 l" l "print_at 1 r" r] IH by (intro all_ok_or) (auto simp: all_ok_def)
  next
    case 2
    then show ?thesis
      using and_conj [of "print_at 1 l" l "print_at 2 r" r] IH by (intro all_ok_and) (auto simp: all_ok_def)
  next
    case 3
    then show ?thesis
      using cmp_pair [of "print_at 4 l" l "print_at 4 r" r op] IH print_at_hd [of l 4] 8(3)
      by (intro all_ok_cmp) (auto simp: all_ok_def)
  qed
qed

lemma print_expr_parse: "printable e \<Longrightarrow> ahead p = print_at 0 e @ r \<Longrightarrow> stops 0 r \<Longrightarrow> yields (ParseExpr p) e r"
  using print_parse [of e] or_expr [of "print_at 0 e" e p r] by (simp add: all_ok_def)

lemma print_primary_parse: "printable e \<Longrightarrow> ahead p = print_at 4 e @ r \<Longrightarrow> stops 4 r \<Longrightarrow> yields (ParsePrimary p) e r"
  using print_parse [of e] by (simp add: all_ok_def prim_ok_def)

section \<open>Comma-separated lists\<close>

fun commas :: "('a \<Rightarrow> word_token list) \<Rightarrow> 'a list \<Rightarrow> word_token list" where
  "commas f [] = []"
| "commas f [x] = f x"
| "commas f (x # y # ys) = f x @ kw TK_COMMA '','' @ commas f (y # ys)"

text \<open>The contract of a list loop: it parses an item, and goes on after a comma. \<open>stop r\<close> says that an
  item ends before the tokens \<open>r\<close>.\<close>

locale comma_list =
  fixes items :: "Parser \<Rightarrow> ('a list, Parser) res"
    and item :: "Parser \<Rightarrow> ('a, Parser) res"
    and print_item :: "'a \<Rightarrow> word_token list"
    and good :: "'a \<Rightarrow> bool"
    and stop :: "word_token list \<Rightarrow> bool"
  assumes items_eq: "items p = bind_res (item p) (\<lambda>c p1. bind_res (Match TK_COMMA p1) (\<lambda>m p2.
      if m then bind_res (items p2) (\<lambda>cs p3. (Ok (c # cs), p3)) else (Ok [c], p2)))"
    and item_ok: "good x \<Longrightarrow> ahead p = print_item x @ r \<Longrightarrow> stop r \<Longrightarrow> yields (item p) x r"
    and stop_comma: "stop ((TK_COMMA, v) # r)"
    and stop_not_Nil: "stop r \<Longrightarrow> r \<noteq> []"
begin

lemma items_ok:
  "xs \<noteq> [] \<Longrightarrow> \<forall>x \<in> set xs. good x \<Longrightarrow> ahead p = commas print_item xs @ r \<Longrightarrow> stop r \<Longrightarrow> fst (hd r) \<noteq> TK_COMMA \<Longrightarrow>
   yields (items p) xs r"
proof (induction xs arbitrary: p rule: list_nonempty_induct)
  case (single x)
  obtain q where q: "item p = (Ok x, q)" "ahead q = r" using item_ok [of x p r] single by (auto simp: yields_def)
  obtain ty v ys where "r = (ty, v) # ys" using stop_not_Nil [OF single(3)] by (cases r) auto
  then have "Match TK_COMMA q = (Ok False, q)" using Match_ahead(2) [of q ty v ys] q(2) single(4) by simp
  then show ?case using q by (simp add: items_eq [of p])
next
  case (cons x xs)
  let ?r = "commas print_item xs @ r"
  have c: "commas print_item (x # xs) = print_item x @ kw TK_COMMA '','' @ commas print_item xs"
    using cons(1) by (cases xs) auto
  obtain q where q: "item p = (Ok x, q)" "ahead q = kw TK_COMMA '','' @ ?r"
    using item_ok [of x p "kw TK_COMMA '','' @ ?r"] cons.prems stop_comma c by (auto simp: yields_def)
  obtain q1 where q1: "Match TK_COMMA q = (Ok True, q1)" "ahead q1 = ?r"
    using Match_ahead(1) [of q TK_COMMA _ ?r] q(2) by (auto simp: yields_def)
  obtain q2 where "items q1 = (Ok xs, q2)" "ahead q2 = r" using cons.IH [OF _ q1(2)] cons.prems by (auto simp: yields_def)
  then show ?case using q(1) q1(1) by (simp add: items_eq [of p])
qed

end

section \<open>Printing statements\<close>

definition print_type :: "TypeId \<Rightarrow> u16 \<Rightarrow> word_token list" where
  "print_type ty n = (if ty = T_INT then kw TK_INT_KW ''INT''
     else kw TK_VARCHAR_KW ''VARCHAR'' @ lparen @ kw TK_INT_LITERAL (show_nat (unat n)) @ rparen)"

definition print_column_def :: "ColumnDef \<Rightarrow> word_token list" where
  "print_column_def c = kw TK_IDENTIFIER (cd_name c) @ print_type (cd_type c) (cd_max_len c)"

definition print_as :: "string \<Rightarrow> word_token list" where
  "print_as a = (if a = '''' then [] else kw TK_AS ''AS'' @ kw TK_IDENTIFIER a)"

definition print_item :: "SelectItem \<Rightarrow> word_token list" where
  "print_item i = print_at 0 (si_expr i) @ print_as (si_alias i)"

definition print_join :: "JoinClause \<Rightarrow> word_token list" where
  "print_join j = kw TK_IDENTIFIER (jc_table_name j) @ print_as (jc_alias j) @ kw TK_ON ''ON'' @ print_at 0 (jc_condition j)"

definition print_order_item :: "OrderByItem \<Rightarrow> word_token list" where
  "print_order_item i = print_at 4 (ob_expr i) @ (if ob_ascending i then [] else kw TK_DESC ''DESC'')"

definition print_select :: "SelectStmt \<Rightarrow> word_token list" where
  "print_select s = commas print_item (select_list s) @ kw TK_FROM ''FROM'' @ kw TK_IDENTIFIER (from_table s) @
     print_as (from_alias s) @ concat (map (\<lambda>j. kw TK_JOIN ''JOIN'' @ print_join j) (joins s)) @
     (case where_clause s of None \<Rightarrow> [] | Some e \<Rightarrow> kw TK_WHERE ''WHERE'' @ print_at 0 e) @
     (if group_by s = [] then [] else kw TK_GROUP ''GROUP'' @ kw TK_BY ''BY'' @ commas (print_at 4) (group_by s)) @
     (if order_by s = [] then [] else kw TK_ORDER ''ORDER'' @ kw TK_BY ''BY'' @ commas print_order_item (order_by s))"

fun statement_tokens :: "Statement \<Rightarrow> word_token list" where
  "statement_tokens (CreateTable s) = kw TK_CREATE ''CREATE'' @ kw TK_TABLE ''TABLE'' @ kw TK_IDENTIFIER (ct_table_name s) @
     lparen @ commas print_column_def (ct_columns s) @ rparen"
| "statement_tokens (InsertInto s) = kw TK_INSERT ''INSERT'' @ kw TK_INTO ''INTO'' @ kw TK_IDENTIFIER (in_table_name s) @
     kw TK_VALUES ''VALUES'' @ lparen @ commas (print_at 4) (in_values s) @ rparen"
| "statement_tokens (Select s) = kw TK_SELECT ''SELECT'' @ print_select s"
| "statement_tokens (Explain s) = kw TK_EXPLAIN ''EXPLAIN'' @ kw TK_SELECT ''SELECT'' @ print_select s"

definition select_printable :: "SelectStmt \<Rightarrow> bool" where
  "select_printable s \<longleftrightarrow> select_list s \<noteq> [] \<and> (\<forall>i \<in> set (select_list s). printable (si_expr i)) \<and>
     (\<forall>j \<in> set (joins s). printable (jc_condition j)) \<and> (\<forall>e. where_clause s = Some e \<longrightarrow> printable e) \<and>
     (\<forall>e \<in> set (group_by s). printable e) \<and> (\<forall>i \<in> set (order_by s). printable (ob_expr i))"

fun statement_printable :: "Statement \<Rightarrow> bool" where
  "statement_printable (CreateTable s) = (ct_columns s \<noteq> [] \<and> (\<forall>c \<in> set (ct_columns s). cd_type c = T_INT \<longrightarrow> cd_max_len c = 0))"
| "statement_printable (InsertInto s) = (in_values s \<noteq> [] \<and> (\<forall>e \<in> set (in_values s). printable e))"
| "statement_printable (Select s) = select_printable s"
| "statement_printable (Explain s) = select_printable s"

section \<open>Statements are parsed back\<close>

lemma Match_yes: "ahead p = (ty, v) # xs \<Longrightarrow> \<exists>q. Match ty p = (Ok True, q) \<and> ahead q = xs"
  using Match_ahead(1) [of p ty v xs ty] by (auto simp: yields_def)

lemma Match_no: "ahead p = (ty', v) # xs \<Longrightarrow> ty' \<noteq> ty \<Longrightarrow> Match ty p = (Ok False, p)"
  by (rule Match_ahead(2))

lemma stoi_show_nat: "int n \<le> INT32_MAX \<Longrightarrow> stoi (show_nat n) = Ok (mk32 (int n))"
  using stoi_digits [of "show_nat n"] show_nat_number [of n] by simp

lemma max_len_back: "ucast (bits32 (mk32 (int (unat (n :: u16))))) = n"
  by (rule bit_word_eqI) (auto simp: mk32_def bit_simps)

lemma parse_type_ok:
  assumes "ahead p = print_type ty n @ r" and "ty = T_INT \<Longrightarrow> n = 0"
  shows "yields (parse_type p) (ty, n) r"
proof (cases "ty = T_INT")
  case True
  then show ?thesis
    using assms Match_yes [of p TK_INT_KW "''INT''" r] by (auto simp: print_type_def parse_type_def)
next
  case False
  then have ty: "ty = T_VARCHAR" by (cases ty) auto
  have p: "ahead p = kw TK_VARCHAR_KW ''VARCHAR'' @ lparen @ kw TK_INT_LITERAL (show_nat (unat n)) @ rparen @ r"
    using assms(1) False by (simp add: print_type_def)
  have m: "Match TK_INT_KW p = (Ok False, p)" using Match_no [of p TK_VARCHAR_KW] p by auto
  obtain p1 where p1: "Match TK_VARCHAR_KW p = (Ok True, p1)" "ahead p1 = lparen @ kw TK_INT_LITERAL (show_nat (unat n)) @ rparen @ r"
    using Match_yes [of p TK_VARCHAR_KW] p by auto
  obtain t2 p2 where p2: "Expect TK_LPAREN (quoted_msg ''Expected '' ''('' '' after VARCHAR'') p1 = (Ok t2, p2)"
      "ahead p2 = kw TK_INT_LITERAL (show_nat (unat n)) @ rparen @ r"
    using Expect_ahead [of p1 TK_LPAREN] p1(2) by fastforce
  obtain t3 p3 where p3: "Expect TK_INT_LITERAL ''Expected length'' p2 = (Ok t3, p3)" "tok_value t3 = show_nat (unat n)"
      "ahead p3 = rparen @ r"
    using Expect_ahead [of p2 TK_INT_LITERAL] p2(2) by fastforce
  obtain t4 p4 where p4: "Expect TK_RPAREN (quoted_msg ''Expected '' '')'' '''') p3 = (Ok t4, p4)" "ahead p4 = r"
    using Expect_ahead [of p3 TK_RPAREN] p3(3) by fastforce
  have "int (unat n) \<le> INT32_MAX" using unsigned_less [of n, where 'a = int] by (simp add: INT32_MAX_def)
  then have "stoi (tok_value t3) = Ok (mk32 (int (unat n)))" using p3(2) stoi_show_nat by simp
  then show ?thesis
    using m p1(1) p2(1) p3(1) p4 ty max_len_back [of n] by (simp add: parse_type_def lift_out_def)
qed

lemma column_def_ok:
  assumes "ahead p = print_column_def c @ r" and "cd_type c = T_INT \<longrightarrow> cd_max_len c = 0"
  shows "yields (parse_column_def p) c r"
proof -
  obtain t q where q: "Expect TK_IDENTIFIER ''Expected column name'' p = (Ok t, q)" "tok_value t = cd_name c"
      "ahead q = print_type (cd_type c) (cd_max_len c) @ r"
    using Expect_ahead [of p TK_IDENTIFIER] assms(1) by (fastforce simp: print_column_def_def)
  then show ?thesis
    using parse_type_ok [OF q(3)] assms(2) by (auto simp: parse_column_def_def yields_def)
qed

lemma stops_types: "ty \<in> {TK_COMMA, TK_RPAREN, TK_AS, TK_FROM, TK_ON, TK_JOIN, TK_WHERE, TK_GROUP, TK_ORDER, TK_DESC, TK_ASC, TK_SEMICOLON, TK_EOF} \<Longrightarrow>
    stops n ((ty, v) # r)"
  by (auto simp: stops_def continues_def OPS_def)

text \<open>Tokens an item of a select list or a clause can be followed by.\<close>

definition ends :: "TokenType set \<Rightarrow> word_token list \<Rightarrow> bool" where
  "ends T r \<longleftrightarrow> r \<noteq> [] \<and> fst (hd r) \<in> T"

abbreviation after_clause :: "TokenType set" where
  "after_clause \<equiv> {TK_JOIN, TK_WHERE, TK_GROUP, TK_ORDER, TK_SEMICOLON, TK_EOF}"

lemma ends_stops:
  "ends T r \<Longrightarrow> T \<subseteq> {TK_COMMA, TK_RPAREN, TK_AS, TK_FROM, TK_ON, TK_JOIN, TK_WHERE, TK_GROUP, TK_ORDER, TK_DESC, TK_ASC, TK_SEMICOLON, TK_EOF} \<Longrightarrow>
   stops n r"
  by (cases r) (auto simp: ends_def intro: stops_types)

lemma ends_no_match: "ends T r \<Longrightarrow> ahead p = r \<Longrightarrow> ty \<notin> T \<Longrightarrow> Match ty p = (Ok False, p)"
  by (cases r) (auto simp: ends_def intro: Match_no)

lemma item_print_ok:
  assumes "printable (si_expr i)" and "ahead p = print_item i @ r" and "ends {TK_COMMA, TK_FROM} r"
  shows "yields (ParseSelectItem p) i r"
proof (cases "si_alias i = ''''")
  case True
  then obtain q where q: "ParseExpr p = (Ok (si_expr i), q)" "ahead q = r"
    using print_expr_parse [OF assms(1), of p r] assms(2) ends_stops [OF assms(3), of 0]
    by (auto simp: print_item_def print_as_def yields_def)
  then show ?thesis using ends_no_match [OF assms(3) q(2), of TK_AS] True by (simp add: ParseSelectItem_def)
next
  case False
  let ?as = "kw TK_AS ''AS'' @ kw TK_IDENTIFIER (si_alias i) @ r"
  obtain q where q: "ParseExpr p = (Ok (si_expr i), q)" "ahead q = ?as"
    using print_expr_parse [OF assms(1), of p ?as] assms(2) stops_types [of TK_AS 0] False
    by (auto simp: print_item_def print_as_def yields_def)
  obtain q1 where q1: "Match TK_AS q = (Ok True, q1)" "ahead q1 = kw TK_IDENTIFIER (si_alias i) @ r"
    using Match_yes [of q TK_AS] q(2) by auto
  obtain t q2 where "Expect TK_IDENTIFIER ''Expected alias'' q1 = (Ok t, q2)" "tok_value t = si_alias i" "ahead q2 = r"
    using Expect_ahead [of q1 TK_IDENTIFIER] q1(2) by fastforce
  then show ?thesis using q(1) q1(1) by (simp add: ParseSelectItem_def)
qed

lemma alias_ok:
  assumes "ahead p = print_as a @ r" and "r \<noteq> []" and "fst (hd r) \<noteq> TK_AS" and "fst (hd r) \<noteq> TK_IDENTIFIER"
  shows "yields (parse_alias p) a r"
proof (cases "a = ''''")
  case True
  obtain ty v xs where "r = (ty, v) # xs" using assms(2) by (cases r) auto
  with True assms show ?thesis
    using Match_no [of p ty v xs TK_AS] Check_ahead [of p ty v xs TK_IDENTIFIER] by (simp add: print_as_def parse_alias_def)
next
  case False
  then obtain q1 where q1: "Match TK_AS p = (Ok True, q1)" "ahead q1 = kw TK_IDENTIFIER a @ r"
    using Match_yes [of p TK_AS] assms(1) by (auto simp: print_as_def)
  obtain t q2 where "Expect TK_IDENTIFIER ''Expected alias'' q1 = (Ok t, q2)" "tok_value t = a" "ahead q2 = r"
    using Expect_ahead [of q1 TK_IDENTIFIER] q1(2) by fastforce
  then show ?thesis using q1(1) by (simp add: parse_alias_def)
qed

lemma join_ok:
  assumes "printable (jc_condition j)" and "ahead p = print_join j @ r" and "ends after_clause r"
  shows "yields (parse_join p) j r"
proof -
  let ?on = "kw TK_ON ''ON'' @ print_at 0 (jc_condition j) @ r"
  obtain t q where q: "Expect TK_IDENTIFIER ''Expected table name'' p = (Ok t, q)" "tok_value t = jc_table_name j"
      "ahead q = print_as (jc_alias j) @ ?on"
    using Expect_ahead [of p TK_IDENTIFIER] assms(2) by (fastforce simp: print_join_def)
  obtain q1 where q1: "parse_alias q = (Ok (jc_alias j), q1)" "ahead q1 = ?on"
    using alias_ok [OF q(3)] by (auto simp: yields_def)
  obtain u q2 where q2: "Expect TK_ON ''Expected ON'' q1 = (Ok u, q2)" "ahead q2 = print_at 0 (jc_condition j) @ r"
    using Expect_ahead [of q1 TK_ON] q1(2) by fastforce
  obtain q3 where "ParseExpr q2 = (Ok (jc_condition j), q3)" "ahead q3 = r"
    using print_expr_parse [OF assms(1) q2(2)] ends_stops [OF assms(3)] by (auto simp: yields_def)
  then show ?thesis using q(1,2) q1(1) q2(1) by (simp add: parse_join_def)
qed

lemma order_item_ok:
  assumes "printable (ob_expr i)" and "ahead p = print_order_item i @ r" and "ends {TK_COMMA, TK_SEMICOLON, TK_EOF} r"
  shows "yields (parse_order_item p) i r"
proof (cases "ob_ascending i")
  case True
  then obtain q where q: "ParsePrimary p = (Ok (ob_expr i), q)" "ahead q = r"
    using print_primary_parse [OF assms(1), of p r] assms(2) ends_stops [OF assms(3), of 4]
    by (auto simp: print_order_item_def yields_def)
  then show ?thesis
    using ends_no_match [OF assms(3) q(2)] True by (simp add: parse_order_item_def)
next
  case False
  then obtain q where q: "ParsePrimary p = (Ok (ob_expr i), q)" "ahead q = kw TK_DESC ''DESC'' @ r"
    using print_primary_parse [OF assms(1), of p "kw TK_DESC ''DESC'' @ r"] assms(2) stops_types [of TK_DESC 4]
    by (auto simp: print_order_item_def yields_def)
  then show ?thesis using Match_yes [of q TK_DESC] False by (auto simp: parse_order_item_def)
qed

interpretation cols: comma_list column_defs parse_column_def print_column_def
  "\<lambda>c. cd_type c = T_INT \<longrightarrow> cd_max_len c = 0" "\<lambda>r. r \<noteq> []"
  by unfold_locales (auto simp: column_defs.simps intro: column_def_ok)

interpretation prims: comma_list primaries ParsePrimary "print_at 4" printable "stops 4"
  by unfold_locales (auto simp: primaries.simps intro: print_primary_parse stops_types simp: stops_def continues_def)

interpretation sels: comma_list ParseSelectList ParseSelectItem print_item "\<lambda>i. printable (si_expr i)" "ends {TK_COMMA, TK_FROM}"
  by unfold_locales (auto simp: ParseSelectList.simps ends_def intro: item_print_ok [unfolded ends_def])

interpretation ords: comma_list order_items parse_order_item print_order_item "\<lambda>i. printable (ob_expr i)"
  "ends {TK_COMMA, TK_SEMICOLON, TK_EOF}"
  by unfold_locales (auto simp: order_items.simps ends_def intro: order_item_ok [unfolded ends_def])

abbreviation after_joins :: "TokenType set" where "after_joins \<equiv> {TK_WHERE, TK_GROUP, TK_ORDER, TK_SEMICOLON, TK_EOF}"
abbreviation after_where :: "TokenType set" where "after_where \<equiv> {TK_GROUP, TK_ORDER, TK_SEMICOLON, TK_EOF}"
abbreviation after_group :: "TokenType set" where "after_group \<equiv> {TK_ORDER, TK_SEMICOLON, TK_EOF}"
abbreviation final :: "TokenType set" where "final \<equiv> {TK_SEMICOLON, TK_EOF}"

lemma ends_mono: "ends T r \<Longrightarrow> T \<subseteq> U \<Longrightarrow> ends U r"
  by (auto simp: ends_def)

lemma joins_ok:
  assumes "\<forall>j \<in> set js. printable (jc_condition j)" and "ahead p = concat (map (\<lambda>j. kw TK_JOIN ''JOIN'' @ print_join j) js) @ r"
    and "ends after_joins r"
  shows "yields (ParseJoins p) js r"
  using assms
proof (induction js arbitrary: p)
  case Nil
  then show ?case using ends_no_match [OF Nil(3), of p TK_JOIN] by (simp add: ParseJoins.simps [of p])
next
  case (Cons j js)
  let ?r = "concat (map (\<lambda>j. kw TK_JOIN ''JOIN'' @ print_join j) js) @ r"
  obtain p1 where p1: "Match TK_JOIN p = (Ok True, p1)" "ahead p1 = print_join j @ ?r"
    using Match_yes [of p TK_JOIN] Cons.prems(2) by auto
  have "ends after_clause ?r" using ends_mono [OF Cons.prems(3), of after_clause] by (cases js) (auto simp: ends_def)
  then obtain p2 where p2: "parse_join p1 = (Ok j, p2)" "ahead p2 = ?r"
    using join_ok [OF _ p1(2)] Cons.prems(1) by (auto simp: yields_def)
  obtain p3 where "ParseJoins p2 = (Ok js, p3)" "ahead p3 = r"
    using Cons.IH [OF _ p2(2) Cons.prems(3)] Cons.prems(1) by (auto simp: yields_def)
  then show ?case using p1(1) p2(1) by (simp add: ParseJoins.simps [of p])
qed

lemma where_ok:
  assumes "\<forall>e. w = Some e \<longrightarrow> printable e" and "ends after_where r"
    and "ahead p = (case w of None \<Rightarrow> [] | Some e \<Rightarrow> kw TK_WHERE ''WHERE'' @ print_at 0 e) @ r"
  shows "yields (ParseWhere p) w r"
proof (cases w)
  case None
  then show ?thesis using assms ends_no_match [OF assms(2), of p TK_WHERE] by (simp add: ParseWhere_def)
next
  case (Some e)
  then obtain p1 where p1: "Match TK_WHERE p = (Ok True, p1)" "ahead p1 = print_at 0 e @ r"
    using Match_yes [of p TK_WHERE] assms(3) by auto
  obtain p2 where "ParseExpr p1 = (Ok e, p2)" "ahead p2 = r"
    using print_expr_parse [OF _ p1(2)] assms(1) Some ends_stops [OF assms(2)] by (auto simp: yields_def)
  then show ?thesis using p1(1) Some by (simp add: ParseWhere_def)
qed

lemma group_by_ok:
  assumes "\<forall>e \<in> set g. printable e" and "ends after_group r"
    and "ahead p = (if g = [] then [] else kw TK_GROUP ''GROUP'' @ kw TK_BY ''BY'' @ commas (print_at 4) g) @ r"
  shows "yields (ParseGroupBy p) g r"
proof (cases "g = []")
  case True
  then show ?thesis using assms ends_no_match [OF assms(2), of p TK_GROUP] by (simp add: ParseGroupBy_def)
next
  case False
  then obtain p1 where p1: "Match TK_GROUP p = (Ok True, p1)" "ahead p1 = kw TK_BY ''BY'' @ commas (print_at 4) g @ r"
    using Match_yes [of p TK_GROUP] assms(3) by auto
  obtain t p2 where p2: "Expect TK_BY ''Expected BY after GROUP'' p1 = (Ok t, p2)" "ahead p2 = commas (print_at 4) g @ r"
    using Expect_ahead [of p1 TK_BY] p1(2) by fastforce
  have "yields (primaries p2) g r"
    by (rule prims.items_ok [OF False assms(1) p2(2) ends_stops [OF assms(2)]]) (use assms(2) in \<open>auto simp: ends_def\<close>)
  then show ?thesis using p1(1) p2(1) by (simp add: ParseGroupBy_def)
qed

lemma order_by_ok:
  assumes "\<forall>i \<in> set ob. printable (ob_expr i)" and "ends final r"
    and "ahead p = (if ob = [] then [] else kw TK_ORDER ''ORDER'' @ kw TK_BY ''BY'' @ commas print_order_item ob) @ r"
  shows "yields (ParseOrderBy p) ob r"
proof (cases "ob = []")
  case True
  then show ?thesis using assms ends_no_match [OF assms(2), of p TK_ORDER] by (simp add: ParseOrderBy_def)
next
  case False
  then obtain p1 where p1: "Match TK_ORDER p = (Ok True, p1)" "ahead p1 = kw TK_BY ''BY'' @ commas print_order_item ob @ r"
    using Match_yes [of p TK_ORDER] assms(3) by auto
  obtain t p2 where p2: "Expect TK_BY ''Expected BY after ORDER'' p1 = (Ok t, p2)" "ahead p2 = commas print_order_item ob @ r"
    using Expect_ahead [of p1 TK_BY] p1(2) by fastforce
  have "yields (order_items p2) ob r"
    by (rule ords.items_ok [OF False assms(1) p2(2)]) (use assms(2) in \<open>auto simp: ends_def\<close>)
  then show ?thesis using p1(1) p2(1) by (simp add: ParseOrderBy_def)
qed

lemma select_ok:
  assumes "select_printable s" and "ahead p = print_select s @ r" and "ends final r"
  shows "yields (ParseSelect p) s r"
proof -
  let ?o = "(if order_by s = [] then [] else kw TK_ORDER ''ORDER'' @ kw TK_BY ''BY'' @ commas print_order_item (order_by s)) @ r"
  let ?g = "(if group_by s = [] then [] else kw TK_GROUP ''GROUP'' @ kw TK_BY ''BY'' @ commas (print_at 4) (group_by s)) @ ?o"
  let ?w = "(case where_clause s of None \<Rightarrow> [] | Some e \<Rightarrow> kw TK_WHERE ''WHERE'' @ print_at 0 e) @ ?g"
  let ?j = "concat (map (\<lambda>j. kw TK_JOIN ''JOIN'' @ print_join j) (joins s)) @ ?w"
  let ?f = "kw TK_FROM ''FROM'' @ kw TK_IDENTIFIER (from_table s) @ print_as (from_alias s) @ ?j"
  have wf: "select_list s \<noteq> []" "\<forall>i \<in> set (select_list s). printable (si_expr i)" "\<forall>j \<in> set (joins s). printable (jc_condition j)"
    "\<forall>e. where_clause s = Some e \<longrightarrow> printable e" "\<forall>e \<in> set (group_by s). printable e" "\<forall>i \<in> set (order_by s). printable (ob_expr i)"
    using assms(1) by (auto simp: select_printable_def)
  have o: "ends after_group ?o" using assms(3) by (auto simp: ends_def)
  then have g: "ends after_where ?g" by (auto simp: ends_def)
  then have w: "ends after_joins ?w" by (cases "where_clause s") (auto simp: ends_def)
  then have j: "ends after_clause ?j" by (cases "joins s") (auto simp: ends_def)
  have p: "ahead p = commas print_item (select_list s) @ ?f" using assms(2) by (simp add: print_select_def)
  have "yields (ParseSelectList p) (select_list s) ?f" by (rule sels.items_ok [OF wf(1,2) p]) (simp_all add: ends_def)
  then obtain p1 where p1: "ParseSelectList p = (Ok (select_list s), p1)" "ahead p1 = ?f" by (auto simp: yields_def)
  obtain t2 p2 where p2: "Expect TK_FROM ''Expected FROM'' p1 = (Ok t2, p2)"
      "ahead p2 = kw TK_IDENTIFIER (from_table s) @ print_as (from_alias s) @ ?j"
    using Expect_ahead [of p1 TK_FROM] p1(2) by fastforce
  obtain t3 p3 where p3: "Expect TK_IDENTIFIER ''Expected table name'' p2 = (Ok t3, p3)" "tok_value t3 = from_table s"
      "ahead p3 = print_as (from_alias s) @ ?j"
    using Expect_ahead [of p2 TK_IDENTIFIER] p2(2) by fastforce
  have "yields (parse_alias p3) (from_alias s) ?j" using j by (intro alias_ok [OF p3(3)]) (auto simp: ends_def)
  then obtain p4 where p4: "parse_alias p3 = (Ok (from_alias s), p4)" "ahead p4 = ?j" by (auto simp: yields_def)
  obtain p5 where p5: "ParseJoins p4 = (Ok (joins s), p5)" "ahead p5 = ?w" using joins_ok [OF wf(3) p4(2) w] by (auto simp: yields_def)
  obtain p6 where p6: "ParseWhere p5 = (Ok (where_clause s), p6)" "ahead p6 = ?g" using where_ok [OF wf(4) g p5(2)] by (auto simp: yields_def)
  obtain p7 where p7: "ParseGroupBy p6 = (Ok (group_by s), p7)" "ahead p7 = ?o" using group_by_ok [OF wf(5) o p6(2)] by (auto simp: yields_def)
  obtain p8 where "ParseOrderBy p7 = (Ok (order_by s), p8)" "ahead p8 = r" using order_by_ok [OF wf(6) assms(3) p7(2)] by (auto simp: yields_def)
  then show ?thesis using p1(1) p2(1) p3(1,2) p4(1) p5(1) p6(1) p7(1) by (simp add: ParseSelect_def)
qed

lemma create_ok:
  assumes "statement_printable (CreateTable s)" and "ahead p = tl (statement_tokens (CreateTable s)) @ r"
  shows "yields (ParseCreateTable p) s r"
proof -
  obtain t1 p1 where p1: "Expect TK_TABLE ''Expected TABLE'' p = (Ok t1, p1)"
      "ahead p1 = kw TK_IDENTIFIER (ct_table_name s) @ lparen @ commas print_column_def (ct_columns s) @ rparen @ r"
    using Expect_ahead [of p TK_TABLE] assms(2) by fastforce
  obtain t2 p2 where p2: "Expect TK_IDENTIFIER ''Expected table name'' p1 = (Ok t2, p2)" "tok_value t2 = ct_table_name s"
      "ahead p2 = lparen @ commas print_column_def (ct_columns s) @ rparen @ r"
    using Expect_ahead [of p1 TK_IDENTIFIER] p1(2) by fastforce
  obtain t3 p3 where p3: "Expect TK_LPAREN (quoted_msg ''Expected '' ''('' '''') p2 = (Ok t3, p3)"
      "ahead p3 = commas print_column_def (ct_columns s) @ rparen @ r"
    using Expect_ahead [of p2 TK_LPAREN] p2(3) by fastforce
  have "yields (column_defs p3) (ct_columns s) (rparen @ r)"
    by (rule cols.items_ok [OF _ _ p3(2)]) (use assms(1) in auto)
  then obtain p4 where p4: "column_defs p3 = (Ok (ct_columns s), p4)" "ahead p4 = rparen @ r" by (auto simp: yields_def)
  obtain t5 p5 where "Expect TK_RPAREN (quoted_msg ''Expected '' '')'' '''') p4 = (Ok t5, p5)" "ahead p5 = r"
    using Expect_ahead [of p4 TK_RPAREN] p4(2) by fastforce
  then show ?thesis using p1(1) p2(1,2) p3(1) p4(1) by (simp add: ParseCreateTable_def)
qed

lemma insert_ok:
  assumes "statement_printable (InsertInto s)" and "ahead p = tl (statement_tokens (InsertInto s)) @ r"
  shows "yields (ParseInsert p) s r"
proof -
  let ?v = "commas (print_at 4) (in_values s) @ rparen @ r"
  obtain t1 p1 where p1: "Expect TK_INTO ''Expected INTO'' p = (Ok t1, p1)"
      "ahead p1 = kw TK_IDENTIFIER (in_table_name s) @ kw TK_VALUES ''VALUES'' @ lparen @ ?v"
    using Expect_ahead [of p TK_INTO] assms(2) by fastforce
  obtain t2 p2 where p2: "Expect TK_IDENTIFIER ''Expected table name'' p1 = (Ok t2, p2)" "tok_value t2 = in_table_name s"
      "ahead p2 = kw TK_VALUES ''VALUES'' @ lparen @ ?v"
    using Expect_ahead [of p1 TK_IDENTIFIER] p1(2) by fastforce
  obtain t3 p3 where p3: "Expect TK_VALUES ''Expected VALUES'' p2 = (Ok t3, p3)" "ahead p3 = lparen @ ?v"
    using Expect_ahead [of p2 TK_VALUES] p2(3) by fastforce
  obtain t4 p4 where p4: "Expect TK_LPAREN (quoted_msg ''Expected '' ''('' '''') p3 = (Ok t4, p4)" "ahead p4 = ?v"
    using Expect_ahead [of p3 TK_LPAREN] p3(2) by fastforce
  have "yields (primaries p4) (in_values s) (rparen @ r)"
    by (rule prims.items_ok [OF _ _ p4(2)]) (use assms(1) stops_rparen in auto)
  then obtain p5 where p5: "primaries p4 = (Ok (in_values s), p5)" "ahead p5 = rparen @ r" by (auto simp: yields_def)
  obtain t6 p6 where "Expect TK_RPAREN (quoted_msg ''Expected '' '')'' '''') p5 = (Ok t6, p6)" "ahead p6 = r"
    using Expect_ahead [of p5 TK_RPAREN] p5(2) by fastforce
  then show ?thesis using p1(1) p2(1,2) p3(1) p4(1) p5(1) by (simp add: ParseInsert_def)
qed

lemma explain_ok:
  assumes "select_printable s" and "ahead p = kw TK_SELECT ''SELECT'' @ print_select s @ r" and "ends final r"
  shows "yields (ParseExplain p) s r"
proof -
  obtain t p1 where "Expect TK_SELECT ''EXPLAIN only supports SELECT'' p = (Ok t, p1)" "ahead p1 = print_select s @ r"
    using Expect_ahead [of p TK_SELECT] assms(2) by fastforce
  then show ?thesis using select_ok [OF assms(1) _ assms(3), of p1] by (simp add: ParseExplain_def)
qed

lemma statement_ok:
  assumes "statement_printable s" and "ahead p = statement_tokens s @ r" and "ends final r"
  shows "yields (parse_statement p) s r"
proof (cases s)
  case (CreateTable c)
  then obtain q where q: "Match TK_CREATE p = (Ok True, q)" "ahead q = tl (statement_tokens (CreateTable c)) @ r"
    using Match_yes [of p TK_CREATE] assms(2) by auto
  then show ?thesis using create_ok [OF _ q(2)] assms(1) CreateTable by (auto simp: parse_statement_def yields_def)
next
  case (InsertInto c)
  then obtain q where q: "Match TK_INSERT p = (Ok True, q)" "ahead q = tl (statement_tokens (InsertInto c)) @ r"
      "Match TK_CREATE p = (Ok False, p)"
    using Match_yes [of p TK_INSERT] Match_no [of p TK_INSERT] assms(2) by auto
  then show ?thesis using insert_ok [OF _ q(2)] assms(1) InsertInto by (auto simp: parse_statement_def yields_def)
next
  case (Select c)
  then obtain q where q: "Match TK_SELECT p = (Ok True, q)" "ahead q = print_select c @ r"
      "Match TK_CREATE p = (Ok False, p)" "Match TK_INSERT p = (Ok False, p)"
    using Match_yes [of p TK_SELECT] Match_no [of p TK_SELECT] assms(2) by auto
  then show ?thesis using select_ok [OF _ q(2) assms(3)] assms(1) Select by (auto simp: parse_statement_def yields_def)
next
  case (Explain c)
  then obtain q where q: "Match TK_EXPLAIN p = (Ok True, q)" "ahead q = kw TK_SELECT ''SELECT'' @ print_select c @ r"
      "Match TK_CREATE p = (Ok False, p)" "Match TK_INSERT p = (Ok False, p)" "Match TK_SELECT p = (Ok False, p)"
    using Match_yes [of p TK_EXPLAIN] Match_no [of p TK_EXPLAIN] assms(2) by auto
  then show ?thesis using explain_ok [OF _ q(2) assms(3)] assms(1) Explain by (auto simp: parse_statement_def yields_def)
qed

lemma Parse_tokens:
  assumes "statement_printable s" and "map strip ts = statement_tokens s @ r" and "ends final r"
  shows "\<exists>q. Parse (mk_Parser ts) = (Ok s, q)"
proof -
  have "ahead (mk_Parser ts) = statement_tokens s @ r" using assms(2) by (simp add: ahead_def mk_Parser_def)
  from statement_ok [OF assms(1) this assms(3)] obtain p where p: "parse_statement (mk_Parser ts) = (Ok s, p)" "ahead p = r"
    by (auto simp: yields_def)
  obtain ty v xs where "r = (ty, v) # xs" using assms(3) by (cases r) (auto simp: ends_def)
  then have "\<exists>b q. Match TK_SEMICOLON p = (Ok b, q)"
    using p(2) Match_yes [of p ty v xs] Match_no [of p ty v xs TK_SEMICOLON] by (cases "ty = TK_SEMICOLON") auto
  then show ?thesis using p(1) by (auto simp: Parse_def)
qed

section \<open>From text to statements\<close>

fun spell :: "word_token \<Rightarrow> string" where
  "spell (ty, v) = (if ty = TK_STRING_LITERAL then quote # v @ [quote] else v)"

text \<open>Names must be spelled like names, and strings must not contain a quote.\<close>

definition is_name :: "string \<Rightarrow> bool" where
  "is_name v \<longleftrightarrow> v \<noteq> [] \<and> idstart (hd v) \<and> list_all idchar v \<and> map_of KEYWORDS (map toupper v) = None"

fun writable :: "word_token \<Rightarrow> bool" where
  "writable (ty, v) = ((ty = TK_IDENTIFIER \<longrightarrow> is_name v) \<and> (ty = TK_STRING_LITERAL \<longrightarrow> quote \<notin> set v))"

definition spelled :: "word_token \<Rightarrow> bool" where
  "spelled x \<longleftrightarrow> writable x \<longrightarrow> spells (spell x) (fst x) (snd x)"

lemma spelled_free [simp]: "spelled (TK_IDENTIFIER, v)" "spelled (TK_STRING_LITERAL, s)"
  by (auto simp: spelled_def is_name_def intro: spells.intros)

lemma spelled_number [simp]: "spelled (TK_INT_LITERAL, show_nat n)"
  using show_nat_number [of n] by (auto simp: spelled_def intro: number)

lemma spelled_punct [simp]: "(v, ty) \<in> set PUNCTUATION \<Longrightarrow> spelled (ty, v)"
  by (auto simp: spelled_def PUNCTUATION_def intro!: punct)

lemma keyword_plain: "\<forall>w \<in> set (map fst KEYWORDS). map toupper w = w \<and> list_all isupper w \<and> w \<noteq> []"
  by (simp add: KEYWORDS_def toupper_def islower_def isupper_def)

lemma spelled_keyword:
  assumes "map_of KEYWORDS v = Some ty"
  shows "spelled (ty, v)"
proof -
  have v: "map toupper v = v" "list_all isupper v" "v \<noteq> []"
    using assms keyword_plain map_of_SomeD [OF assms] by force+
  then have i: "idstart (hd v)" "list_all idchar v"
    by (auto simp: idstart_def idchar_def isalnum_def isalpha_def list_all_iff neq_Nil_conv)
  then have k: "spells v ty v" using keyword [OF i v(3)] v(1) assms by simp
  moreover have "ty \<noteq> TK_STRING_LITERAL" using map_of_SomeD [OF assms] by (auto simp: KEYWORDS_def)
  ultimately show ?thesis by (simp add: spelled_def)
qed

lemma spelled_keywords [simp]:
  "spelled (TK_CREATE, ''CREATE'')" "spelled (TK_TABLE, ''TABLE'')" "spelled (TK_INSERT, ''INSERT'')" "spelled (TK_INTO, ''INTO'')"
  "spelled (TK_VALUES, ''VALUES'')" "spelled (TK_SELECT, ''SELECT'')" "spelled (TK_FROM, ''FROM'')" "spelled (TK_WHERE, ''WHERE'')"
  "spelled (TK_AS, ''AS'')" "spelled (TK_JOIN, ''JOIN'')" "spelled (TK_ON, ''ON'')" "spelled (TK_AND, ''AND'')" "spelled (TK_OR, ''OR'')"
  "spelled (TK_NOT, ''NOT'')" "spelled (TK_GROUP, ''GROUP'')" "spelled (TK_BY, ''BY'')" "spelled (TK_ORDER, ''ORDER'')"
  "spelled (TK_DESC, ''DESC'')" "spelled (TK_EXPLAIN, ''EXPLAIN'')" "spelled (TK_INT_KW, ''INT'')" "spelled (TK_VARCHAR_KW, ''VARCHAR'')"
  by (simp_all add: spelled_keyword KEYWORDS_def)

lemma spelled_ops [simp]: "s \<in> snd ` set OPS \<Longrightarrow> spelled (op_token s)" "s \<in> snd ` set AGG_NAMES \<Longrightarrow> spelled (agg_token s)"
proof -
  show "s \<in> snd ` set OPS \<Longrightarrow> spelled (op_token s)" by (auto simp: OPS_def op_token_def PUNCTUATION_def)
  assume "s \<in> snd ` set AGG_NAMES"
  then have "s = ''COUNT'' \<or> s = ''SUM'' \<or> s = ''AVG'' \<or> s = ''MIN'' \<or> s = ''MAX''" by (auto simp: AGG_NAMES_def)
  then have "map_of KEYWORDS s = Some (fst (agg_token s))"
    by (elim disjE) (simp_all add: agg_token_def AGG_NAMES_def KEYWORDS_def)
  then show "spelled (agg_token s)" using spelled_keyword [of s "fst (agg_token s)"] by (simp add: agg_token_def)
qed

lemma spelled_op_pair: "(ty, s) \<in> set OPS \<Longrightarrow> spelled (op_token s)"
  by (rule spelled_ops(1)) (metis image_eqI snd_conv)

lemma spelled_puncts [simp]:
  "spelled (TK_LPAREN, ''('')" "spelled (TK_RPAREN, '')'')" "spelled (TK_COMMA, '','')" "spelled (TK_DOT, ''.'')" "spelled (TK_STAR, ''*'')"
  by (simp_all add: PUNCTUATION_def)

lemma spelled_print_at: "printable e \<Longrightarrow> list_all spelled (print_at n e)"
  by (induction n e rule: print_at.induct) (auto simp: in_parens_def show_int_def intro: spelled_op_pair)

lemma spelled_commas: "(\<And>x. x \<in> set xs \<Longrightarrow> list_all spelled (f x)) \<Longrightarrow> list_all spelled (commas f xs)"
  by (induction f xs rule: commas.induct) auto

lemma spelled_parts:
  "list_all spelled (print_as a)" "list_all spelled (print_column_def c)"
  "printable (si_expr i) \<Longrightarrow> list_all spelled (print_item i)" "printable (jc_condition j) \<Longrightarrow> list_all spelled (print_join j)"
  "printable (ob_expr ob) \<Longrightarrow> list_all spelled (print_order_item ob)"
  by (auto simp: print_as_def print_column_def_def print_type_def print_item_def print_join_def print_order_item_def
      intro: spelled_print_at)

lemma spelled_select:
  assumes "select_printable s"
  shows "list_all spelled (print_select s)"
proof -
  have wf: "\<And>i. i \<in> set (select_list s) \<Longrightarrow> printable (si_expr i)" "\<And>j. j \<in> set (joins s) \<Longrightarrow> printable (jc_condition j)"
    "\<And>e. where_clause s = Some e \<Longrightarrow> printable e" "\<And>e. e \<in> set (group_by s) \<Longrightarrow> printable e"
    "\<And>i. i \<in> set (order_by s) \<Longrightarrow> printable (ob_expr i)"
    using assms by (auto simp: select_printable_def)
  have "list_all spelled (commas print_item (select_list s))" by (intro spelled_commas spelled_parts wf)
  moreover have "list_all spelled (concat (map (\<lambda>j. kw TK_JOIN ''JOIN'' @ print_join j) (joins s)))"
    using spelled_parts(4) wf(2) by (force simp: list_all_iff)
  moreover have "list_all spelled (commas (print_at 4) (group_by s))" by (intro spelled_commas spelled_print_at wf)
  moreover have "list_all spelled (commas print_order_item (order_by s))" by (intro spelled_commas spelled_parts wf)
  ultimately show ?thesis
    using spelled_print_at [OF wf(3)] by (simp add: print_select_def spelled_parts split: option.split)
qed

lemma spelled_statement: "statement_printable s \<Longrightarrow> list_all spelled (statement_tokens s)"
  by (cases s) (auto intro!: spelled_commas spelled_select spelled_print_at spelled_parts)

text \<open>The text of a statement, with a space after each word.\<close>

definition statement_text :: "Statement \<Rightarrow> string" where
  "statement_text s = spaced (map spell (statement_tokens s))"

lemma statement_text_tokens:
  assumes "statement_printable s" and "list_all writable (statement_tokens s)"
  shows "\<exists>ts l. Tokenize (mk_Lexer (statement_text s)) = (Ok ts, l) \<and> map strip ts = statement_tokens s @ [(TK_EOF, [])]"
    and "\<exists>ts l. Tokenize (mk_Lexer (statement_text s @ '';'')) = (Ok ts, l) \<and>
      map strip ts = statement_tokens s @ [(TK_SEMICOLON, '';''), (TK_EOF, [])]"
proof -
  have "list_all2 (\<lambda>w (ty, v). spells w ty v) (map spell (statement_tokens s)) (statement_tokens s)"
    using spelled_statement [OF assms(1)] assms(2)
    by (auto simp: list_all2_map1 list_all2_same list_all_iff spelled_def)
  note t = Tokenize_spaced [OF this, folded statement_text_def]
  show "\<exists>ts l. Tokenize (mk_Lexer (statement_text s)) = (Ok ts, l) \<and> map strip ts = statement_tokens s @ [(TK_EOF, [])]" by (rule t(1))
  show "\<exists>ts l. Tokenize (mk_Lexer (statement_text s @ '';'')) = (Ok ts, l) \<and>
      map strip ts = statement_tokens s @ [(TK_SEMICOLON, '';''), (TK_EOF, [])]" by (rule t(2))
qed

section \<open>Properties\<close>

text \<open>(C29) Statements survive printing and parsing: a statement of the grammar, printed with its keywords,
  with parentheses only where the precedences \<open>OR\<close>, \<open>AND\<close>, \<open>NOT\<close>, comparison need them, and with
  operators associating to the left, is what the lexer and the parser make of that text.\<close>

theorem statement_text_roundtrip:
  assumes "statement_printable s" and "list_all writable (statement_tokens s)"
  shows "\<exists>ts l q. Tokenize (mk_Lexer (statement_text s)) = (Ok ts, l) \<and> Parse (mk_Parser ts) = (Ok s, q)"
proof -
  obtain ts l where "Tokenize (mk_Lexer (statement_text s)) = (Ok ts, l)" "map strip ts = statement_tokens s @ [(TK_EOF, [])]"
    using statement_text_tokens(1) [OF assms] by blast
  then show ?thesis using Parse_tokens [OF assms(1)] by (fastforce simp: ends_def)
qed

text \<open>The statement \<open>SELECT a FROM t WHERE (a = 1 OR b < 2) AND NOT c = 'x' ORDER BY a DESC\<close>.\<close>

definition sample_select :: Statement where
  "sample_select = Select \<lparr>select_list = [\<lparr>si_expr = COLUMN_REF '''' ''a'', si_alias = ''''\<rparr>], from_table = ''t'', from_alias = '''',
     joins = [],
     where_clause = Some (BINARY_OP ''AND''
       (BINARY_OP ''OR'' (BINARY_OP ''='' (COLUMN_REF '''' ''a'') (INT_LITERAL (mk32 1)))
                         (BINARY_OP ''<'' (COLUMN_REF '''' ''b'') (INT_LITERAL (mk32 2))))
       (UNARY_OP ''NOT'' (BINARY_OP ''='' (COLUMN_REF '''' ''c'') (STRING_LITERAL ''x'')))),
     group_by = [], order_by = [\<lparr>ob_expr = COLUMN_REF '''' ''a'', ob_ascending = False\<rparr>]\<rparr>"

lemma sample_ints: "ival (mk32 1) = 1" "ival (mk32 2) = 2"
  by (simp_all add: ival_mk32 INT32_MIN_def INT32_MAX_def)

theorem statement_text_roundtrip_witness:
  "\<exists>ts l q. Tokenize (mk_Lexer (statement_text sample_select)) = (Ok ts, l) \<and> Parse (mk_Parser ts) = (Ok sample_select, q)"
proof (rule statement_text_roundtrip)
  show "statement_printable sample_select"
    by (simp add: sample_select_def select_printable_def OPS_def sample_ints)
  have "is_name [c]" if "islower c" for c
    using that by (simp add: is_name_def idstart_def idchar_def isalnum_def isalpha_def KEYWORDS_def)
  then show "list_all writable (statement_tokens sample_select)"
    by (simp add: sample_select_def print_select_def print_item_def print_as_def in_parens_def op_token_def OPS_def islower_def
        print_order_item_def)
qed

lemma Parse_no_fault: "Tokenize (mk_Lexer s) = (Ok ts, l) \<Longrightarrow> fst (Parse (mk_Parser ts)) \<noteq> Fault"
proof -
  assume "Tokenize (mk_Lexer s) = (Ok ts, l)"
  then obtain us e where "ts = us @ [e]" "tok_type e = TK_EOF"
    using lexes_eof [of 1 s ts] Tokenize_iff [of "mk_Lexer s" ts] by auto
  then have "safe (Parse (mk_Parser ts))" by (intro safe_Parse) (simp add: sound_def mk_Parser_def)
  then show ?thesis by (simp add: safe_def)
qed


text \<open>(C38) The length of a \<open>VARCHAR\<close> column is cut to sixteen bits: \<open>VARCHAR(65536)\<close> is accepted and declares
  a column of no bytes.\<close>

theorem varchar_length_wraps:
  assumes "ahead p = kw TK_VARCHAR_KW ''VARCHAR'' @ lparen @ kw TK_INT_LITERAL (show_nat n) @ rparen @ r"
    and "int n \<le> INT32_MAX"
  shows "\<exists>q. parse_type p = (Ok (T_VARCHAR, word_of_nat n), q) \<and> ahead q = r"
proof -
  have m: "Match TK_INT_KW p = (Ok False, p)" using Match_no [of p TK_VARCHAR_KW] assms(1) by auto
  obtain p1 where p1: "Match TK_VARCHAR_KW p = (Ok True, p1)" "ahead p1 = lparen @ kw TK_INT_LITERAL (show_nat n) @ rparen @ r"
    using Match_yes [of p TK_VARCHAR_KW] assms(1) by auto
  obtain t2 p2 where p2: "Expect TK_LPAREN (quoted_msg ''Expected '' ''('' '' after VARCHAR'') p1 = (Ok t2, p2)"
      "ahead p2 = kw TK_INT_LITERAL (show_nat n) @ rparen @ r"
    using Expect_ahead [of p1 TK_LPAREN] p1(2) by fastforce
  obtain t3 p3 where p3: "Expect TK_INT_LITERAL ''Expected length'' p2 = (Ok t3, p3)" "tok_value t3 = show_nat n"
      "ahead p3 = rparen @ r"
    using Expect_ahead [of p2 TK_INT_LITERAL] p2(2) by fastforce
  obtain t4 p4 where p4: "Expect TK_RPAREN (quoted_msg ''Expected '' '')'' '''') p3 = (Ok t4, p4)" "ahead p4 = r"
    using Expect_ahead [of p3 TK_RPAREN] p3(3) by fastforce
  have "ucast (word_of_int (int n) :: u32) = (word_of_nat n :: u16)"
    by (rule bit_word_eqI) (auto simp: bit_simps)
  then show ?thesis
    using m p1(1) p2(1) p3(1,2) p4 stoi_show_nat [OF assms(2)] by (simp add: parse_type_def lift_out_def mk32_def)
qed

definition sample_varchar :: Parser where
  "sample_varchar = mk_Parser (map (\<lambda>(ty, v). \<lparr>tok_type = ty, tok_value = v, tok_line = 1\<rparr>)
     [(TK_VARCHAR_KW, ''VARCHAR''), (TK_LPAREN, ''(''), (TK_INT_LITERAL, show_nat 65536), (TK_RPAREN, '')''), (TK_EOF, '''')])"

theorem varchar_length_wraps_witness:
  "\<exists>q. parse_type sample_varchar = (Ok (T_VARCHAR, 0), q) \<and> ahead q = [(TK_EOF, '''')]"
proof -
  have a: "ahead sample_varchar = kw TK_VARCHAR_KW ''VARCHAR'' @ lparen @ kw TK_INT_LITERAL (show_nat 65536) @ rparen @ [(TK_EOF, '''')]"
    by (simp add: ahead_def sample_varchar_def mk_Parser_def)
  have z: "(word_of_nat 65536 :: u16) = 0" by (subst word_unat_eq_iff, subst unat_of_nat) simp
  have "int 65536 \<le> INT32_MAX" by (simp add: INT32_MAX_def)
  from varchar_length_wraps [OF a this] show ?thesis unfolding z .
qed

end
