(* ===== verification/Database.thy ===== *)
theory Database
  imports Planner Query_Results Parser_Grammar
begin

text \<open>
  \<open>src/src/database.cpp\<close>: a statement given as text is read, parsed and executed. The state is the
  buffer pool, with the disk below it, and the catalog. A call of \<open>Execute\<close> that does not return
  would be \<open>None\<close>.
\<close>

section \<open>Definitions\<close>

record QueryResult =
  qr_columns :: "string list"
  qr_rows :: "string list list"
  qr_message :: string

record Database =
  db_bpm :: BufferPoolManager
  db_catalog :: Catalog

text \<open>The constructor: the disk manager opens the file, the catalog starts without tables.\<close>

definition mk_Database :: "string \<Rightarrow> byte list option \<Rightarrow> bool \<Rightarrow> nat \<Rightarrow> Database outcome" where
  "mk_Database db_path existing can_create frame_count =
     bind_out (mk_DiskManager db_path existing can_create) (\<lambda>d.
       Ok \<lparr>db_bpm = mk_BufferPoolManager frame_count d, db_catalog = mk_Catalog\<rparr>)"

definition message_result :: "string \<Rightarrow> QueryResult" where
  "message_result s = \<lparr>qr_columns = [], qr_rows = [], qr_message = s\<rparr>"

definition ExecCreate :: "CreateTableStmt \<Rightarrow> Database \<Rightarrow> (QueryResult, Database) res" where
  "ExecCreate st db =
     (let cols = map (\<lambda>d. \<lparr>col_name = cd_name d, col_type = \<lparr>type_id = cd_type d, max_len = cd_max_len d\<rparr>\<rparr>) (ct_columns st)
      in case Catalog.CreateTable (ct_table_name st) (mk_Schema cols) (db_catalog db, db_bpm db) of
           (Ok _, (c, b)) \<Rightarrow> (Ok (message_result (''Table '' @ [CHR 0x27] @ ct_table_name st @ [CHR 0x27] @ '' created.'')),
                             \<lparr>db_bpm = b, db_catalog = c\<rparr>)
         | (Throw e, (c, b)) \<Rightarrow> (Throw e, \<lparr>db_bpm = b, db_catalog = c\<rparr>)
         | (Fault, (c, b)) \<Rightarrow> (Fault, \<lparr>db_bpm = b, db_catalog = c\<rparr>))"

text \<open>The value of a literal for a column; the columns and the literals are equally many.\<close>

definition insert_value :: "Column \<Rightarrow> Expr \<Rightarrow> Value outcome" where
  "insert_value c e =
     (if type_id (col_type c) = T_INT
      then (case e of INT_LITERAL i \<Rightarrow> Ok (MakeInt i)
            | _ \<Rightarrow> Throw (Runtime_Error (''Expected integer for column '' @ col_name c)))
      else (case e of STRING_LITERAL s \<Rightarrow> Ok (MakeVarchar s (max_len (col_type c)))
            | _ \<Rightarrow> Throw (Runtime_Error (''Expected string for column '' @ col_name c))))"

fun insert_values :: "Column list \<Rightarrow> Expr list \<Rightarrow> Value list outcome" where
  "insert_values (c # cs) (e # es) = bind_out (insert_value c e) (\<lambda>v. bind_out (insert_values cs es) (\<lambda>vs. Ok (v # vs)))"
| "insert_values _ _ = Ok []"

definition ExecInsert :: "InsertStmt \<Rightarrow> Database \<Rightarrow> (QueryResult, Database) res" where
  "ExecInsert st db =
     (case GetTable (in_table_name st) (db_catalog db) of
        Throw e \<Rightarrow> (Throw e, db)
      | Fault \<Rightarrow> (Fault, db)
      | Ok info \<Rightarrow>
          (if length (in_values st) \<noteq> GetColumnCount (ti_schema info)
           then (Throw (Runtime_Error ''Column count mismatch in INSERT''), db)
           else (case bind_out (insert_values (columns (ti_schema info)) (in_values st)) (\<lambda>vs. mk_Tuple vs (ti_schema info)) of
                Throw e \<Rightarrow> (Throw e, db)
              | Fault \<Rightarrow> (Fault, db)
              | Ok t \<Rightarrow>
                  (case InsertTuple t (heap_file info, db_bpm db) of
                     (r, (h, b)) \<Rightarrow>
                       (bind_out r (\<lambda>rid. case rid of
                            None \<Rightarrow> Throw (Runtime_Error (''INSERT failed '' @ em_dash @ '' storage full''))
                          | Some _ \<Rightarrow> Ok (message_result ''Inserted 1 row.'')),
                        \<lparr>db_bpm = b, db_catalog = (db_catalog db)(in_table_name st \<mapsto> info\<lparr>heap_file := h\<rparr>)\<rparr>)))))"

text \<open>One row of the result, as text.\<close>

fun text_from :: "Tuple \<Rightarrow> Schema \<Rightarrow> nat list \<Rightarrow> string list outcome" where
  "text_from t sch [] = Ok []"
| "text_from t sch (i # is) = bind_out (GetValue t sch i) (\<lambda>v. bind_out (text_from t sch is) (\<lambda>vs. Ok (ToString v # vs)))"

definition row_text :: "Schema \<Rightarrow> Tuple \<Rightarrow> string list outcome" where
  "row_text sch t = text_from t sch [0..<GetColumnCount sch]"

definition ExecSelect :: "sorter \<Rightarrow> SelectStmt \<Rightarrow> Database \<Rightarrow> (QueryResult, Database) res option" where
  "ExecSelect srt st db =
     (case Plan (db_catalog db) st of
        Throw e \<Rightarrow> Some (Throw e, db)
      | Fault \<Rightarrow> Some (Fault, db)
      | Ok op \<Rightarrow>
          map_option (\<lambda>(r, b). (r, db\<lparr>db_bpm := b\<rparr>))
            (bind_opt (Init srt op (db_bpm db)) (\<lambda>op1 b1.
             bind_opt (beside (drain (\<lambda>t rows. bind_out (row_text (GetOutputSchema op) t) (\<lambda>r. Ok (rows @ [r]))) [] op1) b1) (\<lambda>(rows, op2) b2.
               Some (Ok \<lparr>qr_columns = map col_name (columns (GetOutputSchema op)), qr_rows = rows, qr_message = []\<rparr>, b2)))))"

text \<open>\<open>while (std::getline(ss, line))\<close>\<close>

fun getlines :: "string \<Rightarrow> string \<Rightarrow> string list" where
  "getlines acc [] = (if acc = [] then [] else [acc])"
| "getlines acc (c # cs) = (if c = CHR 0x0A then acc # getlines [] cs else getlines (acc @ [c]) cs)"

definition ExecExplain :: "SelectStmt \<Rightarrow> Database \<Rightarrow> (QueryResult, Database) res" where
  "ExecExplain st db =
     (Ok \<lparr>qr_columns = [''plan''], qr_rows = map (\<lambda>l. [l]) (getlines [] (ExplainText st)), qr_message = []\<rparr>, db)"

definition exec_statement :: "sorter \<Rightarrow> Statement \<Rightarrow> Database \<Rightarrow> (QueryResult, Database) res option" where
  "exec_statement srt stmt db = (case stmt of
      Parser.CreateTable s \<Rightarrow> Some (ExecCreate s db)
    | InsertInto s \<Rightarrow> Some (ExecInsert s db)
    | Select s \<Rightarrow> ExecSelect srt s db
    | Explain s \<Rightarrow> Some (ExecExplain s db))"

definition Execute :: "sorter \<Rightarrow> string \<Rightarrow> Database \<Rightarrow> (QueryResult, Database) res option" where
  "Execute srt sql db =
     (case fst (Tokenize (mk_Lexer sql)) of
        Throw e \<Rightarrow> Some (Throw e, db)
      | Fault \<Rightarrow> Some (Fault, db)
      | Ok toks \<Rightarrow>
          (case fst (Parse (mk_Parser toks)) of
             Throw e \<Rightarrow> Some (Throw e, db)
           | Fault \<Rightarrow> Some (Fault, db)
           | Ok stmt \<Rightarrow> exec_statement srt stmt db))"

end
