(* ===== verification/Database_Spec.thy ===== *)
theory Database_Spec
  imports Database
begin

text \<open>
  The database against its tables: the abstract state is a map from table names to a schema and the
  list of rows. \<open>CREATE TABLE\<close> adds an empty table, \<open>INSERT\<close> appends a row, \<open>SELECT\<close> reads; the
  statements are given as text, as to \<open>Execute\<close>.
\<close>

section \<open>Text and statement\<close>

definition sql_ok :: "Statement \<Rightarrow> bool" where
  "sql_ok s \<longleftrightarrow> statement_printable s \<and> list_all writable (statement_tokens s)"

text \<open>A semicolon may end the text.\<close>

lemma Execute_text:
  assumes "sql_ok s"
  shows "Execute srt (statement_text s) db = exec_statement srt s db"
    and "Execute srt (statement_text s @ '';'') db = exec_statement srt s db"
proof -
  have s: "statement_printable s" "list_all writable (statement_tokens s)" using assms by (simp_all add: sql_ok_def)
  have ex: "Execute srt sql db = exec_statement srt s db"
    if "Tokenize (mk_Lexer sql) = (Ok ts, l)" "map strip ts = statement_tokens s @ r" "ends {TK_SEMICOLON, TK_EOF} r" for sql ts l r
    using Parse_tokens [OF s(1) that(2,3)] that(1) by (auto simp: Execute_def)
  show "Execute srt (statement_text s) db = exec_statement srt s db"
    using statement_text_tokens(1) [OF s] ex by (auto simp: ends_def)
  show "Execute srt (statement_text s @ '';'') db = exec_statement srt s db"
    using statement_text_tokens(2) [OF s] ex by (auto simp: ends_def)
qed

section \<open>Rows of a schema\<close>

definition table_ok :: "Schema \<times> Tuple list \<Rightarrow> bool" where
  "table_ok r \<longleftrightarrow> schema_ok (fst r) \<and> (\<forall>t \<in> set (snd r). row_ok (fst r) t)"

definition db_holds :: "Database \<Rightarrow> tables \<Rightarrow> nat \<Rightarrow> bool" where
  "db_holds db T n \<longleftrightarrow> cat_holds (db_catalog db) (db_bpm db) T n \<and> (\<forall>r \<in> ran T. table_ok r)"

text \<open>The columns of a \<open>CREATE TABLE\<close>; a row has at least one byte and fits on a page.\<close>

definition def_columns :: "ColumnDef list \<Rightarrow> Column list" where
  "def_columns ds = map (\<lambda>d. \<lparr>col_name = cd_name d, col_type = \<lparr>type_id = cd_type d, max_len = cd_max_len d\<rparr>\<rparr>) ds"

definition columns_ok :: "Column list \<Rightarrow> bool" where
  "columns_ok cs \<longleftrightarrow> 0 < row_size cs \<and> row_size cs \<le> PAGE_SIZE - HEAP_HEADER_SIZE"

lemma columns_okD: "columns_ok cs \<Longrightarrow> schema_ok (mk_Schema cs) \<and> row_width_ok (mk_Schema cs)"
  using schema_layout_total [of 0 cs]
  by (auto simp: columns_ok_def schema_ok_mk row_width_ok_def PAGE_SIZE_def HEAP_HEADER_SIZE_def)

text \<open>The values of an \<open>INSERT\<close> as the columns take them.\<close>

definition literals_ok :: "Column list \<Rightarrow> Expr list \<Rightarrow> bool" where
  "literals_ok cs es \<longleftrightarrow> list_all2 (\<lambda>c e. case type_id (col_type c) of
      T_INT \<Rightarrow> (\<exists>i. e = INT_LITERAL i) | T_VARCHAR \<Rightarrow> (\<exists>s. e = STRING_LITERAL s)) cs es"

fun literal_value :: "Column \<Rightarrow> Expr \<Rightarrow> Value" where
  "literal_value c (INT_LITERAL i) = MakeInt i"
| "literal_value c (STRING_LITERAL s) = MakeVarchar s (max_len (col_type c))"
| "literal_value c _ = MakeInt (mk32 0)"

definition literal_row :: "Column list \<Rightarrow> Expr list \<Rightarrow> Tuple" where
  "literal_row cs es = concat (map value_bytes (map2 literal_value cs es))"

lemma insert_values_ok:
  "literals_ok cs es \<Longrightarrow> insert_values cs es = Ok (map2 literal_value cs es) \<and> list_all2 value_typed cs (map2 literal_value cs es)"
  unfolding literals_ok_def
proof (induction cs es rule: list_all2_induct)
  case (Cons c cs e es)
  then show ?case
    by (auto simp: insert_value_def value_typed_def MakeInt_def MakeVarchar_def split: TypeId.splits)
qed simp

lemma insert_row_typed:
  assumes "schema_ok sch" and "literals_ok (columns sch) es"
  shows "bind_out (insert_values (columns sch) es) (\<lambda>vs. mk_Tuple vs sch) = Ok (literal_row (columns sch) es)"
    and "row_ok sch (literal_row (columns sch) es)"
proof -
  let ?vs = "map2 literal_value (columns sch) es"
  have v: "insert_values (columns sch) es = Ok ?vs" "list_all2 value_typed (columns sch) ?vs" using insert_values_ok [OF assms(2)] by auto
  have "mk_Tuple ?vs sch = Ok (literal_row (columns sch) es)"
    using mk_Tuple_typed [OF v(2)] assms(1) unfolding literal_row_def by (metis schema_ok_def)
  then show "bind_out (insert_values (columns sch) es) (\<lambda>vs. mk_Tuple vs sch) = Ok (literal_row (columns sch) es)" using v(1) by simp
  show "row_ok sch (literal_row (columns sch) es)"
    using length_value_bytes_list [OF v(2)] tuple_size_row_size [OF assms(1)] by (simp add: literal_row_def)
qed

section \<open>Creating and inserting\<close>

lemma ran_upd: "(\<forall>r \<in> ran (T(x \<mapsto> y)). P r) \<longleftrightarrow> P y \<and> (\<forall>z r. z \<noteq> x \<longrightarrow> T z = Some r \<longrightarrow> P r)"
  by (auto simp: ran_def)

lemma db_holds_upd:
  "\<forall>r \<in> ran T. table_ok r \<Longrightarrow> table_ok y \<Longrightarrow> cat_holds c b (T(x \<mapsto> y)) n \<Longrightarrow> db_holds \<lparr>db_bpm = b, db_catalog = c\<rparr> (T(x \<mapsto> y)) n"
  by (auto simp: db_holds_def ran_upd ranI)

lemma exec_create_ok:
  assumes "db_holds db T (Suc n)" and "T (ct_table_name st) = None" and "columns_ok (def_columns (ct_columns st))"
  shows "\<exists>q db'. exec_statement srt (Parser.CreateTable st) db = Some (Ok q, db') \<and>
    db_holds db' (T(ct_table_name st \<mapsto> (mk_Schema (def_columns (ct_columns st)), []))) n"
proof -
  let ?sch = "mk_Schema (def_columns (ct_columns st))"
  have ok: "schema_ok ?sch" "row_width_ok ?sch" using columns_okD [OF assms(3)] by auto
  have H: "cat_holds (db_catalog db) (db_bpm db) T (Suc n)" "\<forall>r \<in> ran T. table_ok r" using assms(1) by (auto simp: db_holds_def)
  obtain c b where c: "Catalog.CreateTable (ct_table_name st) ?sch (db_catalog db, db_bpm db) = (Ok (), (c, b))"
      "cat_holds c b (T(ct_table_name st \<mapsto> (?sch, []))) n"
    using CreateTable_ok [OF H(1) assms(2) ok(2)] by blast
  have "table_ok (?sch, [])" using ok(1) by (simp add: table_ok_def)
  from db_holds_upd [OF H(2) this c(2)] c(1) show ?thesis
    by (simp add: exec_statement_def ExecCreate_def def_columns_def)
qed

lemma exec_insert_ok:
  assumes "db_holds db T (Suc n)" and "T (in_table_name st) = Some (sch, rows)" and "literals_ok (columns sch) (in_values st)"
  shows "\<exists>q db'. exec_statement srt (InsertInto st) db = Some (Ok q, db') \<and>
    db_holds db' (T(in_table_name st \<mapsto> (sch, rows @ [literal_row (columns sch) (in_values st)]))) n"
proof -
  let ?t = "literal_row (columns sch) (in_values st)"
  have H: "cat_holds (db_catalog db) (db_bpm db) T (Suc n)" "\<forall>r \<in> ran T. table_ok r" using assms(1) by (auto simp: db_holds_def)
  then have ok: "table_ok (sch, rows)" using assms(2) by (auto intro: ranI)
  then have sch: "schema_ok sch" by (simp add: table_ok_def)
  note row = insert_row_typed [OF sch assms(3)]
  obtain info rid h b where i: "db_catalog db (in_table_name st) = Some info" "ti_schema info = sch"
      "InsertTuple ?t (heap_file info, db_bpm db) = (Ok (Some rid), (h, b))"
      "cat_holds ((db_catalog db)(in_table_name st \<mapsto> info\<lparr>heap_file := h\<rparr>)) b (T(in_table_name st \<mapsto> (sch, rows @ [?t]))) n"
    using insert_row_ok [OF H(1) assms(2) row(2)] by blast
  have "length (in_values st) = GetColumnCount sch"
    using assms(3) by (auto simp: literals_ok_def GetColumnCount_def dest: list_all2_lengthD)
  then have "exec_statement srt (InsertInto st) db = Some (Ok (message_result ''Inserted 1 row.''),
      \<lparr>db_bpm = b, db_catalog = (db_catalog db)(in_table_name st \<mapsto> info\<lparr>heap_file := h\<rparr>)\<rparr>)"
    using i(1-3) row(1) by (simp add: exec_statement_def ExecInsert_def GetTable_def)
  moreover have "table_ok (sch, rows @ [?t])" using ok row(2) by (auto simp: table_ok_def)
  ultimately show ?thesis using db_holds_upd [OF H(2) _ i(4)] by blast
qed

section \<open>Histories\<close>

text \<open>What a store of tables promises to a client that sends it statements. \<open>legal\<close> are the
  statements a client can send; \<open>holds d T n\<close> says that there is room for \<open>n\<close> more statements.\<close>

definition spec_create :: "CreateTableStmt \<Rightarrow> tables \<Rightarrow> tables" where
  "spec_create st T = T(ct_table_name st \<mapsto> (mk_Schema (def_columns (ct_columns st)), []))"

definition spec_insert :: "InsertStmt \<Rightarrow> tables \<Rightarrow> tables" where
  "spec_insert st T = (case T (in_table_name st) of
      None \<Rightarrow> T
    | Some (sch, rows) \<Rightarrow> T(in_table_name st \<mapsto> (sch, rows @ [literal_row (columns sch) (in_values st)])))"

fun spec_step :: "Statement \<Rightarrow> tables \<Rightarrow> tables" where
  "spec_step (Parser.CreateTable st) T = spec_create st T"
| "spec_step (InsertInto st) T = spec_insert st T"
| "spec_step _ T = T"

fun spec_ok :: "Statement \<Rightarrow> tables \<Rightarrow> bool" where
  "spec_ok (Parser.CreateTable st) T \<longleftrightarrow> T (ct_table_name st) = None \<and> columns_ok (def_columns (ct_columns st))"
| "spec_ok (InsertInto st) T \<longleftrightarrow> (case T (in_table_name st) of None \<Rightarrow> False | Some (sch, rows) \<Rightarrow> literals_ok (columns sch) (in_values st))"
| "spec_ok _ T \<longleftrightarrow> False"

fun spec_run :: "Statement list \<Rightarrow> tables \<Rightarrow> tables option" where
  "spec_run [] T = Some T"
| "spec_run (s # ss) T = (if spec_ok s T then spec_run ss (spec_step s T) else None)"

fun exec_all :: "(Statement \<Rightarrow> 'd \<Rightarrow> (QueryResult, 'd) res option) \<Rightarrow> Statement list \<Rightarrow> 'd \<Rightarrow> (unit, 'd) res option" where
  "exec_all ex [] d = Some (Ok (), d)"
| "exec_all ex (s # ss) d = bind_opt (map_option (\<lambda>(r, d'). (bind_out r (\<lambda>_. Ok ()), d')) (ex s d)) (\<lambda>_ d'. exec_all ex ss d')"

locale sql_store =
  fixes holds :: "'d \<Rightarrow> tables \<Rightarrow> nat \<Rightarrow> bool"
    and legal :: "Statement \<Rightarrow> bool"
    and exec :: "Statement \<Rightarrow> 'd \<Rightarrow> (QueryResult, 'd) res option"
  assumes create: "holds d T (Suc n) \<Longrightarrow> legal (Parser.CreateTable st) \<Longrightarrow> spec_ok (Parser.CreateTable st) T \<Longrightarrow>
      \<exists>q d'. exec (Parser.CreateTable st) d = Some (Ok q, d') \<and> holds d' (spec_create st T) n"
    and insert: "holds d T (Suc n) \<Longrightarrow> legal (InsertInto ins) \<Longrightarrow> spec_ok (InsertInto ins) T \<Longrightarrow>
      \<exists>q d'. exec (InsertInto ins) d = Some (Ok q, d') \<and> holds d' (spec_insert ins T) n"
begin

lemma step:
  assumes "holds d T (Suc n)" and "legal s" and "spec_ok s T"
  shows "\<exists>q d'. exec s d = Some (Ok q, d') \<and> holds d' (spec_step s T) n"
  using assms by (cases s) (auto dest: create insert)

lemma run:
  assumes "holds d T (length ss + n)" and "\<forall>s \<in> set ss. legal s" and "spec_run ss T = Some T'"
  shows "\<exists>d'. exec_all exec ss d = Some (Ok (), d') \<and> holds d' T' n"
  using assms
proof (induction ss arbitrary: d T)
  case (Cons s ss)
  then obtain q d1 where "exec s d = Some (Ok q, d1)" "holds d1 (spec_step s T) (length ss + n)"
    using step [of d T "length ss + n" s] by (auto split: if_splits)
  with Cons show ?case by (auto split: if_splits)
qed simp

end

text \<open>The database, given parsed statements, and given their text.\<close>

lemma db_sql_store: "sql_store db_holds (\<lambda>_. True) (exec_statement srt)"
proof
  show "\<exists>q d'. exec_statement srt (Parser.CreateTable st) d = Some (Ok q, d') \<and> db_holds d' (spec_create st T) n"
    if "db_holds d T (Suc n)" "spec_ok (Parser.CreateTable st) T" for d T n st
    using exec_create_ok [of d T n st srt] that by (simp add: spec_create_def)
  show "\<exists>q d'. exec_statement srt (InsertInto ins) d = Some (Ok q, d') \<and> db_holds d' (spec_insert ins T) n"
    if "db_holds d T (Suc n)" "spec_ok (InsertInto ins) T" for d T n ins
    using exec_insert_ok [of d T n ins _ _ srt] that by (auto simp: spec_insert_def split: option.splits)
qed

interpretation stmts: sql_store db_holds "\<lambda>_. True" "exec_statement srt" for srt
  by (rule db_sql_store)

interpretation sqltext: sql_store db_holds sql_ok "\<lambda>s. Execute srt (statement_text s)" for srt
  by unfold_locales (use stmts.create stmts.insert in \<open>simp_all add: Execute_text\<close>)

end
