(* ===== verification/Database_Select.thy ===== *)
theory Database_Select
  imports Database_Spec
begin

text \<open>
  \<open>SELECT\<close> from text to result: the rows a statement asks for, computed on the lists of rows of the
  tables, are the rows that \<open>Execute\<close> returns. The reference is defined for statements that have
  types and raise no exception while rows are compared.
\<close>

section \<open>The reference\<close>

type_synonym relation = "Schema \<times> Tuple list"

definition table_as :: "tables \<Rightarrow> string \<Rightarrow> string \<Rightarrow> relation option" where
  "table_as T x alias = map_option (\<lambda>(sch, rows). (MakeOutputSchema sch (if alias = '''' then x else alias), rows)) (T x)"

definition equi_join :: "Expr \<Rightarrow> Expr \<Rightarrow> relation \<Rightarrow> relation \<Rightarrow> relation" where
  "equi_join lk rk l r = (ConcatSchemas (fst l) (fst r),
     concat (map (\<lambda>t. map (\<lambda>u. u @ t) (filter (\<lambda>u. key_match (val_of lk (fst l) u) (val_of rk (fst r) t)) (snd l))) (snd r)))"

definition joinable :: "Expr \<Rightarrow> Expr \<Rightarrow> Schema \<Rightarrow> Schema \<Rightarrow> bool" where
  "joinable lk rk ls rs \<longleftrightarrow> schema_ok (ConcatSchemas ls rs) \<and>
     (case (expr_type lk ls, expr_type rk rs) of (Ok a, Ok b) \<Rightarrow> type_id a = type_id b | _ \<Rightarrow> False)"

fun join_all :: "tables \<Rightarrow> JoinClause list \<Rightarrow> relation \<Rightarrow> relation option" where
  "join_all T [] r = Some r"
| "join_all T (j # js) r = (case (table_as T (jc_table_name j) (jc_alias j), jc_condition j) of
      (Some r', BINARY_OP op lk rk) \<Rightarrow>
        (if op = ''='' \<and> joinable lk rk (fst r) (fst r') then join_all T js (equi_join lk rk r r') else None)
    | _ \<Rightarrow> None)"

definition where_rows :: "Expr option \<Rightarrow> relation \<Rightarrow> relation option" where
  "where_rows w r = (case w of
      None \<Rightarrow> Some r
    | Some p \<Rightarrow> if \<forall>t \<in> set (snd r). \<exists>b. EvalPred p t (fst r) = Ok b
                then Some (fst r, filter (\<lambda>t. EvalPred p t (fst r) = Ok True) (snd r)) else None)"

definition source_rows :: "tables \<Rightarrow> SelectStmt \<Rightarrow> relation option" where
  "source_rows T st = Option.bind (table_as T (from_table st) (from_alias st)) (\<lambda>r.
     Option.bind (join_all T (joins st) r) (where_rows (where_clause st)))"

section \<open>Scans of the catalog\<close>

lemma MakeOutputSchema_layout:
  "schema_layout (map (\<lambda>c. c\<lparr>col_name := f c\<rparr>) cs) off = schema_layout cs off"
  by (induction cs arbitrary: off) auto

lemma MakeOutputSchema_ok:
  assumes "schema_ok sch"
  shows "schema_ok (MakeOutputSchema sch a)" and "tuple_size (MakeOutputSchema sch a) = tuple_size sch"
proof -
  have "map col_size (map (\<lambda>c. c\<lparr>col_name := a @ ''.'' @ col_name c\<rparr>) (columns sch)) = map col_size (columns sch)" by simp
  then show "schema_ok (MakeOutputSchema sch a)"
    using assms unfolding MakeOutputSchema_def by (simp add: schema_ok_mk schema_ok_def comp_def)
  have "tuple_size sch = snd (schema_layout (columns sch) 0)" using assms by (metis mk_Schema_sel(3) schema_ok_def)
  then show "tuple_size (MakeOutputSchema sch a) = tuple_size sch"
    by (simp add: MakeOutputSchema_def MakeOutputSchema_layout)
qed

text \<open>\<open>tab\<close> gives the rows of the heap files of the catalog.\<close>

definition reads :: "Catalog \<Rightarrow> tables \<Rightarrow> (HeapFile \<Rightarrow> Tuple list) \<Rightarrow> bool" where
  "reads c T tab \<longleftrightarrow> (\<forall>x. rel_option (\<lambda>info r. ti_schema info = fst r \<and> tab (heap_file info) = snd r) (c x) (T x))"

definition cat_heaps :: "Catalog \<Rightarrow> HeapFile set" where
  "cat_heaps c = heap_file ` ran c"

lemma cat_holds_reads:
  assumes "cat_holds c b T n"
  obtains m k l tab where "bpm_idle b m k l" "0 < k" "reads c T tab" "\<forall>h \<in> cat_heaps c. table_rows m h (tab h)"
    "\<And>b'. bpm_idle b' m k l \<Longrightarrow> cat_holds c b' T n"
proof -
  obtain m k l pss where H: "bpm_idle b m k l" "0 < k" "n \<le> l" "cat_inv m c pss" "T = cat_tables m c pss"
    using assms by (rule cat_holdsE)
  let ?rows = "\<lambda>x h. map snd (heap_rows m (row_width h) (pss x))"
  have uniq: "x = y" if "c x = Some i" "c y = Some j" "heap_file i = heap_file j" for x y i j
  proof (rule ccontr)
    assume "x \<noteq> y"
    then have "set (pss x) \<inter> set (pss y) = {}" using cat_invD(2) [OF H(4) _ that(1,2)] by blast
    moreover have "hd (pss x) = hd (pss y)" "pss x \<noteq> []" "pss y \<noteq> []"
      using cat_invD(1) [OF H(4) that(1)] cat_invD(1) [OF H(4) that(2)] that(3) by (auto simp: heap_inv_def)
    ultimately show False by (metis disjoint_iff hd_in_set)
  qed
  have "\<exists>rows. \<forall>x i. c x = Some i \<and> heap_file i = h \<longrightarrow> rows = ?rows x h" for h
    using uniq by (cases "\<exists>x i. c x = Some i \<and> heap_file i = h") fastforce+
  then obtain tab where tab: "\<And>x i. c x = Some i \<Longrightarrow> tab (heap_file i) = ?rows x (heap_file i)" by metis
  have "reads c T tab"
    using tab by (auto simp: reads_def H(5) cat_tables_def option.rel_map intro!: option.rel_refl_strong)
  moreover have "\<forall>h \<in> cat_heaps c. table_rows m h (tab h)"
    using cat_invD(1) [OF H(4)] tab by (auto simp: cat_heaps_def ran_def table_rows_def, blast)
  moreover have "cat_holds c b' T n" if "bpm_idle b' m k l" for b' using that H unfolding cat_holds_def by blast
  ultimately show ?thesis using that H(1,2) by blast
qed

text \<open>What the plan of a relation has to be.\<close>

definition plan_for :: "sorter \<Rightarrow> Catalog \<Rightarrow> (HeapFile \<Rightarrow> Tuple list) \<Rightarrow> Operator \<Rightarrow> relation \<Rightarrow> bool" where
  "plan_for srt c tab op r \<longleftrightarrow> fresh op \<and> tables_of op \<subseteq> cat_heaps c \<and> op_ok tab op \<and> GetOutputSchema op = fst r \<and>
     stream_of srt tab op = Ok (snd r, Ok ())"

lemma plan_forD:
  assumes "plan_for srt c tab op r" and "std_sort srt"
  shows "schema_ok (fst r)" and "\<forall>t \<in> set (snd r). row_ok (fst r) t"
  using assms op_ok_schema [of tab op] stream_rows [of srt tab op "snd r" "Ok ()"] by (auto simp: plan_for_def)

lemma scan_of_ok:
  assumes "reads c T tab" and "\<forall>r \<in> ran T. table_ok r" and "table_as T x alias = Some r"
  shows "\<exists>op. scan_of c x alias = Ok op \<and> plan_for srt c tab op r"
proof -
  obtain sch rows where T: "T x = Some (sch, rows)" and r: "r = (MakeOutputSchema sch (if alias = '''' then x else alias), rows)"
    using assms(3) by (auto simp: table_as_def)
  then obtain info where info: "c x = Some info" "ti_schema info = sch" "tab (heap_file info) = rows"
    using assms(1) [unfolded reads_def, rule_format, of x] by (auto simp: option_rel_Some2)
  have "table_ok (sch, rows)" using assms(2) T by (auto intro: ranI)
  then have "schema_ok sch" "\<forall>t \<in> set rows. row_ok sch t" by (auto simp: table_ok_def)
  then show ?thesis
    using info MakeOutputSchema_ok [of sch]
    by (auto simp: scan_of_def GetTable_def mk_SeqScan_def plan_for_def r cat_heaps_def ranI)
qed

lemma plan_for_join:
  assumes "std_sort srt" and l: "plan_for srt c tab l r1" and r: "plan_for srt c tab r r2" and j: "joinable lk rk (fst r1) (fst r2)"
  shows "plan_for srt c tab (mk_HashJoin l r lk rk) (equi_join lk rk r1 r2)"
proof -
  obtain a b where ty: "expr_type lk (fst r1) = Ok a" "expr_type rk (fst r2) = Ok b" "type_id a = type_id b"
    using j by (auto simp: joinable_def split: outcome.splits)
  have sch: "GetOutputSchema l = fst r1" "GetOutputSchema r = fst r2" and ok: "op_ok tab l" "op_ok tab r"
    and s: "stream_of srt tab l = Ok (snd r1, Ok ())" "stream_of srt tab r = Ok (snd r2, Ok ())"
    using l r by (auto simp: plan_for_def)
  have jo: "op_ok tab (HashJoin l r lk rk (ConcatSchemas (fst r1) (fst r2)) empty_join)" using j ok sch by (simp add: joinable_def)
  note rows = plan_forD(2) [OF l assms(1)] plan_forD(2) [OF r assms(1)]
  have "stream_of srt tab (HashJoin l r lk rk (ConcatSchemas (fst r1) (fst r2)) empty_join) = Ok (snd (equi_join lk rk r1 r2), Ok ())"
    using join_stream [OF s jo, unfolded sch, OF rows ty] by (simp add: equi_join_def del: stream_of.simps)
  then show ?thesis
    using jo l r by (auto simp: plan_for_def mk_HashJoin_def sch equi_join_def empty_join_def simp del: stream_of.simps)
qed

lemma plan_joins_ok:
  assumes "std_sort srt" and "reads c T tab" and "\<forall>r \<in> ran T. table_ok r"
  shows "plan_for srt c tab op r \<Longrightarrow> join_all T js r = Some r' \<Longrightarrow> \<exists>op'. plan_joins c js op = Ok op' \<and> plan_for srt c tab op' r'"
proof (induction js arbitrary: op r)
  case (Cons j js)
  then obtain r2 lk rk where j: "table_as T (jc_table_name j) (jc_alias j) = Some r2" "jc_condition j = BINARY_OP ''='' lk rk"
      "joinable lk rk (fst r) (fst r2)" "join_all T js (equi_join lk rk r r2) = Some r'"
    by (auto split: option.splits Expr.splits if_splits)
  obtain right where right: "scan_of c (jc_table_name j) (jc_alias j) = Ok right" "plan_for srt c tab right r2"
    using scan_of_ok [OF assms(2,3) j(1)] by blast
  from Cons.IH [OF plan_for_join [OF assms(1) Cons.prems(1) right(2) j(3)] j(4)] show ?case using right(1) j(2) by simp
qed auto

lemma s_filter_Ok:
  "\<forall>t \<in> set rows. \<exists>b. p t = Ok b \<Longrightarrow> s_filter p rows fin = (filter (\<lambda>t. p t = Ok True) rows, fin)"
  by (induction rows) (auto split: prod.split)

lemma plan_source_ok:
  assumes "std_sort srt" and "reads c T tab" and "\<forall>r \<in> ran T. table_ok r" and "source_rows T st = Some r"
  shows "\<exists>op. plan_source c st = Ok op \<and> plan_for srt c tab op r"
proof -
  obtain r0 r1 where r: "table_as T (from_table st) (from_alias st) = Some r0" "join_all T (joins st) r0 = Some r1"
      "where_rows (where_clause st) r1 = Some r"
    using assms(4) by (auto simp: source_rows_def Option.bind_eq_Some_conv)
  obtain op0 where op0: "scan_of c (from_table st) (from_alias st) = Ok op0" "plan_for srt c tab op0 r0"
    using scan_of_ok [OF assms(2,3) r(1)] by blast
  obtain op1 where op1: "plan_joins c (joins st) op0 = Ok op1" "plan_for srt c tab op1 r1"
    using plan_joins_ok [OF assms(1-3) op0(2) r(2)] by blast
  show ?thesis
  proof (cases "where_clause st")
    case None
    then show ?thesis using op0(1) op1 r(3) by (auto simp: plan_source_def where_rows_def)
  next
    case (Some p)
    then have "plan_for srt c tab (Filter op1 p) r"
      using op1(2) r(3) by (auto simp: where_rows_def plan_for_def s_filter_Ok split: if_splits)
    then show ?thesis using op0(1) op1(1) Some by (auto simp: plan_source_def)
  qed
qed

section \<open>The select list\<close>

definition item_name :: "SelectItem \<Rightarrow> string" where
  "item_name it = (if si_alias it \<noteq> '''' then si_alias it else case si_expr it of COLUMN_REF t c \<Rightarrow> c | _ \<Rightarrow> ''?'')"

text \<open>Columns and integers; a string in the select list gets a column of an integer's width.\<close>

definition item_ok :: "Schema \<Rightarrow> SelectItem \<Rightarrow> bool" where
  "item_ok sch it \<longleftrightarrow> (case si_expr it of
      COLUMN_REF t c \<Rightarrow> (case GetColumnIdx sch (column_key t c) of Ok i \<Rightarrow> True | _ \<Rightarrow> False)
    | INT_LITERAL i \<Rightarrow> True
    | _ \<Rightarrow> False)"

lemma item_column:
  "item_ok sch it \<Longrightarrow> \<exists>c. projection_column it sch = Ok c \<and> col_name c = item_name it \<and> expr_type (si_expr it) sch = Ok (col_type c)"
  by (auto simp: item_ok_def projection_column_def referenced_column_def item_name_def split: Expr.splits outcome.splits)

lemma projection_schema:
  "\<forall>it \<in> set items. item_ok sch it \<Longrightarrow>
   \<exists>cs. map_out (\<lambda>it. projection_column it sch) items = Ok cs \<and> map col_name cs = map item_name items \<and>
     list_all2 (\<lambda>c it. expr_type (si_expr it) sch = Ok (col_type c)) cs items"
proof (induction items)
  case (Cons it items)
  then obtain cs where "map_out (\<lambda>it. projection_column it sch) items = Ok cs" "map col_name cs = map item_name items"
      "list_all2 (\<lambda>c it. expr_type (si_expr it) sch = Ok (col_type c)) cs items" by auto
  moreover obtain c where "projection_column it sch = Ok c" "col_name c = item_name it" "expr_type (si_expr it) sch = Ok (col_type c)"
    using item_column [of sch it] Cons.prems by auto
  ultimately show ?case by auto
qed simp

lemma EvalExpr_fits:
  assumes "item_ok sch it" and "schema_ok sch" and "row_ok sch t" and "expr_type (si_expr it) sch = Ok (col_type c)"
  shows "EvalExpr (si_expr it) t sch = Ok (val_of (si_expr it) sch t) \<and> value_fits c (val_of (si_expr it) sch t)"
proof -
  obtain v where v: "EvalExpr (si_expr it) t sch = Ok v" "has_type (col_type c) v" using EvalExpr_Ok [OF assms(2,3,4)] by blast
  have "value_fits c v"
  proof (cases "type_id (col_type c)")
    case T_INT
    then show ?thesis using EvalExpr_canonical [OF v(1)] v(2) by (auto simp: value_fits_def has_type_def)
  next
    case T_VARCHAR
    have "length (str_val v) \<le> unat (v_max_len v) \<and> CHR 0x00 \<notin> set (str_val v)"
    proof (cases "si_expr it")
      case (COLUMN_REF tb cn)
      then obtain i where i: "GetValue t sch i = Ok v" using v(1) by (auto simp: bind_out_eq_Ok)
      let ?s = "takeWhile (\<lambda>b. b \<noteq> 0) (take (unat (max_len (col_type (columns sch ! i)))) (drop (unat (offsets sch ! i)) t))"
      have "type_id (col_type (columns sch ! i)) = T_VARCHAR"
        using i v(2) T_VARCHAR by (auto simp: GetValue_def DeserializeFrom_def has_type_def MakeInt_def type_id_cases split: if_splits)
      then have s: "v = MakeVarchar (map char_of_byte ?s) (max_len (col_type (columns sch ! i)))"
        using i by (auto simp: GetValue_def DeserializeFrom_def Let_def split: if_splits)
      have "CHR 0x00 \<notin> set (map char_of_byte ?s)" by (auto dest!: set_takeWhileD) (metis byte_of_char_eq_0 byte_of_char_of_byte)
      moreover have "length ?s \<le> unat (max_len (col_type (columns sch ! i)))" by (rule order_trans [OF length_takeWhile_le]) simp
      ultimately show ?thesis unfolding s by (simp add: MakeVarchar_def)
    qed (use v assms(1) T_VARCHAR in \<open>auto simp: item_ok_def has_type_def MakeInt_def\<close>)
    then show ?thesis using EvalExpr_canonical [OF v(1)] v(2) T_VARCHAR by (auto simp: value_fits_def has_type_def)
  qed
  then show ?thesis using v(1) by (simp add: val_of_Ok)
qed

definition item_row :: "SelectItem list \<Rightarrow> Schema \<Rightarrow> Tuple \<Rightarrow> Tuple" where
  "item_row items sch t = concat (map (\<lambda>it. value_bytes (val_of (si_expr it) sch t)) items)"

lemma project_items:
  assumes "schema_ok sch" and "row_ok sch t" and "\<forall>it \<in> set items. item_ok sch it"
    and "list_all2 (\<lambda>c it. expr_type (si_expr it) sch = Ok (col_type c)) cs items" and "row_size cs < 2 ^ 32"
  shows "project (map si_expr items) sch t (mk_Schema cs) = Ok (item_row items sch t)"
    and "list_all2 value_fits cs (map (\<lambda>it. val_of (si_expr it) sch t) items)"
proof -
  have "eval_list (map si_expr items) t sch = Ok (map (\<lambda>it. val_of (si_expr it) sch t) items) \<and>
      list_all2 value_fits cs (map (\<lambda>it. val_of (si_expr it) sch t) items)"
    using assms(4,3)
  proof (induction cs items rule: list_all2_induct)
    case (Cons c cs it items)
    then show ?case using EvalExpr_fits [OF _ assms(1,2), of it c] by simp
  qed simp
  then have e: "eval_list (map si_expr items) t sch = Ok (map (\<lambda>it. val_of (si_expr it) sch t) items)"
    and f: "list_all2 value_fits cs (map (\<lambda>it. val_of (si_expr it) sch t) items)" by auto
  show "list_all2 value_fits cs (map (\<lambda>it. val_of (si_expr it) sch t) items)" by (rule f)
  have "list_all2 value_typed cs (map (\<lambda>it. val_of (si_expr it) sch t) items)"
    using f by (rule list_all2_mono) (rule value_fits_typed)
  from mk_Tuple_typed [OF this assms(5)] e show "project (map si_expr items) sch t (mk_Schema cs) = Ok (item_row items sch t)"
    by (simp add: project_def item_row_def comp_def)
qed

text \<open>The cells of a row and the text of a row.\<close>

definition cell :: "Schema \<Rightarrow> Tuple \<Rightarrow> nat \<Rightarrow> string" where
  "cell sch t i = (case GetValue t sch i of Ok v \<Rightarrow> ToString v | _ \<Rightarrow> '''')"

lemma text_from_ok: "\<forall>i \<in> set is. \<exists>v. GetValue t sch i = Ok v \<Longrightarrow> text_from t sch is = Ok (map (cell sch t) is)"
  by (induction "is") (auto simp: cell_def)

lemma row_text_ok: "schema_ok sch \<Longrightarrow> row_ok sch t \<Longrightarrow> row_text sch t = Ok (map (cell sch t) [0..<length (columns sch)])"
  using GetValue_typed [of sch t] by (fastforce simp: row_text_def GetColumnCount_def intro!: text_from_ok)

lemma row_text_items:
  assumes "list_all2 value_fits cs vs" and "row_size cs < 2 ^ 32"
  shows "row_text (mk_Schema cs) (concat (map value_bytes vs)) = Ok (map ToString vs)"
proof -
  have t: "list_all2 value_typed cs vs" using assms(1) by (rule list_all2_mono) (rule value_fits_typed)
  have len: "length cs = length vs" using t by (rule list_all2_lengthD)
  have g: "GetValue (concat (map value_bytes vs)) (mk_Schema cs) i = Ok (vs ! i)" if "i < length cs" for i
    using GetValue_mk_Tuple [OF t assms(2) that] value_fits_read_back list_all2_nthD [OF assms(1) that] by simp
  then have "text_from (concat (map value_bytes vs)) (mk_Schema cs) [0..<length cs] =
      Ok (map (cell (mk_Schema cs) (concat (map value_bytes vs))) [0..<length cs])"
    by (intro text_from_ok) auto
  moreover have "map (cell (mk_Schema cs) (concat (map value_bytes vs))) [0..<length cs] = map ToString vs"
    using g len by (intro nth_equalityI) (simp_all add: cell_def)
  ultimately show ?thesis by (simp add: row_text_def GetColumnCount_def)
qed

section \<open>From the plan to the result\<close>

lemma s_drain_text:
  "\<forall>t \<in> set rows. txt t = Ok (f t) \<Longrightarrow> s_drain (\<lambda>t acc. bind_out (txt t) (\<lambda>r. Ok (acc @ [r]))) acc (rows, Ok ()) = Ok (acc @ map f rows)"
proof -
  have "fold_out (\<lambda>t acc. bind_out (txt t) (\<lambda>r. Ok (acc @ [r]))) rows acc = Ok (acc @ map f rows)" if "\<forall>t \<in> set rows. txt t = Ok (f t)" for acc
    using that by (induction rows arbitrary: acc) auto
  then show "\<forall>t \<in> set rows. txt t = Ok (f t) \<Longrightarrow> ?thesis" by (simp add: s_drain_def)
qed

text \<open>A plan of the catalog delivers the rows of the tables, and its execution leaves the tables.\<close>

lemma ExecSelect_ok:
  assumes db: "db_holds db T n" and plan: "\<And>tab. reads (db_catalog db) T tab \<Longrightarrow>
      \<exists>op rows. Q rows \<and> Plan (db_catalog db) st = Ok op \<and> fresh op \<and> tables_of op \<subseteq> cat_heaps (db_catalog db) \<and>
        stream_of srt tab op = Ok (rows, Ok ()) \<and> map col_name (columns (GetOutputSchema op)) = names \<and>
        (\<forall>t \<in> set rows. row_text (GetOutputSchema op) t = Ok (f t))"
  shows "\<exists>rows db'. Q rows \<and> ExecSelect srt st db = Some (Ok \<lparr>qr_columns = names, qr_rows = map f rows, qr_message = []\<rparr>, db') \<and>
    db_holds db' T n"
proof -
  have H: "cat_holds (db_catalog db) (db_bpm db) T n" "\<forall>r \<in> ran T. table_ok r" using db by (auto simp: db_holds_def)
  obtain m k l tab where R: "bpm_idle (db_bpm db) m k l" "0 < k" "reads (db_catalog db) T tab"
      "\<forall>h \<in> cat_heaps (db_catalog db). table_rows m h (tab h)"
      and keep: "\<And>b'. bpm_idle b' m k l \<Longrightarrow> cat_holds (db_catalog db) b' T n"
    using cat_holds_reads [OF H(1)] by metis
  obtain op rows where Q: "Q rows" and op: "Plan (db_catalog db) st = Ok op" "fresh op" "tables_of op \<subseteq> cat_heaps (db_catalog db)"
      "stream_of srt tab op = Ok (rows, Ok ())" "map col_name (columns (GetOutputSchema op)) = names"
      "\<forall>t \<in> set rows. row_text (GetOutputSchema op) t = Ok (f t)"
    using plan [OF R(3)] by blast
  have "\<forall>h \<in> tables_of op. table_rows m h (tab h)" using R(4) op(3) by blast
  then obtain op1 b1 where i: "Init srt op (db_bpm db) = Some (Ok op1, b1)" "bpm_idle b1 m k l" "delivers op1 rows (Ok ())"
    using Init_delivers [OF R(1,2) op(2) _ op(4)] by blast
  let ?body = "\<lambda>t acc. bind_out (row_text (GetOutputSchema op) t) (\<lambda>r. Ok (acc @ [r]))"
  obtain op2 where d: "drain ?body [] op1 = Some (Ok (map f rows), op2)"
    using drain_delivers [OF i(3), of ?body "[]"] s_drain_text [OF op(6), of "[]"] by auto
  have "ExecSelect srt st db = Some (Ok \<lparr>qr_columns = names, qr_rows = map f rows, qr_message = []\<rparr>, db\<lparr>db_bpm := b1\<rparr>)"
    using op(1,5) i(1) d by (simp add: ExecSelect_def beside_def)
  moreover have "db_holds (db\<lparr>db_bpm := b1\<rparr>) T n" using keep [OF i(2)] H(2) by (simp add: db_holds_def)
  ultimately show ?thesis using Q by blast
qed

lemma sort_plan_ok:
  assumes "std_sort srt" and "plan_for srt c tab op (sch, rows)" and "\<forall>i \<in> set ob. \<exists>ct. expr_type (ob_expr i) sch = Ok ct"
  shows "\<exists>out. plan_for srt c tab (sort_plan ob op) (sch, out) \<and> mset out = mset rows \<and> sorted_wrt (in_order ob sch) out \<and> (ob = [] \<longrightarrow> out = rows)"
proof (cases "ob = []")
  case True
  have "in_order [] sch = (\<lambda>t u. True)" by (simp add: fun_eq_iff)
  then have "sorted_wrt (in_order ob sch) rows" using True by (simp add: sorted_wrt_true)
  then show ?thesis using assms(2) True by (auto simp: sort_plan_def)
next
  case False
  have p: "fresh op" "tables_of op \<subseteq> cat_heaps c" "op_ok tab op" "GetOutputSchema op = sch" "stream_of srt tab op = Ok (rows, Ok ())"
    using assms(2) by (auto simp: plan_for_def)
  obtain out where "stream_of srt tab (Sort op ob [] 0) = Ok (out, Ok ())" "mset out = mset rows" "sorted_wrt (in_order ob sch) out"
    using sort_stream [OF assms(1) p(3,5)] assms(3) p(4) by metis
  then show ?thesis using False p by (auto simp: plan_for_def sort_plan_def mk_Sort_def simp del: stream_of.simps)
qed

section \<open>Statements without aggregates\<close>

definition select_names :: "SelectItem list \<Rightarrow> Schema \<Rightarrow> string list" where
  "select_names items sch = (if is_star_list items then map col_name (columns sch) else map item_name items)"

definition select_text :: "SelectItem list \<Rightarrow> Schema \<Rightarrow> Tuple \<Rightarrow> string list" where
  "select_text items sch t = (if is_star_list items then map (cell sch t) [0..<length (columns sch)]
     else map (\<lambda>it. ToString (val_of (si_expr it) sch t)) items)"

text \<open>A star, or columns and integers that fit into a row.\<close>

definition plain_select :: "SelectStmt \<Rightarrow> Schema \<Rightarrow> bool" where
  "plain_select st sch \<longleftrightarrow> is_star_list (select_list st) \<or>
     group_by st = [] \<and> (\<forall>it \<in> set (select_list st). item_ok sch it) \<and> (\<forall>s. BuildProjectionSchema (select_list st) sch = Ok s \<longrightarrow> schema_ok s)"

lemma item_ok_not_aggregate: "\<forall>it \<in> set items. item_ok sch it \<Longrightarrow> \<not> HasAggregate items"
  by (auto simp: HasAggregate_def is_aggregate_def item_ok_def list_ex_iff split: Expr.splits)

lemma s_map_Ok: "\<forall>t \<in> set rows. g t = Ok (f t) \<Longrightarrow> s_map g rows fin = (map f rows, fin)"
  by (induction rows) auto

lemma ExecSelect_star:
  assumes "std_sort srt" and db: "db_holds db T n" and src: "source_rows T st = Some (sch, rows)" and star: "is_star_list (select_list st)"
    and ob: "\<forall>i \<in> set (order_by st). \<exists>ct. expr_type (ob_expr i) sch = Ok ct"
  shows "\<exists>out db'. (mset out = mset rows \<and> sorted_wrt (in_order (order_by st) sch) out \<and> (order_by st = [] \<longrightarrow> out = rows)) \<and>
    ExecSelect srt st db = Some (Ok \<lparr>qr_columns = map col_name (columns sch),
      qr_rows = map (\<lambda>t. map (cell sch t) [0..<length (columns sch)]) out, qr_message = []\<rparr>, db') \<and> db_holds db' T n"
proof (rule ExecSelect_ok [OF db])
  fix tab assume r: "reads (db_catalog db) T tab"
  have "\<forall>r \<in> ran T. table_ok r" using db by (simp add: db_holds_def)
  then obtain op where op: "plan_source (db_catalog db) st = Ok op" "plan_for srt (db_catalog db) tab op (sch, rows)"
    using plan_source_ok [OF assms(1) r _ src] by blast
  obtain out where out: "plan_for srt (db_catalog db) tab (sort_plan (order_by st) op) (sch, out)" "mset out = mset rows"
      "sorted_wrt (in_order (order_by st) sch) out" "order_by st = [] \<longrightarrow> out = rows"
    using sort_plan_ok [OF assms(1) op(2) ob] by blast
  have "\<forall>t \<in> set out. row_text sch t = Ok (map (cell sch t) [0..<length (columns sch)])"
    using plan_forD [OF out(1) assms(1)] row_text_ok by simp
  then show "\<exists>op out. (mset out = mset rows \<and> sorted_wrt (in_order (order_by st) sch) out \<and> (order_by st = [] \<longrightarrow> out = rows)) \<and>
      Plan (db_catalog db) st = Ok op \<and> fresh op \<and> tables_of op \<subseteq> cat_heaps (db_catalog db) \<and>
      stream_of srt tab op = Ok (out, Ok ()) \<and> map col_name (columns (GetOutputSchema op)) = map col_name (columns sch) \<and>
      (\<forall>t \<in> set out. row_text (GetOutputSchema op) t = Ok (map (cell sch t) [0..<length (columns sch)]))"
    using out op(1) star by (intro exI [of _ "sort_plan (order_by st) op"] exI [of _ out]) (simp add: Plan_def plan_for_def Let_def)
qed

lemma ExecSelect_items:
  assumes "std_sort srt" and db: "db_holds db T n" and src: "source_rows T st = Some (sch, rows)"
    and ns: "\<not> is_star_list (select_list st)" and pl: "plain_select st sch"
    and ob: "\<forall>i \<in> set (order_by st). \<exists>ct. expr_type (ob_expr i) sch = Ok ct"
  shows "\<exists>out db'. (mset out = mset rows \<and> sorted_wrt (in_order (order_by st) sch) out \<and> (order_by st = [] \<longrightarrow> out = rows)) \<and>
    ExecSelect srt st db = Some (Ok \<lparr>qr_columns = map item_name (select_list st),
      qr_rows = map (\<lambda>t. map (\<lambda>it. ToString (val_of (si_expr it) sch t)) (select_list st)) out, qr_message = []\<rparr>, db') \<and> db_holds db' T n"
proof -
  let ?items = "select_list st"
  have it: "\<forall>it \<in> set ?items. item_ok sch it" and gb: "group_by st = []" using pl ns by (auto simp: plain_select_def)
  obtain cs where cs: "map_out (\<lambda>it. projection_column it sch) ?items = Ok cs" "map col_name cs = map item_name ?items"
      "list_all2 (\<lambda>c it. expr_type (si_expr it) sch = Ok (col_type c)) cs ?items"
    using projection_schema [OF it] by blast
  have bs: "BuildProjectionSchema ?items sch = Ok (mk_Schema cs)" using cs(1) by (simp add: BuildProjectionSchema_def)
  then have sz: "row_size cs < 2 ^ 32" using pl ns by (auto simp: plain_select_def schema_ok_mk)
  let ?Q = "\<lambda>rows'. \<exists>out. rows' = map (item_row ?items sch) out \<and> (\<forall>t \<in> set out. row_ok sch t) \<and> schema_ok sch \<and>
    mset out = mset rows \<and> sorted_wrt (in_order (order_by st) sch) out \<and> (order_by st = [] \<longrightarrow> out = rows)"
  let ?f = "\<lambda>t'. case row_text (mk_Schema cs) t' of Ok r \<Rightarrow> r"
  have "\<exists>rows' db'. ?Q rows' \<and>
    ExecSelect srt st db = Some (Ok \<lparr>qr_columns = map item_name ?items, qr_rows = map ?f rows', qr_message = []\<rparr>, db') \<and> db_holds db' T n"
  proof (rule ExecSelect_ok [OF db])
    fix tab assume r: "reads (db_catalog db) T tab"
    have "\<forall>r \<in> ran T. table_ok r" using db by (simp add: db_holds_def)
    then obtain op where op: "plan_source (db_catalog db) st = Ok op" "plan_for srt (db_catalog db) tab op (sch, rows)"
      using plan_source_ok [OF assms(1) r _ src] by blast
    obtain out where out: "plan_for srt (db_catalog db) tab (sort_plan (order_by st) op) (sch, out)" "mset out = mset rows"
        "sorted_wrt (in_order (order_by st) sch) out" "order_by st = [] \<longrightarrow> out = rows"
      using sort_plan_ok [OF assms(1) op(2) ob] by blast
    have ok: "schema_ok sch" "\<forall>t \<in> set out. row_ok sch t" using plan_forD [OF out(1) assms(1)] by auto
    let ?op = "Projection (sort_plan (order_by st) op) (map si_expr ?items) (proj_names ?items) (mk_Schema cs)"
    have gs: "GetOutputSchema (sort_plan (order_by st) op) = sch" using out(1) by (simp add: plan_for_def)
    have p: "\<forall>t \<in> set out. project (map si_expr ?items) sch t (mk_Schema cs) = Ok (item_row ?items sch t)"
      using project_items(1) [OF ok(1) _ it cs(3) sz] ok(2) by blast
    then have "stream_of srt tab ?op = Ok (map (item_row ?items sch) out, Ok ())"
      using out(1) s_map_Ok [OF p] by (simp add: plan_for_def gs)
    moreover have "\<forall>t' \<in> set (map (item_row ?items sch) out). row_text (mk_Schema cs) t' = Ok (?f t')"
      using row_text_items [OF project_items(2) [OF ok(1) _ it cs(3) sz] sz] ok(2) by (auto simp: item_row_def comp_def)
    moreover have "Plan (db_catalog db) st = Ok ?op"
      using op(1) ns gb bs gs item_ok_not_aggregate [OF it] by (simp add: Plan_def Let_def)
    moreover have "?Q (map (item_row ?items sch) out)" using ok out by blast
    moreover have "fresh ?op" "tables_of ?op \<subseteq> cat_heaps (db_catalog db)" using out(1) by (auto simp: plan_for_def)
    ultimately show "\<exists>op rows'. ?Q rows' \<and> Plan (db_catalog db) st = Ok op \<and> fresh op \<and> tables_of op \<subseteq> cat_heaps (db_catalog db) \<and>
      stream_of srt tab op = Ok (rows', Ok ()) \<and> map col_name (columns (GetOutputSchema op)) = map item_name ?items \<and>
      (\<forall>t \<in> set rows'. row_text (GetOutputSchema op) t = Ok (?f t))"
      using cs(2) by (intro exI [of _ ?op] exI [of _ "map (item_row ?items sch) out"]) (simp del: stream_of.simps)
  qed
  then obtain out db' where out: "\<forall>t \<in> set out. row_ok sch t" "schema_ok sch" "mset out = mset rows"
      "sorted_wrt (in_order (order_by st) sch) out" "order_by st = [] \<longrightarrow> out = rows" "db_holds db' T n"
      "ExecSelect srt st db = Some (Ok \<lparr>qr_columns = map item_name ?items, qr_rows = map ?f (map (item_row ?items sch) out), qr_message = []\<rparr>, db')"
    by blast
  have "map ?f (map (item_row ?items sch) out) = map (\<lambda>t. map (\<lambda>it. ToString (val_of (si_expr it) sch t)) ?items) out"
    using row_text_items [OF project_items(2) [OF out(2) _ it cs(3) sz] sz] out(1) by (auto simp: item_row_def comp_def)
  then show ?thesis using out by metis
qed

section \<open>Plans of the catalog\<close>

lemma scan_of_fresh: "scan_of c x a = Ok op \<Longrightarrow> fresh op \<and> tables_of op \<subseteq> cat_heaps c"
  by (auto simp: scan_of_def GetTable_def mk_SeqScan_def cat_heaps_def bind_out_eq_Ok ranI split: option.splits)

lemma plan_joins_fresh:
  "plan_joins c js op = Ok op' \<Longrightarrow> fresh op \<and> tables_of op \<subseteq> cat_heaps c \<Longrightarrow> fresh op' \<and> tables_of op' \<subseteq> cat_heaps c"
proof (induction js arbitrary: op)
  case (Cons j js)
  then obtain right l r where "scan_of c (jc_table_name j) (jc_alias j) = Ok right" "plan_joins c js (mk_HashJoin op right l r) = Ok op'"
    by (cases "jc_condition j") (auto simp: bind_out_eq_Ok split: if_splits)
  then show ?case using Cons scan_of_fresh [of c _ _ right] by (auto simp: mk_HashJoin_def empty_join_def)
qed auto

lemma Plan_fresh:
  assumes "Plan c st = Ok op"
  shows "fresh op \<and> tables_of op \<subseteq> cat_heaps c"
proof -
  obtain src where src: "plan_source c st = Ok src" using assms by (auto simp: Plan_def bind_out_eq_Ok)
  then have "fresh src \<and> tables_of src \<subseteq> cat_heaps c"
    using scan_of_fresh plan_joins_fresh by (fastforce simp: plan_source_def bind_out_eq_Ok split: option.splits)
  then show ?thesis
    using assms src by (auto simp: Plan_def Let_def bind_out_eq_Ok sort_plan_def mk_Sort_def mk_HashAggregate_def split: if_splits)
qed

lemma ExecSelect_returns:
  assumes "db_holds db T n"
  shows "\<exists>r db'. ExecSelect srt st db = Some (r, db') \<and> db_holds db' T n"
proof (cases "Plan (db_catalog db) st")
  case (Ok op)
  have H: "cat_holds (db_catalog db) (db_bpm db) T n" "\<forall>r \<in> ran T. table_ok r" using assms by (auto simp: db_holds_def)
  obtain m k l tab where R: "bpm_idle (db_bpm db) m k l" "0 < k" "\<forall>h \<in> cat_heaps (db_catalog db). table_rows m h (tab h)"
      and keep: "\<And>b'. bpm_idle b' m k l \<Longrightarrow> cat_holds (db_catalog db) b' T n"
    using cat_holds_reads [OF H(1)] by metis
  have op: "fresh op" "\<forall>h \<in> tables_of op. table_rows m h (tab h)" using Plan_fresh [OF Ok] R(3) by auto
  let ?body = "\<lambda>t acc. bind_out (row_text (GetOutputSchema op) t) (\<lambda>r. Ok (acc @ [r]))"
  have db': "db_holds (db\<lparr>db_bpm := b\<rparr>) T n" if "bpm_idle b m k l" for b using keep [OF that] H(2) by (simp add: db_holds_def)
  have "\<exists>x b'. Init srt op (db_bpm db) = Some (x, b') \<and> bpm_idle b' m k l \<and> (\<forall>op1. x = Ok op1 \<longrightarrow> (\<exists>s. delivers_stream op1 s))"
    using Init_agrees [OF R(1,2) op, of srt] by (cases "stream_of srt tab op") (fastforce simp: init_agrees_def)+
  then obtain x b' where x: "Init srt op (db_bpm db) = Some (x, b')" "bpm_idle b' m k l" "\<And>op1. x = Ok op1 \<Longrightarrow> \<exists>s. delivers_stream op1 s"
    by blast
  show ?thesis
  proof (cases x)
    case (Ok op1)
    then obtain s where "delivers_stream op1 s" using x(3) by blast
    from drain_delivers [OF this, of ?body "[]"] obtain y op2 where "drain ?body [] op1 = Some (y, op2)" by auto
    then show ?thesis using \<open>Plan (db_catalog db) st = Ok op\<close> Ok x(1,2) db'
      by (cases y) (auto simp: ExecSelect_def beside_def)
  qed (use Ok x(1,2) db' in \<open>auto simp: ExecSelect_def\<close>)
qed (use assms in \<open>auto simp: ExecSelect_def\<close>)

section \<open>Rejected statements\<close>

lemma insert_values_bad:
  "length cs = length es \<Longrightarrow> \<not> literals_ok cs es \<Longrightarrow> \<exists>e. insert_values cs es = Throw (Runtime_Error e)"
proof (induction cs es rule: list_induct2)
  case (Cons c cs e es)
  show ?case
  proof (cases "insert_value c e")
    case (Ok v)
    then have "\<not> literals_ok cs es" using Cons.prems
      by (auto simp: literals_ok_def insert_value_def split: Expr.splits if_splits TypeId.splits)
    then show ?thesis using Cons.IH Ok by auto
  qed (auto simp: insert_value_def split: Expr.splits if_splits)
qed (simp add: literals_ok_def)

fun rejected :: "tables \<Rightarrow> Statement \<Rightarrow> bool" where
  "rejected T (Parser.CreateTable st) \<longleftrightarrow> T (ct_table_name st) \<noteq> None"
| "rejected T (InsertInto st) \<longleftrightarrow> (case T (in_table_name st) of None \<Rightarrow> True | Some (sch, rows) \<Rightarrow> \<not> literals_ok (columns sch) (in_values st))"
| "rejected T (Select st) \<longleftrightarrow> T (from_table st) = None"
| "rejected T (Explain st) \<longleftrightarrow> False"

lemma exec_rejected:
  assumes "db_holds db T n" and "rejected T s"
  shows "\<exists>e. exec_statement srt s db = Some (Throw (Runtime_Error e), db)"
proof -
  have H: "cat_holds (db_catalog db) (db_bpm db) T n" using assms(1) by (simp add: db_holds_def)
  show ?thesis
  proof (cases s)
    case (CreateTable st)
    then show ?thesis using CreateTable_exists [OF H] assms(2) by (simp add: exec_statement_def ExecCreate_def)
  next
    case (InsertInto st)
    show ?thesis
    proof (cases "T (in_table_name st)")
      case None
      then show ?thesis using InsertInto GetTable_cases(1) [OF H None] by (simp add: exec_statement_def ExecInsert_def)
    next
      case (Some r)
      then obtain sch rows where r: "T (in_table_name st) = Some (sch, rows)" by (cases r) auto
      obtain info where i: "GetTable (in_table_name st) (db_catalog db) = Ok info" "ti_schema info = sch"
        using GetTable_cases(2) [OF H r] by blast
      have bad: "\<not> literals_ok (columns sch) (in_values st)" using assms(2) r InsertInto by simp
      show ?thesis using InsertInto i bad insert_values_bad [of "columns sch" "in_values st"]
        by (cases "length (in_values st) = GetColumnCount sch")
          (fastforce simp: exec_statement_def ExecInsert_def GetColumnCount_def)+
    qed
  next
    case (Select st)
    then show ?thesis using GetTable_cases(1) [OF H, of "from_table st"] assms(2)
      by (simp add: exec_statement_def ExecSelect_def Plan_def plan_source_def scan_of_def)
  qed (use assms(2) in simp)
qed

section \<open>Reading back what was inserted\<close>

definition select_all :: "string \<Rightarrow> SelectStmt" where
  "select_all x = \<lparr>select_list = [\<lparr>si_expr = STAR, si_alias = ''''\<rparr>], from_table = x, from_alias = '''', joins = [],
     where_clause = None, group_by = [], order_by = []\<rparr>"

fun literal_text :: "Expr \<Rightarrow> string" where
  "literal_text (INT_LITERAL i) = show_int (ival i)"
| "literal_text (STRING_LITERAL s) = s"
| "literal_text _ = ''''"

text \<open>Literals of the column types; strings are no longer than the column and have no zero byte.\<close>

definition literals_fit :: "Column list \<Rightarrow> Expr list \<Rightarrow> bool" where
  "literals_fit cs es \<longleftrightarrow> literals_ok cs es \<and>
     list_all2 (\<lambda>c e. case e of STRING_LITERAL s \<Rightarrow> length s \<le> unat (max_len (col_type c)) \<and> CHR 0x00 \<notin> set s | _ \<Rightarrow> True) cs es"

lemma literals_fit_values:
  "literals_fit cs es \<Longrightarrow> list_all2 value_fits cs (map2 literal_value cs es) \<and> map ToString (map2 literal_value cs es) = map literal_text es"
proof -
  assume "literals_fit cs es"
  then have "list_all2 (\<lambda>c e. (case type_id (col_type c) of T_INT \<Rightarrow> \<exists>i. e = INT_LITERAL i | T_VARCHAR \<Rightarrow> \<exists>s. e = STRING_LITERAL s) \<and>
      (case e of STRING_LITERAL s \<Rightarrow> length s \<le> unat (max_len (col_type c)) \<and> CHR 0x00 \<notin> set s | _ \<Rightarrow> True)) cs es"
    by (auto simp: literals_fit_def literals_ok_def list_all2_conv_all_nth)
  then show ?thesis
  proof (induction cs es rule: list_all2_induct)
    case (Cons c cs e es)
    then show ?case by (auto simp: value_fits_def ToString_def MakeInt_def MakeVarchar_def split: TypeId.splits)
  qed simp
qed

lemma spec_run_inserts:
  assumes "T x = Some (sch, rows)" and "\<forall>es \<in> set ess. literals_ok (columns sch) es"
  shows "spec_run (map (\<lambda>es. InsertInto \<lparr>in_table_name = x, in_values = es\<rparr>) ess) T =
    Some (T(x \<mapsto> (sch, rows @ map (literal_row (columns sch)) ess)))"
  using assms
proof (induction ess arbitrary: T rows)
  case (Cons es ess)
  then show ?case by (auto simp: spec_insert_def fun_eq_iff)
qed (simp add: map_upd_triv)

lemma renamed_fits:
  "list_all2 value_fits cs vs \<Longrightarrow> list_all2 value_fits (map (\<lambda>c. c\<lparr>col_name := f c\<rparr>) cs) vs"
proof -
  have "value_fits (c\<lparr>col_name := f c\<rparr>) v = value_fits c v" for c v
    by (cases "type_id (col_type c)") (simp_all add: value_fits_def)
  then show "list_all2 value_fits cs vs \<Longrightarrow> ?thesis" by (simp add: list_all2_map1)
qed

lemma cells_of_literals:
  assumes "columns_ok cs" and "literals_fit cs es"
  shows "map (cell (MakeOutputSchema (mk_Schema cs) x) (literal_row cs es)) [0..<length cs] = map literal_text es"
proof -
  let ?f = "\<lambda>c. x @ ''.'' @ col_name c"
  let ?cs = "if x = '''' then cs else map (\<lambda>c. c\<lparr>col_name := ?f c\<rparr>) cs"
  have sch: "MakeOutputSchema (mk_Schema cs) x = mk_Schema ?cs" by (simp add: MakeOutputSchema_def)
  have ok: "schema_ok (mk_Schema cs)" using columns_okD [OF assms(1)] by simp
  have fits: "list_all2 value_fits ?cs (map2 literal_value cs es)" using literals_fit_values [OF assms(2)] renamed_fits by auto
  have sz: "row_size ?cs < 2 ^ 32" using MakeOutputSchema_ok(1) [OF ok, of x] unfolding sch by (simp only: schema_ok_mk)
  have "row_ok (mk_Schema ?cs) (literal_row cs es)"
    using insert_row_typed(2) [OF ok, of es] assms(2) MakeOutputSchema_ok(2) [OF ok, of x, unfolded sch] by (simp add: literals_fit_def)
  moreover have "schema_ok (mk_Schema ?cs)" using sz by (simp only: schema_ok_mk)
  ultimately have "row_text (mk_Schema ?cs) (literal_row cs es) = Ok (map (cell (mk_Schema ?cs) (literal_row cs es)) [0..<length ?cs])"
    using row_text_ok by simp
  moreover have "row_text (mk_Schema ?cs) (literal_row cs es) = Ok (map ToString (map2 literal_value cs es))"
    unfolding literal_row_def by (rule row_text_items [OF fits sz])
  ultimately have "map (cell (mk_Schema ?cs) (literal_row cs es)) [0..<length ?cs] = map ToString (map2 literal_value cs es)" by simp
  moreover have "length ?cs = length cs" by simp
  ultimately show ?thesis using literals_fit_values [OF assms(2)] unfolding sch by (simp only:)
qed

lemma create_insert_run:
  assumes "T x = None" and "columns_ok (def_columns ds)" and "\<forall>es \<in> set ess. literals_fit (def_columns ds) es"
  shows "spec_run (Parser.CreateTable \<lparr>ct_table_name = x, ct_columns = ds\<rparr> # map (\<lambda>es. InsertInto \<lparr>in_table_name = x, in_values = es\<rparr>) ess) T =
    Some (T(x \<mapsto> (mk_Schema (def_columns ds), map (literal_row (def_columns ds)) ess)))"
  using assms spec_run_inserts [of "T(x \<mapsto> (mk_Schema (def_columns ds), []))" x "mk_Schema (def_columns ds)" "[]" ess]
  by (simp add: spec_create_def literals_fit_def)

section \<open>Properties\<close>

lemma small_pool_room: "10 < pages_left small_pool"
  by (simp add: small_pool_def mk_BufferPoolManager_def pages_left_def one_page_disk_def INT32_MAX_def)

definition empty_db :: Database where
  "empty_db = \<lparr>db_bpm = small_pool, db_catalog = mk_Catalog\<rparr>"

lemma empty_db_holds: "n \<le> 10 \<Longrightarrow> db_holds empty_db Map.empty n"
proof -
  assume n: "n \<le> 10"
  obtain m where "bpm_idle small_pool m 2 (pages_left small_pool)" using small_pool_idle(1) by blast
  moreover have "n \<le> pages_left small_pool" using small_pool_room n by simp
  moreover have "cat_inv m Map.empty (\<lambda>_. [])" "cat_tables m Map.empty (\<lambda>_. []) = Map.empty"
    by (auto simp: cat_inv_def cat_tables_def fun_eq_iff)
  ultimately have "cat_holds Map.empty small_pool Map.empty n" unfolding cat_holds_def by (metis zero_less_numeral)
  then show ?thesis by (simp add: db_holds_def empty_db_def mk_Catalog_def)
qed

text \<open>(C1) A \<open>SELECT\<close> given as text returns what it asks for: the rows of the first table, joined from left
  to right with the other tables where the keys match, those of them that satisfy the condition,
  in the order of the \<open>ORDER BY\<close> list, and of each row the columns of the select list as text.
  The tables stay as they are.\<close>

theorem execute_select:
  assumes "db_holds db T n" and "std_sort srt" and "sql_ok (Select st)" and "source_rows T st = Some (sch, rows)"
    and "plain_select st sch" and "\<forall>i \<in> set (order_by st). \<exists>ct. expr_type (ob_expr i) sch = Ok ct"
  shows "\<exists>out db'. Execute srt (statement_text (Select st)) db =
      Some (Ok \<lparr>qr_columns = select_names (select_list st) sch, qr_rows = map (select_text (select_list st) sch) out, qr_message = ''''\<rparr>, db') \<and>
    mset out = mset rows \<and> sorted_wrt (in_order (order_by st) sch) out \<and> (order_by st = [] \<longrightarrow> out = rows) \<and> db_holds db' T n"
proof (cases "is_star_list (select_list st)")
  case True
  then have "select_text (select_list st) sch = (\<lambda>t. map (cell sch t) [0..<length (columns sch)])"
    by (simp add: fun_eq_iff select_text_def)
  then show ?thesis
    using ExecSelect_star [OF assms(2,1,4) True assms(6)] True
    by (auto simp: Execute_text [OF assms(3)] exec_statement_def select_names_def)
next
  case False
  then have "select_text (select_list st) sch = (\<lambda>t. map (\<lambda>it. ToString (val_of (si_expr it) sch t)) (select_list st))"
    by (simp add: fun_eq_iff select_text_def)
  then show ?thesis
    using ExecSelect_items [OF assms(2,1,4) False assms(5,6)] False
    by (auto simp: Execute_text [OF assms(3)] exec_statement_def select_names_def)
qed

text \<open>A table \<open>t\<close> of one integer column with the rows 2 and 1, and a query on it.\<close>

definition t_cols :: "ColumnDef list" where
  "t_cols = [\<lparr>cd_name = ''a'', cd_type = T_INT, cd_max_len = 0\<rparr>]"

definition t_rows :: "Expr list list" where
  "t_rows = [[INT_LITERAL (mk32 2)], [INT_LITERAL (mk32 1)]]"

definition t_query :: SelectStmt where
  "t_query = \<lparr>select_list = [\<lparr>si_expr = COLUMN_REF '''' ''a'', si_alias = ''x''\<rparr>], from_table = ''t'', from_alias = '''', joins = [],
     where_clause = Some (BINARY_OP ''<'' (COLUMN_REF '''' ''a'') (INT_LITERAL (mk32 2))), group_by = [], order_by = []\<rparr>"

lemma t_cols_ok: "columns_ok (def_columns t_cols)" "\<forall>es \<in> set t_rows. literals_fit (def_columns t_cols) es"
  by (simp_all add: columns_ok_def def_columns_def t_cols_def GetFixedSize_def PAGE_SIZE_def HEAP_HEADER_SIZE_def
      literals_fit_def literals_ok_def t_rows_def)

lemma t_int_row: "mk_Schema (def_columns t_cols) = int_row"
  by (simp add: def_columns_def t_cols_def int_row_def ColumnType_Int_def)

lemma one_letter: "islower c \<Longrightarrow> is_name [c]"
  by (simp add: is_name_def idstart_def idchar_def isalnum_def isalpha_def KEYWORDS_def)

lemma t_statements_ok:
  "sql_ok (Parser.CreateTable \<lparr>ct_table_name = ''t'', ct_columns = t_cols\<rparr>)"
  "\<forall>es \<in> set t_rows. sql_ok (InsertInto \<lparr>in_table_name = ''t'', in_values = es\<rparr>)"
  "sql_ok (Select (select_all ''t''))" "sql_ok (Select t_query)"
  by (simp_all add: sql_ok_def t_cols_def t_rows_def select_all_def t_query_def select_printable_def print_select_def print_item_def
      print_as_def print_column_def_def print_type_def in_parens_def op_token_def OPS_def islower_def sample_ints one_letter)

lemma t_db: "\<exists>db. db_holds db [''t'' \<mapsto> (int_row, [[2, 0, 0, 0], [1, 0, 0, 0]])] 1"
proof -
  let ?ss = "Parser.CreateTable \<lparr>ct_table_name = ''t'', ct_columns = t_cols\<rparr> # map (\<lambda>es. InsertInto \<lparr>in_table_name = ''t'', in_values = es\<rparr>) t_rows"
  have "db_holds empty_db Map.empty (length ?ss + 1)" by (rule empty_db_holds) (simp add: t_rows_def)
  moreover have "spec_run ?ss Map.empty = Some [''t'' \<mapsto> (mk_Schema (def_columns t_cols), map (literal_row (def_columns t_cols)) t_rows)]"
    by (rule create_insert_run) (simp_all add: t_cols_ok)
  ultimately have "\<exists>db. db_holds db [''t'' \<mapsto> (mk_Schema (def_columns t_cols), map (literal_row (def_columns t_cols)) t_rows)] 1"
    using stmts.run [of empty_db Map.empty ?ss 1 _ insertion_sort] by blast
  moreover have "map (literal_row (def_columns t_cols)) t_rows = [[2, 0, 0, 0], [1, 0, 0, 0]]" by code_simp
  ultimately show ?thesis by (simp add: t_int_row)
qed

theorem execute_select_witness:
  "\<exists>db db'. Execute insertion_sort (statement_text (Select t_query)) db =
    Some (Ok \<lparr>qr_columns = [''x''], qr_rows = [[''1'']], qr_message = ''''\<rparr>, db')"
proof -
  let ?T = "[''t'' \<mapsto> (int_row, [[2, 0, 0, 0], [1, 0, 0, 0]])] :: tables"
  let ?sch = "MakeOutputSchema int_row ''t''"
  obtain db where db: "db_holds db ?T 1" using t_db by blast
  have src: "source_rows ?T t_query = Some (?sch, [[1, 0, 0, 0]])" by code_simp
  have bp: "BuildProjectionSchema (select_list t_query) ?sch = Ok (mk_Schema [\<lparr>col_name = ''x'', col_type = ColumnType_Int\<rparr>])" by code_simp
  have "\<forall>it \<in> set (select_list t_query). item_ok ?sch it" "group_by t_query = []" by code_simp+
  then have pl: "plain_select t_query ?sch" by (simp add: plain_select_def bp schema_ok_mk col_int)
  have out: "select_names (select_list t_query) ?sch = [''x'']" "map (select_text (select_list t_query) ?sch) [[1, 0, 0, 0]] = [[''1'']]"
    by code_simp+
  have "order_by t_query = []" by (simp add: t_query_def)
  then show ?thesis
    using execute_select [OF db insertion_sort_std t_statements_ok(4) src pl, unfolded out(1)] out(2) by force
qed

text \<open>(C25) Statements given as text change the tables as they say: a sequence of \<open>CREATE TABLE\<close> and \<open>INSERT\<close>
  statements that are in order on the tables succeeds, and leaves the database with the tables
  that the sequence describes.\<close>

theorem execute_history:
  assumes "db_holds db T (length ss + n)" and "\<forall>s \<in> set ss. sql_ok s" and "spec_run ss T = Some T'"
  shows "\<exists>db'. exec_all (\<lambda>s. Execute srt (statement_text s)) ss db = Some (Ok (), db') \<and> db_holds db' T' n"
  using assms by (rule sqltext.run)

theorem execute_history_witness:
  "\<exists>db'. exec_all (\<lambda>s. Execute insertion_sort (statement_text s)) [Parser.CreateTable \<lparr>ct_table_name = ''t'', ct_columns = t_cols\<rparr>] empty_db =
      Some (Ok (), db') \<and> db_holds db' [''t'' \<mapsto> (int_row, [])] 0"
proof -
  let ?ss = "[Parser.CreateTable \<lparr>ct_table_name = ''t'', ct_columns = t_cols\<rparr>]"
  have "spec_run ?ss Map.empty = Some [''t'' \<mapsto> (int_row, [])]" using t_cols_ok(1) by (simp add: spec_create_def t_int_row)
  then show ?thesis using execute_history [of empty_db Map.empty ?ss 0 _ insertion_sort] empty_db_holds [of 1] t_statements_ok(1) by simp
qed

text \<open>(C2) What was inserted is selected: after creating a table and inserting rows of literals, all through
  statements given as text, \<open>SELECT *\<close> returns the literals, row by row in the order of insertion.\<close>

theorem insert_select_roundtrip:
  assumes "db_holds db T (Suc (length ess) + n)" and "std_sort srt" and "T x = None" and "x \<noteq> ''''" and "columns_ok (def_columns ds)"
    and "\<forall>es \<in> set ess. literals_fit (def_columns ds) es"
    and "sql_ok (Parser.CreateTable \<lparr>ct_table_name = x, ct_columns = ds\<rparr>)"
    and "\<forall>es \<in> set ess. sql_ok (InsertInto \<lparr>in_table_name = x, in_values = es\<rparr>)" and "sql_ok (Select (select_all x))"
  shows "\<exists>db1 db2. exec_all (\<lambda>s. Execute srt (statement_text s))
      (Parser.CreateTable \<lparr>ct_table_name = x, ct_columns = ds\<rparr> # map (\<lambda>es. InsertInto \<lparr>in_table_name = x, in_values = es\<rparr>) ess) db = Some (Ok (), db1) \<and>
    Execute srt (statement_text (Select (select_all x))) db1 =
      Some (Ok \<lparr>qr_columns = map (\<lambda>d. x @ ''.'' @ cd_name d) ds, qr_rows = map (map literal_text) ess, qr_message = ''''\<rparr>, db2)"
proof -
  let ?cs = "def_columns ds"
  let ?rows = "map (literal_row ?cs) ess"
  let ?sch = "MakeOutputSchema (mk_Schema ?cs) x"
  let ?ss = "Parser.CreateTable \<lparr>ct_table_name = x, ct_columns = ds\<rparr> # map (\<lambda>es. InsertInto \<lparr>in_table_name = x, in_values = es\<rparr>) ess"
  have "spec_run ?ss T = Some (T(x \<mapsto> (mk_Schema ?cs, ?rows)))" by (rule create_insert_run) (rule assms(3,5,6))+
  moreover have "\<forall>s \<in> set ?ss. sql_ok s" using assms(7,8) by auto
  ultimately obtain db1 where db1: "exec_all (\<lambda>s. Execute srt (statement_text s)) ?ss db = Some (Ok (), db1)" "db_holds db1 (T(x \<mapsto> (mk_Schema ?cs, ?rows))) n"
    using sqltext.run [of db T ?ss n _ srt] assms(1) by (auto simp del: exec_all.simps spec_run.simps)
  have src: "source_rows (T(x \<mapsto> (mk_Schema ?cs, ?rows))) (select_all x) = Some (?sch, ?rows)"
    by (simp add: source_rows_def select_all_def table_as_def where_rows_def)
  have star: "is_star_list (select_list (select_all x))" "order_by (select_all x) = []" by (simp_all add: is_star_list_def select_all_def)
  obtain db2 where db2: "ExecSelect srt (select_all x) db1 = Some (Ok \<lparr>qr_columns = map col_name (columns ?sch),
      qr_rows = map (\<lambda>t. map (cell ?sch t) [0..<length (columns ?sch)]) ?rows, qr_message = []\<rparr>, db2)"
    using ExecSelect_star [OF assms(2) db1(2) src star(1)] star(2) by auto
  have "length (columns ?sch) = length ?cs" "map col_name (columns ?sch) = map (\<lambda>d. x @ ''.'' @ cd_name d) ds"
    using assms(4) by (simp_all add: MakeOutputSchema_def def_columns_def comp_def)
  moreover from this(1) have "map (\<lambda>t. map (cell ?sch t) [0..<length (columns ?sch)]) ?rows = map (map literal_text) ess"
    using cells_of_literals [OF assms(5), of _ x] assms(6) by simp
  ultimately show ?thesis using db1(1) db2 by (simp add: Execute_text [OF assms(9)] exec_statement_def del: exec_all.simps)
qed

theorem insert_select_roundtrip_witness:
  "\<exists>db1 db2. exec_all (\<lambda>s. Execute insertion_sort (statement_text s))
      (Parser.CreateTable \<lparr>ct_table_name = ''t'', ct_columns = t_cols\<rparr> # map (\<lambda>es. InsertInto \<lparr>in_table_name = ''t'', in_values = es\<rparr>) t_rows) empty_db =
      Some (Ok (), db1) \<and>
    Execute insertion_sort (statement_text (Select (select_all ''t''))) db1 =
      Some (Ok \<lparr>qr_columns = [''t.a''], qr_rows = [[''2''], [''1'']], qr_message = ''''\<rparr>, db2)"
proof -
  have "map (map literal_text) t_rows = [[''2''], [''1'']]" "map (\<lambda>d. ''t'' @ ''.'' @ cd_name d) t_cols = [''t.a'']" by code_simp+
  then show ?thesis
    using insert_select_roundtrip [of empty_db Map.empty t_rows 1 insertion_sort "''t''" t_cols] empty_db_holds [of "Suc (length t_rows) + 1"]
      insertion_sort_std t_cols_ok t_statements_ok by (simp add: t_rows_def del: exec_all.simps)
qed

text \<open>The loops of \<open>Execute\<close> end for every text.\<close>

lemma Execute_ends:
  assumes "db_holds db T n"
  shows "\<exists>r db'. Execute srt sql db = Some (r, db') \<and>
    (db_holds db' T n \<or> (\<exists>toks l st p. Tokenize (mk_Lexer sql) = (Ok toks, l) \<and> Parse (mk_Parser toks) = (Ok st, p) \<and>
      ((\<exists>s. st = Parser.CreateTable s) \<or> (\<exists>s. st = InsertInto s))))"
proof -
  obtain lo l where lx: "Tokenize (mk_Lexer sql) = (lo, l)" by fastforce
  show ?thesis
  proof (cases lo)
    case (Ok toks)
    obtain po p where pa: "Parse (mk_Parser toks) = (po, p)" by fastforce
    show ?thesis
    proof (cases po)
      fix st assume st: "po = Ok st"
      show ?thesis
      proof (cases st)
        case (Select s)
        then show ?thesis using ExecSelect_returns [OF assms, of srt s] lx Ok pa st by (auto simp: Execute_def exec_statement_def)
      qed (use assms lx Ok pa st in \<open>auto simp: Execute_def exec_statement_def ExecExplain_def\<close>)
    qed (use assms lx Ok pa in \<open>auto simp: Execute_def\<close>)
  qed (use assms lx in \<open>auto simp: Execute_def\<close>)
qed

text \<open>(C27) A statement that does not fit the tables is refused with an exception and changes nothing: creating
  a table that exists, inserting into or selecting from a table that does not, a wrong number of
  values, a value of the wrong type.\<close>

theorem execute_rejected:
  assumes "db_holds db T n" and "sql_ok s" and "rejected T s"
  shows "\<exists>e. Execute srt (statement_text s) db = Some (Throw (Runtime_Error e), db)"
  using exec_rejected [OF assms(1,3), of srt] by (simp add: Execute_text [OF assms(2)])

theorem execute_rejected_witness:
  "\<exists>e. Execute insertion_sort (statement_text (Select (select_all ''t''))) empty_db = Some (Throw (Runtime_Error e), empty_db)"
  using execute_rejected [OF empty_db_holds [of 0] t_statements_ok(3), of insertion_sort] by (simp add: select_all_def)

end
