(* ===== verification/Database_Aggregate.thy ===== *)
theory Database_Aggregate
  imports Database_Select
begin

text \<open>
  \<open>SELECT\<close> with aggregates, from text to result: the planner puts a \<open>HashAggregate\<close> over the source of
  the statement and sorts its rows. The columns of the result are the \<open>GROUP BY\<close> columns followed by the
  aggregates, whatever else the select list asks for.
\<close>

section \<open>The bound on the rows of a source\<close>

text \<open>The product of the sizes of the tables bounds the rows of their join.\<close>

definition rows_in :: "tables \<Rightarrow> string \<Rightarrow> nat" where
  "rows_in T x = (case T x of None \<Rightarrow> 0 | Some (sch, rows) \<Rightarrow> length rows)"

definition source_bound :: "tables \<Rightarrow> SelectStmt \<Rightarrow> nat" where
  "source_bound T st = fold (\<lambda>j k. k * rows_in T (jc_table_name j)) (joins st) (rows_in T (from_table st))"

lemma scan_of_bound: "reads c T tab \<Longrightarrow> scan_of c x a = Ok op \<Longrightarrow> row_bound tab op = rows_in T x"
  unfolding reads_def rows_in_def
  by (drule spec [of _ x]) (auto simp: scan_of_def GetTable_def mk_SeqScan_def bind_out_eq_Ok rel_option_iff split: option.splits)

lemma plan_joins_bound:
  "reads c T tab \<Longrightarrow> plan_joins c js op = Ok op' \<Longrightarrow>
   row_bound tab op' = fold (\<lambda>j k. k * rows_in T (jc_table_name j)) js (row_bound tab op)"
proof (induction js arbitrary: op)
  case (Cons j js)
  then obtain right l r where j: "scan_of c (jc_table_name j) (jc_alias j) = Ok right" "plan_joins c js (mk_HashJoin op right l r) = Ok op'"
    by (cases "jc_condition j") (auto simp: bind_out_eq_Ok split: if_splits)
  then show ?case using Cons.IH [OF Cons.prems(1) j(2)] scan_of_bound [OF Cons.prems(1) j(1)] by (simp add: mk_HashJoin_def)
qed simp

lemma plan_source_bound: "reads c T tab \<Longrightarrow> plan_source c st = Ok op \<Longrightarrow> row_bound tab op = source_bound T st"
  by (auto simp: plan_source_def bind_out_eq_Ok source_bound_def scan_of_bound plan_joins_bound split: option.splits)

section \<open>The columns of the result\<close>

fun is_column :: "Schema \<Rightarrow> Expr \<Rightarrow> bool" where
  "is_column sch (COLUMN_REF t c) \<longleftrightarrow> (case GetColumnIdx sch (column_key t c) of Ok i \<Rightarrow> True | _ \<Rightarrow> False)"
| "is_column sch _ \<longleftrightarrow> False"

lemma is_column_item: "is_column sch e \<longleftrightarrow> item_ok sch \<lparr>si_expr = e, si_alias = []\<rparr> \<and> (\<exists>t c. e = COLUMN_REF t c)"
  by (cases e) (auto simp: item_ok_def)

lemma group_columns:
  "\<forall>e \<in> set gb. is_column sch e \<Longrightarrow>
   \<exists>cs. map_out (\<lambda>e. bind_out (referenced_column e sch) (\<lambda>col. Ok (col\<lparr>col_name := ref_name e\<rparr>))) gb = Ok cs \<and>
     map col_name cs = map ref_name gb \<and> list_all2 (\<lambda>c e. expr_type e sch = Ok (col_type c)) cs gb"
proof (induction gb)
  case (Cons e gb)
  then obtain cs where "map_out (\<lambda>e. bind_out (referenced_column e sch) (\<lambda>col. Ok (col\<lparr>col_name := ref_name e\<rparr>))) gb = Ok cs"
      "map col_name cs = map ref_name gb" "list_all2 (\<lambda>c e. expr_type e sch = Ok (col_type c)) cs gb" by auto
  moreover obtain t c i where "e = COLUMN_REF t c" "GetColumnIdx sch (column_key t c) = Ok i"
    using Cons.prems by (cases e) (auto split: outcome.splits)
  ultimately show ?case by (simp add: referenced_column_def)
qed simp

lemma agg_schema:
  assumes "\<forall>e \<in> set gb. is_column sch e"
  obtains cs where "BuildAggSchema gb aes sch = Ok (mk_Schema (cs @ map (\<lambda>ae. \<lparr>col_name = ae_output_name ae, col_type = ColumnType_Int\<rparr>) aes))"
    "map col_name cs = map ref_name gb" "list_all2 (\<lambda>c e. expr_type e sch = Ok (col_type c)) cs gb"
  using group_columns [OF assms] by (auto simp: BuildAggSchema_def)

text \<open>A row of the result, as values, and how it reads.\<close>

definition group_result :: "Expr list \<Rightarrow> AggExpr list \<Rightarrow> Schema \<Rightarrow> Tuple list \<Rightarrow> Value list \<Rightarrow> Value list" where
  "group_result gb aes sch rows vs = vs @ map (agg_result sch (rows_with (group_vals gb sch) vs rows)) aes"

lemma group_result_fits:
  assumes "schema_ok sch" and "\<forall>t \<in> set rows. row_ok sch t" and "\<forall>e \<in> set gb. is_column sch e"
    and "list_all2 (\<lambda>c e. expr_type e sch = Ok (col_type c)) cs gb" and "vs \<in> group_vals gb sch ` set rows"
  shows "list_all2 value_fits (cs @ map (\<lambda>ae. \<lparr>col_name = ae_output_name ae, col_type = ColumnType_Int\<rparr>) aes) (group_result gb aes sch rows vs)"
proof -
  obtain t where t: "t \<in> set rows" "vs = group_vals gb sch t" using assms(5) by blast
  have "value_fits c (val_of e sch t)" if "e \<in> set gb" "expr_type e sch = Ok (col_type c)" for c e
    using EvalExpr_fits [of sch "\<lparr>si_expr = e, si_alias = []\<rparr>" t c] assms(1-3) t(1) that is_column_item [of sch e] by auto
  then have "list_all2 value_fits cs (group_vals gb sch t)"
    using assms(4) by (auto simp: list_all2_conv_all_nth group_vals_def)
  moreover have "list_all2 value_fits (map (\<lambda>ae. \<lparr>col_name = ae_output_name ae, col_type = ColumnType_Int\<rparr>) aes)
      (map (agg_result sch us) aes)" for us
    by (auto simp: list_all2_conv_all_nth value_fits_def ColumnType_Int_def agg_result_def MakeInt_def Let_def)
  ultimately show ?thesis unfolding group_result_def t(2) by (intro list_all2_appendI)
qed

section \<open>From the plan to the groups\<close>

lemma mset_map_lift: "mset ys = image_mset f M \<Longrightarrow> \<exists>zs. ys = map f zs \<and> mset zs = M"
proof (induction ys arbitrary: M)
  case (Cons y ys)
  then obtain N x where "M = add_mset x N" "f x = y" "image_mset f N = mset ys" by (auto dest!: msed_map_invR [OF sym])
  then show ?case using Cons.IH [of N] by (metis list.simps(9) mset.simps(2))
qed simp

text \<open>A statement with aggregates whose parts have types.\<close>

definition agg_select :: "SelectStmt \<Rightarrow> Schema \<Rightarrow> bool" where
  "agg_select st sch \<longleftrightarrow> \<not> is_star_list (select_list st) \<and> (HasAggregate (select_list st) \<or> group_by st \<noteq> []) \<and>
     (\<forall>e \<in> set (group_by st). is_column sch e) \<and> (\<forall>ae \<in> set (agg_exprs (select_list st)). agg_ok ae) \<and>
     agg_types (agg_exprs (select_list st)) sch = Ok ()"

abbreviation result_row :: "SelectStmt \<Rightarrow> Schema \<Rightarrow> Tuple list \<Rightarrow> Value list \<Rightarrow> Value list" where
  "result_row st sch rows \<equiv> group_result (group_by st) (agg_exprs (select_list st)) sch rows"

abbreviation groups_of :: "SelectStmt \<Rightarrow> Schema \<Rightarrow> Tuple list \<Rightarrow> Value list list" where
  "groups_of st sch rows \<equiv> firsts (map (group_vals (group_by st) sch) rows)"

lemma plan_for_aggregate:
  assumes "std_sort srt" and p: "plan_for srt c tab op (sch, rows)" and a: "agg_select st sch" and bd: "row_bound tab op < 2 ^ 31"
    and nb: "\<forall>t \<in> set rows. list_all no_bar (group_vals (group_by st) sch t)"
    and cs: "list_all2 (\<lambda>c e. expr_type e sch = Ok (col_type c)) cs (group_by st)"
    and osch: "osch = mk_Schema (cs @ map (\<lambda>ae. \<lparr>col_name = ae_output_name ae, col_type = ColumnType_Int\<rparr>) (agg_exprs (select_list st)))"
      "schema_ok osch"
  shows "plan_for srt c tab (mk_HashAggregate op (group_by st) (agg_exprs (select_list st)) osch)
    (osch, map (\<lambda>vs. concat (map value_bytes (result_row st sch rows vs))) (groups_of st sch rows))"
proof -
  let ?gb = "group_by st" and ?aes = "agg_exprs (select_list st)"
  have op: "GetOutputSchema op = sch" "op_ok tab op" "stream_of srt tab op = Ok (rows, Ok ())" "fresh op" "tables_of op \<subseteq> cat_heaps c"
    using p by (auto simp: plan_for_def)
  have len: "length cs = length ?gb" using cs by (rule list_all2_lengthD)
  have "list_all2 (expr_fits sch) cs ?gb" using cs by (rule list_all2_mono) (simp add: expr_fits_def)
  then have "agg_schema_fits sch ?gb ?aes (columns osch)" using len by (auto simp: agg_schema_fits_def osch(1))
  then have ok: "op_ok tab (HashAggregate op ?gb ?aes osch empty_agg)" using op a bd osch(2) by (auto simp: agg_select_def)
  have gb: "\<forall>e \<in> set ?gb. \<exists>ct. expr_type e sch = Ok ct" using cs by (auto simp: list_all2_conv_all_nth in_set_conv_nth)
  have "stream_of srt tab (HashAggregate op ?gb ?aes osch empty_agg) =
      Ok (map (\<lambda>vs. concat (map value_bytes (result_row st sch rows vs))) (groups_of st sch rows), Ok ())"
    unfolding group_result_def using aggregate_stream [OF assms(1) ok op(3)] gb nb a op(1) by (simp add: agg_select_def del: stream_of.simps)
  then show ?thesis using ok op(4,5) by (simp add: plan_for_def mk_HashAggregate_def del: stream_of.simps)
qed

lemma ExecSelect_groups:
  assumes srt: "std_sort srt" and db: "db_holds db T n" and src: "source_rows T st = Some (sch, rows)" and a: "agg_select st sch"
    and bd: "source_bound T st < 2 ^ 31" and nb: "\<forall>t \<in> set rows. list_all no_bar (group_vals (group_by st) sch t)"
    and osch: "BuildAggSchema (group_by st) (agg_exprs (select_list st)) sch = Ok osch" "schema_ok osch"
    and ob: "\<forall>i \<in> set (order_by st). \<exists>ct. expr_type (ob_expr i) osch = Ok ct"
  shows "\<exists>gs db'. (mset gs = mset (groups_of st sch rows) \<and> (order_by st = [] \<longrightarrow> gs = groups_of st sch rows) \<and>
      sorted_wrt (\<lambda>v w. in_order (order_by st) osch (concat (map value_bytes (result_row st sch rows v))) (concat (map value_bytes (result_row st sch rows w)))) gs) \<and>
    ExecSelect srt st db = Some (Ok \<lparr>qr_columns = map ref_name (group_by st) @ map ae_output_name (agg_exprs (select_list st)),
      qr_rows = map (\<lambda>vs. map ToString (result_row st sch rows vs)) gs, qr_message = []\<rparr>, db') \<and> db_holds db' T n"
proof -
  let ?gb = "group_by st" and ?aes = "agg_exprs (select_list st)" and ?gs = "groups_of st sch rows"
  let ?tup = "\<lambda>vs. concat (map value_bytes (result_row st sch rows vs))"
  have col: "\<forall>e \<in> set ?gb. is_column sch e" using a by (simp add: agg_select_def)
  obtain cs where cs: "BuildAggSchema ?gb ?aes sch = Ok (mk_Schema (cs @ map (\<lambda>ae. \<lparr>col_name = ae_output_name ae, col_type = ColumnType_Int\<rparr>) ?aes))"
      "map col_name cs = map ref_name ?gb" "list_all2 (\<lambda>c e. expr_type e sch = Ok (col_type c)) cs ?gb"
    by (rule agg_schema [OF col])
  let ?cs = "cs @ map (\<lambda>ae. \<lparr>col_name = ae_output_name ae, col_type = ColumnType_Int\<rparr>) ?aes"
  have o: "osch = mk_Schema ?cs" using cs(1) osch(1) by simp
  have sz: "row_size ?cs < 2 ^ 32" using osch(2) unfolding o schema_ok_mk .
  let ?P = "\<lambda>gs. mset gs = mset ?gs \<and> (order_by st = [] \<longrightarrow> gs = ?gs) \<and> sorted_wrt (\<lambda>v w. in_order (order_by st) osch (?tup v) (?tup w)) gs"
  let ?Q = "\<lambda>rows'. \<exists>gs. rows' = map ?tup gs \<and> (\<forall>vs \<in> set gs. list_all2 value_fits ?cs (result_row st sch rows vs)) \<and> ?P gs"
  let ?f = "\<lambda>t. case row_text osch t of Ok r \<Rightarrow> r"
  have cells: "row_text osch (?tup vs) = Ok (map ToString (result_row st sch rows vs))" if "list_all2 value_fits ?cs (result_row st sch rows vs)" for vs
    unfolding o by (rule row_text_items [OF that sz])
  have "\<exists>rows' db'. ?Q rows' \<and>
    ExecSelect srt st db = Some (Ok \<lparr>qr_columns = map ref_name ?gb @ map ae_output_name ?aes, qr_rows = map ?f rows', qr_message = []\<rparr>, db') \<and> db_holds db' T n"
  proof (rule ExecSelect_ok [OF db])
    fix tab assume r: "reads (db_catalog db) T tab"
    have "\<forall>r \<in> ran T. table_ok r" using db by (simp add: db_holds_def)
    then obtain op where op: "plan_source (db_catalog db) st = Ok op" "plan_for srt (db_catalog db) tab op (sch, rows)"
      using plan_source_ok [OF srt r _ src] by blast
    note typed = plan_forD [OF op(2) srt, simplified]
    have "row_bound tab op < 2 ^ 31" using plan_source_bound [OF r op(1)] bd by simp
    note agg = plan_for_aggregate [OF srt op(2) a this nb cs(3) o osch(2)]
    obtain out where out: "plan_for srt (db_catalog db) tab (sort_plan (order_by st) (mk_HashAggregate op ?gb ?aes osch)) (osch, out)"
        "mset out = mset (map ?tup ?gs)" "sorted_wrt (in_order (order_by st) osch) out" "order_by st = [] \<longrightarrow> out = map ?tup ?gs"
      using sort_plan_ok [OF srt agg ob] by blast
    have "\<exists>gs. out = map ?tup gs \<and> ?P gs"
    proof (cases "order_by st = []")
      case True
      then show ?thesis using out(3,4) by (intro exI [of _ ?gs]) (simp add: sorted_wrt_map)
    next
      case False
      obtain gs where "out = map ?tup gs" "mset gs = mset ?gs" using mset_map_lift [of out ?tup "mset ?gs"] out(2) by auto
      then show ?thesis using out(3) False by (auto simp: sorted_wrt_map)
    qed
    then obtain gs where gs: "out = map ?tup gs" "?P gs" by blast
    have fits: "\<forall>vs \<in> set gs. list_all2 value_fits ?cs (result_row st sch rows vs)"
    proof
      fix vs assume "vs \<in> set gs"
      then have "vs \<in> group_vals ?gb sch ` set rows" using mset_eq_setD [of gs ?gs] gs(2) by simp
      then show "list_all2 value_fits ?cs (result_row st sch rows vs)" by (rule group_result_fits [OF typed col cs(3)])
    qed
    let ?op = "sort_plan (order_by st) (mk_HashAggregate op ?gb ?aes osch)"
    have "GetOutputSchema op = sch" using op(2) by (simp add: plan_for_def)
    then have "Plan (db_catalog db) st = Ok ?op" using op(1) a osch(1) by (auto simp: Plan_def agg_select_def Let_def)
    moreover have "map col_name (columns osch) = map ref_name ?gb @ map ae_output_name ?aes" using cs(2) by (simp add: o comp_def)
    moreover have "\<forall>t \<in> set out. row_text osch t = Ok (?f t)" using fits cells by (auto simp: gs(1))
    ultimately show "\<exists>op rows'. ?Q rows' \<and> Plan (db_catalog db) st = Ok op \<and> fresh op \<and> tables_of op \<subseteq> cat_heaps (db_catalog db) \<and>
      stream_of srt tab op = Ok (rows', Ok ()) \<and> map col_name (columns (GetOutputSchema op)) = map ref_name ?gb @ map ae_output_name ?aes \<and>
      (\<forall>t \<in> set rows'. row_text (GetOutputSchema op) t = Ok (?f t))"
      using out(1) gs fits unfolding plan_for_def by (intro exI [of _ ?op] exI [of _ out]) auto
  qed
  then obtain gs db' where "?P gs" "\<forall>vs \<in> set gs. list_all2 value_fits ?cs (result_row st sch rows vs)" "db_holds db' T n"
      "ExecSelect srt st db = Some (Ok \<lparr>qr_columns = map ref_name ?gb @ map ae_output_name ?aes, qr_rows = map ?f (map ?tup gs), qr_message = []\<rparr>, db')"
    by blast
  moreover from this(2) have "map ?f (map ?tup gs) = map (\<lambda>vs. map ToString (result_row st sch rows vs)) gs" using cells by auto
  ultimately show ?thesis by metis
qed

section \<open>Properties\<close>


text \<open>The statement \<open>SELECT COUNT(*) AS n, MAX(a) FROM t GROUP BY a\<close> on the table with the rows 2 and 1.\<close>

definition agg_query :: SelectStmt where
  "agg_query = \<lparr>select_list = [\<lparr>si_expr = AGGREGATE ''COUNT'' None, si_alias = ''n''\<rparr>,
       \<lparr>si_expr = AGGREGATE ''MAX'' (Some (COLUMN_REF '''' ''a'')), si_alias = ''''\<rparr>],
     from_table = ''t'', from_alias = '''', joins = [], where_clause = None, group_by = [COLUMN_REF '''' ''a''], order_by = []\<rparr>"


end
