(* ===== verification/Database_Safety.thy ===== *)
theory Database_Safety
  imports Database_Aggregate
begin

text \<open>
  Every text: \<open>Execute\<close> on an arbitrary text returns, keeps the database in order, and changes the tables as
  the statement says or not at all. It does not fault unless the statement is one of those that
  trip over a defect of the code, which are described by a predicate on the statement.
\<close>

section \<open>Statements that cannot fault\<close>

fun join_schema :: "tables \<Rightarrow> JoinClause list \<Rightarrow> Schema \<Rightarrow> Schema option" where
  "join_schema T [] sch = Some sch"
| "join_schema T (j # js) sch = Option.bind (table_as T (jc_table_name j) (jc_alias j)) (\<lambda>r. join_schema T js (ConcatSchemas sch (fst r)))"

definition source_schema :: "tables \<Rightarrow> SelectStmt \<Rightarrow> Schema option" where
  "source_schema T st = Option.bind (table_as T (from_table st) (from_alias st)) (\<lambda>r. join_schema T (joins st) (fst r))"

abbreviation narrow :: "Schema \<Rightarrow> bool" where
  "narrow sch \<equiv> row_size (columns sch) < 2 ^ 32"

fun is_ref :: "Expr \<Rightarrow> bool" where
  "is_ref (COLUMN_REF t c) \<longleftrightarrow> True"
| "is_ref _ \<longleftrightarrow> False"

fun is_string :: "Expr \<Rightarrow> bool" where
  "is_string (STRING_LITERAL s) \<longleftrightarrow> True"
| "is_string _ \<longleftrightarrow> False"

text \<open>
  The rows are not wider than a 32-bit size; aggregates have an argument unless they count, are over less
  than \<open>2 ^ 31\<close> rows and grouped by columns; no string stands in a select list without aggregates.
\<close>

definition select_safe :: "tables \<Rightarrow> SelectStmt \<Rightarrow> bool" where
  "select_safe T st \<longleftrightarrow> (case source_schema T st of
      None \<Rightarrow> True
    | Some sch \<Rightarrow> narrow sch \<and>
        (if is_star_list (select_list st) then True
         else if HasAggregate (select_list st) \<or> group_by st \<noteq> []
         then source_bound T st < 2 ^ 31 \<and> (\<forall>e \<in> set (group_by st). is_ref e) \<and> (\<forall>ae \<in> set (agg_exprs (select_list st)). agg_ok ae) \<and>
           (case BuildAggSchema (group_by st) (agg_exprs (select_list st)) sch of Ok osch \<Rightarrow> narrow osch | _ \<Rightarrow> True)
         else (\<forall>it \<in> set (select_list st). \<not> is_string (si_expr it)) \<and>
           (case BuildProjectionSchema (select_list st) sch of Ok osch \<Rightarrow> narrow osch | _ \<Rightarrow> True)))"

fun stmt_safe :: "tables \<Rightarrow> Statement \<Rightarrow> bool" where
  "stmt_safe T (Parser.CreateTable st) \<longleftrightarrow> T (ct_table_name st) \<noteq> None \<or> columns_ok (def_columns (ct_columns st))"
| "stmt_safe T (Select st) \<longleftrightarrow> select_safe T st"
| "stmt_safe T _ \<longleftrightarrow> True"

section \<open>Plans are typed\<close>

lemma narrow_mk [simp]: "narrow (mk_Schema cs) \<longleftrightarrow> schema_ok (mk_Schema cs)"
  by (simp add: schema_ok_mk)

lemma ConcatSchemas_narrow: "narrow (ConcatSchemas a b) \<Longrightarrow> narrow a \<and> narrow b \<and> schema_ok (ConcatSchemas a b)"
  unfolding ConcatSchemas_def by (simp add: schema_ok_mk)

lemma scan_of_typed:
  assumes "reads c T tab" and "\<forall>r \<in> ran T. table_ok r" and "scan_of c x a = Ok op"
  shows "\<exists>r. table_as T x a = Some r \<and> GetOutputSchema op = fst r \<and> op_ok tab op"
proof -
  have "\<exists>r. T x = Some r" using assms(1,3) [unfolded reads_def]
    by (auto simp: scan_of_def GetTable_def bind_out_eq_Ok rel_option_iff dest!: spec [of _ x] split: option.splits)
  then obtain r where r: "table_as T x a = Some r" by (auto simp: table_as_def)
  then show ?thesis using scan_of_ok [OF assms(1,2) r] assms(3) by (auto simp: plan_for_def)
qed

lemma plan_joins_typed:
  assumes "reads c T tab" and "\<forall>r \<in> ran T. table_ok r"
  shows "plan_joins c js op = Ok op' \<Longrightarrow> (narrow (GetOutputSchema op) \<Longrightarrow> op_ok tab op) \<Longrightarrow>
    join_schema T js (GetOutputSchema op) = Some (GetOutputSchema op') \<and> (narrow (GetOutputSchema op') \<longrightarrow> op_ok tab op')"
proof (induction js arbitrary: op)
  case (Cons j js)
  then obtain right l r where j: "scan_of c (jc_table_name j) (jc_alias j) = Ok right" "plan_joins c js (mk_HashJoin op right l r) = Ok op'"
    by (cases "jc_condition j") (auto simp: bind_out_eq_Ok split: if_splits)
  obtain rel where rel: "table_as T (jc_table_name j) (jc_alias j) = Some rel" "GetOutputSchema right = fst rel" "op_ok tab right"
    using scan_of_typed [OF assms j(1)] by blast
  have "op_ok tab (mk_HashJoin op right l r)" if "narrow (GetOutputSchema (mk_HashJoin op right l r))"
    using that ConcatSchemas_narrow [of "GetOutputSchema op" "GetOutputSchema right"] Cons.prems(2) rel(3) by (simp add: mk_HashJoin_def)
  from Cons.IH [OF j(2) this] rel(1,2) show ?case by (simp add: mk_HashJoin_def)
qed auto

lemma plan_source_typed:
  assumes "reads c T tab" and "\<forall>r \<in> ran T. table_ok r" and "plan_source c st = Ok op"
  shows "source_schema T st = Some (GetOutputSchema op) \<and> (narrow (GetOutputSchema op) \<longrightarrow> op_ok tab op)"
proof -
  obtain op0 op1 where op: "scan_of c (from_table st) (from_alias st) = Ok op0" "plan_joins c (joins st) op0 = Ok op1"
      "op = (case where_clause st of None \<Rightarrow> op1 | Some w \<Rightarrow> Filter op1 w)"
    using assms(3) by (auto simp: plan_source_def bind_out_eq_Ok)
  obtain rel where rel: "table_as T (from_table st) (from_alias st) = Some rel" "GetOutputSchema op0 = fst rel" "op_ok tab op0"
    using scan_of_typed [OF assms(1,2) op(1)] by blast
  from plan_joins_typed [OF assms(1,2) op(2)] rel show ?thesis by (auto simp: source_schema_def op(3) split: option.splits)
qed

lemma map_out_FaultD: "map_out f xs = Fault \<Longrightarrow> \<exists>x \<in> set xs. f x = Fault"
  by (induction xs) (auto simp: bind_out_eq_Fault)

lemma referenced_column_no_fault [simp]: "referenced_column e sch \<noteq> Fault"
  by (simp add: referenced_column_def bind_out_eq_Fault GetColumnIdx_no_fault)

lemma projection_fits:
  "map_out (\<lambda>it. projection_column it sch) items = Ok cs \<Longrightarrow> \<forall>it \<in> set items. \<not> is_string (si_expr it) \<Longrightarrow>
   list_all2 (expr_fits sch) cs (map si_expr items)"
proof (induction items arbitrary: cs)
  case (Cons it items)
  then obtain c cs' where c: "projection_column it sch = Ok c" "map_out (\<lambda>it. projection_column it sch) items = Ok cs'" "cs = c # cs'"
    by (auto simp: bind_out_eq_Ok)
  have "expr_fits sch c (si_expr it)"
    using c(1) Cons.prems(2)
    by (cases "si_expr it") (auto simp: projection_column_def referenced_column_def bind_out_eq_Ok expr_fits_def split: outcome.splits)
  then show ?case using Cons.IH [OF c(2)] Cons.prems(2) c(3) by simp
qed simp

lemma group_fits:
  "map_out (\<lambda>e. bind_out (referenced_column e sch) (\<lambda>col. Ok (col\<lparr>col_name := ref_name e\<rparr>))) gb = Ok cs \<Longrightarrow> \<forall>e \<in> set gb. is_ref e \<Longrightarrow>
   list_all2 (expr_fits sch) cs gb"
proof (induction gb arbitrary: cs)
  case (Cons e gb)
  then obtain c cs' where c: "bind_out (referenced_column e sch) (\<lambda>col. Ok (col\<lparr>col_name := ref_name e\<rparr>)) = Ok c" "cs = c # cs'"
      "map_out (\<lambda>e. bind_out (referenced_column e sch) (\<lambda>col. Ok (col\<lparr>col_name := ref_name e\<rparr>))) gb = Ok cs'"
    by (auto simp: bind_out_eq_Ok)
  have "expr_fits sch c e"
    using c(1) Cons.prems(2) by (cases e) (auto simp: referenced_column_def bind_out_eq_Ok expr_fits_def split: outcome.splits)
  then show ?case using Cons.IH [OF c(3)] Cons.prems(2) c(2) by simp
qed simp

lemma agg_schema_typed:
  assumes "BuildAggSchema gb aes sch = Ok osch" and "\<forall>e \<in> set gb. is_ref e"
  shows "agg_schema_fits sch gb aes (columns osch)" and "narrow osch \<longleftrightarrow> schema_ok osch"
proof -
  obtain cs where cs: "map_out (\<lambda>e. bind_out (referenced_column e sch) (\<lambda>col. Ok (col\<lparr>col_name := ref_name e\<rparr>))) gb = Ok cs"
      "osch = mk_Schema (cs @ map (\<lambda>ae. \<lparr>col_name = ae_output_name ae, col_type = ColumnType_Int\<rparr>) aes)"
    using assms(1) by (auto simp: BuildAggSchema_def bind_out_eq_Ok)
  have f: "list_all2 (expr_fits sch) cs gb" by (rule group_fits [OF cs(1) assms(2)])
  then show "agg_schema_fits sch gb aes (columns osch)" using list_all2_lengthD [OF f] by (auto simp: agg_schema_fits_def cs(2))
  show "narrow osch \<longleftrightarrow> schema_ok osch" unfolding cs(2) by (rule narrow_mk)
qed

lemma sort_plan_typed [simp]: "op_ok tab (sort_plan ob op) \<longleftrightarrow> op_ok tab op" "GetOutputSchema (sort_plan ob op) = GetOutputSchema op"
  by (simp_all add: sort_plan_def mk_Sort_def)

lemma Plan_typed:
  assumes r: "reads c T tab" and t: "\<forall>r \<in> ran T. table_ok r" and s: "select_safe T st" and p: "Plan c st = Ok op"
  shows "op_ok tab op"
proof -
  let ?items = "select_list st" and ?gb = "group_by st"
  obtain src where src: "plan_source c st = Ok src" using p by (auto simp: Plan_def bind_out_eq_Ok)
  let ?sch = "GetOutputSchema src"
  have S: "source_schema T st = Some ?sch" "narrow ?sch \<longrightarrow> op_ok tab src" using plan_source_typed [OF r t src] by auto
  then have ok: "op_ok tab src" using s by (simp add: select_safe_def)
  consider (star) "is_star_list ?items" | (agg) "\<not> is_star_list ?items" "HasAggregate ?items \<or> ?gb \<noteq> []"
    | (items) "\<not> is_star_list ?items" "\<not> (HasAggregate ?items \<or> ?gb \<noteq> [])" by blast
  then show ?thesis
  proof cases
    case star
    then show ?thesis using p src ok by (auto simp: Plan_def)
  next
    case agg
    then obtain osch where o: "BuildAggSchema ?gb (agg_exprs ?items) ?sch = Ok osch"
        "op = sort_plan (order_by st) (mk_HashAggregate src ?gb (agg_exprs ?items) osch)"
      using p src by (auto simp: Plan_def bind_out_eq_Ok Let_def)
    have safe: "source_bound T st < 2 ^ 31" "\<forall>e \<in> set ?gb. is_ref e" "\<forall>ae \<in> set (agg_exprs ?items). agg_ok ae" "narrow osch"
      using s S(1) agg o(1) by (simp_all add: select_safe_def)
    then show ?thesis
      using ok agg_schema_typed [OF o(1) safe(2)] plan_source_bound [OF r src] by (simp add: o(2) mk_HashAggregate_def)
  next
    case items
    then obtain cs where o: "map_out (\<lambda>it. projection_column it ?sch) ?items = Ok cs"
        "op = Projection (sort_plan (order_by st) src) (map si_expr ?items) (proj_names ?items) (mk_Schema cs)"
      using p src by (auto simp: Plan_def bind_out_eq_Ok Let_def BuildProjectionSchema_def)
    then have "\<forall>it \<in> set ?items. \<not> is_string (si_expr it)" "schema_ok (mk_Schema cs)"
      using s S(1) items by (simp_all add: select_safe_def BuildProjectionSchema_def schema_ok_mk)
    then show ?thesis using ok projection_fits [OF o(1)] by (simp add: o(2))
  qed
qed

lemma scan_of_no_fault: "scan_of c x a \<noteq> Fault"
  by (simp add: scan_of_def GetTable_def bind_out_eq_Fault split: option.splits)

lemma plan_joins_no_fault: "plan_joins c js op \<noteq> Fault"
  by (induction js arbitrary: op) (auto simp: bind_out_eq_Fault scan_of_no_fault split: Expr.splits)

lemma Plan_no_fault: "Plan c st \<noteq> Fault"
proof -
  have "plan_source c st \<noteq> Fault" by (auto simp: plan_source_def bind_out_eq_Fault scan_of_no_fault plan_joins_no_fault)
  moreover have "BuildAggSchema gb aes sch \<noteq> Fault" for gb aes sch
    unfolding BuildAggSchema_def by (auto simp: bind_out_eq_Fault dest!: map_out_FaultD)
  moreover have "projection_column it sch \<noteq> Fault" for it sch
    by (auto simp: projection_column_def bind_out_eq_Fault split: Expr.splits)
  then have "BuildProjectionSchema items sch \<noteq> Fault" for items sch
    unfolding BuildProjectionSchema_def by (auto simp: bind_out_eq_Fault dest!: map_out_FaultD)
  ultimately show ?thesis by (auto simp: Plan_def bind_out_eq_Fault Let_def)
qed

section \<open>Execution of a safe query\<close>

text \<open>A result has a cell for each column in every row.\<close>

definition result_ok :: "QueryResult \<Rightarrow> bool" where
  "result_ok q \<longleftrightarrow> (\<forall>row \<in> set (qr_rows q). length row = length (qr_columns q))"

lemma fold_text_rows:
  assumes "\<forall>t \<in> set rows. \<forall>r. txt_of t = Ok r \<longrightarrow> length r = k" and "\<forall>r \<in> set acc. length r = k"
    and "fold_out (\<lambda>t acc. bind_out (txt_of t) (\<lambda>r. Ok (acc @ [r]))) rows acc = Ok rs"
  shows "\<forall>r \<in> set rs. length r = k"
  using assms
proof (induction rows arbitrary: acc)
  case (Cons t rows)
  then obtain r where r: "txt_of t = Ok r" "fold_out (\<lambda>t acc. bind_out (txt_of t) (\<lambda>r. Ok (acc @ [r]))) rows (acc @ [r]) = Ok rs"
    by (auto simp: bind_out_eq_Ok)
  then show ?case using Cons.IH [OF _ _ r(2)] Cons.prems(1,2) by auto
qed simp

lemma fold_text_no_fault:
  assumes "\<forall>t \<in> set rows. \<exists>r. txt_of t = Ok r"
  shows "fold_out (\<lambda>t acc. bind_out (txt_of t) (\<lambda>r. Ok (acc @ [r]))) rows acc \<noteq> Fault"
  using assms by (induction rows arbitrary: acc) auto

lemma ExecSelect_safe:
  assumes "std_sort srt" and "db_holds db T n" and "select_safe T st"
  shows "\<exists>r db'. ExecSelect srt st db = Some (r, db') \<and> db_holds db' T n \<and> r \<noteq> Fault \<and> (\<forall>q. r = Ok q \<longrightarrow> result_ok q)"
proof (cases "Plan (db_catalog db) st")
  case (Ok op)
  have H: "cat_holds (db_catalog db) (db_bpm db) T n" "\<forall>r \<in> ran T. table_ok r" using assms(2) by (auto simp: db_holds_def)
  obtain m k l tab where R: "bpm_idle (db_bpm db) m k l" "0 < k" "reads (db_catalog db) T tab" "\<forall>h \<in> cat_heaps (db_catalog db). table_rows m h (tab h)"
      and keep: "\<And>b'. bpm_idle b' m k l \<Longrightarrow> cat_holds (db_catalog db) b' T n"
    using cat_holds_reads [OF H(1)] by metis
  have op: "fresh op" "\<forall>h \<in> tables_of op. table_rows m h (tab h)" using Plan_fresh [OF Ok] R(4) by auto
  have db': "db_holds (db\<lparr>db_bpm := b\<rparr>) T n" if "bpm_idle b m k l" for b using keep [OF that] H(2) by (simp add: db_holds_def)
  have ok: "op_ok tab op" by (rule Plan_typed [OF R(3) H(2) assms(3) Ok])
  note s = stream_safe [OF assms(1) ok]
  let ?body = "\<lambda>t acc. bind_out (row_text (GetOutputSchema op) t) (\<lambda>r. Ok (acc @ [r]))"
  note i = Init_agrees [OF R(1,2) op, of srt]
  show ?thesis
  proof (cases "stream_of srt tab op")
    case st: (Ok x)
    obtain rows fin where x: "x = (rows, fin)" by (cases x)
    then have rows: "\<forall>t \<in> set rows. row_ok (GetOutputSchema op) t" "fin \<noteq> Fault" using s st by auto
    obtain op1 b1 where init: "Init srt op (db_bpm db) = Some (Ok op1, b1)" "bpm_idle b1 m k l" "delivers op1 rows fin"
      using i st x by (auto simp: init_agrees_def)
    obtain op2 where d: "drain ?body [] op1 = Some (s_drain ?body [] (rows, fin), op2)" using drain_delivers [OF init(3), of ?body "[]"] by auto
    note cells = row_text_ok [OF op_ok_schema [OF ok]]
    have "\<forall>t \<in> set rows. \<exists>r. row_text (GetOutputSchema op) t = Ok r" using cells rows(1) by blast
    then have nf: "s_drain ?body [] (rows, fin) \<noteq> Fault" using rows(2) by (intro s_drain_no_fault fold_text_no_fault) auto
    have "\<forall>r \<in> set rs. length r = length (columns (GetOutputSchema op))" if "s_drain ?body [] (rows, fin) = Ok rs" for rs
      using fold_text_rows [of rows "row_text (GetOutputSchema op)" "length (columns (GetOutputSchema op))" "[]" rs] cells rows(1) that
      by (auto simp: s_drain_def bind_out_eq_Ok)
    then show ?thesis
      using Ok init(1,2) d db' nf by (cases "s_drain ?body [] (rows, fin)") (auto simp: ExecSelect_def beside_def result_ok_def)
  next
    case (Throw e)
    then show ?thesis using i Ok db' by (auto simp: init_agrees_def ExecSelect_def)
  qed (use s in simp)
qed (use assms(2) Plan_no_fault [of "db_catalog db" st] in \<open>auto simp: ExecSelect_def\<close>)

section \<open>Every statement\<close>

text \<open>What a statement does to the tables: what it says if it is in order, nothing otherwise.\<close>

definition stmt_effect :: "Statement \<Rightarrow> tables \<Rightarrow> tables" where
  "stmt_effect st T = (if spec_ok st T then spec_step st T else T)"

lemma db_holds_less: "db_holds db T (Suc n) \<Longrightarrow> db_holds db T n"
  by (auto simp: db_holds_def cat_holds_def) (metis Suc_leD)

lemma exec_message:
  "exec_statement srt s db = Some (Ok q, db') \<Longrightarrow> (\<exists>x. s = Parser.CreateTable x) \<or> (\<exists>x. s = InsertInto x) \<Longrightarrow> qr_message q \<noteq> [] \<and> qr_rows q = []"
  by (auto simp: exec_statement_def ExecCreate_def ExecInsert_def message_result_def bind_out_eq_Ok Let_def
      split: outcome.splits prod.splits if_splits option.splits)

lemma exec_any:
  assumes "std_sort srt" and "db_holds db T (Suc n)" and "stmt_safe T s"
  shows "\<exists>r db'. exec_statement srt s db = Some (r, db') \<and> r \<noteq> Fault \<and> (\<forall>q. r = Ok q \<longrightarrow> result_ok q) \<and> db_holds db' (stmt_effect s T) n"
proof (cases "spec_ok s T")
  case True
  then show ?thesis
  proof (cases s)
    case (CreateTable x)
    then show ?thesis using stmts.create [OF assms(2) _ True [unfolded CreateTable], of srt] True exec_message [of srt s db] by (fastforce simp: stmt_effect_def result_ok_def)
  next
    case (InsertInto x)
    then show ?thesis using stmts.insert [OF assms(2) _ True [unfolded InsertInto], of srt] True exec_message [of srt s db] by (fastforce simp: stmt_effect_def result_ok_def)
  qed simp_all
next
  case False
  show ?thesis
  proof (cases "rejected T s")
    case True
    then show ?thesis using exec_rejected [OF assms(2) True, of srt] False db_holds_less [OF assms(2)] by (auto simp: stmt_effect_def)
  next
    case ok: False
    show ?thesis
    proof (cases s)
      case (Select st)
      then show ?thesis
        using ExecSelect_safe [OF assms(1) db_holds_less [OF assms(2)], of st] assms(3) by (auto simp: stmt_effect_def exec_statement_def)
    next
      case (Explain st)
      then show ?thesis using db_holds_less [OF assms(2)] by (auto simp: stmt_effect_def exec_statement_def ExecExplain_def result_ok_def)
    qed (use ok False assms(3) in \<open>auto split: option.splits\<close>)
  qed
qed

section \<open>Every text\<close>

text \<open>The statement of a text, if it is one.\<close>

definition statement_of :: "string \<Rightarrow> Statement option" where
  "statement_of sql = (case fst (Tokenize (mk_Lexer sql)) of
      Ok toks \<Rightarrow> (case fst (Parse (mk_Parser toks)) of Ok st \<Rightarrow> Some st | _ \<Rightarrow> None)
    | _ \<Rightarrow> None)"

definition text_effect :: "string \<Rightarrow> tables \<Rightarrow> tables" where
  "text_effect sql T = (case statement_of sql of None \<Rightarrow> T | Some st \<Rightarrow> stmt_effect st T)"

definition text_safe :: "tables \<Rightarrow> string \<Rightarrow> bool" where
  "text_safe T sql \<longleftrightarrow> (case statement_of sql of None \<Rightarrow> True | Some st \<Rightarrow> stmt_safe T st)"

lemma Execute_statement_of:
  "case statement_of sql of
     Some st \<Rightarrow> Execute srt sql db = exec_statement srt st db
   | None \<Rightarrow> \<exists>e. Execute srt sql db = Some (Throw e, db)"
proof -
  obtain x l where lx: "Tokenize (mk_Lexer sql) = (x, l)" by fastforce
  show ?thesis
  proof (cases x)
    case (Ok toks)
    then have nf: "fst (Parse (mk_Parser toks)) \<noteq> Fault" using Parse_no_fault lx by blast
    obtain y p where y: "Parse (mk_Parser toks) = (y, p)" by fastforce
    then show ?thesis using nf lx Ok by (cases y) (auto simp: statement_of_def Execute_def)
  qed (use lexer_total [of sql] lx in \<open>auto simp: statement_of_def Execute_def\<close>)
qed

lemma Execute_any:
  assumes "std_sort srt" and "db_holds db T (Suc n)" and "text_safe T sql"
  shows "\<exists>r db'. Execute srt sql db = Some (r, db') \<and> r \<noteq> Fault \<and> (\<forall>q. r = Ok q \<longrightarrow> result_ok q) \<and> db_holds db' (text_effect sql T) n"
proof (cases "statement_of sql")
  case None
  then show ?thesis using Execute_statement_of [of srt sql db] db_holds_less [OF assms(2)] by (auto simp: text_effect_def)
next
  case (Some st)
  then have "Execute srt sql db = exec_statement srt st db" using Execute_statement_of [of srt sql db] by simp
  then show ?thesis using exec_any [OF assms(1,2), of st] assms(3) Some by (auto simp: text_safe_def text_effect_def)
qed

subsection \<open>Sequences of texts\<close>

fun run_texts :: "sorter \<Rightarrow> string list \<Rightarrow> Database \<Rightarrow> (QueryResult outcome list \<times> Database) option" where
  "run_texts srt [] db = Some ([], db)"
| "run_texts srt (sql # sqls) db =
     Option.bind (Execute srt sql db) (\<lambda>(r, db1). map_option (\<lambda>(rs, db2). (r # rs, db2)) (run_texts srt sqls db1))"

fun texts_safe :: "string list \<Rightarrow> tables \<Rightarrow> bool" where
  "texts_safe [] T \<longleftrightarrow> True"
| "texts_safe (sql # sqls) T \<longleftrightarrow> text_safe T sql \<and> texts_safe sqls (text_effect sql T)"

lemma run_texts_ok:
  assumes "std_sort srt" and "db_holds db T (length sqls + n)" and "texts_safe sqls T"
  shows "\<exists>rs db'. run_texts srt sqls db = Some (rs, db') \<and> length rs = length sqls \<and>
    (\<forall>r \<in> set rs. r \<noteq> Fault \<and> (\<forall>q. r = Ok q \<longrightarrow> result_ok q)) \<and> db_holds db' (fold text_effect sqls T) n"
  using assms(2,3)
proof (induction sqls arbitrary: db T)
  case (Cons sql sqls)
  obtain r db1 where r: "Execute srt sql db = Some (r, db1)" "r \<noteq> Fault" "\<forall>q. r = Ok q \<longrightarrow> result_ok q" "db_holds db1 (text_effect sql T) (length sqls + n)"
    using Execute_any [OF assms(1), where db = db and T = T and n = "length sqls + n" and sql = sql] Cons.prems by auto
  from Cons.IH [OF r(4)] Cons.prems(2) r(1-3) show ?case by fastforce
qed simp

section \<open>Properties\<close>

text \<open>(C4) The database survives every history of texts that are safe: such a sequence, of texts that are statements
  or not, that fit the tables or not, is executed to its end; each text ends with a result, with a
  cell for each column in every row, or with an exception, and the tables hold what the \<open>CREATE TABLE\<close> and \<open>INSERT\<close>
  statements among them that were in order say. Not safe (\<open>text_safe\<close>) are tables whose rows
  have no bytes or do not fit a page, queries with rows of 4 GiB or more, with a string in the select list, with an aggregate
  other than a count without an argument, grouped by what is not a column, or with aggregates over 2 to the 31 rows.\<close>

theorem execute_any_history:
  assumes "std_sort srt" and "db_holds db T (length sqls + n)" and "texts_safe sqls T"
  shows "\<exists>rs db'. run_texts srt sqls db = Some (rs, db') \<and> length rs = length sqls \<and>
    (\<forall>r \<in> set rs. r \<noteq> Fault \<and> (\<forall>q. r = Ok q \<longrightarrow> result_ok q)) \<and> db_holds db' (fold text_effect sqls T) n"
  using run_texts_ok [OF assms] .

text \<open>Two texts: a table is created, then a line that is not SQL.\<close>

lemma statement_of_text: "sql_ok s \<Longrightarrow> statement_of (statement_text s) = Some s"
proof -
  assume "sql_ok s"
  then have s: "statement_printable s" "list_all writable (statement_tokens s)" by (simp_all add: sql_ok_def)
  obtain ts l where "Tokenize (mk_Lexer (statement_text s)) = (Ok ts, l)" "map strip ts = statement_tokens s @ [(TK_EOF, [])]"
    using statement_text_tokens(1) [OF s] by blast
  moreover from this(2) obtain q where "Parse (mk_Parser ts) = (Ok s, q)" using Parse_tokens [OF s(1)] by (fastforce simp: ends_def)
  ultimately show ?thesis by (simp add: statement_of_def)
qed

theorem execute_any_history_witness:
  "\<exists>rs db'. run_texts insertion_sort [statement_text (Parser.CreateTable \<lparr>ct_table_name = ''t'', ct_columns = t_cols\<rparr>), ''?''] empty_db = Some (rs, db') \<and>
    length rs = 2 \<and> Fault \<notin> set rs \<and> db_holds db' [''t'' \<mapsto> (int_row, [])] 0"
proof -
  let ?s = "Parser.CreateTable \<lparr>ct_table_name = ''t'', ct_columns = t_cols\<rparr>" and ?T = "[''t'' \<mapsto> (int_row, [])] :: tables"
  let ?sqls = "[statement_text ?s, ''?'']"
  have s: "statement_of (statement_text ?s) = Some ?s" by (rule statement_of_text) (rule t_statements_ok)
  have q: "statement_of ''?'' = None" by code_simp
  have e: "text_effect (statement_text ?s) Map.empty = ?T"
    using t_cols_ok(1) by (simp add: text_effect_def s stmt_effect_def spec_create_def t_int_row)
  have safe: "texts_safe ?sqls Map.empty" using t_cols_ok(1) by (simp add: text_safe_def s q)
  have "fold text_effect ?sqls Map.empty = ?T" by (simp add: e) (simp add: text_effect_def q)
  then show ?thesis
    using execute_any_history [OF insertion_sort_std _ safe, of empty_db 0] empty_db_holds [of 2] by (auto simp: numeral_2_eq_2 simp del: run_texts.simps fold.simps)
qed

text \<open>(C26) \<open>Execute\<close> runs forever on no text. It ends with a result or with an exception when the text is safe, and where a text is
  not, it may end in a fault instead. Unless the text is a \<open>CREATE TABLE\<close> or \<open>INSERT\<close> statement the tables are as before.\<close>

theorem execute_returns:
  assumes "std_sort srt" and "db_holds db T (Suc n)"
  shows "\<exists>r db'. Execute srt sql db = Some (r, db') \<and> (text_safe T sql \<longrightarrow> (\<exists>q. r = Ok q) \<or> (\<exists>e. r = Throw e)) \<and>
    (db_holds db' T (Suc n) \<or> (\<exists>s. statement_of sql = Some (Parser.CreateTable s)) \<or> (\<exists>s. statement_of sql = Some (InsertInto s)))"
proof -
  obtain r db' where r: "Execute srt sql db = Some (r, db')"
      "db_holds db' T (Suc n) \<or> (\<exists>toks l st p. Tokenize (mk_Lexer sql) = (Ok toks, l) \<and> Parse (mk_Parser toks) = (Ok st, p) \<and>
        ((\<exists>s. st = Parser.CreateTable s) \<or> (\<exists>s. st = InsertInto s)))"
    using Execute_ends [OF assms(2)] by blast
  have "r \<noteq> Fault" if "text_safe T sql" using Execute_any [OF assms that] r(1) by auto
  then have "text_safe T sql \<longrightarrow> (\<exists>q. r = Ok q) \<or> (\<exists>e. r = Throw e)" by (cases r) auto
  moreover have "db_holds db' T (Suc n) \<or> (\<exists>s. statement_of sql = Some (Parser.CreateTable s)) \<or> (\<exists>s. statement_of sql = Some (InsertInto s))"
    using r(2) by (auto simp: statement_of_def)
  ultimately show ?thesis using r(1) by blast
qed

theorem execute_returns_witness:
  "\<exists>db r db'. db_holds db [''t'' \<mapsto> (int_row, [[2, 0, 0, 0], [1, 0, 0, 0]])] 1 \<and>
    Execute insertion_sort (statement_text (Select (select_all ''t''))) db = Some (r, db') \<and> r \<noteq> Fault \<and>
    db_holds db' [''t'' \<mapsto> (int_row, [[2, 0, 0, 0], [1, 0, 0, 0]])] 1"
proof -
  let ?T = "[''t'' \<mapsto> (int_row, [[2, 0, 0, 0], [1, 0, 0, 0]])] :: tables" and ?s = "Select (select_all ''t'')"
  obtain db where db: "db_holds db ?T (Suc 0)" using t_db by auto
  have st: "statement_of (statement_text ?s) = Some ?s" by (rule statement_of_text) (rule t_statements_ok)
  have "source_schema ?T (select_all ''t'') = Some (MakeOutputSchema int_row ''t'')" "row_size (columns (MakeOutputSchema int_row ''t'')) = 4"
      "is_star_list (select_list (select_all ''t''))" by code_simp+
  then have "select_safe ?T (select_all ''t'')" by (simp add: select_safe_def)
  then have "text_safe ?T (statement_text ?s)" by (simp add: text_safe_def st)
  then show ?thesis
    using execute_returns [OF insertion_sort_std db, of "statement_text ?s"] db by (fastforce simp: st)
qed

end
