(* ===== verification/Shell.thy ===== *)
theory Shell
  imports Database_Safety
begin

text \<open>
  \<open>src/src/main.cpp\<close>: the shell reads lines, joins them to statements and prints the results. The input
  is the list of the lines that \<open>std::getline\<close> returns; what is written is a list of texts, each on
  the standard output or on the error stream.
\<close>

section \<open>Definitions\<close>

datatype shell_output = Out string | Err string

definition newl :: string where "newl = [CHR 0x0A]"

text \<open>The text of an exception.\<close>

fun what :: "exn \<Rightarrow> string" where
  "what (Runtime_Error s) = s"
| "what (Out_Of_Range s) = s"
| "what (Invalid_Argument s) = s"

subsection \<open>Printing a result\<close>

text \<open>A row with more cells than there are columns writes behind the vector of widths.\<close>

fun widen :: "nat list \<Rightarrow> nat \<Rightarrow> string list \<Rightarrow> nat list outcome" where
  "widen ws i [] = Ok ws"
| "widen ws i (c # cs) = (if i < length ws then widen (ws[i := max (ws ! i) (length c)]) (Suc i) cs else Fault)"

definition widths :: "QueryResult \<Rightarrow> nat list outcome" where
  "widths r = fold_out (\<lambda>row ws. widen ws 0 row) (qr_rows r) (map length (qr_columns r))"

definition separator :: "nat list \<Rightarrow> string" where
  "separator ws = ''+'' @ concat (map (\<lambda>w. replicate (w + 2) (CHR ''-'') @ ''+'') ws) @ newl"

definition print_row :: "nat list \<Rightarrow> string list \<Rightarrow> string" where
  "print_row ws row =
     ''|'' @ concat (map (\<lambda>i. '' '' @ row ! i @ replicate (ws ! i - length (row ! i)) (CHR '' '') @ '' |'') [0..<length row]) @ newl"

definition PrintResult :: "QueryResult \<Rightarrow> string outcome" where
  "PrintResult r =
     (if qr_message r \<noteq> [] then Ok (qr_message r @ newl)
      else if qr_rows r = [] then Ok (''(0 rows)'' @ newl)
      else bind_out (widths r) (\<lambda>ws.
        Ok (separator ws @ print_row ws (qr_columns r) @ separator ws @ concat (map (print_row ws) (qr_rows r)) @
            separator ws @ show_nat (length (qr_rows r)) @ '' row(s)'' @ newl)))"

subsection \<open>The loop\<close>

definition prompt :: "string \<Rightarrow> string" where
  "prompt accumulated = (if accumulated = [] then ''mydb> '' else ''   ...> '')"

type_synonym shell_state = "shell_output list \<times> Database"

definition shell_execute :: "sorter \<Rightarrow> string \<Rightarrow> shell_state \<Rightarrow> (unit, shell_state) res option" where
  "shell_execute srt sql s = (case s of (out, db) \<Rightarrow>
     map_option (\<lambda>(r, db').
       case bind_out r PrintResult of
         Ok text \<Rightarrow> (Ok (), (out @ [Out text], db'))
       | Throw e \<Rightarrow> (Ok (), (out @ [Err (''Error: '' @ what e @ newl)], db'))
       | Fault \<Rightarrow> (Fault, (out, db'))) (Execute srt sql db))"

fun shell_loop :: "sorter \<Rightarrow> string list \<Rightarrow> string \<Rightarrow> shell_state \<Rightarrow> (unit, shell_state) res option" where
  "shell_loop srt [] accumulated (out, db) = Some (Ok (), (out @ [Out (prompt accumulated)], db))"
| "shell_loop srt (line # input) accumulated (out, db) =
     (let s = (out @ [Out (prompt accumulated)], db)
      in if line = ''.quit'' \<or> line = ''.exit'' then Some (Ok (), s)
         else if line = [] then shell_loop srt input accumulated s
         else let accumulated1 = accumulated @ (if accumulated = [] then [] else '' '') @ line
              in if last accumulated1 = CHR '';''
                 then bind_opt (shell_execute srt accumulated1 s) (\<lambda>_ s1. shell_loop srt input [] s1)
                 else shell_loop srt input accumulated1 s)"

definition greeting :: string where
  "greeting = ''mydb '' @ em_dash @ '' type SQL or .quit to exit'' @ newl"

text \<open>
  The file is found by its path, or created. The destructor of the database flushes the pool, in the
  order \<open>ord\<close> of the hash map. An exception of the constructor or of the destructor ends the program.
\<close>

definition main_shell :: "sorter \<Rightarrow> (BufferPoolManager \<Rightarrow> page_id_t list) \<Rightarrow> (string \<Rightarrow> byte list option) \<Rightarrow> bool \<Rightarrow>
    string list \<Rightarrow> string list \<Rightarrow> shell_state outcome option" where
  "main_shell srt ord file_at can_create argv input =
     (let db_path = if 1 < length argv then argv ! 1 else ''mydb.db''
      in case mk_Database db_path (file_at db_path) can_create 256 of
           Ok db \<Rightarrow>
             map_option (\<lambda>(r, (out, db1)).
               if r = Ok () then (case FlushAllPages (ord (db_bpm db1)) (db_bpm db1) of
                   (Ok _, b) \<Rightarrow> Ok (out, db1\<lparr>db_bpm := b\<rparr>)
                 | _ \<Rightarrow> Fault)
               else Fault) (shell_loop srt input [] ([Out greeting], db))
         | _ \<Rightarrow> Some Fault)"

section \<open>Printing\<close>

lemma widen_ok:
  assumes "i + length row \<le> length ws"
  shows "\<exists>ws'. widen ws i row = Ok ws' \<and> length ws' = length ws \<and> (\<forall>j < length ws. ws ! j \<le> ws' ! j) \<and>
    (\<forall>j < length row. length (row ! j) \<le> ws' ! (i + j))"
  using assms
proof (induction ws i row rule: widen.induct)
  case (2 ws i c cs)
  let ?ws = "ws[i := max (ws ! i) (length c)]"
  have i: "i < length ws" "Suc i + length cs \<le> length ?ws" using 2(2) by auto
  obtain ws' where w: "widen ?ws (Suc i) cs = Ok ws'" "length ws' = length ws" "\<forall>j < length ws. ?ws ! j \<le> ws' ! j"
      "\<forall>j < length cs. length (cs ! j) \<le> ws' ! (Suc i + j)"
    using 2(1) [OF i] by auto
  have "ws ! j \<le> ws' ! j" if "j < length ws" for j using w(3) that by (cases "j = i") (auto simp: nth_list_update)
  moreover have "length ((c # cs) ! j) \<le> ws' ! (i + j)" if "j < length (c # cs)" for j
    using w(3,4) i(1) that by (cases j) (auto simp: nth_list_update)
  ultimately show ?case using w(1,2) i(1) by auto
qed simp

lemma widths_ok:
  assumes "\<forall>row \<in> set rows. length row = length ws"
  shows "\<exists>ws'. fold_out (\<lambda>row ws. widen ws 0 row) rows ws = Ok ws' \<and> length ws' = length ws \<and> (\<forall>j < length ws. ws ! j \<le> ws' ! j) \<and>
    (\<forall>row \<in> set rows. \<forall>j < length ws. length (row ! j) \<le> ws' ! j)"
  using assms
proof (induction rows arbitrary: ws)
  case (Cons row rows)
  obtain ws1 where w1: "widen ws 0 row = Ok ws1" "length ws1 = length ws" "\<forall>j < length ws. ws ! j \<le> ws1 ! j"
      "\<forall>j < length row. length (row ! j) \<le> ws1 ! j"
    using widen_ok [of 0 row ws] Cons.prems by auto
  have "\<forall>row \<in> set rows. length row = length ws1" using Cons.prems w1(2) by simp
  then obtain ws2 where w2: "fold_out (\<lambda>row ws. widen ws 0 row) rows ws1 = Ok ws2" "length ws2 = length ws1"
      "\<forall>j < length ws1. ws1 ! j \<le> ws2 ! j" "\<forall>row \<in> set rows. \<forall>j < length ws1. length (row ! j) \<le> ws2 ! j"
    using Cons.IH [of ws1] by blast
  have "\<forall>j < length ws. ws ! j \<le> ws2 ! j" "\<forall>j < length ws. length (row ! j) \<le> ws2 ! j"
    using w1 w2(3) Cons.prems by (auto intro: order_trans)
  then show ?case using w1(1,2) w2 by simp
qed simp

abbreviation table_width :: "nat list \<Rightarrow> nat" where
  "table_width ws \<equiv> 1 + sum_list (map (\<lambda>w. w + 3) ws)"

lemma separator_length: "length (separator ws) = Suc (table_width ws)"
  by (induction ws) (simp_all add: separator_def newl_def)

lemma print_row_length:
  assumes "length row = length ws" and "\<forall>j < length ws. length (row ! j) \<le> ws ! j"
  shows "length (print_row ws row) = Suc (table_width ws)"
proof -
  have "length (concat (map (\<lambda>i. '' '' @ row ! i @ replicate (ws ! i - length (row ! i)) (CHR '' '') @ '' |'') [0..<length row])) =
      sum_list (map (\<lambda>i. ws ! i + 3) [0..<length ws])"
    unfolding length_concat map_map comp_def assms(1) using assms(2) by (intro arg_cong [where f = sum_list] map_cong) auto
  also have "\<dots> = sum_list (map (\<lambda>w. w + 3) ws)"
    using arg_cong [OF map_nth [of ws], of "\<lambda>xs. sum_list (map (\<lambda>w. w + 3) xs)"] by (simp add: comp_def)
  finally show ?thesis by (simp add: print_row_def newl_def)
qed

section \<open>Reading statements\<close>

fun join_lines :: "string list \<Rightarrow> string" where
  "join_lines [] = []"
| "join_lines [l] = l"
| "join_lines (l # ls) = l @ '' '' @ join_lines ls"

text \<open>The lines spell the text: it ends with a semicolon, and no line before the last does.\<close>

definition typed_as :: "string list \<Rightarrow> string \<Rightarrow> bool" where
  "typed_as ls text \<longleftrightarrow> ls \<noteq> [] \<and> join_lines ls = text \<and> (\<forall>l \<in> set ls. l \<noteq> [] \<and> l \<noteq> ''.quit'' \<and> l \<noteq> ''.exit'') \<and>
     (\<forall>l \<in> set (butlast ls). last l \<noteq> CHR '';'') \<and> last (last ls) = CHR '';''"

definition prompts :: "string \<Rightarrow> nat \<Rightarrow> shell_output list" where
  "prompts acc n = Out (prompt acc) # replicate (n - 1) (Out ''   ...> '')"

lemma shell_lines:
  assumes "ls \<noteq> []" and "\<forall>l \<in> set ls. l \<noteq> [] \<and> l \<noteq> ''.quit'' \<and> l \<noteq> ''.exit''" and "\<forall>l \<in> set (butlast ls). last l \<noteq> CHR '';''"
    and "last (last ls) = CHR '';''"
  shows "shell_loop srt (ls @ input) acc (out, db) =
    bind_opt (shell_execute srt (acc @ (if acc = [] then [] else '' '') @ join_lines ls) (out @ prompts acc (length ls), db))
      (\<lambda>_ s. shell_loop srt input [] s)"
  using assms
proof (induction ls arbitrary: acc out rule: join_lines.induct)
  case (2 l)
  then show ?case by (simp add: Let_def prompts_def)
next
  case (3 l l' ls)
  let ?acc = "acc @ (if acc = [] then [] else '' '') @ l"
  have l: "l \<noteq> []" "l \<noteq> ''.quit''" "l \<noteq> ''.exit''" "last l \<noteq> CHR '';''" using 3(3,4) by auto
  then have "shell_loop srt (l # (l' # ls) @ input) acc (out, db) = shell_loop srt ((l' # ls) @ input) ?acc (out @ [Out (prompt acc)], db)"
    by (simp add: Let_def del: append_Cons)
  also have "\<dots> = bind_opt (shell_execute srt (?acc @ '' '' @ join_lines (l' # ls))
      ((out @ [Out (prompt acc)]) @ prompts ?acc (length (l' # ls)), db)) (\<lambda>_ s. shell_loop srt input [] s)"
    using 3(1) [of ?acc "out @ [Out (prompt acc)]"] 3(3-5) l(1) by simp
  finally show ?case using l(1) by (simp add: prompts_def prompt_def)
qed simp

lemma shell_statement:
  "typed_as ls text \<Longrightarrow> shell_loop srt (ls @ input) [] (out, db) =
     bind_opt (shell_execute srt text (out @ prompts [] (length ls), db)) (\<lambda>_ s. shell_loop srt input [] s)"
  using shell_lines [of ls srt input "[]"] by (auto simp: typed_as_def)

lemma shell_step:
  assumes "db_holds db T (Suc n)" and "sql_ok s" and "spec_ok s T"
  shows "\<exists>text db'. shell_execute srt (statement_text s @ '';'') (out, db) = Some (Ok (), (out @ [Out text], db')) \<and> db_holds db' (spec_step s T) n"
proof -
  have "\<exists>q db'. exec_statement srt s db = Some (Ok q, db') \<and> db_holds db' (spec_step s T) n \<and> qr_message q \<noteq> []"
  proof (cases s)
    case (CreateTable x)
    then show ?thesis using stmts.create [OF assms(1) _ assms(3) [unfolded CreateTable], of srt] exec_message [of srt s db] by fastforce
  next
    case (InsertInto x)
    then show ?thesis using stmts.insert [OF assms(1) _ assms(3) [unfolded InsertInto], of srt] exec_message [of srt s db] by fastforce
  qed (use assms(3) in simp_all)
  then obtain q db' where "exec_statement srt s db = Some (Ok q, db')" "db_holds db' (spec_step s T) n" "qr_message q \<noteq> []" by blast
  then show ?thesis by (simp add: shell_execute_def Execute_text(2) [OF assms(2)] PrintResult_def)
qed

text \<open>What ends the input.\<close>

definition session_end :: "string list \<Rightarrow> bool" where
  "session_end input \<longleftrightarrow> input = [] \<or> hd input = ''.quit'' \<or> hd input = ''.exit''"

lemma shell_session:
  assumes "list_all2 (\<lambda>ls s. typed_as ls (statement_text s @ '';'')) lss ss" and "db_holds db T (length ss + n)"
    and "\<forall>s \<in> set ss. sql_ok s" and "spec_run ss T = Some T'" and "session_end input"
  shows "\<exists>out' db'. shell_loop srt (concat lss @ input) [] (out, db) = Some (Ok (), (out @ map Out out', db')) \<and> db_holds db' T' n"
  using assms(1-4)
proof (induction lss ss arbitrary: T db out rule: list_all2_induct)
  case Nil
  have "shell_loop srt input [] (out, db) = Some (Ok (), (out @ map Out [prompt []], db))"
    using assms(5) by (cases input) (auto simp: session_end_def)
  then show ?case using Nil by (intro exI [of _ "[prompt []]"]) auto
next
  case (Cons ls lss s ss)
  let ?out = "out @ prompts [] (length ls)"
  have s: "sql_ok s" "spec_ok s T" "spec_run ss (spec_step s T) = Some T'" "db_holds db T (Suc (length ss + n))"
    using Cons.prems by (auto split: if_splits)
  obtain shown db1 where e: "shell_execute srt (statement_text s @ '';'') (?out, db) = Some (Ok (), (?out @ [Out shown], db1))"
      "db_holds db1 (spec_step s T) (length ss + n)"
    using shell_step [OF s(4,1,2)] by blast
  obtain out' db' where r: "shell_loop srt (concat lss @ input) [] (?out @ [Out shown], db1) = Some (Ok (), ((?out @ [Out shown]) @ map Out out', db'))"
      "db_holds db' T' n"
    using Cons.IH [OF e(2) _ s(3), of "?out @ [Out shown]"] Cons.prems(2) by auto
  have p: "prompts [] (length ls) = map Out (prompt [] # replicate (length ls - 1) ''   ...> '')" by (simp add: prompts_def)
  have "shell_loop srt (concat (ls # lss) @ input) [] (out, db) = Some (Ok (), ((?out @ [Out shown]) @ map Out out', db'))"
    using shell_statement [OF Cons.hyps(1), of srt "concat lss @ input" out db] e(1) r(1) by simp
  then show ?case using r(2) p
    by (intro exI [of _ "(prompt [] # replicate (length ls - 1) ''   ...> '') @ shown # out'"] exI [of _ db']) simp
qed

section \<open>Arbitrary input\<close>

text \<open>The texts that the loop executes.\<close>

fun shell_statements :: "string \<Rightarrow> string list \<Rightarrow> string list" where
  "shell_statements accumulated [] = []"
| "shell_statements accumulated (line # input) =
     (if line = ''.quit'' \<or> line = ''.exit'' then []
      else if line = [] then shell_statements accumulated input
      else let accumulated1 = accumulated @ (if accumulated = [] then [] else '' '') @ line
           in if last accumulated1 = CHR '';'' then accumulated1 # shell_statements [] input
              else shell_statements accumulated1 input)"

lemma PrintResult_ok:
  assumes "result_ok q"
  shows "\<exists>shown. PrintResult q = Ok shown"
  using widths_ok [of "qr_rows q" "map length (qr_columns q)"] assms by (auto simp: PrintResult_def widths_def result_ok_def)

lemma shell_execute_any:
  assumes "std_sort srt" and "db_holds db T (Suc n)" and "text_safe T sql"
  shows "\<exists>shown db'. shell_execute srt sql (out, db) = Some (Ok (), (out @ [shown], db')) \<and> db_holds db' (text_effect sql T) n"
proof -
  obtain r db' where r: "Execute srt sql db = Some (r, db')" "r \<noteq> Fault" "\<forall>q. r = Ok q \<longrightarrow> result_ok q" "db_holds db' (text_effect sql T) n"
    using Execute_any [OF assms] by blast
  show ?thesis
  proof (cases r)
    case (Ok q)
    then obtain shown where "PrintResult q = Ok shown" using PrintResult_ok r(3) by blast
    then show ?thesis using r(1,4) Ok by (simp add: shell_execute_def)
  qed (use r in \<open>simp_all add: shell_execute_def\<close>)
qed

lemma shell_loop_any:
  assumes "std_sort srt"
  shows "db_holds db T (length (shell_statements acc input) + n) \<Longrightarrow> texts_safe (shell_statements acc input) T \<Longrightarrow>
    \<exists>out' db'. shell_loop srt input acc (out, db) = Some (Ok (), (out @ out', db')) \<and> db_holds db' (fold text_effect (shell_statements acc input) T) n"
proof (induction acc input arbitrary: out db T rule: shell_statements.induct)
  case (2 acc line input)
  let ?acc = "acc @ (if acc = [] then [] else '' '') @ line" and ?out = "out @ [Out (prompt acc)]"
  consider (quit) "line = ''.quit'' \<or> line = ''.exit''" | (blank) "line = []"
    | (whole) "\<not> (line = ''.quit'' \<or> line = ''.exit'')" "line \<noteq> []" "last ?acc = CHR '';''"
    | (part) "\<not> (line = ''.quit'' \<or> line = ''.exit'')" "line \<noteq> []" "last ?acc \<noteq> CHR '';''" by blast
  then show ?case
  proof cases
    case quit
    then show ?thesis using "2.prems"(1) by (auto simp: Let_def)
  next
    case blank
    then show ?thesis using "2.IH"(1) [of db T ?out] "2.prems" by (auto simp: Let_def)
  next
    case whole
    let ?sqls = "shell_statements [] input"
    have sts: "shell_statements acc (line # input) = ?acc # ?sqls" using whole by (simp add: Let_def)
    then have prem: "db_holds db T (Suc (length ?sqls + n))" "text_safe T ?acc" "texts_safe ?sqls (text_effect ?acc T)" using "2.prems" by simp_all
    obtain shown db1 where e: "shell_execute srt ?acc (?out, db) = Some (Ok (), (?out @ [shown], db1))" "db_holds db1 (text_effect ?acc T) (length ?sqls + n)"
      using shell_execute_any [OF assms prem(1,2)] by blast
    obtain out' db' where r: "shell_loop srt input [] (?out @ [shown], db1) = Some (Ok (), ((?out @ [shown]) @ out', db'))"
        "db_holds db' (fold text_effect ?sqls (text_effect ?acc T)) n"
      using "2.IH"(2) [OF whole(1,2) refl whole(3) e(2) prem(3)] by blast
    have "shell_loop srt (line # input) acc (out, db) = Some (Ok (), ((?out @ [shown]) @ out', db'))"
      using whole e(1) r(1) by (simp add: Let_def)
    then show ?thesis using r(2) by (simp only: sts) simp
  next
    case part
    have sts: "shell_statements acc (line # input) = shell_statements ?acc input" using part by (simp add: Let_def)
    obtain out' db' where r: "shell_loop srt input ?acc (?out, db) = Some (Ok (), (?out @ out', db'))"
        "db_holds db' (fold text_effect (shell_statements ?acc input) T) n"
      using "2.IH"(3) [OF part(1,2) refl part(3), of db T ?out] "2.prems" unfolding sts by blast
    have "shell_loop srt (line # input) acc (out, db) = shell_loop srt input ?acc (?out, db)" using part by (simp add: Let_def)
    then show ?thesis using r by (simp only: sts) simp
  qed
qed auto

section \<open>Properties\<close>

text \<open>A result is printed as an aligned table: when every row has as many cells as there are columns,
  printing does not fault, the separators, the heading and all rows have the same length, and no cell is
  wider than its column.\<close>

theorem result_table_aligned:
  assumes "qr_message r = []" and "qr_rows r \<noteq> []" and "\<forall>row \<in> set (qr_rows r). length row = length (qr_columns r)"
  shows "\<exists>ws. length ws = length (qr_columns r) \<and>
    (\<forall>row \<in> set (qr_columns r # qr_rows r). length (print_row ws row) = length (separator ws) \<and> (\<forall>j < length ws. length (row ! j) \<le> ws ! j)) \<and>
    PrintResult r = Ok (separator ws @ print_row ws (qr_columns r) @ separator ws @ concat (map (print_row ws) (qr_rows r)) @
      separator ws @ show_nat (length (qr_rows r)) @ '' row(s)'' @ newl)"
proof -
  obtain ws where ws: "widths r = Ok ws" "length ws = length (qr_columns r)" "\<forall>j < length (qr_columns r). length (qr_columns r ! j) \<le> ws ! j"
      "\<forall>row \<in> set (qr_rows r). \<forall>j < length (qr_columns r). length (row ! j) \<le> ws ! j"
    using widths_ok [of "qr_rows r" "map length (qr_columns r)"] assms(3) by (auto simp: widths_def)
  then have "\<forall>row \<in> set (qr_columns r # qr_rows r). length (print_row ws row) = length (separator ws) \<and> (\<forall>j < length ws. length (row ! j) \<le> ws ! j)"
    using assms(3) print_row_length by (simp add: separator_length)
  moreover have "PrintResult r = Ok (separator ws @ print_row ws (qr_columns r) @ separator ws @ concat (map (print_row ws) (qr_rows r)) @
      separator ws @ show_nat (length (qr_rows r)) @ '' row(s)'' @ newl)"
    using assms(1,2) ws(1) by (simp add: PrintResult_def)
  ultimately show ?thesis using ws(2) by blast
qed

theorem result_table_aligned_witness:
  "\<exists>ws. length ws = 1 \<and> length (print_row ws [''t.a'']) = length (separator ws) \<and> length (print_row ws [''12345'']) = length (separator ws)"
  using result_table_aligned [of "\<lparr>qr_columns = [''t.a''], qr_rows = [[''12345'']], qr_message = ''''\<rparr>"] by (simp, blast)

text \<open>The pages of the file, as an order in which they may be flushed.\<close>

definition file_order :: "BufferPoolManager \<Rightarrow> page_id_t list" where
  "file_order b = map mk32 [0..num_pages (disk_manager b) - 1]"

lemma file_order_ok:
  assumes "bpm_inv b"
  shows "dom (page_table b) \<subseteq> set (file_order b)"
proof
  fix p assume "p \<in> dom (page_table b)"
  then obtain f where "used b f" "pg_id (frames b ! f) = p" using assms by (auto simp: bpm_inv_def bpm_wf_def)
  then have "p \<in> dom (disk_content (disk_manager b))" using assms by (auto simp: bpm_inv_def bpm_wf_def)
  then have "ival p \<in> {0..num_pages (disk_manager b) - 1}" by (auto simp: disk_content_def split: if_splits)
  then have "mk32 (ival p) \<in> set (file_order b)" unfolding file_order_def set_map set_upto by (rule imageI)
  then show "p \<in> set (file_order b)" by simp
qed

lemma new_database:
  assumes "0 < k" and "n < 2 ^ 31"
  shows "\<exists>db. mk_Database path None True k = Ok db \<and> db_holds db Map.empty n"
proof -
  let ?d = "\<lparr>db_file = [], num_pages = 0, failbit = False, badbit = False\<rparr>" and ?m = "\<lambda>_. None"
  have d: "mk_DiskManager path None True = Ok ?d" by (simp add: mk_DiskManager_def open_pages_def ival_mk32 INT32_MIN_def INT32_MAX_def)
  have "disk_inv ?d" by (simp add: disk_inv_def stream_ok_def INT32_MAX_def PAGE_SIZE_def)
  then have "bpm_idle (mk_BufferPoolManager k ?d) (disk_content ?d) k (pages_left (mk_BufferPoolManager k ?d))"
    using bpm_inv_init [of ?d k] bp_content_init [of k ?d] by (simp add: bpm_idle_def pins_def mk_BufferPoolManager_def)
  moreover have "n \<le> pages_left (mk_BufferPoolManager k ?d)" using assms(2) by (simp add: pages_left_def mk_BufferPoolManager_def INT32_MAX_def)
  moreover have "cat_inv (disk_content ?d) Map.empty (\<lambda>_. [])" "cat_tables (disk_content ?d) Map.empty (\<lambda>_. []) = Map.empty"
    by (simp_all add: cat_inv_def cat_tables_def fun_eq_iff)
  ultimately have "db_holds \<lparr>db_bpm = mk_BufferPoolManager k ?d, db_catalog = mk_Catalog\<rparr> Map.empty n"
    using assms(1) by (simp add: db_holds_def cat_holds_def mk_Catalog_def) metis
  then show ?thesis using d by (simp add: mk_Database_def)
qed

text \<open>The rows of a table can be read from the file when the first page of its heap file is known.\<close>

definition file_holds :: "byte list \<Rightarrow> Schema \<Rightarrow> page_id_t \<Rightarrow> Tuple list \<Rightarrow> bool" where
  "file_holds bs sch p rows \<longleftrightarrow> (\<forall>path can_create k. 0 < k \<longrightarrow> (\<exists>d h b b'. mk_DiskManager path (Some bs) can_create = Ok d \<and>
     HeapFile_open sch p (mk_BufferPoolManager k d) = Some (Ok h, b) \<and> Scan h (\<lambda>rid t acc. (True, acc @ [t])) [] b = Some (Ok rows, b')))"

lemma cat_tables_chain:
  assumes "cat_inv m c pss" and "cat_tables m c pss x = Some (sch, rows)"
  obtains h ps where "heap_inv m h ps" "schema h = sch" "table_rows m h rows"
proof -
  obtain info where "c x = Some info" "sch = ti_schema info" "rows = map snd (heap_rows m (row_width (heap_file info)) (pss x))"
    using assms(2) by (auto simp: cat_tables_def)
  then show thesis using that [of "heap_file info" "pss x"] assms(1) by (auto simp: cat_inv_def table_rows_def)
qed

lemma tables_durable:
  assumes "db_holds db T n" and "\<forall>b. bpm_inv b \<longrightarrow> dom (page_table b) \<subseteq> set (ord b)"
  shows "\<exists>b'. FlushAllPages (ord (db_bpm db)) (db_bpm db) = (Ok (), b') \<and>
    (length (db_file (disk_manager b')) < 2 ^ 31 \<longrightarrow>
      (\<forall>x sch rows. T x = Some (sch, rows) \<longrightarrow> (\<exists>p. file_holds (db_file (disk_manager b')) sch p rows)))"
proof -
  obtain m k l pss where H: "bpm_idle (db_bpm db) m k l" "cat_inv m (db_catalog db) pss" "T = cat_tables m (db_catalog db) pss"
    using assms(1) by (auto simp: db_holds_def elim: cat_holdsE)
  then have b: "bpm_inv (db_bpm db)" "\<forall>p. 0 < pins (db_bpm db) p \<longrightarrow> settled (db_bpm db) p" "bp_content (db_bpm db) = m"
    by (simp_all add: bpm_idle_def)
  have o: "dom (page_table (db_bpm db)) \<subseteq> set (ord (db_bpm db))" using assms(2) b(1) by blast
  obtain b' where b': "FlushAllPages (ord (db_bpm db)) (db_bpm db) = (Ok (), b')" by (rule FlushAllPages_durable [OF b(1,2) o])
  have re: "\<exists>d. mk_DiskManager path (Some (db_file (disk_manager b'))) cc = Ok d \<and> disk_inv d \<and> disk_content d = m"
    if "length (db_file (disk_manager b')) < 2 ^ 31" for path cc
    using that b' b(3) by (auto intro: FlushAllPages_durable [OF b(1,2) o, of path cc])
  have "\<exists>p. file_holds (db_file (disk_manager b')) sch p rows"
    if small: "length (db_file (disk_manager b')) < 2 ^ 31" and x: "T x = Some (sch, rows)" for x sch rows
  proof -
    obtain h ps where h: "heap_inv m h ps" "schema h = sch" "table_rows m h rows" using cat_tables_chain [OF H(2)] x H(3) by blast
    have "file_holds (db_file (disk_manager b')) sch (first_page_id h) rows"
      unfolding file_holds_def
    proof (intro allI impI)
      fix path cc and j :: nat assume j: "0 < j"
      obtain d where d: "mk_DiskManager path (Some (db_file (disk_manager b'))) cc = Ok d" "disk_inv d" "disk_content d = m" using re [OF small] by blast
      then have "bpm_idle (mk_BufferPoolManager j d) m j (pages_left (mk_BufferPoolManager j d))"
        using bpm_inv_init bp_content_init by (simp add: bpm_idle_def pins_def) (simp add: mk_BufferPoolManager_def)
      then obtain b1 where b1: "HeapFile_open sch (first_page_id h) (mk_BufferPoolManager j d) = Some (Ok h, b1)"
          "bpm_idle b1 m j (pages_left (mk_BufferPoolManager j d))"
        using HeapFile_open_ok [OF _ j h(1)] h(2) by blast
      then show "\<exists>d h1 b b2. mk_DiskManager path (Some (db_file (disk_manager b'))) cc = Ok d \<and>
          HeapFile_open sch (first_page_id h) (mk_BufferPoolManager j d) = Some (Ok h1, b) \<and>
          Scan h1 (\<lambda>rid t acc. (True, acc @ [t])) [] b = Some (Ok rows, b2)"
        using d(1) scan_rows [OF b1(2) j h(3)] by blast
    qed
    then show ?thesis by blast
  qed
  then show ?thesis using b' by blast
qed

text \<open>(C18) A session of the shell on a new file: when the lines typed spell, each statement over one or more
  lines, \<open>CREATE TABLE\<close> and \<open>INSERT\<close> statements that are in order, the program runs to its end without
  an error message, has the tables the statements describe, and leaves a file from which the rows
  of each table can be read again.\<close>

theorem shell_session_durable:
  assumes "list_all2 (\<lambda>ls s. typed_as ls (statement_text s @ '';'')) lss ss" and "\<forall>s \<in> set ss. sql_ok s" and "spec_run ss Map.empty = Some T"
    and "session_end input" and "length ss < 2 ^ 31" and "file_at path = None" and "\<forall>b. bpm_inv b \<longrightarrow> dom (page_table b) \<subseteq> set (ord b)"
  shows "\<exists>out db. main_shell srt ord file_at True [prog, path] (concat lss @ input) = Some (Ok (map Out out, db)) \<and>
    (length (db_file (disk_manager (db_bpm db))) < 2 ^ 31 \<longrightarrow>
      (\<forall>x sch rows. T x = Some (sch, rows) \<longrightarrow> (\<exists>p. file_holds (db_file (disk_manager (db_bpm db))) sch p rows)))"
proof -
  obtain db0 where db0: "mk_Database path None True 256 = Ok db0" "db_holds db0 Map.empty (length ss + 0)"
    using new_database [of 256 "length ss" path] assms(5) by auto
  obtain out db where l: "shell_loop srt (concat lss @ input) [] ([Out greeting], db0) = Some (Ok (), ([Out greeting] @ map Out out, db))" "db_holds db T 0"
    using shell_session [OF assms(1) db0(2) assms(2-4), of srt "[Out greeting]"] by blast
  obtain b where b: "FlushAllPages (ord (db_bpm db)) (db_bpm db) = (Ok (), b)"
      "length (db_file (disk_manager b)) < 2 ^ 31 \<longrightarrow> (\<forall>x sch rows. T x = Some (sch, rows) \<longrightarrow> (\<exists>p. file_holds (db_file (disk_manager b)) sch p rows))"
    using tables_durable [OF l(2) assms(7)] by blast
  have "main_shell srt ord file_at True [prog, path] (concat lss @ input) = Some (Ok (map Out (greeting # out), db\<lparr>db_bpm := b\<rparr>))"
    using db0(1) l(1) b(1) assms(6) by (simp add: main_shell_def)
  then show ?thesis using b(2) by (intro exI [of _ "greeting # out"] exI [of _ "db\<lparr>db_bpm := b\<rparr>"]) simp
qed

theorem shell_session_durable_witness:
  "\<exists>out db. main_shell insertion_sort file_order (\<lambda>_. None) True [''mydb'', ''t.db''] [''CREATE TABLE t'', ''( a INT ) ;'', ''.quit''] = Some (Ok (map Out out, db))"
proof -
  let ?s = "Parser.CreateTable \<lparr>ct_table_name = ''t'', ct_columns = t_cols\<rparr>" and ?ls = "[''CREATE TABLE t'', ''( a INT ) ;'']"
  have "statement_text ?s @ '';'' = join_lines ?ls" by code_simp
  then have ty: "list_all2 (\<lambda>ls s. typed_as ls (statement_text s @ '';'')) [?ls] [?s]" by (simp add: typed_as_def)
  have sp: "spec_run [?s] Map.empty = Some [''t'' \<mapsto> (int_row, [])]" using t_cols_ok(1) by (simp add: spec_create_def t_int_row)
  have "\<forall>s \<in> set [?s]. sql_ok s" using t_statements_ok(1) by simp
  from shell_session_durable [OF ty this sp, of "[''.quit'']" "\<lambda>_. None" "''t.db''" file_order insertion_sort "''mydb''"] file_order_ok
  show ?thesis by (auto simp: session_end_def)
qed

text \<open>(C19) The shell on arbitrary input: whatever is typed, SQL or not, split over lines in any way, with mistakes or
  without, the program on a new file runs to its end, and it leaves a file from which the rows can be read that the
  \<open>CREATE TABLE\<close> and \<open>INSERT\<close> statements in order put into the tables. This holds unless one of the
  statements typed is of those on which the code faults.\<close>

theorem shell_any_input:
  assumes "std_sort srt" and "texts_safe (shell_statements [] input) Map.empty" and "length (shell_statements [] input) < 2 ^ 31"
    and "file_at path = None" and "\<forall>b. bpm_inv b \<longrightarrow> dom (page_table b) \<subseteq> set (ord b)"
  shows "\<exists>out db. main_shell srt ord file_at True [prog, path] input = Some (Ok (out, db)) \<and>
    (length (db_file (disk_manager (db_bpm db))) < 2 ^ 31 \<longrightarrow>
      (\<forall>x sch rows. fold text_effect (shell_statements [] input) Map.empty x = Some (sch, rows) \<longrightarrow>
        (\<exists>p. file_holds (db_file (disk_manager (db_bpm db))) sch p rows)))"
proof -
  let ?T = "fold text_effect (shell_statements [] input) Map.empty"
  obtain db0 where db0: "mk_Database path None True 256 = Ok db0" "db_holds db0 Map.empty (length (shell_statements [] input) + 0)"
    using new_database [of 256 "length (shell_statements [] input)" path] assms(3) by auto
  obtain out db where l: "shell_loop srt input [] ([Out greeting], db0) = Some (Ok (), ([Out greeting] @ out, db))" "db_holds db ?T 0"
    using shell_loop_any [OF assms(1) db0(2) assms(2), of "[Out greeting]"] by blast
  obtain b where b: "FlushAllPages (ord (db_bpm db)) (db_bpm db) = (Ok (), b)"
      "length (db_file (disk_manager b)) < 2 ^ 31 \<longrightarrow> (\<forall>x sch rows. ?T x = Some (sch, rows) \<longrightarrow> (\<exists>p. file_holds (db_file (disk_manager b)) sch p rows))"
    using tables_durable [OF l(2) assms(5)] by blast
  have "main_shell srt ord file_at True [prog, path] input = Some (Ok ([Out greeting] @ out, db\<lparr>db_bpm := b\<rparr>))"
    using db0(1) l(1) b(1) assms(4) by (simp add: main_shell_def)
  then show ?thesis using b(2) by (intro exI [of _ "[Out greeting] @ out"] exI [of _ "db\<lparr>db_bpm := b\<rparr>"]) simp
qed

theorem shell_any_input_witness:
  "\<exists>out db. main_shell insertion_sort file_order (\<lambda>_. None) True [''mydb'', ''t.db'']
      [''CREATE TABLE t'', ''( a INT );'', ''?'', '''', '';'', ''.quit'', ''more''] = Some (Ok (out, db)) \<and>
    (2 ^ 31 \<le> length (db_file (disk_manager (db_bpm db))) \<or> (\<exists>p. file_holds (db_file (disk_manager (db_bpm db))) int_row p []))"
proof -
  let ?in = "[''CREATE TABLE t'', ''( a INT );'', ''?'', '''', '';'', ''.quit'', ''more'']" and ?T = "[''t'' \<mapsto> (int_row, [])] :: tables"
  have sts: "shell_statements [] ?in = [''CREATE TABLE t ( a INT );'', ''? ;'']" by code_simp
  have st: "statement_of ''CREATE TABLE t ( a INT );'' = Some (Parser.CreateTable \<lparr>ct_table_name = ''t'', ct_columns = t_cols\<rparr>)" by code_simp
  have q: "statement_of ''? ;'' = None" by code_simp
  have e: "text_effect ''CREATE TABLE t ( a INT );'' Map.empty = ?T"
    using t_cols_ok(1) by (simp add: text_effect_def st stmt_effect_def spec_create_def t_int_row)
  have safe: "texts_safe (shell_statements [] ?in) Map.empty" unfolding sts using t_cols_ok(1) by (simp add: text_safe_def st q)
  have T: "fold text_effect (shell_statements [] ?in) Map.empty = ?T" unfolding sts by (simp add: e) (simp add: text_effect_def q)
  have n: "length (shell_statements [] ?in) < 2 ^ 31" unfolding sts by simp
  obtain out db where "main_shell insertion_sort file_order (\<lambda>_. None) True [''mydb'', ''t.db''] ?in = Some (Ok (out, db))"
      "length (db_file (disk_manager (db_bpm db))) < 2 ^ 31 \<Longrightarrow> \<exists>p. file_holds (db_file (disk_manager (db_bpm db))) int_row p []"
    using shell_any_input [OF insertion_sort_std safe n, of "\<lambda>_. None" "''t.db''" file_order "''mydb''"] file_order_ok unfolding T by fastforce
  then show ?thesis by (metis not_le)
qed

end
