(* ===== verification/Page_Array.thy ===== *)
theory Page_Array
  imports Disk_Manager
begin

text \<open>
  An array of fixed-size entries laid over the bytes of a page, behind a header. The structs of
  \<open>src/src/storage/bplus_tree.cpp\<close> are two such layouts; their loops (find the position, shift the
  entries up, store) are the functions below, in which an index outside the array faults. The
  locale \<open>entry_array\<close> says what makes a layout sound, and relates the loops to list operations.
\<close>

section \<open>Definitions\<close>

record 'e layout =
  arr_base :: nat
  arr_width :: nat
  arr_cap :: nat
  arr_enc :: "'e \<Rightarrow> byte list"
  arr_dec :: "byte list \<Rightarrow> 'e"

definition arr_get :: "'e layout \<Rightarrow> byte list \<Rightarrow> int \<Rightarrow> 'e outcome" where
  "arr_get L d i =
     (if 0 \<le> i \<and> i < int (arr_cap L)
      then Ok (arr_dec L (peek (arr_base L + nat i * arr_width L) (arr_width L) d)) else Fault)"

definition arr_set :: "'e layout \<Rightarrow> byte list \<Rightarrow> int \<Rightarrow> 'e \<Rightarrow> byte list outcome" where
  "arr_set L d i e =
     (if 0 \<le> i \<and> i < int (arr_cap L) then Ok (poke (arr_base L + nat i * arr_width L) (arr_enc L e) d) else Fault)"

text \<open>\<open>for (i = ...; i > pos; --i) data[i] = data[i - 1]\<close>\<close>

function arr_shift :: "'e layout \<Rightarrow> byte list \<Rightarrow> int \<Rightarrow> int \<Rightarrow> byte list outcome" where
  "arr_shift L d i pos =
     (if i > pos
      then bind_out (arr_get L d (i - 1)) (\<lambda>e. bind_out (arr_set L d i e) (\<lambda>d'. arr_shift L d' (i - 1) pos))
      else Ok d)"
  by auto
termination
  by (relation "measure (\<lambda>(L, d, i, pos). nat (i - pos))") auto

text \<open>The first index from \<open>i\<close> on, below \<open>n\<close>, whose entry satisfies \<open>P\<close>, if any.\<close>

function arr_find :: "'e layout \<Rightarrow> ('e \<Rightarrow> bool) \<Rightarrow> byte list \<Rightarrow> int \<Rightarrow> int \<Rightarrow> int option outcome" where
  "arr_find L P d i n =
     (if i < n
      then bind_out (arr_get L d i) (\<lambda>e. if P e then Ok (Some i) else arr_find L P d (i + 1) n)
      else Ok None)"
  by auto
termination
  by (relation "measure (\<lambda>(L, P, d, i, n). nat (n - i))") auto

declare arr_shift.simps [simp del] arr_find.simps [simp del]

text \<open>\<open>for (i = 0; i < n; ++i) dst.data[to + i] = src.data[from + i]\<close>\<close>

fun arr_copy :: "'e layout \<Rightarrow> byte list \<Rightarrow> int \<Rightarrow> byte list \<Rightarrow> int \<Rightarrow> nat \<Rightarrow> byte list outcome" where
  "arr_copy L src from_i dst to_i 0 = Ok dst"
| "arr_copy L src from_i dst to_i (Suc n) =
     bind_out (arr_get L src from_i) (\<lambda>e. bind_out (arr_set L dst to_i e)
       (\<lambda>dst'. arr_copy L src (from_i + 1) dst' (to_i + 1) n))"

text \<open>The first \<open>n\<close> entries as a list.\<close>

definition arr_list :: "'e layout \<Rightarrow> nat \<Rightarrow> byte list \<Rightarrow> 'e list" where
  "arr_list L n d = map (\<lambda>i. arr_dec L (peek (arr_base L + i * arr_width L) (arr_width L) d)) [0..<n]"

text \<open>Two pages that agree on the header of the layout.\<close>

definition same_header :: "'e layout \<Rightarrow> byte list \<Rightarrow> byte list \<Rightarrow> bool" where
  "same_header L d d' \<longleftrightarrow> (\<forall>off. off + 4 \<le> arr_base L \<longrightarrow> get32 off d' = get32 off d)"

lemma length_arr_list [simp]: "length (arr_list L n d) = n"
  by (simp add: arr_list_def)

lemma same_header_refl [simp]: "same_header L d d"
  by (simp add: same_header_def)

lemma same_header_trans: "same_header L d d' \<Longrightarrow> same_header L d' d'' \<Longrightarrow> same_header L d d''"
  by (simp add: same_header_def)

lemma same_headerD: "same_header L d d' \<Longrightarrow> off + 4 \<le> arr_base L \<Longrightarrow> get32 off d' = get32 off d"
  by (simp add: same_header_def)

lemma arr_list_nth: "i < n \<Longrightarrow> arr_list L n d ! i = arr_dec L (peek (arr_base L + i * arr_width L) (arr_width L) d)"
  by (simp add: arr_list_def)

lemma take_arr_list: "m \<le> n \<Longrightarrow> take m (arr_list L n d) = arr_list L m d"
  by (simp add: arr_list_def take_map)

lemma arr_list_Suc:
  "arr_list L (Suc n) d = arr_list L n d @ [arr_dec L (peek (arr_base L + n * arr_width L) (arr_width L) d)]"
  by (simp add: arr_list_def)

section \<open>Sound layouts\<close>

locale entry_array =
  fixes L :: "'e layout"
  assumes enc_length: "length (arr_enc L e) = arr_width L"
    and dec_enc: "arr_dec L (arr_enc L e) = e"
    and in_page: "arr_base L + arr_cap L * arr_width L \<le> PAGE_SIZE"
begin

lemma entry_end: "i < arr_cap L \<Longrightarrow> arr_base L + i * arr_width L + arr_width L \<le> PAGE_SIZE"
proof -
  assume "i < arr_cap L"
  then have "(i + 1) * arr_width L \<le> arr_cap L * arr_width L" by (intro mult_le_mono1) simp
  then show ?thesis using in_page by simp
qed

lemma entry_disjoint: "i < j \<Longrightarrow> arr_base L + i * arr_width L + arr_width L \<le> arr_base L + j * arr_width L"
proof -
  assume "i < j"
  then have "(i + 1) * arr_width L \<le> j * arr_width L" by (intro mult_le_mono1) simp
  then show ?thesis by simp
qed

lemma get_ok: "i < n \<Longrightarrow> n \<le> arr_cap L \<Longrightarrow> arr_get L d (int i) = Ok (arr_list L n d ! i)"
  by (simp add: arr_get_def arr_list_nth)

lemma set_ok:
  assumes "length d = PAGE_SIZE" and "i < arr_cap L"
  shows "\<exists>d'. arr_set L d (int i) e = Ok d' \<and> length d' = PAGE_SIZE \<and> same_header L d d' \<and>
    (\<forall>n \<le> arr_cap L. arr_list L n d' = (arr_list L n d)[i := e])"
proof -
  let ?d = "poke (arr_base L + i * arr_width L) (arr_enc L e) d"
  note fit = entry_end [OF assms(2)]
  have "arr_list L n ?d = (arr_list L n d)[i := e]" if "n \<le> arr_cap L" for n
  proof (rule nth_equalityI)
    fix j assume "j < length (arr_list L n ?d)"
    then have j: "j < n" by simp
    then have "arr_base L + j * arr_width L + arr_width L \<le> PAGE_SIZE" using entry_end that by simp
    then show "arr_list L n ?d ! j = (arr_list L n d)[i := e] ! j"
      using j fit assms(1) entry_disjoint [of i j] entry_disjoint [of j i]
      by (cases i j rule: linorder_cases)
        (simp_all add: arr_list_nth nth_list_update enc_length dec_enc peek_poke_same peek_poke_disjoint)
  qed simp
  moreover have "same_header L d ?d"
    using fit assms(1) by (auto simp: same_header_def get32_poke_other enc_length)
  ultimately show ?thesis
    using assms fit by (simp add: arr_set_def enc_length)
qed

text \<open>A header field written with \<open>put32\<close> leaves the entries alone.\<close>

lemma put_header:
  assumes "length d = PAGE_SIZE" and "off + 4 \<le> arr_base L" and "n \<le> arr_cap L"
  shows "arr_list L n (put32 off w d) = arr_list L n d"
proof (rule nth_equalityI)
  fix j assume "j < length (arr_list L n (put32 off w d))"
  then have "j < n" by simp
  then show "arr_list L n (put32 off w d) ! j = arr_list L n d ! j"
    using entry_end [of j] assms by (simp add: arr_list_nth peek_put32_other)
qed simp

lemma shift_ok:
  assumes "length d = PAGE_SIZE" and "pos \<le> i" and "i < arr_cap L"
  shows "\<exists>d'. arr_shift L d (int i) (int pos) = Ok d' \<and> length d' = PAGE_SIZE \<and> same_header L d d' \<and>
    (\<forall>n \<le> arr_cap L. i < n \<longrightarrow> arr_list L n d' =
      take pos (arr_list L n d) @ [arr_list L n d ! pos] @
      take (i - pos) (drop pos (arr_list L n d)) @ drop (Suc i) (arr_list L n d))"
  using assms
proof (induction "i - pos" arbitrary: i d)
  case 0
  then have "i = pos" by simp
  then show ?case using 0 by (simp add: arr_shift.simps [of L d "int pos"] id_take_nth_drop [symmetric])
next
  case (Suc k)
  then obtain j where j: "i = Suc j" "pos \<le> j" "k = j - pos" by (cases i) auto
  have get: "arr_get L d (int j) = Ok (arr_list L (arr_cap L) d ! j)"
    using Suc.prems(3) j(1) by (intro get_ok) auto
  obtain d1 where d1: "arr_set L d (int i) (arr_list L (arr_cap L) d ! j) = Ok d1" "length d1 = PAGE_SIZE"
      "same_header L d d1"
      "\<forall>n \<le> arr_cap L. arr_list L n d1 = (arr_list L n d)[i := arr_list L (arr_cap L) d ! j]"
    using set_ok [OF Suc.prems(1,3)] by blast
  obtain d2 where d2: "arr_shift L d1 (int j) (int pos) = Ok d2" "length d2 = PAGE_SIZE" "same_header L d1 d2"
      "\<And>n. n \<le> arr_cap L \<Longrightarrow> j < n \<Longrightarrow> arr_list L n d2 =
        take pos (arr_list L n d1) @ [arr_list L n d1 ! pos] @
        take (j - pos) (drop pos (arr_list L n d1)) @ drop (Suc j) (arr_list L n d1)"
    using Suc.hyps(1) [OF j(3) d1(2) j(2)] Suc.prems(3) j(1) by auto
  have "arr_shift L d (int i) (int pos) = Ok d2"
    using get d1(1) d2(1) j by (simp add: arr_shift.simps [of L d "1 + int j"])
  moreover have "arr_list L n d2 = take pos (arr_list L n d) @ [arr_list L n d ! pos] @
      take (i - pos) (drop pos (arr_list L n d)) @ drop (Suc i) (arr_list L n d)"
    if n: "n \<le> arr_cap L" "i < n" for n
  proof -
    have e: "arr_list L (arr_cap L) d ! j = arr_list L n d ! j"
      using n j(1) by (simp add: arr_list_nth)
    have "drop (Suc j) ((arr_list L n d)[i := x]) = x # drop (Suc i) (arr_list L n d)" for x
      using n(2) j(1) by (subst drop_update_swap) (auto simp: Cons_nth_drop_Suc [symmetric] list_update_code)
    moreover have "take (i - pos) (drop pos (arr_list L n d)) =
        take (j - pos) (drop pos (arr_list L n d)) @ [arr_list L n d ! j]"
      using n(2) j by (simp add: Suc_diff_le take_Suc_conv_app_nth)
    ultimately show ?thesis
      using d2(4) [OF n(1)] d1(4) n j e by (simp add: take_update_cancel drop_update_swap take_drop)
  qed
  ultimately show ?case using d2(2) same_header_trans [OF d1(3) d2(3)] by blast
qed

lemma insert_at_ok:
  assumes "length d = PAGE_SIZE" and "pos \<le> n" and "n < arr_cap L"
  shows "\<exists>d' d''. arr_shift L d (int n) (int pos) = Ok d' \<and> arr_set L d' (int pos) e = Ok d'' \<and>
    length d'' = PAGE_SIZE \<and> same_header L d d'' \<and>
    arr_list L (Suc n) d'' = take pos (arr_list L n d) @ e # drop pos (arr_list L n d)"
proof -
  obtain d' where d': "arr_shift L d (int n) (int pos) = Ok d'" "length d' = PAGE_SIZE" "same_header L d d'"
      "arr_list L (Suc n) d' = take pos (arr_list L (Suc n) d) @ [arr_list L (Suc n) d ! pos] @
        take (n - pos) (drop pos (arr_list L (Suc n) d)) @ drop (Suc n) (arr_list L (Suc n) d)"
    using shift_ok [OF assms] assms(3) by (metis Suc_leI lessI)
  obtain d'' where d'': "arr_set L d' (int pos) e = Ok d''" "length d'' = PAGE_SIZE" "same_header L d' d''"
      "arr_list L (Suc n) d'' = (arr_list L (Suc n) d')[pos := e]"
    using set_ok [OF d'(2), of pos e] assms(2,3) by (metis Suc_leI le_less_trans)
  have "take pos (arr_list L (Suc n) d) = take pos (arr_list L n d)"
      "take (n - pos) (drop pos (arr_list L (Suc n) d)) = drop pos (arr_list L n d)"
    using assms(2) by (simp_all add: arr_list_Suc)
  then show ?thesis
    using d' d'' assms(2) same_header_trans [OF d'(3) d''(3)] by (simp add: list_update_append)
qed

lemma find_ok:
  assumes "i \<le> n" and "n \<le> arr_cap L"
  shows "(\<exists>j. i \<le> j \<and> j < n \<and> P (arr_list L n d ! j) \<and> (\<forall>k. i \<le> k \<and> k < j \<longrightarrow> \<not> P (arr_list L n d ! k)) \<and>
      arr_find L P d (int i) (int n) = Ok (Some (int j))) \<or>
    ((\<forall>k. i \<le> k \<and> k < n \<longrightarrow> \<not> P (arr_list L n d ! k)) \<and> arr_find L P d (int i) (int n) = Ok None)"
  using assms
proof (induction "n - i" arbitrary: i)
  case 0
  then show ?case by (auto simp: arr_find.simps)
next
  case (Suc m)
  then have i: "i < n" by simp
  have get: "arr_get L d (int i) = Ok (arr_list L n d ! i)" using i Suc.prems(2) by (rule get_ok)
  show ?case
  proof (cases "P (arr_list L n d ! i)")
    case True
    then show ?thesis using i get by (intro disjI1 exI [of _ i]) (auto simp: arr_find.simps [of L P d "int i"])
  next
    case False
    then have step: "arr_find L P d (int i) (int n) = arr_find L P d (int (Suc i)) (int n)"
      using i get by (simp add: arr_find.simps [of L P d "int i"] add.commute)
    have all: "(\<forall>k. i \<le> k \<and> k < j \<longrightarrow> \<not> P (arr_list L n d ! k)) \<longleftrightarrow>
        (\<forall>k. Suc i \<le> k \<and> k < j \<longrightarrow> \<not> P (arr_list L n d ! k))" for j
      using False by (metis Suc_leD Suc_leI le_neq_implies_less)
    have "(\<exists>j. Suc i \<le> j \<and> j < n \<and> P (arr_list L n d ! j) \<and>
          (\<forall>k. Suc i \<le> k \<and> k < j \<longrightarrow> \<not> P (arr_list L n d ! k)) \<and>
          arr_find L P d (int (Suc i)) (int n) = Ok (Some (int j))) \<or>
        ((\<forall>k. Suc i \<le> k \<and> k < n \<longrightarrow> \<not> P (arr_list L n d ! k)) \<and>
          arr_find L P d (int (Suc i)) (int n) = Ok None)"
      using Suc.hyps Suc.prems i by (intro Suc.hyps(1)) auto
    then show ?thesis unfolding step all by (meson Suc_leD)
  qed
qed

lemma copy_ok:
  assumes "length dst = PAGE_SIZE" and "from_i + n \<le> arr_cap L" and "to_i + n \<le> arr_cap L"
  shows "\<exists>d'. arr_copy L src (int from_i) dst (int to_i) n = Ok d' \<and> length d' = PAGE_SIZE \<and>
    same_header L dst d' \<and>
    arr_list L (to_i + n) d' = arr_list L to_i dst @ take n (drop from_i (arr_list L (arr_cap L) src))"
  using assms
proof (induction n arbitrary: dst from_i to_i)
  case 0
  then show ?case by simp
next
  case (Suc n)
  let ?e = "arr_list L (arr_cap L) src ! from_i"
  have get: "arr_get L src (int from_i) = Ok ?e" using Suc.prems by (intro get_ok) auto
  obtain d1 where d1: "arr_set L dst (int to_i) ?e = Ok d1" "length d1 = PAGE_SIZE" "same_header L dst d1"
      "arr_list L (Suc to_i) d1 = (arr_list L (Suc to_i) dst)[to_i := ?e]"
    using set_ok [OF Suc.prems(1), of to_i ?e] Suc.prems(3) by fastforce
  obtain d2 where d2: "arr_copy L src (int (Suc from_i)) d1 (int (Suc to_i)) n = Ok d2" "length d2 = PAGE_SIZE"
      "same_header L d1 d2"
      "arr_list L (Suc to_i + n) d2 = arr_list L (Suc to_i) d1 @ take n (drop (Suc from_i) (arr_list L (arr_cap L) src))"
    using Suc.IH [OF d1(2), of "Suc from_i" "Suc to_i"] Suc.prems by auto
  have "(arr_list L (Suc to_i) dst)[to_i := ?e] = arr_list L to_i dst @ [?e]"
    by (simp add: arr_list_def list_update_append)
  moreover have "take (Suc n) (drop from_i (arr_list L (arr_cap L) src)) =
      ?e # take n (drop (Suc from_i) (arr_list L (arr_cap L) src))"
    using Suc.prems(2) by (simp add: Cons_nth_drop_Suc [symmetric])
  ultimately show ?case
    using get d1 d2 same_header_trans [OF d1(3) d2(3)] by (simp add: add.commute)
qed

end

end
