(* ===== verification/BPlus_Tree.thy ===== *)
theory BPlus_Tree
  imports Buffer_Pool Page_Array
begin

text \<open>
  \<open>src/src/storage/bplus_tree.cpp\<close>: an index from \<open>int32_t\<close> keys to record ids, one node per page.
  The node structs are laid over the bytes of a page: fields of the header at their offsets, the
  entries as a \<open>layout\<close>. All pages are reached through the buffer pool. The theorems relate the
  pages to a tree, and the tree to the sorted list of its entries.
\<close>

section \<open>Definitions\<close>

subsection \<open>Page layout structs\<close>

definition NODE_INTERNAL :: u32 where "NODE_INTERNAL = 0"
definition NODE_LEAF :: u32 where "NODE_LEAF = 1"

record InternalEntry =
  ie_key :: i32
  ie_child :: page_id_t

record LeafEntry =
  le_key :: i32
  le_rid :: RID

definition internal_layout :: "InternalEntry layout" where
  "internal_layout = \<lparr>arr_base = 12, arr_width = 8, arr_cap = (PAGE_SIZE - 12) div 8,
     arr_enc = (\<lambda>e. le32 (bits32 (ie_key e)) @ le32 (bits32 (ie_child e))),
     arr_dec = (\<lambda>bs. \<lparr>ie_key = I32 (get32 0 bs), ie_child = I32 (get32 4 bs)\<rparr>)\<rparr>"

definition leaf_layout :: "LeafEntry layout" where
  "leaf_layout = \<lparr>arr_base = 16, arr_width = 12, arr_cap = (PAGE_SIZE - 16) div 12,
     arr_enc = (\<lambda>e. le32 (bits32 (le_key e)) @ le32 (bits32 (page_id (le_rid e))) @ le32 (slot_num (le_rid e))),
     arr_dec = (\<lambda>bs. \<lparr>le_key = I32 (get32 0 bs),
       le_rid = \<lparr>page_id = I32 (get32 4 bs), slot_num = get32 8 bs\<rparr>\<rparr>)\<rparr>"

abbreviation INTERNAL_CAPACITY :: nat where "INTERNAL_CAPACITY \<equiv> arr_cap internal_layout"
abbreviation LEAF_CAPACITY :: nat where "LEAF_CAPACITY \<equiv> arr_cap leaf_layout"

text \<open>The header fields: \<open>page_type\<close> and \<open>size\<close> are at the same place in both structs.\<close>

definition PageType :: "byte list \<Rightarrow> u32" where "PageType d = get32 0 d"
definition set_PageType :: "u32 \<Rightarrow> byte list \<Rightarrow> byte list" where "set_PageType t d = put32 0 t d"
definition node_size :: "byte list \<Rightarrow> int" where "node_size d = ival (I32 (get32 4 d))"
definition set_node_size :: "int \<Rightarrow> byte list \<Rightarrow> byte list" where "set_node_size n d = put32 4 (bits32 (mk32 n)) d"
definition set_parent :: "page_id_t \<Rightarrow> byte list \<Rightarrow> byte list" where "set_parent p d = put32 8 (bits32 p) d"
definition next_page_id :: "byte list \<Rightarrow> page_id_t" where "next_page_id d = I32 (get32 12 d)"
definition set_next_page_id :: "page_id_t \<Rightarrow> byte list \<Rightarrow> byte list" where
  "set_next_page_id p d = put32 12 (bits32 p) d"

definition Internal_Init :: "byte list \<Rightarrow> byte list outcome" where
  "Internal_Init d = arr_set internal_layout
     (set_parent INVALID_PAGE_ID (set_node_size 1 (set_PageType NODE_INTERNAL d))) 0
     \<lparr>ie_key = mk32 0, ie_child = INVALID_PAGE_ID\<rparr>"

definition Leaf_Init :: "byte list \<Rightarrow> byte list" where
  "Leaf_Init d = set_next_page_id INVALID_PAGE_ID
     (set_parent INVALID_PAGE_ID (set_node_size 0 (set_PageType NODE_LEAF d)))"

text \<open>The binary search of \<open>BPlusTreeInternalPage::Lookup\<close>.\<close>

function lookup_loop :: "byte list \<Rightarrow> i32 \<Rightarrow> int \<Rightarrow> int \<Rightarrow> int \<Rightarrow> int outcome" where
  "lookup_loop d key lo hi result =
     (if lo \<le> hi
      then (let mid = (lo + hi) div 2
            in bind_out (arr_get internal_layout d mid) (\<lambda>e.
              if ie_key e \<le> key then lookup_loop d key (mid + 1) hi mid
              else lookup_loop d key lo (mid - 1) result))
      else Ok result)"
  by auto
termination
  by (relation "measure (\<lambda>(d, key, lo, hi, result). nat (hi - lo + 1))") auto

definition Lookup :: "byte list \<Rightarrow> i32 \<Rightarrow> page_id_t outcome" where
  "Lookup d key = bind_out (lookup_loop d key 1 (node_size d - 1) 0) (\<lambda>r.
     bind_out (arr_get internal_layout d r) (\<lambda>e. Ok (ie_child e)))"

text \<open>The common end of the two \<open>InsertEntry\<close>: make room at \<open>pos\<close>, store, count.\<close>

definition insert_at :: "'e layout \<Rightarrow> int \<Rightarrow> 'e \<Rightarrow> byte list \<Rightarrow> byte list outcome" where
  "insert_at L pos e d = bind_out (arr_shift L d (node_size d) pos) (\<lambda>d1.
     bind_out (arr_set L d1 pos e) (\<lambda>d2. Ok (set_node_size (node_size d2 + 1) d2)))"

definition Internal_InsertEntry :: "i32 \<Rightarrow> page_id_t \<Rightarrow> byte list \<Rightarrow> byte list outcome" where
  "Internal_InsertEntry new_key new_right d =
     bind_out (arr_find internal_layout (\<lambda>e. ie_key e > new_key) d 1 (node_size d)) (\<lambda>r.
       let pos = (case r of None \<Rightarrow> node_size d | Some i \<Rightarrow> i)
       in insert_at internal_layout pos \<lparr>ie_key = new_key, ie_child = new_right\<rparr> d)"

definition Leaf_InsertEntry :: "i32 \<Rightarrow> RID \<Rightarrow> byte list \<Rightarrow> byte list outcome" where
  "Leaf_InsertEntry key rid d =
     bind_out (arr_find leaf_layout (\<lambda>e. le_key e > key) d 0 (node_size d)) (\<lambda>r.
       let pos = (case r of None \<Rightarrow> node_size d | Some i \<Rightarrow> i)
       in insert_at leaf_layout pos \<lparr>le_key = key, le_rid = rid\<rparr> d)"

subsection \<open>The tree\<close>

record BPlusTree =
  name :: string
  root_page_id :: page_id_t
  leaf_max_size :: int
  internal_max_size :: int

definition mk_BPlusTree :: "string \<Rightarrow> int \<Rightarrow> int \<Rightarrow> BPlusTree outcome" where
  "mk_BPlusTree nm leaf_max internal_max =
     (let t = \<lparr>name = nm, root_page_id = INVALID_PAGE_ID,
               leaf_max_size = (if leaf_max > 0 then leaf_max else int LEAF_CAPACITY),
               internal_max_size = (if internal_max > 0 then internal_max else int INTERNAL_CAPACITY)\<rparr>
      in if leaf_max_size t \<ge> 2 \<and> internal_max_size t \<ge> 3 then Ok t else Fault)"

text \<open>Run a computation on bytes; a fault in it leaves the state at that point.\<close>

definition run_out :: "'a outcome \<Rightarrow> 's \<Rightarrow> ('a \<Rightarrow> 's \<Rightarrow> ('b, 's) res) \<Rightarrow> ('b, 's) res" where
  "run_out r s f = bind_res (r, s) f"

type_synonym SplitResult = "i32 \<times> page_id_t"

text \<open>A page that \<open>FetchPage\<close> did not deliver is a null pointer, which the code follows here.\<close>

definition must_fetch :: "page_id_t \<Rightarrow> BufferPoolManager \<Rightarrow> (frame_id_t, BufferPoolManager) res" where
  "must_fetch pid b = bind_res (FetchPage pid b) (\<lambda>fo b1.
     case fo of None \<Rightarrow> (Fault, b1) | Some f \<Rightarrow> (Ok f, b1))"

definition pool_full_msg :: "string \<Rightarrow> string \<Rightarrow> exn" where
  "pool_full_msg before after = Runtime_Error (before @ '' '' @ em_dash @ '' '' @ after)"

definition split_leaf :: "page_id_t \<Rightarrow> frame_id_t \<Rightarrow> BufferPoolManager \<Rightarrow>
    (SplitResult option, BufferPoolManager) res" where
  "split_leaf pid f b = bind_res (NewPage b) (\<lambda>r b1. case r of
      None \<Rightarrow> (Throw (pool_full_msg ''BPlusTree'' ''buffer pool full during leaf split''), b1)
    | Some (new_pid, g) \<Rightarrow>
        (let leaf = GetData f b1; new_leaf = Leaf_Init (GetData g b1);
             mid = node_size leaf div 2;
             new_leaf1 = set_node_size (node_size leaf - mid) new_leaf
         in run_out (arr_copy leaf_layout leaf mid new_leaf1 0 (nat (node_size leaf - mid))) b1 (\<lambda>new_leaf2 b2.
           let new_leaf3 = set_next_page_id (next_page_id leaf) new_leaf2;
               leaf1 = set_node_size mid (set_next_page_id new_pid leaf);
               b3 = SetData f leaf1 (SetData g new_leaf3 b2)
           in run_out (arr_get leaf_layout new_leaf3 0) b3 (\<lambda>e b4.
             bind_res (UnpinPage new_pid True b4) (\<lambda>_ b5.
             bind_res (UnpinPage pid True b5) (\<lambda>_ b6. (Ok (Some (le_key e, new_pid)), b6)))))))"

definition InsertInLeaf :: "BPlusTree \<Rightarrow> page_id_t \<Rightarrow> i32 \<Rightarrow> RID \<Rightarrow> BufferPoolManager \<Rightarrow>
    (SplitResult option, BufferPoolManager) res" where
  "InsertInLeaf t pid key rid b = bind_res (must_fetch pid b) (\<lambda>f b1.
     let leaf = GetData f b1
     in run_out (arr_find leaf_layout (\<lambda>e. le_key e = key) leaf 0 (node_size leaf)) b1 (\<lambda>r b2. case r of
          Some i \<Rightarrow>
            run_out (arr_set leaf_layout leaf i \<lparr>le_key = key, le_rid = rid\<rparr>) b2 (\<lambda>leaf1 b3.
              bind_res (UnpinPage pid True (SetData f leaf1 b3)) (\<lambda>_ b4. (Ok None, b4)))
        | None \<Rightarrow>
            run_out (Leaf_InsertEntry key rid leaf) b2 (\<lambda>leaf1 b3.
              let b4 = SetData f leaf1 b3
              in if node_size leaf1 < leaf_max_size t
                 then bind_res (UnpinPage pid True b4) (\<lambda>_ b5. (Ok None, b5))
                 else split_leaf pid f b4)))"

definition split_internal :: "page_id_t \<Rightarrow> frame_id_t \<Rightarrow> BufferPoolManager \<Rightarrow>
    (SplitResult option, BufferPoolManager) res" where
  "split_internal pid f b = bind_res (NewPage b) (\<lambda>r b1. case r of
      None \<Rightarrow> (Throw (pool_full_msg ''BPlusTree'' ''buffer pool full during internal split''), b1)
    | Some (new_pid, g) \<Rightarrow>
        (let node = GetData f b1; mid = node_size node div 2
         in run_out (bind_out (Internal_Init (GetData g b1)) (\<lambda>new_node.
              bind_out (arr_get internal_layout node mid) (\<lambda>m.
              bind_out (arr_get internal_layout new_node 0) (\<lambda>e0.
              bind_out (arr_set internal_layout new_node 0 (e0\<lparr>ie_child := ie_child m\<rparr>)) (\<lambda>new_node1.
              bind_out (arr_copy internal_layout node (mid + 1) new_node1 1 (nat (node_size node - (mid + 1)))) (\<lambda>new_node2.
              Ok (ie_key m, set_node_size (node_size node - mid) new_node2))))))) b1 (\<lambda>(push_up_key, new_node) b2.
           let b3 = SetData f (set_node_size mid node) (SetData g new_node b2)
           in bind_res (UnpinPage new_pid True b3) (\<lambda>_ b4.
              bind_res (UnpinPage pid True b4) (\<lambda>_ b5. (Ok (Some (push_up_key, new_pid)), b5))))))"

text \<open>\<open>InsertInInternal\<close> after the child was split.\<close>

definition add_separator :: "BPlusTree \<Rightarrow> page_id_t \<Rightarrow> SplitResult \<Rightarrow> BufferPoolManager \<Rightarrow>
    (SplitResult option, BufferPoolManager) res" where
  "add_separator t pid sr b = bind_res (must_fetch pid b) (\<lambda>f b1.
     run_out (Internal_InsertEntry (fst sr) (snd sr) (GetData f b1)) b1 (\<lambda>node b2.
       let b3 = SetData f node b2
       in if node_size node \<le> internal_max_size t
          then bind_res (UnpinPage pid True b3) (\<lambda>_ b4. (Ok None, b4))
          else split_internal pid f b3))"

definition after_child :: "BPlusTree \<Rightarrow> page_id_t \<Rightarrow> (SplitResult option, BufferPoolManager) res \<Rightarrow>
    (SplitResult option, BufferPoolManager) res" where
  "after_child t pid r = bind_res r (\<lambda>sr b. case sr of None \<Rightarrow> (Ok None, b) | Some x \<Rightarrow> add_separator t pid x b)"

text \<open>
  \<open>InsertInPage\<close> and \<open>InsertInInternal\<close> call each other down the tree; here they are one function.
  Pages that form a cycle would make the descent endless, which is \<open>None\<close>.
\<close>

partial_function (option) InsertInPage :: "BPlusTree \<Rightarrow> page_id_t \<Rightarrow> i32 \<Rightarrow> RID \<Rightarrow> BufferPoolManager \<Rightarrow>
    (SplitResult option, BufferPoolManager) res option" where
  "InsertInPage t pid key rid b = (case FetchPage pid b of
      (Ok None, b1) \<Rightarrow> Some (Throw (pool_full_msg ''BPlusTree'' ''failed to fetch page''), b1)
    | (Ok (Some f), b1) \<Rightarrow>
        (let ty = PageType (GetData f b1); b2 = snd (UnpinPage pid False b1)
         in if ty = NODE_LEAF then Some (InsertInLeaf t pid key rid b2)
            else (case must_fetch pid b2 of
                (Ok g, b3) \<Rightarrow>
                  (case Lookup (GetData g b3) key of
                     Ok child_pid \<Rightarrow>
                       Option.bind (InsertInPage t child_pid key rid (snd (UnpinPage pid False b3)))
                         (\<lambda>r. Some (after_child t pid r))
                   | Throw e \<Rightarrow> Some (Throw e, b3)
                   | Fault \<Rightarrow> Some (Fault, b3))
              | (Throw e, b3) \<Rightarrow> Some (Throw e, b3)
              | (Fault, b3) \<Rightarrow> Some (Fault, b3)))
    | (Throw e, b1) \<Rightarrow> Some (Throw e, b1)
    | (Fault, b1) \<Rightarrow> Some (Fault, b1))"

text \<open>The first key makes a leaf the root.\<close>

definition plant_root :: "i32 \<Rightarrow> RID \<Rightarrow> BPlusTree \<Rightarrow> BufferPoolManager \<Rightarrow> (unit, BPlusTree \<times> BufferPoolManager) res" where
  "plant_root key rid t b = (case NewPage b of
      (Ok (Some (pid, f)), b1) \<Rightarrow>
        (case Leaf_InsertEntry key rid (Leaf_Init (GetData f b1)) of
           Ok leaf \<Rightarrow> (Ok (), (t\<lparr>root_page_id := pid\<rparr>, snd (UnpinPage pid True (SetData f leaf b1))))
         | _ \<Rightarrow> (Fault, (t, b1)))
    | (Ok None, b1) \<Rightarrow> (Throw (pool_full_msg ''BPlusTree::Insert'' ''buffer pool full''), (t, b1))
    | (Throw e, b1) \<Rightarrow> (Throw e, (t, b1))
    | (Fault, b1) \<Rightarrow> (Fault, (t, b1)))"

text \<open>A root that was split gets a new root above it.\<close>

definition grow_root :: "SplitResult \<Rightarrow> BPlusTree \<Rightarrow> BufferPoolManager \<Rightarrow> (unit, BPlusTree \<times> BufferPoolManager) res" where
  "grow_root sr t b = (case NewPage b of
      (Ok (Some (pid, f)), b1) \<Rightarrow>
        (case bind_out (Internal_Init (GetData f b1)) (\<lambda>d.
                bind_out (arr_get internal_layout d 0) (\<lambda>e0.
                bind_out (arr_set internal_layout d 0 (e0\<lparr>ie_child := root_page_id t\<rparr>)) (\<lambda>d1.
                Internal_InsertEntry (fst sr) (snd sr) d1))) of
           Ok node \<Rightarrow> (Ok (), (t\<lparr>root_page_id := pid\<rparr>, snd (UnpinPage pid True (SetData f node b1))))
         | _ \<Rightarrow> (Fault, (t, b1)))
    | (Ok None, b1) \<Rightarrow> (Throw (pool_full_msg ''BPlusTree::Insert'' ''buffer pool full on root split''), (t, b1))
    | (Throw e, b1) \<Rightarrow> (Throw e, (t, b1))
    | (Fault, b1) \<Rightarrow> (Fault, (t, b1)))"

definition Insert :: "i32 \<Rightarrow> RID \<Rightarrow> BPlusTree \<times> BufferPoolManager \<Rightarrow>
    (unit, BPlusTree \<times> BufferPoolManager) res option" where
  "Insert key rid s = (let (t, b) = s in
     if root_page_id t = INVALID_PAGE_ID then Some (plant_root key rid t b)
     else map_option (\<lambda>r. case r of
         (Ok None, b1) \<Rightarrow> (Ok (), (t, b1))
       | (Ok (Some sr), b1) \<Rightarrow> grow_root sr t b1
       | (Throw e, b1) \<Rightarrow> (Throw e, (t, b1))
       | (Fault, b1) \<Rightarrow> (Fault, (t, b1))) (InsertInPage t (root_page_id t) key rid b))"

function leaf_search :: "byte list \<Rightarrow> i32 \<Rightarrow> int \<Rightarrow> int \<Rightarrow> RID option outcome" where
  "leaf_search d key lo hi =
     (if lo \<le> hi
      then (let mid = (lo + hi) div 2
            in bind_out (arr_get leaf_layout d mid) (\<lambda>e.
              if le_key e = key then Ok (Some (le_rid e))
              else if le_key e < key then leaf_search d key (mid + 1) hi
              else leaf_search d key lo (mid - 1)))
      else Ok None)"
  by auto
termination
  by (relation "measure (\<lambda>(d, key, lo, hi). nat (hi - lo + 1))") auto

partial_function (option) search_from :: "i32 \<Rightarrow> page_id_t \<Rightarrow> BufferPoolManager \<Rightarrow>
    (RID option, BufferPoolManager) res option" where
  "search_from key pid b = (case FetchPage pid b of
      (Ok None, b1) \<Rightarrow> Some (Ok None, b1)
    | (Ok (Some f), b1) \<Rightarrow>
        (let d = GetData f b1; b2 = snd (UnpinPage pid False b1)
         in if PageType d = NODE_LEAF
            then (case leaf_search d key 0 (node_size d - 1) of
                    Ok r \<Rightarrow> Some (Ok r, b2) | _ \<Rightarrow> Some (Fault, b1))
            else (case Lookup d key of
                    Ok next \<Rightarrow> search_from key next b2 | _ \<Rightarrow> Some (Fault, b1)))
    | (Throw e, b1) \<Rightarrow> Some (Throw e, b1)
    | (Fault, b1) \<Rightarrow> Some (Fault, b1))"

definition Search :: "BPlusTree \<Rightarrow> i32 \<Rightarrow> BufferPoolManager \<Rightarrow> (RID option, BufferPoolManager) res option" where
  "Search t key b = (if root_page_id t = INVALID_PAGE_ID then Some (Ok None, b) else search_from key (root_page_id t) b)"

text \<open>The two loops of \<open>RangeScan\<close>: down to a leaf, then along the chain of leaves.\<close>

partial_function (option) find_leaf :: "i32 \<Rightarrow> page_id_t \<Rightarrow> BufferPoolManager \<Rightarrow>
    (page_id_t, BufferPoolManager) res option" where
  "find_leaf low pid b = (case must_fetch pid b of
      (Ok f, b1) \<Rightarrow>
        (let d = GetData f b1; b2 = snd (UnpinPage pid False b1)
         in if PageType d = NODE_LEAF then Some (Ok pid, b2)
            else (case Lookup d low of Ok next \<Rightarrow> find_leaf low next b2 | _ \<Rightarrow> Some (Fault, b1)))
    | (Throw e, b1) \<Rightarrow> Some (Throw e, b1)
    | (Fault, b1) \<Rightarrow> Some (Fault, b1))"

function range_loop :: "byte list \<Rightarrow> i32 \<Rightarrow> i32 \<Rightarrow> int \<Rightarrow> int \<Rightarrow> RID list \<Rightarrow> (bool \<times> RID list) outcome" where
  "range_loop d low high i n results =
     (if i < n
      then bind_out (arr_get leaf_layout d i) (\<lambda>e.
        if le_key e > high then Ok (True, results)
        else range_loop d low high (i + 1) n (if le_key e \<ge> low then results @ [le_rid e] else results))
      else Ok (False, results))"
  by auto
termination
  by (relation "measure (\<lambda>(d, low, high, i, n, results). nat (n - i))") auto

partial_function (option) range_leaves :: "i32 \<Rightarrow> i32 \<Rightarrow> page_id_t \<Rightarrow> RID list \<Rightarrow> BufferPoolManager \<Rightarrow>
    (RID list, BufferPoolManager) res option" where
  "range_leaves low high pid results b =
     (if pid = INVALID_PAGE_ID then Some (Ok results, b)
      else (case must_fetch pid b of
          (Ok f, b1) \<Rightarrow>
            (let d = GetData f b1; b2 = snd (UnpinPage pid False b1)
             in (case range_loop d low high 0 (node_size d) results of
                   Ok r \<Rightarrow> if fst r then Some (Ok (snd r), b2)
                           else range_leaves low high (next_page_id d) (snd r) b2
                 | _ \<Rightarrow> Some (Fault, b1)))
        | (Throw e, b1) \<Rightarrow> Some (Throw e, b1)
        | (Fault, b1) \<Rightarrow> Some (Fault, b1)))"

definition RangeScan :: "BPlusTree \<Rightarrow> i32 \<Rightarrow> i32 \<Rightarrow> RID list \<Rightarrow> BufferPoolManager \<Rightarrow>
    (RID list, BufferPoolManager) res option" where
  "RangeScan t low high results b =
     (if root_page_id t = INVALID_PAGE_ID then Some (Ok results, b)
      else Option.bind (find_leaf low (root_page_id t) b) (\<lambda>r. case r of
          (Ok pid, b1) \<Rightarrow> range_leaves low high pid results b1
        | (Throw e, b1) \<Rightarrow> Some (Throw e, b1)
        | (Fault, b1) \<Rightarrow> Some (Fault, b1)))"

declare lookup_loop.simps [simp del] leaf_search.simps [simp del] range_loop.simps [simp del]

section \<open>Nodes as lists of entries\<close>

lemma get32_le32: "get32 0 (le32 w @ bs) = w" "4 \<le> off \<Longrightarrow> get32 off (le32 w @ bs) = get32 (off - 4) bs"
  by (simp_all add: get32_def peek_def)

lemma get32_le32_0: "get32 0 (le32 w) = w"
  by (simp add: get32_def peek_def)

lemma ival_mk32_nat: "n \<le> 1000 \<Longrightarrow> ival (mk32 (int n)) = int n"
  by (intro ival_mk32) (auto simp: INT32_MIN_def INT32_MAX_def)

lemma node_size_set [simp]:
  "length d = PAGE_SIZE \<Longrightarrow> n \<le> 1000 \<Longrightarrow> node_size (set_node_size (int n) d) = int n"
  using ival_mk32_nat [of n] by (simp add: node_size_def set_node_size_def PAGE_SIZE_def)

text \<open>Two pages that agree on the header apart from \<open>size\<close>.\<close>

definition same_fields :: "'e layout \<Rightarrow> byte list \<Rightarrow> byte list \<Rightarrow> bool" where
  "same_fields L d d' \<longleftrightarrow> (\<forall>off. off + 4 \<le> arr_base L \<and> (off = 0 \<or> 8 \<le> off) \<longrightarrow> get32 off d' = get32 off d)"

lemma same_fieldsD: "same_fields L d d' \<Longrightarrow> off + 4 \<le> arr_base L \<Longrightarrow> off = 0 \<or> 8 \<le> off \<Longrightarrow> get32 off d' = get32 off d"
  by (simp add: same_fields_def)

text \<open>Both structs have \<open>page_type\<close> and \<open>size\<close> in front, and fewer than a thousand entries.\<close>

locale node_array = entry_array L for L :: "'e layout" +
  assumes header: "12 \<le> arr_base L"
    and small: "arr_cap L < 1000"
begin

lemma insert_at_node:
  assumes "length d = PAGE_SIZE" and "node_size d = int n" and "n < arr_cap L" and "pos \<le> n"
  shows "\<exists>d'. insert_at L (int pos) e d = Ok d' \<and> length d' = PAGE_SIZE \<and> node_size d' = int (Suc n) \<and>
    same_fields L d d' \<and> arr_list L (Suc n) d' = take pos (arr_list L n d) @ e # drop pos (arr_list L n d)"
proof -
  obtain d1 d2 where d2: "arr_shift L d (int n) (int pos) = Ok d1" "arr_set L d1 (int pos) e = Ok d2"
      "length d2 = PAGE_SIZE" "same_header L d d2"
      "arr_list L (Suc n) d2 = take pos (arr_list L n d) @ e # drop pos (arr_list L n d)"
    using insert_at_ok [OF assms(1,4,3)] by blast
  have "node_size d2 = int n"
    using same_headerD [OF d2(4), of 4] header assms(2) by (simp add: node_size_def)
  then have "insert_at L (int pos) e d = Ok (set_node_size (int (Suc n)) d2)"
    using assms(2) d2(1,2) by (simp add: insert_at_def add.commute)
  moreover have "arr_list L (Suc n) (set_node_size (int (Suc n)) d2) = arr_list L (Suc n) d2"
    unfolding set_node_size_def using d2(3) header assms(3) by (intro put_header) auto
  moreover have "get32 off (set_node_size x d2) = get32 off d"
    if "off + 4 \<le> arr_base L" "off = 0 \<or> 8 \<le> off" for off x
  proof -
    have "off + 4 \<le> PAGE_SIZE" using that(1) in_page by linarith
    moreover have "8 \<le> PAGE_SIZE" by (simp add: PAGE_SIZE_def)
    ultimately have "get32 off (set_node_size x d2) = get32 off d2"
      using that(2) d2(3) unfolding set_node_size_def by (intro get32_put32_other) auto
    then show ?thesis using same_headerD [OF d2(4) that(1)] by simp
  qed
  moreover have "length (set_node_size (int (Suc n)) d2) = PAGE_SIZE"
    using d2(3) by (simp add: set_node_size_def PAGE_SIZE_def)
  ultimately show ?thesis
    using d2(3,5) small assms(3) by (auto simp: same_fields_def simp del: of_nat_Suc)
qed

text \<open>The position a search loop stops at.\<close>

lemma find_pos:
  assumes "i \<le> n" and "n \<le> arr_cap L"
  shows "\<exists>r pos. arr_find L P d (int i) (int n) = Ok r \<and> (case r of None \<Rightarrow> int n | Some j \<Rightarrow> j) = int pos \<and>
    i \<le> pos \<and> pos \<le> n \<and> (\<forall>j. i \<le> j \<and> j < pos \<longrightarrow> \<not> P (arr_list L n d ! j)) \<and>
    (pos < n \<longrightarrow> P (arr_list L n d ! pos)) \<and> (r = None \<longleftrightarrow> pos = n)"
  using find_ok [OF assms, of P d]
proof (elim disjE exE conjE)
  fix j assume "i \<le> j" "j < n" "P (arr_list L n d ! j)" "\<forall>k. i \<le> k \<and> k < j \<longrightarrow> \<not> P (arr_list L n d ! k)"
    "arr_find L P d (int i) (int n) = Ok (Some (int j))"
  then show ?thesis by (intro exI [of _ "Some (int j)"] exI [of _ j]) simp
next
  assume "\<forall>k. i \<le> k \<and> k < n \<longrightarrow> \<not> P (arr_list L n d ! k)" "arr_find L P d (int i) (int n) = Ok None"
  then show ?thesis using assms by (intro exI [of _ None] exI [of _ n]) simp
qed

end

interpretation inode: node_array internal_layout
  by unfold_locales (simp_all add: internal_layout_def get32_le32 get32_le32_0 PAGE_SIZE_def)

interpretation leaf: node_array leaf_layout
  by unfold_locales (simp_all add: leaf_layout_def get32_le32 get32_le32_0 PAGE_SIZE_def)

lemma capacities: "INTERNAL_CAPACITY = 510" "LEAF_CAPACITY = 340"
  "arr_base internal_layout = 12" "arr_base leaf_layout = 16"
  by (simp_all add: internal_layout_def leaf_layout_def PAGE_SIZE_def)

text \<open>\<open>leaf_page d es e\<close>: the bytes are a leaf with these entries and this next leaf;
  \<open>inode_page d cs\<close>: they are an internal node with these entries.\<close>

definition leaf_page :: "byte list \<Rightarrow> (i32 \<times> RID) list \<Rightarrow> page_id_t \<Rightarrow> bool" where
  "leaf_page d es e \<longleftrightarrow> length d = PAGE_SIZE \<and> PageType d = NODE_LEAF \<and> node_size d = int (length es) \<and>
     length es \<le> LEAF_CAPACITY \<and> next_page_id d = e \<and>
     arr_list leaf_layout (length es) d = map (\<lambda>(k, r). \<lparr>le_key = k, le_rid = r\<rparr>) es"

definition inode_page :: "byte list \<Rightarrow> (i32 \<times> page_id_t) list \<Rightarrow> bool" where
  "inode_page d cs \<longleftrightarrow> length d = PAGE_SIZE \<and> PageType d = NODE_INTERNAL \<and> node_size d = int (length cs) \<and>
     0 < length cs \<and> length cs \<le> INTERNAL_CAPACITY \<and>
     arr_list internal_layout (length cs) d = map (\<lambda>(k, c). \<lparr>ie_key = k, ie_child = c\<rparr>) cs"

lemma leaf_page_get:
  "leaf_page d es e \<Longrightarrow> i < length es \<Longrightarrow>
   arr_get leaf_layout d (int i) = Ok \<lparr>le_key = fst (es ! i), le_rid = snd (es ! i)\<rparr>"
  using leaf.get_ok [of i "length es" d] by (auto simp: leaf_page_def split: prod.split)

lemma inode_page_get:
  "inode_page d cs \<Longrightarrow> i < length cs \<Longrightarrow>
   arr_get internal_layout d (int i) = Ok \<lparr>ie_key = fst (cs ! i), ie_child = snd (cs ! i)\<rparr>"
  using inode.get_ok [of i "length cs" d] by (auto simp: inode_page_def split: prod.split)

text \<open>Insertion before the first entry with a greater key.\<close>

definition put_sorted :: "i32 \<Rightarrow> 'v \<Rightarrow> (i32 \<times> 'v) list \<Rightarrow> (i32 \<times> 'v) list" where
  "put_sorted k v xs = takeWhile (\<lambda>x. fst x \<le> k) xs @ (k, v) # dropWhile (\<lambda>x. fst x \<le> k) xs"

lemma split_at_first:
  assumes "j \<le> length xs" and "\<And>i. i < j \<Longrightarrow> P (xs ! i)" and "j < length xs \<Longrightarrow> \<not> P (xs ! j)"
  shows "take j xs = takeWhile P xs" "drop j xs = dropWhile P xs"
proof -
  show "take j xs = takeWhile P xs"
    using assms by (intro takeWhile_eq_take_P_nth [symmetric]) auto
  then show "drop j xs = dropWhile P xs"
    using assms(1) by (simp add: dropWhile_eq_drop) (metis length_take min_absorb2)
qed

lemma put_sorted_at:
  assumes "pos \<le> length xs" and "\<And>i. i < pos \<Longrightarrow> fst (xs ! i) \<le> k" and "pos < length xs \<Longrightarrow> k < fst (xs ! pos)"
  shows "put_sorted k v xs = take pos xs @ (k, v) # drop pos xs"
  using split_at_first [of pos xs "\<lambda>x. fst x \<le> k"] assms by (simp add: put_sorted_def not_le)

lemma Leaf_InsertEntry_ok:
  assumes "leaf_page d es e" and "length es < LEAF_CAPACITY"
  shows "\<exists>d'. Leaf_InsertEntry k r d = Ok d' \<and> leaf_page d' (put_sorted k r es) e"
proof -
  let ?P = "\<lambda>x. le_key x > k" and ?n = "length es" and ?e = "\<lparr>le_key = k, le_rid = r\<rparr>"
  note pg = assms(1) [unfolded leaf_page_def]
  have nth: "le_key (arr_list leaf_layout ?n d ! i) = fst (es ! i)" if "i < ?n" for i
    using pg that by (simp split: prod.split)
  have "?n \<le> LEAF_CAPACITY" using assms(2) by simp
  from leaf.find_pos [OF _ this, of 0 ?P d] obtain x pos where pos: "arr_find leaf_layout ?P d 0 (int ?n) = Ok x"
      "(case x of None \<Rightarrow> int ?n | Some j \<Rightarrow> j) = int pos" "pos \<le> ?n"
      "\<And>j. j < pos \<Longrightarrow> \<not> ?P (arr_list leaf_layout ?n d ! j)" "pos < ?n \<Longrightarrow> ?P (arr_list leaf_layout ?n d ! pos)"
    by auto
  then have ins: "Leaf_InsertEntry k r d = insert_at leaf_layout (int pos) ?e d"
    using pg by (auto simp: Leaf_InsertEntry_def split: option.splits)
  obtain d' where d': "insert_at leaf_layout (int pos) ?e d = Ok d'" "length d' = PAGE_SIZE"
      "node_size d' = int (Suc ?n)" "same_fields leaf_layout d d'"
      "arr_list leaf_layout (Suc ?n) d' = take pos (arr_list leaf_layout ?n d) @ ?e # drop pos (arr_list leaf_layout ?n d)"
    using leaf.insert_at_node [of d ?n pos ?e] pg assms(2) pos(3) by blast
  have "put_sorted k r es = take pos es @ (k, r) # drop pos es"
    using pos(3-5) nth by (intro put_sorted_at) (auto simp: not_less)
  moreover have "get32 0 d' = get32 0 d" "get32 12 d' = get32 12 d"
    using same_fieldsD [OF d'(4)] by (simp_all add: capacities)
  ultimately have "leaf_page d' (put_sorted k r es) e"
    using d' pg pos(3) assms(2)
    by (simp add: leaf_page_def PageType_def next_page_id_def take_map drop_map)
  with d'(1) ins show ?thesis by simp
qed

lemma Internal_InsertEntry_ok:
  assumes "inode_page d (c # cs)" and "Suc (length cs) < INTERNAL_CAPACITY"
  shows "\<exists>d'. Internal_InsertEntry k p d = Ok d' \<and> inode_page d' (c # put_sorted k p cs)"
proof -
  let ?P = "\<lambda>x. ie_key x > k" and ?n = "Suc (length cs)" and ?e = "\<lparr>ie_key = k, ie_child = p\<rparr>"
  note pg = assms(1) [unfolded inode_page_def, simplified]
  have nth: "ie_key (arr_list internal_layout ?n d ! Suc i) = fst (cs ! i)" if "i < length cs" for i
    using pg that by (simp split: prod.split)
  have "1 \<le> ?n" "?n \<le> INTERNAL_CAPACITY" using assms(2) by simp_all
  from inode.find_pos [OF this, of ?P d] obtain x pos' where f: "arr_find internal_layout ?P d 1 (int ?n) = Ok x"
      "(case x of None \<Rightarrow> int ?n | Some j \<Rightarrow> j) = int pos'" "1 \<le> pos'" "pos' \<le> ?n"
      "\<And>j. 1 \<le> j \<Longrightarrow> j < pos' \<Longrightarrow> \<not> ?P (arr_list internal_layout ?n d ! j)"
      "pos' < ?n \<Longrightarrow> ?P (arr_list internal_layout ?n d ! pos')"
    by auto
  then obtain pos where pos: "pos' = Suc pos" "pos \<le> length cs" by (cases pos') auto
  have ins: "Internal_InsertEntry k p d = insert_at internal_layout (int pos') ?e d"
    using pg f(1,2) by (auto simp: Internal_InsertEntry_def split: option.splits)
  obtain d' where d': "insert_at internal_layout (int pos') ?e d = Ok d'" "length d' = PAGE_SIZE"
      "node_size d' = int (Suc ?n)" "same_fields internal_layout d d'"
      "arr_list internal_layout (Suc ?n) d' =
        take pos' (arr_list internal_layout ?n d) @ ?e # drop pos' (arr_list internal_layout ?n d)"
    using inode.insert_at_node [of d ?n pos' ?e] pg assms(2) f(4) by auto
  have "put_sorted k p cs = take pos cs @ (k, p) # drop pos cs"
    using pos f(5) [of "Suc _"] f(6) nth by (intro put_sorted_at) (auto simp: not_less)
  moreover have "get32 0 d' = get32 0 d"
    using same_fieldsD [OF d'(4)] by (simp add: capacities)
  ultimately have "inode_page d' (c # put_sorted k p cs)"
    using d' pg pos assms(2) by (simp add: inode_page_def PageType_def take_map drop_map)
  with d'(1) ins show ?thesis by simp
qed

subsection \<open>The search loops\<close>

lemma sorted_keys_mono:
  "sorted (map fst (tl cs)) \<Longrightarrow> 1 \<le> i \<Longrightarrow> i \<le> j \<Longrightarrow> j < length cs \<Longrightarrow> fst (cs ! i) \<le> (fst (cs ! j) :: i32)"
proof -
  assume a: "sorted (map fst (tl cs))" "1 \<le> i" "i \<le> j" "j < length cs"
  then have "map fst (tl cs) ! (i - 1) \<le> map fst (tl cs) ! (j - 1)" by (intro sorted_nth_mono) auto
  then show ?thesis using a by (simp add: nth_tl)
qed

lemma lookup_loop_ok:
  assumes "inode_page d cs" and "sorted (map fst (tl cs))"
    and "1 \<le> lo" and "lo \<le> hi + 1" and "hi < int (length cs)" and "result = lo - 1"
    and "\<And>i. 1 \<le> i \<Longrightarrow> int i < lo \<Longrightarrow> fst (cs ! i) \<le> key"
    and "\<And>i. hi < int i \<Longrightarrow> i < length cs \<Longrightarrow> key < fst (cs ! i)"
  shows "\<exists>j. lookup_loop d key lo hi result = Ok (int j) \<and> j < length cs \<and> (1 \<le> j \<longrightarrow> fst (cs ! j) \<le> key) \<and>
    (\<forall>i. j < i \<and> i < length cs \<longrightarrow> key < fst (cs ! i))"
  using assms(3-8)
proof (induction "nat (hi - lo + 1)" arbitrary: lo hi result rule: less_induct)
  case less
  note mono = sorted_keys_mono [OF assms(2)]
  show ?case
  proof (cases "lo \<le> hi")
    case True
    define m where "m = nat ((lo + hi) div 2)"
    have m: "(lo + hi) div 2 = int m" "lo \<le> int m" "int m \<le> hi" "1 \<le> m" "m < length cs"
      using True less.prems(1,3) by (auto simp: m_def)
    have get: "arr_get internal_layout d (int m) = Ok \<lparr>ie_key = fst (cs ! m), ie_child = snd (cs ! m)\<rparr>"
      using assms(1) m(5) by (rule inode_page_get)
    show ?thesis
    proof (cases "fst (cs ! m) \<le> key")
      case le: True
      have "lookup_loop d key lo hi result = lookup_loop d key (int m + 1) hi (int m)"
        using True m(1) get le by (simp add: lookup_loop.simps [of d key lo] Let_def)
      moreover have "fst (cs ! i) \<le> key" if "1 \<le> i" "int i < int m + 1" for i
        using mono [of i m] that m(5) le by simp
      ultimately show ?thesis using less.hyps [of hi "int m + 1" "int m"] less.prems m by simp
    next
      case gt: False
      have "lookup_loop d key lo hi result = lookup_loop d key lo (int m - 1) result"
        using True m(1) get gt by (simp add: lookup_loop.simps [of d key lo] Let_def)
      moreover have "key < fst (cs ! i)" if "int m - 1 < int i" "i < length cs" for i
        using mono [of m i] that m(4) gt by simp
      ultimately show ?thesis using less.hyps [of "int m - 1" lo result] less.prems m by simp
    qed
  next
    case False
    then have hi: "hi = lo - 1" using less.prems(2) by simp
    then obtain j where j: "hi = int j" using less.prems(1) nonneg_int_cases [of hi] by auto
    show ?thesis
      using less.prems hi j False by (intro exI [of _ j]) (auto simp: lookup_loop.simps [of d key lo])
  qed
qed

lemma Lookup_ok:
  assumes "inode_page d cs" and "sorted (map fst (tl cs))"
  shows "\<exists>j. Lookup d key = Ok (snd (cs ! j)) \<and> j < length cs \<and> (1 \<le> j \<longrightarrow> fst (cs ! j) \<le> key) \<and>
    (\<forall>i. j < i \<and> i < length cs \<longrightarrow> key < fst (cs ! i))"
proof -
  note pg = assms(1) [unfolded inode_page_def]
  obtain j where j: "lookup_loop d key 1 (int (length cs) - 1) 0 = Ok (int j)" "j < length cs"
      "1 \<le> j \<longrightarrow> fst (cs ! j) \<le> key" "\<forall>i. j < i \<and> i < length cs \<longrightarrow> key < fst (cs ! i)"
    using lookup_loop_ok [OF assms, of 1 "int (length cs) - 1" 0 key] pg by auto
  then show ?thesis
    using pg inode_page_get [OF assms(1) j(2)] by (intro exI [of _ j]) (simp add: Lookup_def)
qed

lemma leaf_search_ok:
  assumes "leaf_page d es e" and "sorted_wrt (<) (map fst es)"
    and "0 \<le> lo" and "lo \<le> hi + 1" and "hi < int (length es)"
    and "\<And>i. int i < lo \<Longrightarrow> fst (es ! i) < key"
    and "\<And>i. hi < int i \<Longrightarrow> i < length es \<Longrightarrow> key < fst (es ! i)"
  shows "leaf_search d key lo hi = Ok (map_of es key)"
  using assms(3-7)
proof (induction "nat (hi - lo + 1)" arbitrary: lo hi rule: less_induct)
  case less
  have mono: "fst (es ! i) < fst (es ! j)" if "i < j" "j < length es" for i j
    using sorted_wrt_nth_less [OF assms(2), of i j] that by simp
  have dist: "distinct (map fst es)" using assms(2) by (simp add: strict_sorted_iff)
  show ?case
  proof (cases "lo \<le> hi")
    case True
    define m where "m = nat ((lo + hi) div 2)"
    have m: "(lo + hi) div 2 = int m" "lo \<le> int m" "int m \<le> hi" "m < length es"
      using True less.prems(1,3) by (auto simp: m_def)
    have get: "arr_get leaf_layout d (int m) = Ok \<lparr>le_key = fst (es ! m), le_rid = snd (es ! m)\<rparr>"
      using assms(1) m(4) by (rule leaf_page_get)
    consider "fst (es ! m) = key" | "fst (es ! m) < key" | "key < fst (es ! m)" by fastforce
    then show ?thesis
    proof cases
      case 1
      then have "map_of es key = Some (snd (es ! m))"
        using dist m(4) by (metis map_of_eq_Some_iff nth_mem prod.collapse)
      then show ?thesis using True m(1) get 1 by (auto simp: leaf_search.simps [of d key lo] Let_def)
    next
      case 2
      then have "leaf_search d key lo hi = leaf_search d key (int m + 1) hi"
        using True m(1) get by (auto simp: leaf_search.simps [of d key lo] Let_def)
      moreover have "fst (es ! i) < key" if "int i < int m + 1" for i
        using mono [of i m] that m(4) 2 by (cases "i = m") auto
      ultimately show ?thesis using less.hyps [of hi "int m + 1"] less.prems m by simp
    next
      case 3
      then have "leaf_search d key lo hi = leaf_search d key lo (int m - 1)"
        using True m(1) get by (auto simp: leaf_search.simps [of d key lo] Let_def)
      moreover have "key < fst (es ! i)" if "int m - 1 < int i" "i < length es" for i
        using mono [of m i] that 3 by (cases "i = m") auto
      ultimately show ?thesis using less.hyps [of "int m - 1" lo] less.prems m by simp
    qed
  next
    case False
    then have "hi = lo - 1" using less.prems(2) by simp
    then have "fst (es ! i) \<noteq> key" if "i < length es" for i
      using less.prems(4) [of i] less.prems(5) [of i] that by (cases "int i < lo") auto
    then have "map_of es key = None" by (auto simp: map_of_eq_None_iff in_set_conv_nth) (metis fst_conv)
    then show ?thesis using False by (auto simp: leaf_search.simps [of d key lo] Let_def)
  qed
qed

definition in_range :: "i32 \<Rightarrow> i32 \<Rightarrow> (i32 \<times> RID) list \<Rightarrow> RID list" where
  "in_range low high es = map snd (filter (\<lambda>(k, r). low \<le> k \<and> k \<le> high) es)"

lemma range_loop_ok:
  assumes "leaf_page d es e" and "sorted_wrt (<) (map fst es)" and "i \<le> length es"
  shows "range_loop d low high (int i) (int (length es)) results =
    Ok (\<exists>k \<in> set (map fst (drop i es)). high < k, results @ in_range low high (drop i es))"
  using assms(3)
proof (induction "length es - i" arbitrary: i results)
  case 0
  then show ?case by (simp add: range_loop.simps in_range_def)
next
  case (Suc n)
  then have i: "i < length es" by simp
  have get: "arr_get leaf_layout d (int i) = Ok \<lparr>le_key = fst (es ! i), le_rid = snd (es ! i)\<rparr>"
    using assms(1) i by (rule leaf_page_get)
  have drop: "drop i es = es ! i # drop (Suc i) es" using i by (simp add: Cons_nth_drop_Suc)
  show ?case
  proof (cases "high < fst (es ! i)")
    case True
    have "high < k" if "k \<in> set (map fst (drop i es))" for k
    proof -
      have "sorted_wrt (<) (map fst (drop i es))" using assms(2) by (simp add: drop_map [symmetric] sorted_wrt_drop)
      then have "fst (es ! i) \<le> k" using that drop by (auto simp: less_imp_le)
      with True show ?thesis by simp
    qed
    then have "in_range low high (drop i es) = []" by (fastforce simp: in_range_def filter_empty_conv)
    then show ?thesis using i get True drop by (auto simp: range_loop.simps [of d low high "int i"])
  next
    case False
    then show ?thesis
      using i get drop Suc.hyps(1) [of "Suc i"] Suc.hyps(2)
      by (auto simp: range_loop.simps [of d low high "int i"] in_range_def add.commute split: prod.splits)
  qed
qed

end
