(* ===== verification/BPlus_Index.thy ===== *)
theory BPlus_Index
  imports BPlus_Tree
begin

text \<open>
  Correctness of the B+ tree of \<open>BPlus_Tree\<close>: the pages reached from the root form a balanced search
  tree whose leaves are chained in key order, insertion keeps this and stores the key in the sorted
  list of entries, search and range scan read that list.
\<close>

section \<open>The tree of nodes\<close>

text \<open>
  The shape the pages form: a leaf with its entries, an inner node with its children, each child
  behind the separator key stored with it (the first separator is the unused dummy).
\<close>

datatype btree = Lf page_id_t "(i32 \<times> RID) list" | Nd page_id_t "(i32 \<times> btree) list"

fun root_of :: "btree \<Rightarrow> page_id_t" where
  "root_of (Lf p es) = p"
| "root_of (Nd p cs) = p"

fun entries :: "btree \<Rightarrow> (i32 \<times> RID) list" where
  "entries (Lf p es) = es"
| "entries (Nd p cs) = concat (map (\<lambda>c. entries (snd c)) cs)"

fun leaves :: "btree \<Rightarrow> (page_id_t \<times> (i32 \<times> RID) list) list" where
  "leaves (Lf p es) = [(p, es)]"
| "leaves (Nd p cs) = concat (map (\<lambda>c. leaves (snd c)) cs)"

fun pids :: "btree \<Rightarrow> page_id_t list" where
  "pids (Lf p es) = [p]"
| "pids (Nd p cs) = p # concat (map (\<lambda>c. pids (snd c)) cs)"

fun first_leaf :: "btree \<Rightarrow> page_id_t" where
  "first_leaf (Lf p es) = p"
| "first_leaf (Nd p []) = p"
| "first_leaf (Nd p (c # cs)) = first_leaf (snd c)"

text \<open>The first leaf of a list of subtrees, or the leaf behind them.\<close>

definition first_of :: "(i32 \<times> btree) list \<Rightarrow> page_id_t \<Rightarrow> page_id_t" where
  "first_of cs e = (case cs of [] \<Rightarrow> e | c # _ \<Rightarrow> first_leaf (snd c))"

text \<open>\<open>rep m e t\<close>: the pages \<open>m\<close> hold \<open>t\<close>, and \<open>e\<close> is the leaf after its last one.\<close>

fun rep :: "(page_id_t \<Rightarrow> byte list option) \<Rightarrow> page_id_t \<Rightarrow> btree \<Rightarrow> bool"
  and reps :: "(page_id_t \<Rightarrow> byte list option) \<Rightarrow> page_id_t \<Rightarrow> (i32 \<times> btree) list \<Rightarrow> bool" where
  "rep m e (Lf p es) = (\<exists>d. m p = Some d \<and> leaf_page d es e)"
| "rep m e (Nd p cs) =
     ((\<exists>d. m p = Some d \<and> inode_page d (map (\<lambda>c. (fst c, root_of (snd c))) cs)) \<and> reps m e cs)"
| "reps m e [] = True"
| "reps m e (c # cs) = (rep m (first_of cs e) (snd c) \<and> reps m e cs)"

text \<open>Keys between bounds; \<open>None\<close> is no bound.\<close>

definition above :: "i32 option \<Rightarrow> i32 \<Rightarrow> bool" where
  "above lo k = (case lo of None \<Rightarrow> True | Some l \<Rightarrow> l \<le> k)"

definition over :: "i32 option \<Rightarrow> i32 \<Rightarrow> bool" where
  "over lo k = (case lo of None \<Rightarrow> True | Some l \<Rightarrow> l < k)"

definition below :: "i32 \<Rightarrow> i32 option \<Rightarrow> bool" where
  "below k hi = (case hi of None \<Rightarrow> True | Some h \<Rightarrow> k < h)"

function (sequential) bnd :: "i32 option \<Rightarrow> i32 option \<Rightarrow> btree \<Rightarrow> bool"
  and bnds :: "i32 option \<Rightarrow> i32 option \<Rightarrow> btree \<Rightarrow> (i32 \<times> btree) list \<Rightarrow> bool" where
  "bnd lo hi (Lf p es) = (sorted_wrt (<) (map fst es) \<and> (\<forall>k \<in> set (map fst es). above lo k \<and> below k hi))"
| "bnd lo hi (Nd p []) = False"
| "bnd lo hi (Nd p (c # cs)) = bnds lo hi (snd c) cs"
| "bnds lo hi t [] = bnd lo hi t"
| "bnds lo hi t (c # cs) =
     (bnd lo (Some (fst c)) t \<and> over lo (fst c) \<and> below (fst c) hi \<and> bnds (Some (fst c)) hi (snd c) cs)"
  by pat_completeness auto
termination
  by (relation "measure (\<lambda>x. case x of Inl (lo, hi, t) \<Rightarrow> 2 * size t
    | Inr (lo, hi, t, cs) \<Rightarrow> 2 * size t + 2 * size_list (size_prod (\<lambda>_. 0) size) cs + 1)") auto

text \<open>All leaves are \<open>n\<close> levels down, and the nodes respect the maximal sizes of the tree.\<close>

fun shaped :: "BPlusTree \<Rightarrow> nat \<Rightarrow> btree \<Rightarrow> bool" where
  "shaped T n (Lf p es) = (n = 0 \<and> int (length es) < leaf_max_size T)"
| "shaped T n (Nd p cs) =
     (2 \<le> length cs \<and> int (length cs) \<le> internal_max_size T \<and> (\<exists>n'. n = Suc n' \<and> (\<forall>c \<in> set cs. shaped T n' (snd c))))"

text \<open>Every leaf is half full. This holds for all trees but those of a single leaf.\<close>

fun packed :: "BPlusTree \<Rightarrow> btree \<Rightarrow> bool" where
  "packed T (Lf p es) \<longleftrightarrow> leaf_max_size T div 2 \<le> int (length es)"
| "packed T (Nd p cs) \<longleftrightarrow> (\<forall>c \<in> set cs. packed T (snd c))"

lemmas bound_defs = above_def over_def below_def

lemma bound_simps [simp]:
  "above None k" "above (Some l) k \<longleftrightarrow> l \<le> k" "over None k" "over (Some l) k \<longleftrightarrow> l < k"
  "below k None" "below k (Some h) \<longleftrightarrow> k < h"
  by (simp_all add: bound_defs)

lemma bound_trans:
  "over lo k \<Longrightarrow> k < k' \<Longrightarrow> over lo k'" "over lo k \<Longrightarrow> above lo k"
  "k' < k \<Longrightarrow> below k hi \<Longrightarrow> below k' hi" "above lo k \<Longrightarrow> k < k' \<Longrightarrow> over lo k'"
  "over lo k \<Longrightarrow> k \<le> k' \<Longrightarrow> above lo k'" "k' \<le> k \<Longrightarrow> below k hi \<Longrightarrow> below k' hi"
  by (auto simp: bound_defs split: option.splits)

lemma first_of_simps [simp]:
  "first_of [] e = e" "first_of (c # cs) e = first_leaf (snd c)"
  "first_of (as @ bs) e = first_of as (first_of bs e)"
  by (simp_all add: first_of_def split: list.split)

lemma first_leaf_Nd: "cs \<noteq> [] \<Longrightarrow> first_leaf (Nd p cs) = first_of cs e"
  by (cases cs) auto

lemma root_in_pids [simp]: "root_of t \<in> set (pids t)"
  by (cases t) auto

lemma rep_cong:
  "rep m e t \<Longrightarrow> (\<And>p. p \<in> set (pids t) \<Longrightarrow> m' p = m p) \<Longrightarrow> rep m' e t"
  "reps m e cs \<Longrightarrow> (\<And>c p. c \<in> set cs \<Longrightarrow> p \<in> set (pids (snd c)) \<Longrightarrow> m' p = m p) \<Longrightarrow> reps m' e cs"
proof (induction m e t and m e cs rule: rep_reps.induct)
  case (2 m e p cs)
  moreover have "reps m' e cs" using 2 by (intro "2.IH") auto
  ultimately show ?case by auto
qed auto

lemma reps_append: "reps m e (as @ bs) \<longleftrightarrow> reps m (first_of bs e) as \<and> reps m e bs"
  by (induction as) auto

lemma rep_dom:
  "rep m e t \<Longrightarrow> p \<in> set (pids t) \<Longrightarrow> m p \<noteq> None"
  "reps m e cs \<Longrightarrow> c \<in> set cs \<Longrightarrow> p \<in> set (pids (snd c)) \<Longrightarrow> m p \<noteq> None"
  by (induction m e t and m e cs arbitrary: p and c p rule: rep_reps.induct) auto

lemma bnds_append:
  "bnds lo hi t (as @ c # bs) \<longleftrightarrow>
   bnds lo (Some (fst c)) t as \<and> over lo (fst c) \<and> below (fst c) hi \<and> bnds (Some (fst c)) hi (snd c) bs"
  by (induction as arbitrary: lo t) (auto dest: bound_trans(1) bound_trans(3))

lemma bnds_seps:
  "bnds lo hi t cs \<Longrightarrow> sorted_wrt (<) (map fst cs) \<and> (\<forall>c \<in> set cs. over lo (fst c) \<and> below (fst c) hi)"
proof (induction cs arbitrary: lo t)
  case (Cons c cs)
  then have "sorted_wrt (<) (map fst cs)" "\<forall>d \<in> set cs. fst c < fst d \<and> below (fst d) hi" "over lo (fst c)" "below (fst c) hi"
    using Cons.IH [of "Some (fst c)" "snd c"] by simp_all
  moreover then have "\<forall>d \<in> set cs. over lo (fst d)" using bound_trans(1) by blast
  ultimately show ?case by simp
qed simp

lemma bnd_entries:
  "bnd lo hi t \<Longrightarrow> sorted_wrt (<) (map fst (entries t)) \<and> (\<forall>k \<in> set (map fst (entries t)). above lo k \<and> below k hi)"
  "bnds lo hi t cs \<Longrightarrow> sorted_wrt (<) (map fst (entries t @ concat (map (\<lambda>c. entries (snd c)) cs))) \<and>
    (\<forall>k \<in> set (map fst (entries t @ concat (map (\<lambda>c. entries (snd c)) cs))). above lo k \<and> below k hi)"
proof (induction lo hi t and lo hi t cs rule: bnd_bnds.induct)
  case (5 lo hi t c cs)
  let ?rest = "map fst (entries (snd c) @ concat (map (\<lambda>c. entries (snd c)) cs))"
  have a: "sorted_wrt (<) (map fst (entries t))" "\<forall>k \<in> set (map fst (entries t)). above lo k \<and> k < fst c"
    using "5.IH"(1) "5.prems" by simp_all
  have b: "sorted_wrt (<) ?rest" "\<forall>k \<in> set ?rest. fst c \<le> k \<and> below k hi"
    using "5.IH"(2) "5.prems" by simp_all
  have "\<forall>k \<in> set (map fst (entries t)). \<forall>k' \<in> set ?rest. k < k'"
    using a(2) b(2) less_le_trans by blast
  moreover have "\<forall>k \<in> set ?rest. above lo k" using b(2) "5.prems" bound_trans(5) by simp blast
  moreover have "\<forall>k \<in> set (map fst (entries t)). below k hi" using a(2) "5.prems" bound_trans(3) by simp blast
  ultimately show ?case using a b unfolding list.map concat.simps append_assoc map_append set_append sorted_wrt_append by blast
qed auto

text \<open>Storing a key in a sorted list: between the smaller and the greater keys.\<close>

definition upd :: "i32 \<Rightarrow> 'v \<Rightarrow> (i32 \<times> 'v) list \<Rightarrow> (i32 \<times> 'v) list" where
  "upd k v xs = filter (\<lambda>x. fst x < k) xs @ (k, v) # filter (\<lambda>x. k < fst x) xs"

lemma map_of_filter_fst: "map_of (filter (\<lambda>y. P (fst y)) xs) x = (if P x then map_of xs x else None)"
  by (induction xs) auto

lemma map_of_upd: "map_of (upd k v xs) = (map_of xs)(k \<mapsto> v)"
proof
  fix x
  show "map_of (upd k v xs) x = ((map_of xs)(k \<mapsto> v)) x"
    using map_of_filter_fst [of "\<lambda>y. y < k" xs x] map_of_filter_fst [of "\<lambda>y. k < y" xs x]
    by (cases x k rule: linorder_cases) (auto simp: upd_def map_add_def split: option.split)
qed

lemma filter_split:
  "(\<And>x. x \<in> set xs \<Longrightarrow> fst x < k) \<Longrightarrow> filter (\<lambda>x. fst x < k) xs = xs \<and> filter (\<lambda>x. k < fst x) xs = []"
  "(\<And>x. x \<in> set xs \<Longrightarrow> k < fst x) \<Longrightarrow> filter (\<lambda>x. k < fst x) xs = xs \<and> filter (\<lambda>x. fst x < k) xs = []"
  for k :: i32
  by (induction xs) (auto simp: less_asym' dest: less_asym)

lemma upd_middle:
  "(\<And>x. x \<in> set xs \<Longrightarrow> fst x < k) \<Longrightarrow> (\<And>x. x \<in> set zs \<Longrightarrow> k < fst x) \<Longrightarrow>
   upd k v (xs @ ys @ zs) = xs @ upd k v ys @ zs"
  using filter_split(1) [of xs k] filter_split(2) [of zs k] by (simp add: upd_def)

lemma upd_put_sorted:
  assumes "sorted_wrt (<) (map fst xs)" and "k \<notin> set (map fst xs)"
  shows "put_sorted k v xs = upd k v xs"
  using assms
proof (induction xs)
  case (Cons x xs)
  show ?case
  proof (cases "fst x < k")
    case True
    then show ?thesis using Cons by (auto simp: put_sorted_def upd_def)
  next
    case False
    then have "\<And>y. y \<in> set (x # xs) \<Longrightarrow> k < fst y"
      using Cons.prems order.strict_trans by (fastforce simp: not_less)
    then show ?thesis
      using filter_split(2) [of "x # xs" k] Cons.prems(2) False by (auto simp: put_sorted_def upd_def)
  qed
qed (simp add: put_sorted_def upd_def)

lemma upd_overwrite:
  assumes "sorted_wrt (<) (map fst xs)" and "i < length xs" and "fst (xs ! i) = k"
  shows "xs[i := (k, v)] = upd k v xs"
proof -
  have "fst x < k" if "x \<in> set (take i xs)" for x
    using that assms sorted_wrt_nth_less [OF assms(1)] by (auto simp: in_set_conv_nth)
  moreover have "k < fst x" if "x \<in> set (drop (Suc i) xs)" for x
    using that assms sorted_wrt_nth_less [OF assms(1), of i] by (auto simp: in_set_conv_nth)
  ultimately have "upd k v (take i xs @ [xs ! i] @ drop (Suc i) xs) = take i xs @ upd k v [xs ! i] @ drop (Suc i) xs"
    by (intro upd_middle)
  then show ?thesis using assms(2,3) by (simp add: upd_def upd_conv_take_nth_drop id_take_nth_drop [symmetric])
qed

lemma upd_keys: "sorted_wrt (<) (map fst xs) \<Longrightarrow> sorted_wrt (<) (map fst (upd k v xs))"
  "x \<in> set (map fst (upd k v xs)) \<longleftrightarrow> x = k \<or> x \<in> set (map fst xs)"
proof -
  show "sorted_wrt (<) (map fst (upd k v xs))" if "sorted_wrt (<) (map fst xs)"
    using that by (auto simp: upd_def sorted_wrt_append sorted_wrt_map sorted_wrt_filter)
  show "x \<in> set (map fst (upd k v xs)) \<longleftrightarrow> x = k \<or> x \<in> set (map fst xs)"
    by (cases x k rule: linorder_cases) (force simp: upd_def image_iff)+
qed

section \<open>Insertion\<close>

definition sizes_ok :: "BPlusTree \<Rightarrow> bool" where
  "sizes_ok T \<longleftrightarrow> 2 \<le> leaf_max_size T \<and> leaf_max_size T \<le> 340 \<and>
     3 \<le> internal_max_size T \<and> internal_max_size T \<le> 510"

definition tree_ok :: "BPlusTree \<Rightarrow> nat \<Rightarrow> (page_id_t \<Rightarrow> byte list option) \<Rightarrow> page_id_t \<Rightarrow>
    i32 option \<Rightarrow> i32 option \<Rightarrow> btree \<Rightarrow> bool" where
  "tree_ok T n m e lo hi t \<longleftrightarrow> rep m e t \<and> bnd lo hi t \<and> shaped T n t \<and> distinct (pids t)"

text \<open>
  What an insertion into a subtree gives: the subtree with the key stored, or its two halves with
  the separator between them; the pages it takes are its own and all pages that are new, and every other page
  stays as it was. Half full leaves stay half full, and both halves of a leaf are.
\<close>

definition inserted :: "BPlusTree \<Rightarrow> nat \<Rightarrow> (page_id_t \<Rightarrow> byte list option) \<Rightarrow> page_id_t \<Rightarrow> i32 option \<Rightarrow>
    i32 option \<Rightarrow> btree \<Rightarrow> i32 \<Rightarrow> RID \<Rightarrow> (page_id_t \<Rightarrow> byte list option) \<Rightarrow> SplitResult option \<Rightarrow> bool" where
  "inserted T n m e lo hi t key rid m' r \<longleftrightarrow>
     dom m \<subseteq> dom m' \<and> (\<forall>p. m p \<noteq> None \<longrightarrow> p \<notin> set (pids t) \<longrightarrow> m' p = m p) \<and>
     (case r of
        None \<Rightarrow> (\<exists>t'. root_of t' = root_of t \<and> first_leaf t' = first_leaf t \<and> tree_ok T n m' e lo hi t' \<and>
          entries t' = upd key rid (entries t) \<and> set (pids t') = set (pids t) \<union> (dom m' - dom m) \<and>
          (packed T t \<longrightarrow> packed T t'))
      | Some (k, q) \<Rightarrow> (\<exists>t1 t2. root_of t1 = root_of t \<and> first_leaf t1 = first_leaf t \<and> root_of t2 = q \<and>
          tree_ok T n m' (first_leaf t2) lo (Some k) t1 \<and> tree_ok T n m' e (Some k) hi t2 \<and>
          over lo k \<and> below k hi \<and> entries t1 @ entries t2 = upd key rid (entries t) \<and>
          set (pids t1) \<inter> set (pids t2) = {} \<and>
          set (pids t1) \<union> set (pids t2) = set (pids t) \<union> (dom m' - dom m) \<and>
          (n = 0 \<or> packed T t \<longrightarrow> packed T t1 \<and> packed T t2)))"

subsection \<open>Leaves\<close>

lemma run_out_simps [simp]: "run_out (Ok a) s f = f a s" "run_out (Throw x) s f = (Throw x, s)" "run_out Fault s f = (Fault, s)"
  by (simp_all add: run_out_def)

lemma node_type_neq [simp]: "NODE_INTERNAL \<noteq> NODE_LEAF" "NODE_LEAF \<noteq> NODE_INTERNAL"
  by (simp_all add: NODE_INTERNAL_def NODE_LEAF_def)

lemma set_node_size_simps:
  assumes "length d = PAGE_SIZE"
  shows "length (set_node_size n d) = PAGE_SIZE" "PageType (set_node_size n d) = PageType d"
    "next_page_id (set_node_size n d) = next_page_id d"
    "k \<le> LEAF_CAPACITY \<Longrightarrow> arr_list leaf_layout k (set_node_size n d) = arr_list leaf_layout k d"
    "k \<le> INTERNAL_CAPACITY \<Longrightarrow> arr_list internal_layout k (set_node_size n d) = arr_list internal_layout k d"
  using assms leaf.put_header [of d 4 k] inode.put_header [of d 4 k]
  by (simp_all add: set_node_size_def PageType_def next_page_id_def capacities PAGE_SIZE_def)

lemma set_next_simps:
  assumes "length d = PAGE_SIZE"
  shows "length (set_next_page_id p d) = PAGE_SIZE" "PageType (set_next_page_id p d) = PageType d"
    "next_page_id (set_next_page_id p d) = p" "node_size (set_next_page_id p d) = node_size d"
    "k \<le> LEAF_CAPACITY \<Longrightarrow> arr_list leaf_layout k (set_next_page_id p d) = arr_list leaf_layout k d"
  using assms leaf.put_header [of d 12 k]
  by (simp_all add: set_next_page_id_def PageType_def next_page_id_def node_size_def capacities PAGE_SIZE_def)

lemma Leaf_Init_ok: "length d = PAGE_SIZE \<Longrightarrow> leaf_page (Leaf_Init d) [] INVALID_PAGE_ID"
  by (simp add: leaf_page_def Leaf_Init_def set_next_simps arr_list_def)
    (simp add: set_parent_def set_node_size_def set_PageType_def PageType_def node_size_def PAGE_SIZE_def
      set_next_page_id_def next_page_id_def)

lemma leaf_page_shorten:
  assumes "leaf_page d es e" and "n \<le> length es"
  shows "leaf_page (set_node_size (int n) (set_next_page_id e' d)) (take n es) e'"
proof -
  note pg = assms(1) [unfolded leaf_page_def]
  have "arr_list leaf_layout n d = map (\<lambda>(k, r). \<lparr>le_key = k, le_rid = r\<rparr>) (take n es)"
    using take_arr_list [OF assms(2), of leaf_layout d] pg by (simp add: take_map)
  then show ?thesis
    using pg assms(2) by (simp add: leaf_page_def set_next_simps set_node_size_simps capacities)
qed

text \<open>The new leaf of a split: the upper part of the old one, and its next leaf.\<close>

lemma leaf_copy_ok:
  assumes "leaf_page d es e" and "n \<le> length es" and "length z = PAGE_SIZE"
  shows "\<exists>d'. arr_copy leaf_layout d (int n) (set_node_size (int (length es) - int n) (Leaf_Init z)) 0
      (nat (int (length es) - int n)) = Ok d' \<and>
    leaf_page (set_next_page_id e d') (drop n es) e"
proof -
  note pg = assms(1) [unfolded leaf_page_def]
  define k where "k = length es - n"
  let ?z = "set_node_size (int (length es) - int n) (Leaf_Init z)"
  note z = Leaf_Init_ok [OF assms(3), unfolded leaf_page_def]
  have sz: "int (length es) - int n = int k" using assms(2) by (simp add: k_def)
  have lenz: "length ?z = PAGE_SIZE" using z by (simp add: set_node_size_simps)
  have cap: "n + k \<le> LEAF_CAPACITY" "0 + k \<le> LEAF_CAPACITY" using pg assms(2) unfolding k_def by linarith+
  obtain d' where d': "arr_copy leaf_layout d (int n) ?z (int 0) k = Ok d'" "length d' = PAGE_SIZE"
      "same_header leaf_layout ?z d'"
      "arr_list leaf_layout (0 + k) d' = arr_list leaf_layout 0 ?z @ take k (drop n (arr_list leaf_layout LEAF_CAPACITY d))"
    using leaf.copy_ok [OF lenz cap, of d] by blast
  have "take k (drop n (arr_list leaf_layout LEAF_CAPACITY d)) = drop n (take (length es) (arr_list leaf_layout LEAF_CAPACITY d))"
    by (simp add: drop_take k_def)
  also have "\<dots> = map (\<lambda>(k, r). \<lparr>le_key = k, le_rid = r\<rparr>) (drop n es)"
    using take_arr_list [of "length es" LEAF_CAPACITY leaf_layout d] pg by (simp add: drop_map)
  finally have list: "arr_list leaf_layout k d' = map (\<lambda>(k, r). \<lparr>le_key = k, le_rid = r\<rparr>) (drop n es)"
    using d'(4) by (simp add: arr_list_def)
  have "get32 0 d' = get32 0 ?z" "get32 4 d' = get32 4 ?z"
    using same_headerD [OF d'(3)] by (simp_all add: capacities)
  moreover have "get32 0 ?z = NODE_LEAF" using z by (simp add: PageType_def [symmetric] set_node_size_simps)
  moreover have "node_size ?z = int k"
    unfolding sz using z cap(2) by (intro node_size_set) (simp_all add: capacities)
  ultimately have "PageType d' = NODE_LEAF" "node_size d' = int k"
    by (simp_all add: PageType_def node_size_def)
  then have "leaf_page (set_next_page_id e d') (drop n es) e"
    unfolding leaf_page_def length_drop k_def [symmetric] using d'(2) list cap(2) by (simp add: set_next_simps)
  then show ?thesis using d'(1) sz by simp
qed

lemma split_leaf_eq:
  assumes "NewPage b = (Ok (Some (q, g)), b1)" and "GetData f b1 = d" and "GetData g b1 = z"
    and "leaf_page d es e" and "2 \<le> length es" and "length z = PAGE_SIZE" and n_def: "n = length es div 2"
  shows "\<exists>d1 d2. leaf_page d1 (take n es) q \<and> leaf_page d2 (drop n es) e \<and>
    (\<forall>b2 b3. UnpinPage q True (SetData f d1 (SetData g d2 b1)) = (Ok True, b2) \<longrightarrow>
      UnpinPage p True b2 = (Ok True, b3) \<longrightarrow>
      split_leaf p f b = (Ok (Some (fst (es ! n), q)), b3))"
proof -
  note pg = assms(4) [unfolded leaf_page_def]
  have n: "n \<le> length es" "n < length es" using assms(5) n_def by auto
  have sz: "node_size d = int (length es)" "int (length es) div 2 = int n" using pg by (simp_all add: n_def zdiv_int)
  obtain d' where d': "arr_copy leaf_layout d (int n) (set_node_size (int (length es) - int n) (Leaf_Init z)) 0
      (nat (int (length es) - int n)) = Ok d'" "leaf_page (set_next_page_id e d') (drop n es) e"
    using leaf_copy_ok [OF assms(4) n(1) assms(6)] by blast
  have key: "arr_get leaf_layout (set_next_page_id e d') 0 = Ok \<lparr>le_key = fst (es ! n), le_rid = snd (es ! n)\<rparr>"
    using leaf_page_get [OF d'(2), of 0] n(2) by simp
  have next_e: "next_page_id d = e" using pg by simp
  have "split_leaf p f b = (Ok (Some (fst (es ! n), q)), b3)"
    if "UnpinPage q True (SetData f (set_node_size (int n) (set_next_page_id q d))
        (SetData g (set_next_page_id e d') b1)) = (Ok True, b2)" "UnpinPage p True b2 = (Ok True, b3)" for b2 b3
    using that d'(1) key by (simp add: split_leaf_def assms(1-3) sz next_e Let_def)
  then show ?thesis using leaf_page_shorten [OF assms(4) n(1), of q] d'(2) by blast
qed

lemma leaf_split_trees:
  assumes "sorted_wrt (<) (map fst es)" and "\<forall>k \<in> set (map fst es). above lo k \<and> below k hi"
    and "0 < n" and "n < length es" and "int (length es) \<le> leaf_max_size T"
  shows "bnd lo (Some (fst (es ! n))) (Lf p (take n es))" "bnd (Some (fst (es ! n))) hi (Lf q (drop n es))"
    "over lo (fst (es ! n))" "below (fst (es ! n)) hi" "shaped T 0 (Lf p (take n es))" "shaped T 0 (Lf q (drop n es))"
proof -
  let ?k = "fst (es ! n)"
  have drop: "drop n es = es ! n # drop (Suc n) es" using assms(4) by (simp add: Cons_nth_drop_Suc)
  have es: "es = take n es @ es ! n # drop (Suc n) es" using assms(4) by (rule id_take_nth_drop)
  then have "map fst es = map fst (take n es) @ ?k # map fst (drop (Suc n) es)"
    by (metis list.simps(9) map_append)
  then have srt: "sorted_wrt (<) (map fst (take n es))" "\<forall>x \<in> set (take n es). fst x < ?k"
      "sorted_wrt (<) (map fst (drop n es))" "\<forall>x \<in> set (drop n es). ?k \<le> fst x"
    using assms(1) drop by (auto simp: sorted_wrt_append less_imp_le)
  have sub: "x \<in> set es" if "x \<in> set (take n es) \<or> x \<in> set (drop n es)" for x
    using that by (auto dest: in_set_takeD in_set_dropD)
  then show "bnd lo (Some ?k) (Lf p (take n es))" "bnd (Some ?k) hi (Lf q (drop n es))"
    using assms(2) srt by auto
  have "es ! 0 \<in> set (take n es)" using assms(3,4) by (auto simp: in_set_conv_nth intro!: exI [of _ 0])
  then have "above lo (fst (es ! 0))" "fst (es ! 0) < ?k" using srt(2) assms(2) sub by auto
  then show "over lo ?k" by (rule bound_trans(4))
  show "below ?k hi" using assms(2,4) by simp
qed (use assms(3-5) in auto)

lemma length_zero_page: "length zero_page = PAGE_SIZE"
  by (simp add: zero_page_def)

lemma leaf_page_size: "leaf_page d es e \<Longrightarrow> length d = PAGE_SIZE"
  by (simp add: leaf_page_def)

text \<open>The overwrite of an existing key, and the insertion of a new one without a split.\<close>

lemma InsertInLeaf_bytes:
  assumes "leaf_page d es e" and "sorted_wrt (<) (map fst es)" and "int (length es) < leaf_max_size T" and "sizes_ok T"
  shows "(\<exists>d' i. leaf_page d' (upd key rid es) e \<and>
      arr_find leaf_layout (\<lambda>x. le_key x = key) d 0 (node_size d) = Ok (Some i) \<and>
      arr_set leaf_layout d i \<lparr>le_key = key, le_rid = rid\<rparr> = Ok d' \<and> length (upd key rid es) = length es) \<or>
    (\<exists>d'. leaf_page d' (upd key rid es) e \<and> arr_find leaf_layout (\<lambda>x. le_key x = key) d 0 (node_size d) = Ok None \<and>
      Leaf_InsertEntry key rid d = Ok d' \<and> length (upd key rid es) = Suc (length es))"
proof -
  let ?P = "\<lambda>x. le_key x = key"
  note pg = assms(1) [unfolded leaf_page_def]
  have cap: "length es < LEAF_CAPACITY" using assms(3,4) by (simp add: sizes_ok_def capacities)
  have nth: "le_key (arr_list leaf_layout (length es) d ! i) = fst (es ! i)" if "i < length es" for i
    using pg that by (simp split: prod.split)
  from leaf.find_pos [of 0 "length es" ?P d] cap
  obtain r pos where f: "arr_find leaf_layout ?P d 0 (int (length es)) = Ok r"
      "(case r of None \<Rightarrow> int (length es) | Some j \<Rightarrow> j) = int pos" "pos \<le> length es"
      "\<And>j. j < pos \<Longrightarrow> \<not> ?P (arr_list leaf_layout (length es) d ! j)"
      "pos < length es \<Longrightarrow> ?P (arr_list leaf_layout (length es) d ! pos)" "r = None \<longleftrightarrow> pos = length es"
    by auto
  show ?thesis
  proof (cases "pos < length es")
    case True
    then have r: "r = Some (int pos)" using f(2,6) by (cases r) auto
    obtain d' where d': "arr_set leaf_layout d (int pos) \<lparr>le_key = key, le_rid = rid\<rparr> = Ok d'" "length d' = PAGE_SIZE"
        "same_header leaf_layout d d'"
        "arr_list leaf_layout (length es) d' = (arr_list leaf_layout (length es) d)[pos := \<lparr>le_key = key, le_rid = rid\<rparr>]"
      using leaf.set_ok [of d pos "\<lparr>le_key = key, le_rid = rid\<rparr>"] pg True cap
      by (metis less_imp_le less_trans)
    have upd: "es[pos := (key, rid)] = upd key rid es"
      using upd_overwrite [OF assms(2) True] f(5) True nth by simp
    have "get32 0 d' = get32 0 d" "get32 4 d' = get32 4 d" "get32 12 d' = get32 12 d"
      using same_headerD [OF d'(3)] by (simp_all add: capacities)
    then have "leaf_page d' (es[pos := (key, rid)]) e"
      using d'(2,4) pg by (simp add: leaf_page_def PageType_def node_size_def next_page_id_def map_update)
    then have "leaf_page d' (upd key rid es) e" "length (upd key rid es) = length es"
      using upd by (simp, metis length_list_update)
    with f(1) r d'(1) pg show ?thesis by auto
  next
    case False
    then have r: "r = None" "pos = length es" using f(3,6) by auto
    then have "key \<notin> set (map fst es)" using f(4) nth by (auto simp: in_set_conv_nth) (metis fst_conv)
    then have p: "put_sorted key rid es = upd key rid es" using upd_put_sorted [OF assms(2)] by blast
    then obtain d' where "Leaf_InsertEntry key rid d = Ok d'" "leaf_page d' (upd key rid es) e"
      using Leaf_InsertEntry_ok [OF assms(1) cap, of key rid] by auto
    moreover have "length (upd key rid es) = Suc (length es)"
      unfolding p [symmetric] put_sorted_def by (metis length_append length_Cons add_Suc_right takeWhile_dropWhile_id)
    ultimately show ?thesis using f(1) r(1) pg by auto
  qed
qed

lemma insertedI_None:
  assumes "root_of t' = root_of t" and "first_leaf t' = first_leaf t" and "tree_ok T n m' e lo hi t'"
    and "entries t' = upd key rid (entries t)" and "set (pids t') = set (pids t) \<union> (dom m' - dom m)" and "packed T t \<Longrightarrow> packed T t'"
    and "dom m \<subseteq> dom m'" and "\<And>p. m p \<noteq> None \<Longrightarrow> p \<notin> set (pids t) \<Longrightarrow> m' p = m p"
  shows "inserted T n m e lo hi t key rid m' None"
  using assms unfolding inserted_def by auto

lemma insertedI_Some:
  assumes "root_of t1 = root_of t" and "first_leaf t1 = first_leaf t"
    and "tree_ok T n m' (first_leaf t2) lo (Some k) t1" and "tree_ok T n m' e (Some k) hi t2"
    and "over lo k" and "below k hi" and "entries t1 @ entries t2 = upd key rid (entries t)"
    and "set (pids t1) \<inter> set (pids t2) = {}"
    and "set (pids t1) \<union> set (pids t2) = set (pids t) \<union> (dom m' - dom m)"
    and "n = 0 \<or> packed T t \<Longrightarrow> packed T t1 \<and> packed T t2"
    and "dom m \<subseteq> dom m'" and "\<And>p. m p \<noteq> None \<Longrightarrow> p \<notin> set (pids t) \<Longrightarrow> m' p = m p"
  shows "inserted T n m e lo hi t key rid m' (Some (k, root_of t2))"
  using assms unfolding inserted_def by auto

lemma upd_bounds:
  assumes "bnd lo hi (Lf p es)" and "above lo key" and "below key hi"
  shows "sorted_wrt (<) (map fst (upd key rid es))" "\<forall>k \<in> set (map fst (upd key rid es)). above lo k \<and> below k hi"
  using assms upd_keys(1) [of es key rid] upd_keys(2) [of _ key rid es] by (simp, metis bnd.simps(1))

lemma InsertInLeaf_whole:
  assumes "bpm_idle b m k l" and "1 < k" and "m p = Some d" and "leaf_page d es e" and "leaf_page d' (upd key rid es) e"
    and "bnd lo hi (Lf p es)" and "above lo key" and "below key hi" and "int (length (upd key rid es)) < leaf_max_size T"
    and "length es \<le> length (upd key rid es)"
    and "\<And>f b1 b2. FetchPage p b = (Ok (Some f), b1) \<Longrightarrow> GetData f b1 = d \<Longrightarrow>
      UnpinPage p True (SetData f d' b1) = (Ok True, b2) \<Longrightarrow> InsertInLeaf T p key rid b = (Ok None, b2)"
  shows "\<exists>r b' m' l'. InsertInLeaf T p key rid b = (Ok r, b') \<and> bpm_idle b' m' k l' \<and> l - 1 \<le> l' \<and>
    inserted T 0 m e lo hi (Lf p es) key rid m' r"
proof -
  have "0 < k" using assms(2) by simp
  then obtain f b1 b2 where b2: "FetchPage p b = (Ok (Some f), b1)" "GetData f b1 = d"
      "UnpinPage p True (SetData f d' b1) = (Ok True, b2)" "bpm_idle b2 (m(p \<mapsto> d')) k l"
    using bp.change_page [OF assms(1) _ assms(3)] leaf_page_size [OF assms(5)] by blast
  have "inserted T 0 m e lo hi (Lf p es) key rid (m(p \<mapsto> d')) None"
    by (rule insertedI_None [of "Lf p (upd key rid es)"])
      (use assms(3,5,9,10) upd_bounds [OF assms(6-8), of rid] in \<open>auto simp: tree_ok_def\<close>)
  with assms(11) [OF b2(1-3)] b2(4) show ?thesis by (meson diff_le_self)
qed

lemma InsertInLeaf_ok:
  assumes "bpm_idle b m k l" and "1 < k" and "0 < l" and "tree_ok T 0 m e lo hi (Lf p es)" and "sizes_ok T"
    and "above lo key" and "below key hi"
  shows "\<exists>r b' m' l'. InsertInLeaf T p key rid b = (Ok r, b') \<and> bpm_idle b' m' k l' \<and> l - 1 \<le> l' \<and>
    inserted T 0 m e lo hi (Lf p es) key rid m' r"
proof -
  obtain d where d: "m p = Some d" "leaf_page d es e" using assms(4) by (auto simp: tree_ok_def)
  have B: "bnd lo hi (Lf p es)" "int (length es) < leaf_max_size T" "sorted_wrt (<) (map fst es)"
    using assms(4) by (auto simp: tree_ok_def)
  let ?es = "upd key rid es"
  consider (overwrite) d' i where "leaf_page d' ?es e" "length ?es = length es"
        "arr_find leaf_layout (\<lambda>x. le_key x = key) d 0 (node_size d) = Ok (Some i)"
        "arr_set leaf_layout d i \<lparr>le_key = key, le_rid = rid\<rparr> = Ok d'"
    | (add) d' where "leaf_page d' ?es e" "length ?es = Suc (length es)"
        "arr_find leaf_layout (\<lambda>x. le_key x = key) d 0 (node_size d) = Ok None" "Leaf_InsertEntry key rid d = Ok d'"
    using InsertInLeaf_bytes [OF d(2) B(3,2) assms(5), of key rid] by blast
  then show ?thesis
  proof cases
    case overwrite
    show ?thesis
      by (rule InsertInLeaf_whole [OF assms(1,2) d overwrite(1) B(1) assms(6,7)])
        (use overwrite B(2) in \<open>simp_all add: InsertInLeaf_def must_fetch_def\<close>)
  next
    case add
    have size': "node_size d' = int (length ?es)" using add(1) by (simp add: leaf_page_def)
    show ?thesis
    proof (cases "int (length ?es) < leaf_max_size T")
      case True
      show ?thesis
        by (rule InsertInLeaf_whole [OF assms(1,2) d add(1) B(1) assms(6,7) True])
          (use add True size' in \<open>simp_all add: InsertInLeaf_def must_fetch_def\<close>)
    next
      case False
      obtain f b1 q g b2 where b2: "FetchPage p b = (Ok (Some f), b1)" "GetData f b1 = d"
          "NewPage (SetData f d' b1) = (Ok (Some (q, g)), b2)" "m q = None" "q \<noteq> p" "GetData f b2 = d'"
          "GetData g b2 = zero_page"
          "\<And>bp bq. length bp = PAGE_SIZE \<Longrightarrow> length bq = PAGE_SIZE \<Longrightarrow>
            \<exists>b3 b4. UnpinPage q True (SetData f bp (SetData g bq b2)) = (Ok True, b3) \<and>
              UnpinPage p True b3 = (Ok True, b4) \<and> bpm_idle b4 (m(p \<mapsto> bp, q \<mapsto> bq)) k (l - 1)"
        using bp.split_page [OF assms(1-3) d(1)] leaf_page_size [OF add(1)] by metis
      define n where "n = length ?es div 2"
      have len: "2 \<le> length ?es" "0 < n" "n < length ?es" "int (length ?es) \<le> leaf_max_size T" "int (length ?es) = leaf_max_size T"
        using False B(2) add(2) assms(5) by (auto simp: sizes_ok_def n_def)
      have half: "leaf_max_size T div 2 \<le> int n" "leaf_max_size T div 2 \<le> int (length ?es - n)"
        using len(3,5) by (simp_all add: n_def flip: len(5))
      obtain d1 d2 where d12: "leaf_page d1 (take n ?es) q" "leaf_page d2 (drop n ?es) e"
          "\<And>b3 b4. UnpinPage q True (SetData f d1 (SetData g d2 b2)) = (Ok True, b3) \<Longrightarrow>
            UnpinPage p True b3 = (Ok True, b4) \<Longrightarrow>
            split_leaf p f (SetData f d' b1) = (Ok (Some (fst (?es ! n), q)), b4)"
        using split_leaf_eq [OF b2(3,6,7) add(1) len(1) length_zero_page n_def, of p] by blast
      obtain b3 b4 where b4: "UnpinPage q True (SetData f d1 (SetData g d2 b2)) = (Ok True, b3)"
          "UnpinPage p True b3 = (Ok True, b4)" "bpm_idle b4 (m(p \<mapsto> d1, q \<mapsto> d2)) k (l - 1)"
        using b2(8) leaf_page_size d12(1,2) by blast
      have "InsertInLeaf T p key rid b = (Ok (Some (fst (?es ! n), q)), b4)"
        using b2(1,2) add(3,4) False size' d12(3) [OF b4(1,2)] by (simp add: InsertInLeaf_def must_fetch_def)
      moreover have "inserted T 0 m e lo hi (Lf p es) key rid (m(p \<mapsto> d1, q \<mapsto> d2)) (Some (fst (?es ! n), root_of (Lf q (drop n ?es))))"
        by (rule insertedI_Some [of "Lf p (take n ?es)"])
          (use leaf_split_trees [OF upd_bounds [OF B(1) assms(6,7), of rid] len(2-4)] d(1) d12(1,2) b2(4,5) len(3) half
            in \<open>auto simp: tree_ok_def simp del: bnd.simps shaped.simps\<close>)
      ultimately show ?thesis using b4(3) by (auto intro!: exI)
    qed
  qed
qed

subsection \<open>Inner nodes\<close>

abbreviation ientry :: "i32 \<times> page_id_t \<Rightarrow> InternalEntry" where
  "ientry \<equiv> \<lambda>(k, c). \<lparr>ie_key = k, ie_child = c\<rparr>"

lemma inode_page_set:
  assumes "inode_page d cs" and "i < length cs"
  shows "\<exists>d'. arr_set internal_layout d (int i) (ientry c) = Ok d' \<and> inode_page d' (cs[i := c])"
proof -
  note pg = assms(1) [unfolded inode_page_def]
  obtain d' where d': "arr_set internal_layout d (int i) (ientry c) = Ok d'" "length d' = PAGE_SIZE"
      "same_header internal_layout d d'"
      "arr_list internal_layout (length cs) d' = (arr_list internal_layout (length cs) d)[i := ientry c]"
    using inode.set_ok [of d i "ientry c"] pg assms(2) by (meson less_le_trans)
  have "get32 0 d' = get32 0 d" "get32 4 d' = get32 4 d"
    using same_headerD [OF d'(3)] by (simp_all add: capacities)
  then have "inode_page d' (cs[i := c])"
    using pg d' by (simp add: inode_page_def PageType_def node_size_def map_update)
  with d'(1) show ?thesis by blast
qed

lemma Internal_Init_ok:
  assumes "length z = PAGE_SIZE"
  shows "\<exists>d. Internal_Init z = Ok d \<and> inode_page d [(mk32 0, INVALID_PAGE_ID)]"
proof -
  let ?z = "set_parent INVALID_PAGE_ID (set_node_size 1 (set_PageType NODE_INTERNAL z))"
  have z: "length ?z = PAGE_SIZE" "get32 0 ?z = NODE_INTERNAL" "get32 4 ?z = bits32 (mk32 1)"
    using assms by (simp_all add: set_parent_def set_node_size_def set_PageType_def PAGE_SIZE_def)
  obtain d where d: "arr_set internal_layout ?z (int 0) (ientry (mk32 0, INVALID_PAGE_ID)) = Ok d"
      "length d = PAGE_SIZE" "same_header internal_layout ?z d"
      "arr_list internal_layout 1 d = (arr_list internal_layout 1 ?z)[0 := ientry (mk32 0, INVALID_PAGE_ID)]"
    using inode.set_ok [OF z(1), of 0 "ientry (mk32 0, INVALID_PAGE_ID)"] by (auto simp: capacities)
  have "get32 0 d = NODE_INTERNAL" "get32 4 d = bits32 (mk32 1)"
    using same_headerD [OF d(3)] z by (simp_all add: capacities)
  moreover have "arr_list internal_layout (Suc 0) d = [ientry (mk32 0, INVALID_PAGE_ID)]"
    using d(4) by (simp add: arr_list_def)
  ultimately have "inode_page d [(mk32 0, INVALID_PAGE_ID)]"
    using d(2) ival_mk32_nat [of 1] by (simp add: inode_page_def PageType_def node_size_def capacities)
  then show ?thesis using d(1) by (simp add: Internal_Init_def)
qed

lemma inode_page_shorten:
  assumes "inode_page d cs" and "0 < n" and "n \<le> length cs"
  shows "inode_page (set_node_size (int n) d) (take n cs)"
proof -
  note pg = assms(1) [unfolded inode_page_def]
  have "arr_list internal_layout n d = map ientry (take n cs)"
    using take_arr_list [OF assms(3), of internal_layout d] pg by (simp add: take_map)
  then show ?thesis
    using pg assms(2,3) by (simp add: inode_page_def set_node_size_simps capacities)
qed

text \<open>Appending a part of one node to another.\<close>

lemma inode_copy_ok:
  assumes "inode_page d cs" and "inode_page z xs" and "n \<le> length cs" and "length xs + length cs - n \<le> INTERNAL_CAPACITY"
    and j_def: "j = length cs - n"
  shows "\<exists>z'. arr_copy internal_layout d (int n) z (int (length xs)) j = Ok z' \<and>
    inode_page (set_node_size (int (length xs) + int j) z') (xs @ drop n cs)"
proof -
  note pg = assms(1) [unfolded inode_page_def] and pz = assms(2) [unfolded inode_page_def]
  have cap: "n + j \<le> INTERNAL_CAPACITY" "length xs + j \<le> INTERNAL_CAPACITY"
    using assms(3,4) pg by (auto simp: j_def)
  obtain z' where z': "arr_copy internal_layout d (int n) z (int (length xs)) j = Ok z'" "length z' = PAGE_SIZE"
      "same_header internal_layout z z'"
      "arr_list internal_layout (length xs + j) z' =
        arr_list internal_layout (length xs) z @ take j (drop n (arr_list internal_layout INTERNAL_CAPACITY d))"
    using inode.copy_ok [OF _ cap, of z d] pz by blast
  have "take j (drop n (arr_list internal_layout INTERNAL_CAPACITY d)) =
      drop n (take (length cs) (arr_list internal_layout INTERNAL_CAPACITY d))"
    by (simp add: drop_take j_def)
  also have "\<dots> = map ientry (drop n cs)"
    using take_arr_list [of "length cs" INTERNAL_CAPACITY internal_layout d] pg by (simp add: drop_map)
  finally have list: "arr_list internal_layout (length xs + j) z' = map ientry (xs @ drop n cs)"
    using z'(4) pz by simp
  have "get32 0 z' = get32 0 z" using same_headerD [OF z'(3)] by (simp add: capacities)
  then have "PageType z' = NODE_INTERNAL" using pz by (simp add: PageType_def)
  moreover have "node_size (set_node_size (int (length xs + j)) z') = int (length xs + j)"
    using z'(2) cap(2) by (intro node_size_set) (simp_all add: capacities)
  ultimately have "inode_page (set_node_size (int (length xs + j)) z') (xs @ drop n cs)"
    unfolding inode_page_def length_append length_drop j_def [symmetric]
    using z'(2) list cap(2) pz by (simp add: set_node_size_simps)
  then show ?thesis using z'(1) by auto
qed

lemma split_internal_eq:
  assumes "NewPage b = (Ok (Some (q, g)), b1)" and "GetData f b1 = d" and "GetData g b1 = z"
    and "inode_page d cs" and "2 \<le> length cs" and "length z = PAGE_SIZE" and n_def: "n = length cs div 2"
  shows "\<exists>d1 d2. inode_page d1 (take n cs) \<and> inode_page d2 ((mk32 0, snd (cs ! n)) # drop (Suc n) cs) \<and>
    (\<forall>b2 b3. UnpinPage q True (SetData f d1 (SetData g d2 b1)) = (Ok True, b2) \<longrightarrow>
      UnpinPage p True b2 = (Ok True, b3) \<longrightarrow>
      split_internal p f b = (Ok (Some (fst (cs ! n), q)), b3))"
proof -
  note pg = assms(4) [unfolded inode_page_def]
  have n: "0 < n" "n \<le> length cs" "n < length cs" "Suc n \<le> length cs" using assms(5) n_def by auto
  have sz: "node_size d = int (length cs)" "int (length cs) div 2 = int n" using pg by (simp_all add: n_def zdiv_int)
  obtain z0 where z0: "Internal_Init z = Ok z0" "inode_page z0 [(mk32 0, INVALID_PAGE_ID)]"
    using Internal_Init_ok [OF assms(6)] by blast
  obtain z1 where z1: "arr_set internal_layout z0 0 (ientry (mk32 0, snd (cs ! n))) = Ok z1"
      "inode_page z1 [(mk32 0, snd (cs ! n))]"
    using inode_page_set [OF z0(2), of 0 "(mk32 0, snd (cs ! n))"] by auto
  define j where "j = length cs - Suc n"
  have c: "length [(mk32 0, snd (cs ! n))] + length cs - Suc n \<le> INTERNAL_CAPACITY" using pg by auto
  obtain z2 where z2: "arr_copy internal_layout d (int (Suc n)) z1 (int 1) j = Ok z2"
      "inode_page (set_node_size (int 1 + int j) z2) ((mk32 0, snd (cs ! n)) # drop (Suc n) cs)"
    using inode_copy_ok [OF assms(4) z1(2) n(4) c j_def] by auto
  have get: "arr_get internal_layout d (int n) = Ok (ientry (cs ! n))"
      "arr_get internal_layout z0 0 = Ok (ientry (mk32 0, INVALID_PAGE_ID))"
    using inode_page_get [OF assms(4) n(3)] inode_page_get [OF z0(2), of 0] by (auto split: prod.split)
  have j: "nat (int (length cs) - (int n + 1)) = j" "int (length cs) - int n = int 1 + int j"
    using n(4) by (auto simp: j_def)
  have "split_internal p f b = (Ok (Some (fst (cs ! n), q)), b3)"
    if "UnpinPage q True (SetData f (set_node_size (int n) d) (SetData g (set_node_size (int 1 + int j) z2) b1)) = (Ok True, b2)"
      "UnpinPage p True b2 = (Ok True, b3)" for b2 b3
    using that z0(1) z1(1) z2(1) get j
    by (simp add: split_internal_def assms(1-3) sz Let_def split_beta add.commute)
  then show ?thesis using inode_page_shorten [OF assms(4) n(1,2)] z2(2) by blast
qed

text \<open>The bounds of a child, and exchanging it for a subtree or two with the same bounds.\<close>

definition lo_at :: "(i32 \<times> btree) list \<Rightarrow> i32 \<Rightarrow> i32 option \<Rightarrow> i32 option" where
  "lo_at pre k lo = (if pre = [] then lo else Some k)"

definition hi_at :: "(i32 \<times> btree) list \<Rightarrow> i32 option \<Rightarrow> i32 option" where
  "hi_at bs hi = (case bs of [] \<Rightarrow> hi | b # _ \<Rightarrow> Some (fst b))"

lemma hi_at_simps [simp]: "hi_at [] hi = hi" "hi_at (b # bs) hi = Some (fst b)"
  by (simp_all add: hi_at_def)

lemma bnds_exchange:
  assumes "bnds lo hi t bs"
  shows "bnd lo (hi_at bs hi) t"
    "bnd lo (hi_at bs hi) t' \<Longrightarrow> bnds lo hi t' bs"
    "bnd lo (Some k) t1 \<Longrightarrow> bnd (Some k) (hi_at bs hi) t2 \<Longrightarrow> over lo k \<Longrightarrow> below k (hi_at bs hi) \<Longrightarrow>
      bnds lo hi t1 ((k, t2) # bs)"
    "below key (hi_at bs hi) \<Longrightarrow> c \<in> set bs \<Longrightarrow> key < fst c"
    "below key (hi_at bs hi) \<Longrightarrow> c \<in> set bs \<Longrightarrow> x \<in> set (entries (snd c)) \<Longrightarrow> key < fst x"
proof -
  show "bnd lo (hi_at bs hi) t" "bnd lo (hi_at bs hi) t' \<Longrightarrow> bnds lo hi t' bs"
    using assms by (cases bs; simp)+
  show "bnd lo (Some k) t1 \<Longrightarrow> bnd (Some k) (hi_at bs hi) t2 \<Longrightarrow> over lo k \<Longrightarrow> below k (hi_at bs hi) \<Longrightarrow>
      bnds lo hi t1 ((k, t2) # bs)"
    using assms by (cases bs) (auto dest: bound_trans(3))
  assume key: "below key (hi_at bs hi)" and c: "c \<in> set bs"
  then obtain b bs' where bs: "bs = b # bs'" "key < fst b" by (cases bs) auto
  then have tail: "bnds (Some (fst b)) hi (snd b) bs'" using assms by simp
  show "key < fst c"
    using bnds_seps [OF tail] c bs by (auto dest: order.strict_trans)
  show "key < fst x" if "x \<in> set (entries (snd c))"
  proof -
    have "x \<in> set (entries (snd b) @ concat (map (\<lambda>c. entries (snd c)) bs'))" using that c bs(1) by auto
    then have "fst b \<le> fst x" using bnd_entries(2) [OF tail] by auto
    with bs(2) show ?thesis by simp
  qed
qed

lemma bnd_exchange:
  assumes "bnd lo hi (Nd p (pre @ (k, t) # bs))"
  shows "bnd (lo_at pre k lo) (hi_at bs hi) t"
    "bnd (lo_at pre k lo) (hi_at bs hi) t' \<Longrightarrow> bnd lo hi (Nd p (pre @ (k, t') # bs))"
    "bnd (lo_at pre k lo) (Some k') t1 \<Longrightarrow> bnd (Some k') (hi_at bs hi) t2 \<Longrightarrow> over (lo_at pre k lo) k' \<Longrightarrow>
      below k' (hi_at bs hi) \<Longrightarrow> bnd lo hi (Nd p (pre @ (k, t1) # (k', t2) # bs))"
    "below key (hi_at bs hi) \<Longrightarrow> c \<in> set bs \<Longrightarrow> key < fst c"
    "below key (hi_at bs hi) \<Longrightarrow> c \<in> set bs \<Longrightarrow> x \<in> set (entries (snd c)) \<Longrightarrow> key < fst x"
    "above (lo_at pre k lo) key \<Longrightarrow> c \<in> set (tl (pre @ [(k, t)])) \<Longrightarrow> fst c \<le> key"
    "above (lo_at pre k lo) key \<Longrightarrow> c \<in> set pre \<Longrightarrow> x \<in> set (entries (snd c)) \<Longrightarrow> fst x < key"
proof -
  have tail: "bnds (lo_at pre k lo) hi t bs"
    using assms by (cases pre) (auto simp: lo_at_def bnds_append)
  note ex = bnds_exchange [OF tail]
  show "bnd (lo_at pre k lo) (hi_at bs hi) t" by (rule ex(1))
  show "bnd (lo_at pre k lo) (hi_at bs hi) t' \<Longrightarrow> bnd lo hi (Nd p (pre @ (k, t') # bs))"
    using ex(2) [of t'] assms by (cases pre) (auto simp: lo_at_def bnds_append)
  show "bnd (lo_at pre k lo) (Some k') t1 \<Longrightarrow> bnd (Some k') (hi_at bs hi) t2 \<Longrightarrow> over (lo_at pre k lo) k' \<Longrightarrow>
      below k' (hi_at bs hi) \<Longrightarrow> bnd lo hi (Nd p (pre @ (k, t1) # (k', t2) # bs))"
    using ex(3) [of k' t1 t2] assms by (cases pre) (auto simp: lo_at_def bnds_append simp del: bnds.simps(2))
  show "below key (hi_at bs hi) \<Longrightarrow> c \<in> set bs \<Longrightarrow> key < fst c"
    "below key (hi_at bs hi) \<Longrightarrow> c \<in> set bs \<Longrightarrow> x \<in> set (entries (snd c)) \<Longrightarrow> key < fst x"
    using ex(4,5) by blast+
  have left: "bnds lo (Some k) (snd a) as" if "pre = a # as" for a as
    using assms that by (simp add: bnds_append)
  show "fst c \<le> key" if "above (lo_at pre k lo) key" "c \<in> set (tl (pre @ [(k, t)]))"
  proof (cases pre)
    case (Cons a as)
    then have "fst c \<le> k" using that(2) bnds_seps [OF left [OF Cons]] by (auto simp: less_imp_le)
    then show ?thesis using that(1) Cons by (auto simp: lo_at_def)
  qed (use that in simp)
  show "fst x < key" if "above (lo_at pre k lo) key" "c \<in> set pre" "x \<in> set (entries (snd c))"
  proof (cases pre)
    case (Cons a as)
    then have "x \<in> set (entries (snd a) @ concat (map (\<lambda>c. entries (snd c)) as))" using that by auto
    then have "fst x < k" using bnd_entries(2) [OF left [OF Cons]] by auto
    then show ?thesis using that(1) Cons by (auto simp: lo_at_def)
  qed (use that in simp)
qed

abbreviation kids :: "(i32 \<times> btree) list \<Rightarrow> (i32 \<times> page_id_t) list" where
  "kids cs \<equiv> map (\<lambda>c. (fst c, root_of (snd c))) cs"

lemma Lookup_child:
  assumes "inode_page d (kids cs)" and "bnd lo hi (Nd p cs)" and "above lo key" and "below key hi"
  shows "\<exists>pre k t bs. cs = pre @ (k, t) # bs \<and> Lookup d key = Ok (root_of t) \<and>
    above (lo_at pre k lo) key \<and> below key (hi_at bs hi)"
proof -
  obtain a as where cs: "cs = a # as" using assms(2) by (cases cs) auto
  have "sorted_wrt (<) (map fst as)" using assms(2) cs bnds_seps by (auto simp: cs)
  then have "sorted (map fst (tl (kids cs)))"
    by (simp add: cs comp_def strict_sorted_imp_sorted)
  then obtain j where j: "Lookup d key = Ok (snd (kids cs ! j))" "j < length (kids cs)"
      "1 \<le> j \<longrightarrow> fst (kids cs ! j) \<le> key" "\<forall>i. j < i \<and> i < length (kids cs) \<longrightarrow> key < fst (kids cs ! i)"
    using Lookup_ok [OF assms(1), of key] by blast
  have split: "cs = take j cs @ (fst (cs ! j), snd (cs ! j)) # drop (Suc j) cs"
    using j(2) id_take_nth_drop [of j cs] by simp
  have "above (lo_at (take j cs) (fst (cs ! j)) lo) key"
    using j(2,3) assms(3) by (auto simp: lo_at_def)
  moreover have "below key (hi_at (drop (Suc j) cs) hi)"
  proof (cases "drop (Suc j) cs")
    case (Cons b bs)
    then have "Suc j < length cs" "b = cs ! Suc j" by (metis drop_eq_Nil leI list.discI, metis drop_eq_Nil leI list.discI nth_via_drop)
    then show ?thesis using j(4) Cons by simp
  qed (use assms(4) in simp)
  moreover have "Lookup d key = Ok (root_of (snd (cs ! j)))" using j(1,2) by simp
  ultimately show ?thesis
    using split
    by (intro exI [where x = "take j cs"] exI [where x = "fst (cs ! j)"] exI [where x = "snd (cs ! j)"]
        exI [where x = "drop (Suc j) cs"] conjI)
qed

lemma put_sorted_mid:
  assumes "\<And>x. x \<in> set xs \<Longrightarrow> fst x \<le> k" and "\<And>y. y \<in> set ys \<Longrightarrow> k < fst y"
  shows "put_sorted k v (xs @ ys) = xs @ (k, v) # ys"
proof -
  have "takeWhile (\<lambda>x. fst x \<le> k) ys = []" "dropWhile (\<lambda>x. fst x \<le> k) ys = ys"
    using assms(2) by (cases ys; fastforce simp: not_le)+
  then show ?thesis
    using assms(1) takeWhile_append2 [of xs "\<lambda>x. fst x \<le> k" ys] dropWhile_append2 [of xs "\<lambda>x. fst x \<le> k" ys]
    by (simp add: put_sorted_def)
qed

text \<open>The separator of a split child goes right behind the child.\<close>

lemma put_sorted_kids:
  assumes "bnd lo hi (Nd p (pre @ (k, t) # bs))" and "above (lo_at pre k lo) k'" and "below k' (hi_at bs hi)"
  shows "hd (kids (pre @ (k, t) # bs)) # put_sorted k' q (tl (kids (pre @ (k, t) # bs))) =
    kids (pre @ [(k, t)]) @ (k', q) # kids bs"
proof -
  have "put_sorted k' q (kids (tl (pre @ [(k, t)])) @ kids bs) = kids (tl (pre @ [(k, t)])) @ (k', q) # kids bs"
    by (rule put_sorted_mid) (use bnd_exchange(4,6) [OF assms(1)] assms(2,3) in auto)
  then show ?thesis by (cases pre) (simp_all add: map_tl)
qed

abbreviation all_pids :: "(i32 \<times> btree) list \<Rightarrow> page_id_t set" where
  "all_pids cs \<equiv> \<Union>c \<in> set cs. set (pids (snd c))"

text \<open>The children of a node, on their own.\<close>

definition forest_ok :: "BPlusTree \<Rightarrow> nat \<Rightarrow> (page_id_t \<Rightarrow> byte list option) \<Rightarrow> page_id_t \<Rightarrow>
    i32 option \<Rightarrow> i32 option \<Rightarrow> (i32 \<times> btree) list \<Rightarrow> bool" where
  "forest_ok T n m e lo hi cs \<longleftrightarrow> reps m e cs \<and> bnd lo hi (Nd INVALID_PAGE_ID cs) \<and>
     (\<forall>c \<in> set cs. shaped T n (snd c)) \<and> distinct (concat (map (\<lambda>c. pids (snd c)) cs))"

lemma bnd_Nd: "bnd lo hi (Nd p cs) \<longleftrightarrow> bnd lo hi (Nd q cs)"
  by (cases cs) auto

lemma tree_ok_Nd:
  "tree_ok T n m e lo hi (Nd p cs) \<longleftrightarrow>
     (\<exists>d. m p = Some d \<and> inode_page d (kids cs)) \<and> 2 \<le> length cs \<and> int (length cs) \<le> internal_max_size T \<and>
     p \<notin> all_pids cs \<and> (\<exists>n'. n = Suc n' \<and> forest_ok T n' m e lo hi cs)"
  using bnd_Nd [of lo hi p cs INVALID_PAGE_ID] by (auto simp: tree_ok_def forest_ok_def)

lemma forest_cong:
  "forest_ok T n m e lo hi cs \<Longrightarrow> (\<And>p. p \<in> all_pids cs \<Longrightarrow> m' p = m p) \<Longrightarrow> forest_ok T n m' e lo hi cs"
  using rep_cong(2) [of m e cs m'] by (auto simp: forest_ok_def)

lemma forest_split:
  assumes "forest_ok T n m e lo hi (xs @ (k, t) # ys)" and "xs \<noteq> []"
  shows "forest_ok T n m (first_leaf t) lo (Some k) xs" "forest_ok T n m e (Some k) hi ((k0, t) # ys)"
    "over lo k" "below k hi"
proof -
  obtain x xs' where "xs = x # xs'" using assms(2) by (cases xs) auto
  then show "forest_ok T n m (first_leaf t) lo (Some k) xs" "forest_ok T n m e (Some k) hi ((k0, t) # ys)"
      "over lo k" "below k hi"
    using assms(1) by (auto simp: forest_ok_def reps_append bnds_append)
qed

text \<open>A forest taken apart at a child, and put together again.\<close>

lemma forest_child:
  assumes "forest_ok T n m e lo hi (pre @ (k, t) # bs)"
  shows "tree_ok T n m (first_of bs e) (lo_at pre k lo) (hi_at bs hi) t"
    "all_pids pre \<inter> set (pids t) = {}" "all_pids pre \<inter> all_pids bs = {}" "set (pids t) \<inter> all_pids bs = {}"
    "distinct (concat (map (\<lambda>c. pids (snd c)) pre))" "distinct (concat (map (\<lambda>c. pids (snd c)) bs))"
    "reps m (first_leaf t) pre" "reps m e bs" "\<forall>c \<in> set pre. shaped T n (snd c)" "\<forall>c \<in> set bs. shaped T n (snd c)"
    "\<And>q. q \<in> all_pids pre \<union> all_pids bs \<Longrightarrow> m q \<noteq> None"
proof -
  note A = assms [unfolded forest_ok_def]
  have r: "reps m (first_leaf t) pre" "rep m (first_of bs e) t" "reps m e bs"
    using A by (simp_all add: reps_append)
  then show "reps m (first_leaf t) pre" "reps m e bs" by blast+
  show "tree_ok T n m (first_of bs e) (lo_at pre k lo) (hi_at bs hi) t"
    using A r(2) bnd_exchange(1) [of lo hi INVALID_PAGE_ID pre k t bs] by (auto simp: tree_ok_def)
  show "m q \<noteq> None" if "q \<in> all_pids pre \<union> all_pids bs" for q
    using that rep_dom(2) r(1,3) by blast
qed (use assms in \<open>auto simp: forest_ok_def\<close>)

lemma forest_replace:
  assumes "forest_ok T n m e lo hi (pre @ (k, t) # bs)"
    and "\<And>p. m p \<noteq> None \<Longrightarrow> p \<notin> set (pids t) \<Longrightarrow> m' p = m p"
    and "tree_ok T n m' (first_of bs e) (lo_at pre k lo) (hi_at bs hi) t'" and "first_leaf t' = first_leaf t"
    and "set (pids t') \<subseteq> set (pids t) \<union> {p. m p = None}"
  shows "forest_ok T n m' e lo hi (pre @ (k, t') # bs)"
proof -
  note C = forest_child [OF assms(1)]
  have same: "m' q = m q" if "q \<in> all_pids pre \<union> all_pids bs" for q
    using assms(2) C(2,4,11) that by blast
  have "reps m' (first_leaf t') pre" "reps m' e bs"
    using rep_cong(2) [OF C(7), of m'] rep_cong(2) [OF C(8), of m'] same assms(4) by auto
  moreover have "bnd lo hi (Nd INVALID_PAGE_ID (pre @ (k, t') # bs))"
    using assms(1,3) bnd_exchange(2) [of lo hi INVALID_PAGE_ID pre k t bs t'] by (auto simp: forest_ok_def tree_ok_def)
  moreover have "all_pids pre \<inter> set (pids t') = {}" "set (pids t') \<inter> all_pids bs = {}"
    using assms(5) C(2,4,11) by fastforce+
  ultimately show ?thesis
    using assms(3) C(3,5,6,9,10) by (auto simp: forest_ok_def tree_ok_def reps_append)
qed

lemma forest_split_child:
  assumes "forest_ok T n m e lo hi (pre @ (k, t) # bs)"
    and "\<And>p. m p \<noteq> None \<Longrightarrow> p \<notin> set (pids t) \<Longrightarrow> m' p = m p"
    and "tree_ok T n m' (first_leaf t2) (lo_at pre k lo) (Some k') t1" and "first_leaf t1 = first_leaf t"
    and "tree_ok T n m' (first_of bs e) (Some k') (hi_at bs hi) t2"
    and "over (lo_at pre k lo) k'" and "below k' (hi_at bs hi)" and "set (pids t1) \<inter> set (pids t2) = {}"
    and "set (pids t1) \<union> set (pids t2) \<subseteq> set (pids t) \<union> {p. m p = None}"
  shows "forest_ok T n m' e lo hi (pre @ (k, t1) # (k', t2) # bs)"
proof -
  note C = forest_child [OF assms(1)]
  have same: "m' q = m q" if "q \<in> all_pids pre \<union> all_pids bs" for q
    using assms(2) C(2,4,11) that by blast
  have "reps m' (first_leaf t1) pre" "reps m' e bs"
    using rep_cong(2) [OF C(7), of m'] rep_cong(2) [OF C(8), of m'] same assms(4) by auto
  moreover have "bnd lo hi (Nd INVALID_PAGE_ID (pre @ (k, t1) # (k', t2) # bs))"
    using assms(1,3,5-7) bnd_exchange(3) [of lo hi INVALID_PAGE_ID pre k t bs k' t1 t2]
    by (auto simp: forest_ok_def tree_ok_def)
  moreover have "all_pids pre \<inter> (set (pids t1) \<union> set (pids t2)) = {}" "(set (pids t1) \<union> set (pids t2)) \<inter> all_pids bs = {}"
    using assms(9) C(2,4,11) by fastforce+
  ultimately show ?thesis
    using assms(3,5,8) C(3,5,6,9,10) by (auto simp: forest_ok_def tree_ok_def reps_append)
qed

abbreviation all_entries :: "(i32 \<times> btree) list \<Rightarrow> (i32 \<times> RID) list" where
  "all_entries cs \<equiv> concat (map (\<lambda>c. entries (snd c)) cs)"

text \<open>The children of a node after an insertion into one of them.\<close>

lemma forest_insert:
  assumes "forest_ok T n m e lo hi (pre @ (k, t) # bs)"
    and "inserted T n m (first_of bs e) (lo_at pre k lo) (hi_at bs hi) t key rid m' r"
    and "above (lo_at pre k lo) key" and "below key (hi_at bs hi)" and cs_def: "cs = pre @ (k, t) # bs"
  shows "\<exists>cs'. forest_ok T n m' e lo hi cs' \<and> cs' \<noteq> [] \<and> first_of cs' e = first_of cs e \<and>
    all_entries cs' = upd key rid (all_entries cs) \<and> all_pids cs' = all_pids cs \<union> (dom m' - dom m) \<and>
    ((\<forall>c \<in> set cs. packed T (snd c)) \<longrightarrow> (\<forall>c \<in> set cs'. packed T (snd c))) \<and>
    (\<forall>p. m p \<noteq> None \<longrightarrow> p \<notin> all_pids cs \<longrightarrow> m' p = m p) \<and>
    (case r of None \<Rightarrow> kids cs' = kids cs
      | Some (k', q) \<Rightarrow> kids cs' = hd (kids cs) # put_sorted k' q (tl (kids cs)))"
proof -
  note I = assms(2) [unfolded inserted_def]
  have B: "bnd lo hi (Nd INVALID_PAGE_ID (pre @ (k, t) # bs))" using assms(1) by (simp add: forest_ok_def)
  have frame: "\<And>p. m p \<noteq> None \<Longrightarrow> p \<notin> set (pids t) \<Longrightarrow> m' p = m p" using I by blast
  have upd: "upd key rid (all_entries cs) = all_entries pre @ upd key rid (entries t) @ all_entries bs"
    unfolding cs_def using bnd_exchange(5,7) [OF B] assms(3,4)
    by (simp, intro upd_middle) auto
  show ?thesis
  proof (cases r)
    case None
    then obtain t' where t': "root_of t' = root_of t" "first_leaf t' = first_leaf t"
        "tree_ok T n m' (first_of bs e) (lo_at pre k lo) (hi_at bs hi) t'" "entries t' = upd key rid (entries t)"
        "set (pids t') = set (pids t) \<union> (dom m' - dom m)" "packed T t \<longrightarrow> packed T t'"
      using I by auto
    have "set (pids t') \<subseteq> set (pids t) \<union> {p. m p = None}" using t'(5) by auto
    then have "forest_ok T n m' e lo hi (pre @ (k, t') # bs)"
      using forest_replace [OF assms(1) frame t'(3,2)] by blast
    then show ?thesis
      by (intro exI [of _ "pre @ (k, t') # bs"]) (use t' upd frame None in \<open>auto simp: cs_def\<close>)
  next
    case (Some kq)
    then obtain t1 t2 k' where t: "kq = (k', root_of t2)" "root_of t1 = root_of t" "first_leaf t1 = first_leaf t"
        "tree_ok T n m' (first_leaf t2) (lo_at pre k lo) (Some k') t1" "tree_ok T n m' (first_of bs e) (Some k') (hi_at bs hi) t2"
        "over (lo_at pre k lo) k'" "below k' (hi_at bs hi)" "entries t1 @ entries t2 = upd key rid (entries t)"
        "set (pids t1) \<inter> set (pids t2) = {}" "set (pids t1) \<union> set (pids t2) = set (pids t) \<union> (dom m' - dom m)"
        "packed T t \<longrightarrow> packed T t1 \<and> packed T t2"
      using I by (cases kq) auto
    have "set (pids t1) \<union> set (pids t2) \<subseteq> set (pids t) \<union> {p. m p = None}" using t(10) by auto
    then have "forest_ok T n m' e lo hi (pre @ (k, t1) # (k', t2) # bs)"
      using forest_split_child [OF assms(1) frame t(4,3,5,6,7,9)] by blast
    moreover have "all_pids (pre @ (k, t1) # (k', t2) # bs) = all_pids cs \<union> (dom m' - dom m)" using t(10) by (auto simp: cs_def)
    moreover have "kids (pre @ (k, t1) # (k', t2) # bs) = hd (kids cs) # put_sorted k' (root_of t2) (tl (kids cs))"
      unfolding cs_def using put_sorted_kids [OF B bound_trans(2) [OF t(6)] t(7), of "root_of t2"] t(2) by simp
    ultimately show ?thesis
      by (intro exI [of _ "pre @ (k, t1) # (k', t2) # bs"]) (use t(1,3,8,11) upd frame Some in \<open>auto simp: cs_def\<close>)
  qed
qed

lemma inode_page_size: "inode_page d cs \<Longrightarrow> length d = PAGE_SIZE"
  by (simp add: inode_page_def)

text \<open>The separator is added to a node that has room for it.\<close>

lemma add_separator_fits:
  assumes "bpm_idle b m k l" and "1 < k" and "m p = Some d" and "inode_page d (kids cs)" and "cs \<noteq> []"
    and "int (length cs) < internal_max_size T" and "sizes_ok T"
    and "kids cs' = hd (kids cs) # put_sorted k' q (tl (kids cs))"
  shows "\<exists>b' d'. add_separator T p (k', q) b = (Ok None, b') \<and> bpm_idle b' (m(p \<mapsto> d')) k l \<and> inode_page d' (kids cs')"
proof -
  obtain c rest where cs: "kids cs = c # rest" using assms(5) by (cases cs) auto
  then have "Suc (length rest) = length cs" by (metis length_Cons length_map)
  then have cap: "Suc (length rest) < INTERNAL_CAPACITY" using assms(6,7) by (simp add: sizes_ok_def capacities)
  obtain d' where d': "Internal_InsertEntry k' q d = Ok d'" "inode_page d' (kids cs')"
    using Internal_InsertEntry_ok [OF assms(4) [unfolded cs] cap, of k' q] assms(8) cs by auto
  have "0 < k" using assms(2) by simp
  then obtain f b1 b2 where b2: "FetchPage p b = (Ok (Some f), b1)" "GetData f b1 = d"
      "UnpinPage p True (SetData f d' b1) = (Ok True, b2)" "bpm_idle b2 (m(p \<mapsto> d')) k l"
    using bp.change_page [OF assms(1) _ assms(3)] inode_page_size [OF d'(2)] by blast
  have "length (kids cs') = Suc (length cs)"
    unfolding assms(8) cs put_sorted_def using \<open>Suc (length rest) = length cs\<close>
    by (simp, metis length_append takeWhile_dropWhile_id)
  then have "node_size d' \<le> internal_max_size T" using d'(2) assms(6) by (simp add: inode_page_def)
  then have "add_separator T p (k', q) b = (Ok None, b2)"
    using b2 d'(1) by (simp add: add_separator_def must_fetch_def)
  with b2(4) d'(2) show ?thesis by blast
qed

lemma add_separator_split:
  assumes "bpm_idle b m k l" and "1 < k" and "0 < l" and "m p = Some d" and "inode_page d (kids cs)" and "cs \<noteq> []"
    and "int (length cs) = internal_max_size T" and "sizes_ok T" and "length cs < 510"
    and "kids cs' = hd (kids cs) # put_sorted k' q (tl (kids cs))" and n_def: "n = length cs' div 2"
  shows "\<exists>b' d1 d2 q'. add_separator T p (k', q) b = (Ok (Some (fst (cs' ! n), q')), b') \<and>
    bpm_idle b' (m(p \<mapsto> d1, q' \<mapsto> d2)) k (l - 1) \<and> m q' = None \<and> q' \<noteq> p \<and> 2 \<le> n \<and> n + 2 \<le> length cs' \<and>
    int n \<le> internal_max_size T \<and> int (length cs' - n) \<le> internal_max_size T \<and>
    inode_page d1 (kids (take n cs')) \<and> inode_page d2 (kids ((mk32 0, snd (cs' ! n)) # drop (Suc n) cs'))"
proof -
  obtain c rest where cs: "kids cs = c # rest" using assms(6) by (cases cs) auto
  then have "Suc (length rest) = length cs" by (metis length_Cons length_map)
  then have cap: "Suc (length rest) < INTERNAL_CAPACITY" using assms(9) by (simp add: capacities)
  obtain d' where d': "Internal_InsertEntry k' q d = Ok d'" "inode_page d' (kids cs')"
    using Internal_InsertEntry_ok [OF assms(5) [unfolded cs] cap, of k' q] assms(10) cs by auto
  have "length (kids cs') = Suc (length cs)"
    unfolding assms(10) cs put_sorted_def using \<open>Suc (length rest) = length cs\<close>
    by (simp, metis length_append takeWhile_dropWhile_id)
  then have len: "length cs' = Suc (length cs)" by simp
  then have n: "2 \<le> length (kids cs')" "2 \<le> n" "n + 2 \<le> length cs'" "int n \<le> internal_max_size T"
      "int (length cs' - n) \<le> internal_max_size T"
    using assms(7,8) by (auto simp: sizes_ok_def n_def)
  have nk: "n = length (kids cs') div 2" by (simp add: n_def)
  obtain f b1 q' g b2 where b2: "FetchPage p b = (Ok (Some f), b1)" "GetData f b1 = d"
      "NewPage (SetData f d' b1) = (Ok (Some (q', g)), b2)" "m q' = None" "q' \<noteq> p" "GetData f b2 = d'"
      "GetData g b2 = zero_page"
      "\<And>bp bq. length bp = PAGE_SIZE \<Longrightarrow> length bq = PAGE_SIZE \<Longrightarrow>
        \<exists>b3 b4. UnpinPage q' True (SetData f bp (SetData g bq b2)) = (Ok True, b3) \<and>
          UnpinPage p True b3 = (Ok True, b4) \<and> bpm_idle b4 (m(p \<mapsto> bp, q' \<mapsto> bq)) k (l - 1)"
    using bp.split_page [OF assms(1-4)] inode_page_size [OF d'(2)] by metis
  obtain d1 d2 where d12: "inode_page d1 (take n (kids cs'))"
      "inode_page d2 ((mk32 0, snd (kids cs' ! n)) # drop (Suc n) (kids cs'))"
      "\<And>b3 b4. UnpinPage q' True (SetData f d1 (SetData g d2 b2)) = (Ok True, b3) \<Longrightarrow>
        UnpinPage p True b3 = (Ok True, b4) \<Longrightarrow>
        split_internal p f (SetData f d' b1) = (Ok (Some (fst (kids cs' ! n), q')), b4)"
    using split_internal_eq [OF b2(3,6,7) d'(2) n(1) length_zero_page nk, of p] by blast
  obtain b3 b4 where b4: "UnpinPage q' True (SetData f d1 (SetData g d2 b2)) = (Ok True, b3)"
      "UnpinPage p True b3 = (Ok True, b4)" "bpm_idle b4 (m(p \<mapsto> d1, q' \<mapsto> d2)) k (l - 1)"
    using b2(8) inode_page_size d12(1,2) by blast
  have "\<not> node_size d' \<le> internal_max_size T" using d'(2) assms(7) len by (simp add: inode_page_def)
  then have "add_separator T p (k', q) b = (Ok (Some (fst (cs' ! n), q')), b4)"
    using b2(1,2) d'(1) d12(3) [OF b4(1,2)] n(3) by (simp add: add_separator_def must_fetch_def)
  then show ?thesis
    using b4(3) b2(4,5) n d12(1,2) by (intro exI conjI) (assumption | simp add: take_map drop_map)+
qed

text \<open>The node over the new children, whole or split.\<close>

lemma node_whole:
  assumes "forest_ok T n m1 e lo hi cs'" and "cs' \<noteq> []" and "cs \<noteq> []" and "first_of cs' e = first_of cs e"
    and "all_entries cs' = upd key rid (all_entries cs)" and "all_pids cs' = all_pids cs \<union> (dom m1 - dom m)"
    and "(\<forall>c \<in> set cs. packed T (snd c)) \<longrightarrow> (\<forall>c \<in> set cs'. packed T (snd c))"
    and "\<And>p. m p \<noteq> None \<Longrightarrow> p \<notin> all_pids cs \<Longrightarrow> m1 p = m p" and "dom m \<subseteq> dom m1"
    and "m p \<noteq> None" and "p \<notin> all_pids cs" and "2 \<le> length cs'" and "int (length cs') \<le> internal_max_size T"
    and "m2 p = Some d'" and "inode_page d' (kids cs')" and "\<And>q. q \<noteq> p \<Longrightarrow> m2 q = m1 q"
  shows "inserted T (Suc n) m e lo hi (Nd p cs) key rid m2 None"
proof (rule insertedI_None [of "Nd p cs'"])
  have p: "p \<notin> all_pids cs'" using assms(6,10,11) by auto
  have "m2 r = m1 r" if "r \<in> all_pids cs'" for r
  proof (rule assms(16))
    show "r \<noteq> p" using that p by blast
  qed
  then have "forest_ok T n m2 e lo hi cs'" by (rule forest_cong [OF assms(1)])
  then show "tree_ok T (Suc n) m2 e lo hi (Nd p cs')" using p assms(12-15) by (auto simp: tree_ok_Nd)
  show "first_leaf (Nd p cs') = first_leaf (Nd p cs)"
    using first_leaf_Nd [OF assms(2), of p e] first_leaf_Nd [OF assms(3), of p e] assms(4) by simp
  have p1: "p \<in> dom m1" using assms(9,10) by blast
  have dom: "dom m2 = dom m1"
  proof (rule set_eqI)
    show "r \<in> dom m2 \<longleftrightarrow> r \<in> dom m1" for r using assms(14) assms(16) [of r] p1 by (cases "r = p") (simp_all add: domIff)
  qed
  show "set (pids (Nd p cs')) = set (pids (Nd p cs)) \<union> (dom m2 - dom m)" using assms(6) dom by auto
  show "dom m \<subseteq> dom m2" using assms(9) dom by simp
  show "m2 q = m q" if "m q \<noteq> None" "q \<notin> set (pids (Nd p cs))" for q
    using that assms(8,16) by simp
qed (use assms(5,7) in simp_all)

lemma node_halves:
  assumes "forest_ok T n m1 e lo hi cs'" and "cs' \<noteq> []" and "cs \<noteq> []" and "first_of cs' e = first_of cs e"
    and "all_entries cs' = upd key rid (all_entries cs)" and "all_pids cs' = all_pids cs \<union> (dom m1 - dom m)"
    and packed: "(\<forall>c \<in> set cs. packed T (snd c)) \<longrightarrow> (\<forall>c \<in> set cs'. packed T (snd c))"
    and "\<And>p. m p \<noteq> None \<Longrightarrow> p \<notin> all_pids cs \<Longrightarrow> m1 p = m p" and "dom m \<subseteq> dom m1"
    and "m p \<noteq> None" and "p \<notin> all_pids cs" and "m1 q = None" and "q \<noteq> p" and "2 \<le> h" and "h + 2 \<le> length cs'"
    and "int h \<le> internal_max_size T" and "int (length cs' - h) \<le> internal_max_size T"
    and "inode_page d1 (kids (take h cs'))" and "inode_page d2 (kids ((mk32 0, snd (cs' ! h)) # drop (Suc h) cs'))"
    and m2_def: "m2 = m1(p \<mapsto> d1, q \<mapsto> d2)"
  shows "inserted T (Suc n) m e lo hi (Nd p cs) key rid m2 (Some (fst (cs' ! h), q))"
proof -
  define xs k t ys where "xs = take h cs'" and "k = fst (cs' ! h)" and "t = snd (cs' ! h)" and "ys = drop (Suc h) cs'"
  let ?t1 = "Nd p xs" and ?t2 = "Nd q ((mk32 0, t) # ys)"
  have h: "h < length cs'" using assms(15) by simp
  have cs': "cs' = xs @ (k, t) # ys" using id_take_nth_drop [OF h] by (simp add: xs_def k_def t_def ys_def)
  have xs: "xs \<noteq> []" using assms(14) h by (auto simp: xs_def)
  note F = forest_split [OF assms(1) [unfolded cs'] xs]
  have pids: "all_pids cs' = all_pids xs \<union> (set (pids t) \<union> all_pids ys)" by (subst cs') auto
  have dis: "all_pids xs \<inter> (set (pids t) \<union> all_pids ys) = {}"
    using assms(1) [unfolded cs'] by (auto simp: forest_ok_def)
  have "m1 r \<noteq> None" if "r \<in> all_pids cs'" for r
    using that rep_dom(2) assms(1) by (metis (no_types, lifting) UN_E forest_ok_def)
  then have q: "q \<notin> all_pids cs'" using assms(12) by blast
  have p: "p \<notin> all_pids cs'" using assms(6,10,11) by auto
  have q_fresh: "m q = None" using assms(9,12) by (metis domIff subsetD)
  have dom: "dom m2 = insert q (dom m1)" using assms(9,10) by (auto simp: m2_def)
  have same: "m2 r = m1 r" if "r \<in> all_pids cs'" for r using that p q by (auto simp: m2_def)
  have f1: "forest_ok T n m2 (first_leaf t) lo (Some k) xs"
    by (rule forest_cong [OF F(1)]) (use same pids in blast)
  have f2: "forest_ok T n m2 e (Some k) hi ((mk32 0, t) # ys)"
    by (rule forest_cong [OF F(2)]) (use same pids in auto)
  have len: "length xs = h" "length ((mk32 0, t) # ys) = length cs' - h"
    using h by (simp_all add: xs_def ys_def)
  have "inserted T (Suc n) m e lo hi (Nd p cs) key rid m2 (Some (k, root_of ?t2))"
  proof (rule insertedI_Some [of ?t1])
    show "tree_ok T (Suc n) m2 (first_leaf ?t2) lo (Some k) ?t1"
      using f1 assms(13,14,16,18) len(1) p pids by (simp add: tree_ok_Nd m2_def xs_def)
    show "tree_ok T (Suc n) m2 e (Some k) hi ?t2"
      using f2 assms(15,17,19) len(2) q pids by (simp add: tree_ok_Nd m2_def t_def ys_def)
    show "first_leaf ?t1 = first_leaf (Nd p cs)"
      using first_leaf_Nd [OF xs, of p "first_leaf t"] first_leaf_Nd [OF assms(3), of p e] assms(4) cs' by simp
    show "entries ?t1 @ entries ?t2 = upd key rid (entries (Nd p cs))"
      using assms(5) cs' by simp
    show "set (pids ?t1) \<inter> set (pids ?t2) = {}" using dis p q pids assms(13) by auto
    have "set (pids ?t1) \<union> set (pids ?t2) = insert p (insert q (all_pids cs'))" using pids by auto
    also have "\<dots> = set (pids (Nd p cs)) \<union> (dom m2 - dom m)" unfolding assms(6) dom using q_fresh by auto
    finally show "set (pids ?t1) \<union> set (pids ?t2) = set (pids (Nd p cs)) \<union> (dom m2 - dom m)" .
    show "packed T ?t1 \<and> packed T ?t2" if "Suc n = 0 \<or> packed T (Nd p cs)"
      using that packed unfolding cs' by simp
    show "dom m \<subseteq> dom m2" using assms(9) dom by blast
    show "m2 r = m r" if "m r \<noteq> None" "r \<notin> set (pids (Nd p cs))" for r
      using that assms(8) q_fresh by (auto simp: m2_def)
  qed (use F in simp_all)
  then show ?thesis by (simp add: k_def)
qed

lemma kids_length: "kids cs' = hd (kids cs) # put_sorted k q (tl (kids cs)) \<Longrightarrow> cs \<noteq> [] \<Longrightarrow> length cs' = Suc (length cs)"
proof -
  assume a: "kids cs' = hd (kids cs) # put_sorted k q (tl (kids cs))" "cs \<noteq> []"
  have len: "length (put_sorted k q xs) = Suc (length xs)" for xs :: "(i32 \<times> page_id_t) list"
    unfolding put_sorted_def by (simp, metis length_append takeWhile_dropWhile_id)
  have "length cs' = length (kids cs')" by simp
  also have "\<dots> = Suc (Suc (length (tl (kids cs))))" unfolding a(1) using len by simp
  finally show ?thesis using a(2) by simp
qed

lemma after_child_ok:
  assumes "bpm_idle b m1 k l" and "1 < k" and "0 < l" and "sizes_ok T" and "tree_ok T (Suc n) m e lo hi (Nd p cs)"
    and "cs = pre @ (kc, t) # bs" and "above (lo_at pre kc lo) key" and "below key (hi_at bs hi)"
    and "inserted T n m (first_of bs e) (lo_at pre kc lo) (hi_at bs hi) t key rid m1 r" and "length cs < 510"
  shows "\<exists>r' b' m' l'. after_child T p (Ok r, b) = (Ok r', b') \<and> bpm_idle b' m' k l' \<and> l - 1 \<le> l' \<and>
    inserted T (Suc n) m e lo hi (Nd p cs) key rid m' r'"
proof -
  obtain d where d: "m p = Some d" "inode_page d (kids cs)" and sz: "int (length cs) \<le> internal_max_size T" "2 \<le> length cs"
    and p: "p \<notin> all_pids cs" and F: "forest_ok T n m e lo hi cs"
    using assms(5) by (auto simp: tree_ok_Nd)
  have cs: "cs \<noteq> []" using assms(6) by simp
  obtain cs' where C: "forest_ok T n m1 e lo hi cs'" "cs' \<noteq> []" "first_of cs' e = first_of cs e"
      "all_entries cs' = upd key rid (all_entries cs)" "all_pids cs' = all_pids cs \<union> (dom m1 - dom m)"
      "(\<forall>c \<in> set cs. packed T (snd c)) \<longrightarrow> (\<forall>c \<in> set cs'. packed T (snd c))"
      "\<And>p. m p \<noteq> None \<Longrightarrow> p \<notin> all_pids cs \<Longrightarrow> m1 p = m p"
      and K: "case r of None \<Rightarrow> kids cs' = kids cs | Some (k', q) \<Rightarrow> kids cs' = hd (kids cs) # put_sorted k' q (tl (kids cs))"
    using forest_insert [OF F [unfolded assms(6)] assms(9,7,8,6)] by blast
  have dom: "dom m \<subseteq> dom m1" using assms(9) by (simp add: inserted_def)
  have mp: "m p \<noteq> None" "m1 p = Some d" using d(1) C(7) p by auto
  note whole = node_whole [OF C(1,2) cs C(3-7) dom mp(1) p]
  show ?thesis
  proof (cases r)
    case None
    then have kids: "kids cs' = kids cs" using K by simp
    then have "length cs' = length cs" by (metis length_map)
    then have "inserted T (Suc n) m e lo hi (Nd p cs) key rid m1 None"
      using whole [of m1 d] sz d(2) mp(2) kids by simp
    then show ?thesis
      using None assms(1) by (intro exI [of _ None] exI [of _ b] exI [of _ m1] exI [of _ l]) (simp add: after_child_def)
  next
    case (Some kq)
    then obtain k' q where kq: "kq = (k', q)" "kids cs' = hd (kids cs) # put_sorted k' q (tl (kids cs))"
      using K by (cases kq) auto
    have ac: "after_child T p (Ok r, b) = add_separator T p (k', q) b" using Some kq by (simp add: after_child_def)
    have len: "length cs' = Suc (length cs)" using kids_length [OF kq(2) cs] .
    show ?thesis
    proof (cases "int (length cs) < internal_max_size T")
      case True
      obtain b' d' where b': "add_separator T p (k', q) b = (Ok None, b')" "bpm_idle b' (m1(p \<mapsto> d')) k l" "inode_page d' (kids cs')"
        using add_separator_fits [OF assms(1,2) mp(2) d(2) cs True assms(4) kq(2)] by blast
      have "inserted T (Suc n) m e lo hi (Nd p cs) key rid (m1(p \<mapsto> d')) None"
        using whole [of "m1(p \<mapsto> d')" d'] True sz(2) len b'(3) by simp
      with ac b'(1,2) show ?thesis by (metis diff_le_self)
    next
      case False
      then have full: "int (length cs) = internal_max_size T" using sz by simp
      obtain b' d1 d2 q' where b': "add_separator T p (k', q) b = (Ok (Some (fst (cs' ! (length cs' div 2)), q')), b')"
          "bpm_idle b' (m1(p \<mapsto> d1, q' \<mapsto> d2)) k (l - 1)" "m1 q' = None" "q' \<noteq> p" "2 \<le> length cs' div 2"
          "length cs' div 2 + 2 \<le> length cs'" "int (length cs' div 2) \<le> internal_max_size T"
          "int (length cs' - length cs' div 2) \<le> internal_max_size T" "inode_page d1 (kids (take (length cs' div 2) cs'))"
          "inode_page d2 (kids ((mk32 0, snd (cs' ! (length cs' div 2))) # drop (Suc (length cs' div 2)) cs'))"
        using add_separator_split [OF assms(1-3) mp(2) d(2) cs full assms(4,10) kq(2) refl] by blast
      have "inserted T (Suc n) m e lo hi (Nd p cs) key rid (m1(p \<mapsto> d1, q' \<mapsto> d2)) (Some (fst (cs' ! (length cs' div 2)), q'))"
        by (rule node_halves [OF C(1,2) cs C(3-7) dom mp(1) p b'(3-10) refl])
      with ac b'(1,2) show ?thesis by (metis order_refl)
    qed
  qed
qed

subsection \<open>The whole tree\<close>

lemma packed_entries: "packed T t \<Longrightarrow> shaped T n t \<Longrightarrow> 2 \<le> leaf_max_size T \<Longrightarrow> leaf_max_size T div 2 \<le> int (length (entries t))"
proof (induction T t arbitrary: n rule: packed.induct)
  case (2 T p cs)
  then obtain c cs' where cs: "cs = c # cs'" by (cases cs) auto
  obtain n' where "shaped T n' (snd c)" using "2.prems"(2) by (auto simp: cs)
  then have "leaf_max_size T div 2 \<le> int (length (entries (snd c)))" using "2.IH" [of c n'] "2.prems" by (simp add: cs)
  then show ?case by (simp add: cs)
qed simp

lemma packed_children:
  "(\<forall>c \<in> set cs. packed T (snd c) \<and> shaped T n (snd c)) \<Longrightarrow> 2 \<le> leaf_max_size T \<Longrightarrow>
   int (length cs) * (leaf_max_size T div 2) \<le> int (length (all_entries cs))"
proof (induction cs)
  case (Cons c cs)
  then show ?case using packed_entries [of T "snd c" n] by (simp add: algebra_simps)
qed simp

text \<open>
  A node with 510 children has no room for one more. With a maximal size below 510 it is split
  before; with a maximal size of 510 there is none as long as the leaves, all half full, are fewer than 510.
\<close>

definition roomy :: "BPlusTree \<Rightarrow> nat \<Rightarrow> btree \<Rightarrow> bool" where
  "roomy T n t \<longleftrightarrow> internal_max_size T < 510 \<or> n = 0 \<or>
     packed T t \<and> int (length (entries t)) < 510 * (leaf_max_size T div 2)"

lemma roomy_node:
  assumes "roomy T (Suc n) (Nd p cs)" and "tree_ok T (Suc n) m e lo hi (Nd p cs)" and "sizes_ok T"
  shows "length cs < 510" "c \<in> set cs \<Longrightarrow> roomy T n (snd c)"
proof -
  have sh: "int (length cs) \<le> internal_max_size T" "\<forall>c \<in> set cs. shaped T n (snd c)" using assms(2) by (auto simp: tree_ok_def)
  show "length cs < 510"
  proof (cases "internal_max_size T < 510")
    case False
    then have P: "\<forall>c \<in> set cs. packed T (snd c)" "int (length (all_entries cs)) < 510 * (leaf_max_size T div 2)"
      using assms(1) by (auto simp: roomy_def)
    moreover have "int (length cs) * (leaf_max_size T div 2) \<le> int (length (all_entries cs))"
      using packed_children [of cs T n] P(1) sh(2) assms(3) by (simp add: sizes_ok_def)
    ultimately have "int (length cs) * (leaf_max_size T div 2) < 510 * (leaf_max_size T div 2)" by linarith
    moreover have "0 < leaf_max_size T div 2" using assms(3) unfolding sizes_ok_def by linarith
    ultimately have "int (length cs) < 510" by (simp only: mult_less_cancel_right_pos)
    then show ?thesis by simp
  qed (use sh(1) in simp)
  assume c: "c \<in> set cs"
  then obtain as bs where "cs = as @ c # bs" by (meson split_list)
  then have "length (entries (snd c)) \<le> length (all_entries cs)" by simp
  then show "roomy T n (snd c)" using assms(1) c by (auto simp: roomy_def)
qed

lemma InsertInPage_ok:
  assumes "bpm_idle b m k l" and "1 < k" and "n < l" and "tree_ok T n m e lo hi t" and "sizes_ok T"
    and "above lo key" and "below key hi" and "roomy T n t"
  shows "\<exists>r b' m' l'. InsertInPage T (root_of t) key rid b = Some (Ok r, b') \<and> bpm_idle b' m' k l' \<and>
    l - Suc n \<le> l' \<and> inserted T n m e lo hi t key rid m' r"
  using assms(1,3,4,6,7,8)
proof (induction n arbitrary: t b lo hi e)
  case 0
  then obtain p es where t: "t = Lf p es" by (cases t) (auto simp: tree_ok_def)
  then obtain d where d: "m p = Some d" "PageType d = NODE_LEAF" using 0 by (auto simp: tree_ok_def leaf_page_def)
  have "0 < k" using assms(2) by simp
  then obtain f b1 b2 where b2: "FetchPage p b = (Ok (Some f), b1)" "GetData f b1 = d"
      "UnpinPage p False b1 = (Ok True, b2)" "bpm_idle b2 m k l"
    using bp.read_page [OF 0(1) _ d(1)] by blast
  then have "InsertInPage T p key rid b = Some (InsertInLeaf T p key rid b2)"
    using d(2) by (simp add: InsertInPage.simps [of T p])
  moreover have "\<exists>r b' m' l'. InsertInLeaf T p key rid b2 = (Ok r, b') \<and> bpm_idle b' m' k l' \<and> l - 1 \<le> l' \<and>
      inserted T 0 m e lo hi (Lf p es) key rid m' r"
    using InsertInLeaf_ok [OF b2(4) assms(2) 0(2) 0(3) [unfolded t] assms(5) 0(4,5)] by blast
  ultimately show ?case by (simp add: t)
next
  case (Suc n)
  then obtain p cs where t: "t = Nd p cs" by (cases t) (auto simp: tree_ok_def)
  note T = Suc.prems(3) [unfolded t]
  obtain d where d: "m p = Some d" "inode_page d (kids cs)" and F: "forest_ok T n m e lo hi cs"
    using T by (auto simp: tree_ok_Nd)
  have ty: "PageType d \<noteq> NODE_LEAF" using d(2) by (simp add: inode_page_def)
  have "bnd lo hi (Nd p cs)" using T by (simp add: tree_ok_def)
  then obtain pre kc c bs where c: "cs = pre @ (kc, c) # bs" "Lookup d key = Ok (root_of c)"
      "above (lo_at pre kc lo) key" "below key (hi_at bs hi)"
    using Lookup_child [OF d(2) _ Suc.prems(4,5)] by blast
  have k: "0 < k" using assms(2) by simp
  then obtain f b1 b2 where b2: "FetchPage p b = (Ok (Some f), b1)" "GetData f b1 = d"
      "UnpinPage p False b1 = (Ok True, b2)" "bpm_idle b2 m k l"
    using bp.read_page [OF Suc.prems(1) _ d(1)] by blast
  obtain g b3 b4 where b4: "FetchPage p b2 = (Ok (Some g), b3)" "GetData g b3 = d"
      "UnpinPage p False b3 = (Ok True, b4)" "bpm_idle b4 m k l"
    using bp.read_page [OF b2(4) k d(1)] by blast
  note M = roomy_node [OF Suc.prems(6) [unfolded t] T assms(5)]
  have few: "length cs < 510" and rc: "roomy T n c" using M(1) M(2) [of "(kc, c)"] c(1) by simp_all
  have "n < l" using Suc.prems(2) by simp
  then obtain r b5 m1 l1 where R: "InsertInPage T (root_of c) key rid b4 = Some (Ok r, b5)" "bpm_idle b5 m1 k l1" "l - Suc n \<le> l1"
      "inserted T n m (first_of bs e) (lo_at pre kc lo) (hi_at bs hi) c key rid m1 r"
    using Suc.IH [OF b4(4) _ forest_child(1) [OF F [unfolded c(1)]] c(3,4) rc] by blast
  have "0 < l1" using R(3) Suc.prems(2) by linarith
  then obtain r' b' m' l' where A: "after_child T p (Ok r, b5) = (Ok r', b')" "bpm_idle b' m' k l'" "l1 - 1 \<le> l'"
      "inserted T (Suc n) m e lo hi (Nd p cs) key rid m' r'"
    using after_child_ok [OF R(2) assms(2) _ assms(5) T c(1,3,4) R(4) few] by blast
  have "InsertInPage T p key rid b = Some (Ok r', b')"
    using b2 b4 ty c(2) R(1) A(1) by (simp add: InsertInPage.simps [of T p] must_fetch_def)
  moreover have "l - Suc (Suc n) \<le> l'" using R(3) A(3) by linarith
  ultimately show ?case using A(2,4) t by auto
qed

text \<open>
  \<open>index_ok T m n P xs\<close>: the index has the entries \<open>xs\<close>, on the pages \<open>P\<close>, and its leaves are \<open>n\<close>
  levels below the root.
\<close>

definition index_ok :: "BPlusTree \<Rightarrow> (page_id_t \<Rightarrow> byte list option) \<Rightarrow> nat \<Rightarrow> page_id_t set \<Rightarrow>
    (i32 \<times> RID) list \<Rightarrow> bool" where
  "index_ok T m n P xs \<longleftrightarrow> sizes_ok T \<and>
     (if root_page_id T = INVALID_PAGE_ID then n = 0 \<and> P = {} \<and> xs = []
      else \<exists>t. root_of t = root_page_id T \<and> tree_ok T n m INVALID_PAGE_ID None None t \<and> (n = 0 \<or> packed T t) \<and>
        P = set (pids t) \<and> xs = entries t)"

text \<open>No node has as many children as a page can hold.\<close>

definition nodes_fit :: "BPlusTree \<Rightarrow> nat \<Rightarrow> bool" where
  "nodes_fit T n \<longleftrightarrow> internal_max_size T < 510 \<or> int n \<le> 510 * (leaf_max_size T div 2)"

lemma index_sorted: "index_ok T m n P xs \<Longrightarrow> sorted_wrt (<) (map fst xs)"
  using bnd_entries(1) by (auto simp: index_ok_def tree_ok_def split: if_splits)

lemma index_pages: "index_ok T m n P xs \<Longrightarrow> p \<in> P \<Longrightarrow> m p \<noteq> None"
  using rep_dom(1) by (auto simp: index_ok_def tree_ok_def split: if_splits)

lemma shaped_root [simp]: "shaped (T\<lparr>root_page_id := p\<rparr>) n t = shaped T n t"
  by (induction T n t rule: shaped.induct) auto

lemma packed_root [simp]: "packed (T\<lparr>root_page_id := p\<rparr>) t = packed T t"
  by (induction T t rule: packed.induct) auto

lemma tree_ok_root [simp]: "tree_ok (T\<lparr>root_page_id := p\<rparr>) n m e lo hi t = tree_ok T n m e lo hi t"
  by (simp add: tree_ok_def)

lemma plant_root_ok:
  assumes "bpm_idle b m k l" and "1 < k" and "0 < l" and "sizes_ok T"
  shows "\<exists>p b' m'. plant_root key rid T b = (Ok (), (T\<lparr>root_page_id := p\<rparr>, b')) \<and> bpm_idle b' m' k (l - 1) \<and>
    index_ok (T\<lparr>root_page_id := p\<rparr>) m' 0 {p} [(key, rid)] \<and> m p = None \<and> dom m' = insert p (dom m) \<and>
    (\<forall>q. m q \<noteq> None \<longrightarrow> m' q = m q)"
proof -
  have k: "0 < k" using assms(2) by simp
  obtain p f b1 where b1: "NewPage b = (Ok (Some (p, f)), b1)" "m p = None" "p \<noteq> INVALID_PAGE_ID" "GetData f b1 = zero_page"
      "\<And>bs'. length bs' = PAGE_SIZE \<Longrightarrow>
        \<exists>b2. UnpinPage p True (SetData f bs' b1) = (Ok True, b2) \<and> bpm_idle b2 (m(p \<mapsto> bs')) k (l - 1)"
    using bp.create_page [OF assms(1) k assms(3)] by blast
  obtain d where d: "Leaf_InsertEntry key rid (Leaf_Init zero_page) = Ok d" "leaf_page d [(key, rid)] INVALID_PAGE_ID"
    using Leaf_InsertEntry_ok [OF Leaf_Init_ok [OF length_zero_page], of key rid]
    by (auto simp: capacities put_sorted_def)
  obtain b2 where b2: "UnpinPage p True (SetData f d b1) = (Ok True, b2)" "bpm_idle b2 (m(p \<mapsto> d)) k (l - 1)"
    using b1(5) [OF leaf_page_size [OF d(2)]] by blast
  have "tree_ok T 0 (m(p \<mapsto> d)) INVALID_PAGE_ID None None (Lf p [(key, rid)])"
    using d(2) assms(4) by (simp add: tree_ok_def sizes_ok_def)
  then have "index_ok (T\<lparr>root_page_id := p\<rparr>) (m(p \<mapsto> d)) 0 {p} [(key, rid)]"
    using assms(4) b1(3) by (auto simp: index_ok_def sizes_ok_def intro!: exI [of _ "Lf p [(key, rid)]"])
  moreover have "plant_root key rid T b = (Ok (), (T\<lparr>root_page_id := p\<rparr>, b2))"
    using b1(1,4) d(1) b2(1) by (simp add: plant_root_def)
  ultimately show ?thesis using b1(2) b2(2) by (intro exI conjI) (assumption | fastforce)+
qed

lemma grow_root_ok:
  assumes "bpm_idle b m k l" and "1 < k" and "0 < l" and "sizes_ok T" and "root_of t1 = root_page_id T"
    and "tree_ok T n m (first_leaf t2) None (Some k') t1" and "tree_ok T n m INVALID_PAGE_ID (Some k') None t2"
    and "set (pids t1) \<inter> set (pids t2) = {}" and "packed T t1" and "packed T t2"
  shows "\<exists>p b' m'. grow_root (k', root_of t2) T b = (Ok (), (T\<lparr>root_page_id := p\<rparr>, b')) \<and> bpm_idle b' m' k (l - 1) \<and>
    index_ok (T\<lparr>root_page_id := p\<rparr>) m' (Suc n) (insert p (set (pids t1) \<union> set (pids t2))) (entries t1 @ entries t2) \<and>
    m p = None \<and> dom m' = insert p (dom m) \<and> (\<forall>q. m q \<noteq> None \<longrightarrow> m' q = m q)"
proof -
  have k: "0 < k" using assms(2) by simp
  obtain p f b1 where b1: "NewPage b = (Ok (Some (p, f)), b1)" "m p = None" "p \<noteq> INVALID_PAGE_ID" "GetData f b1 = zero_page"
      "\<And>bs'. length bs' = PAGE_SIZE \<Longrightarrow>
        \<exists>b2. UnpinPage p True (SetData f bs' b1) = (Ok True, b2) \<and> bpm_idle b2 (m(p \<mapsto> bs')) k (l - 1)"
    using bp.create_page [OF assms(1) k assms(3)] by blast
  obtain z0 where z0: "Internal_Init zero_page = Ok z0" "inode_page z0 [(mk32 0, INVALID_PAGE_ID)]"
    using Internal_Init_ok [OF length_zero_page] by blast
  obtain z1 where z1: "arr_set internal_layout z0 0 (ientry (mk32 0, root_of t1)) = Ok z1" "inode_page z1 [(mk32 0, root_of t1)]"
    using inode_page_set [OF z0(2), of 0 "(mk32 0, root_of t1)"] by auto
  obtain d where d: "Internal_InsertEntry k' (root_of t2) z1 = Ok d" "inode_page d [(mk32 0, root_of t1), (k', root_of t2)]"
    using Internal_InsertEntry_ok [OF z1(2), of k' "root_of t2"] by (auto simp: capacities put_sorted_def)
  have get: "arr_get internal_layout z0 0 = Ok (ientry (mk32 0, INVALID_PAGE_ID))"
    using inode_page_get [OF z0(2), of 0] by simp
  obtain b2 where b2: "UnpinPage p True (SetData f d b1) = (Ok True, b2)" "bpm_idle b2 (m(p \<mapsto> d)) k (l - 1)"
    using b1(5) [OF inode_page_size [OF d(2)]] by blast
  let ?m = "m(p \<mapsto> d)" and ?t = "Nd p [(mk32 0, t1), (k', t2)]"
  have fresh: "p \<notin> set (pids t1)" "p \<notin> set (pids t2)"
    using rep_dom(1) [of m _ t1 p] rep_dom(1) [of m _ t2 p] assms(6,7) b1(2) by (auto simp: tree_ok_def)
  have r: "rep m (first_leaf t2) t1" "rep m INVALID_PAGE_ID t2" using assms(6,7) by (simp_all add: tree_ok_def)
  have "rep ?m (first_leaf t2) t1" by (rule rep_cong(1) [OF r(1)]) (use fresh in auto)
  moreover have "rep ?m INVALID_PAGE_ID t2" by (rule rep_cong(1) [OF r(2)]) (use fresh in auto)
  ultimately have "tree_ok T (Suc n) ?m INVALID_PAGE_ID None None ?t"
    using d(2) assms(4,6-8) fresh by (auto simp: tree_ok_def sizes_ok_def)
  then have "index_ok (T\<lparr>root_page_id := p\<rparr>) ?m (Suc n) (insert p (set (pids t1) \<union> set (pids t2))) (entries t1 @ entries t2)"
    unfolding index_ok_def using assms(4,9,10) b1(3) by (auto simp: sizes_ok_def intro!: exI [of _ ?t])
  moreover have "grow_root (k', root_of t2) T b = (Ok (), (T\<lparr>root_page_id := p\<rparr>, b2))"
    using b1(1,4) z0(1) get z1(1) d(1) b2(1) assms(5) by (simp add: grow_root_def)
  ultimately show ?thesis using b1(2) b2(2) by (intro exI conjI) (assumption | fastforce)+
qed

lemma Insert_ok:
  assumes "bpm_idle b m k l" and "1 < k" and "Suc n < l" and "index_ok T m n P xs" and "nodes_fit T (Suc (length xs))"
  shows "\<exists>T' b' m' n' P' l'. Insert key rid (T, b) = Some (Ok (), (T', b')) \<and> bpm_idle b' m' k l' \<and>
    l - Suc (Suc n) \<le> l' \<and> index_ok T' m' n' P' (upd key rid xs) \<and> n' \<le> Suc n \<and>
    P' = P \<union> (dom m' - dom m) \<and> dom m \<subseteq> dom m' \<and> (\<forall>p. m p \<noteq> None \<longrightarrow> p \<notin> P \<longrightarrow> m' p = m p) \<and>
    leaf_max_size T' = leaf_max_size T \<and> internal_max_size T' = internal_max_size T"
proof (cases "root_page_id T = INVALID_PAGE_ID")
  case True
  then have T: "sizes_ok T" "n = 0" "P = {}" "xs = []" using assms(4) by (auto simp: index_ok_def)
  have "0 < l" using assms(3) by simp
  then obtain p b' m' where r: "plant_root key rid T b = (Ok (), (T\<lparr>root_page_id := p\<rparr>, b'))" "bpm_idle b' m' k (l - 1)"
      "index_ok (T\<lparr>root_page_id := p\<rparr>) m' 0 {p} [(key, rid)]" "m p = None" "\<forall>q. m q \<noteq> None \<longrightarrow> m' q = m q" "dom m' = insert p (dom m)"
    using plant_root_ok [OF assms(1,2) _ T(1)] by blast
  have "Insert key rid (T, b) = Some (Ok (), (T\<lparr>root_page_id := p\<rparr>, b'))" using True r(1) by (simp add: Insert_def)
  then show ?thesis
    using r(2-6) T by (intro exI [of _ "T\<lparr>root_page_id := p\<rparr>"] exI [of _ b'] exI [of _ m'] exI [of _ 0] exI [of _ "{p}"]
        exI [of _ "l - 1"]) (auto simp: upd_def)
next
  case False
  then obtain t where t: "root_of t = root_page_id T" "tree_ok T n m INVALID_PAGE_ID None None t" "P = set (pids t)"
      "xs = entries t" "n = 0 \<or> packed T t" and sz: "sizes_ok T"
    using assms(4) by (auto simp: index_ok_def)
  have room: "roomy T n t" using assms(5) t(4,5) by (auto simp: roomy_def nodes_fit_def)
  have "n < l" using assms(3) by simp
  then obtain r b1 m1 l1 where R: "InsertInPage T (root_page_id T) key rid b = Some (Ok r, b1)" "bpm_idle b1 m1 k l1"
      "l - Suc n \<le> l1" "inserted T n m INVALID_PAGE_ID None None t key rid m1 r"
    using InsertInPage_ok [OF assms(1,2) _ t(2) sz, of key rid] t(1) room by auto
  note I = R(4) [unfolded inserted_def]
  show ?thesis
  proof (cases r)
    case None
    then have "Insert key rid (T, b) = Some (Ok (), (T, b1))" using False R(1) by (simp add: Insert_def)
    moreover obtain t' where "root_of t' = root_of t" "tree_ok T n m1 INVALID_PAGE_ID None None t'"
        "entries t' = upd key rid (entries t)" "set (pids t') = set (pids t) \<union> (dom m1 - dom m)" "packed T t \<longrightarrow> packed T t'"
      using I None by auto
    moreover then have "index_ok T m1 n (set (pids t')) (upd key rid xs)"
      unfolding index_ok_def using False sz t by (intro conjI) (auto intro!: exI [of _ t'])
    ultimately show ?thesis
      using R(2,3) I t(3)
      by (intro exI [of _ T] exI [of _ b1] exI [of _ m1] exI [of _ n] exI [of _ "set (pids t')"] exI [of _ l1]) auto
  next
    case (Some kq)
    then obtain k' t1 t2 where S: "r = Some (k', root_of t2)" "root_of t1 = root_page_id T"
        "tree_ok T n m1 (first_leaf t2) None (Some k') t1" "tree_ok T n m1 INVALID_PAGE_ID (Some k') None t2"
        "entries t1 @ entries t2 = upd key rid xs" "set (pids t1) \<inter> set (pids t2) = {}"
        "set (pids t1) \<union> set (pids t2) = P \<union> (dom m1 - dom m)" "packed T t1" "packed T t2"
      using I t by (cases kq) auto
    have "0 < l1" using R(3) assms(3) by linarith
    then obtain p b2 m2 where G: "grow_root (k', root_of t2) T b1 = (Ok (), (T\<lparr>root_page_id := p\<rparr>, b2))" "bpm_idle b2 m2 k (l1 - 1)"
        "index_ok (T\<lparr>root_page_id := p\<rparr>) m2 (Suc n) (insert p (set (pids t1) \<union> set (pids t2))) (upd key rid xs)"
        "m1 p = None" "\<forall>q. m1 q \<noteq> None \<longrightarrow> m2 q = m1 q" "dom m2 = insert p (dom m1)"
      using grow_root_ok [OF R(2) assms(2) _ sz S(2-4,6,8,9)] S(5) by auto
    have "Insert key rid (T, b) = Some (Ok (), (T\<lparr>root_page_id := p\<rparr>, b2))"
      using False R(1) S(1) G(1) by (simp add: Insert_def)
    moreover have mp: "m p = None" using I G(4) by (metis domIff subsetD)
    moreover have "insert p (set (pids t1) \<union> set (pids t2)) = P \<union> (dom m2 - dom m)" unfolding S(7) G(6) using mp by auto
    moreover have "dom m \<subseteq> dom m2" using I G(6) by auto
    moreover have "\<forall>q. m q \<noteq> None \<longrightarrow> q \<notin> P \<longrightarrow> m2 q = m q" using I G(5) t(3) by simp
    moreover have "l - Suc (Suc n) \<le> l1 - 1" using R(3) by linarith
    ultimately show ?thesis
      using G(2,3)
      by (intro exI [of _ "T\<lparr>root_page_id := p\<rparr>"] exI [of _ b2] exI [of _ m2] exI [of _ "Suc n"]
          exI [of _ "insert p (set (pids t1) \<union> set (pids t2))"] exI [of _ "l1 - 1"]) auto
  qed
qed

section \<open>Search and range scan\<close>

lemma map_of_middle:
  fixes key :: i32
  assumes "\<And>x. x \<in> set xs \<Longrightarrow> fst x < key" and "\<And>x. x \<in> set zs \<Longrightarrow> key < fst x"
  shows "map_of (xs @ ys @ zs) key = map_of ys key"
proof -
  have "map_of xs key = None" by (auto simp: map_of_eq_None_iff dest: assms(1))
  moreover have "map_of zs key = None" by (auto simp: map_of_eq_None_iff dest: assms(2))
  ultimately show ?thesis by (simp add: map_add_def split: option.split)
qed

lemma search_from_ok:
  assumes "bpm_idle b m k l" and "0 < k" and "tree_ok T n m e lo hi t" and "above lo key" and "below key hi"
  shows "\<exists>b'. search_from key (root_of t) b = Some (Ok (map_of (entries t) key), b') \<and> bpm_idle b' m k l"
  using assms(1,3-5)
proof (induction n arbitrary: t b lo hi e)
  case 0
  then obtain p es where t: "t = Lf p es" by (cases t) (auto simp: tree_ok_def)
  then obtain d where d: "m p = Some d" "leaf_page d es e" "sorted_wrt (<) (map fst es)"
    using 0 by (auto simp: tree_ok_def)
  obtain f b1 b2 where b2: "FetchPage p b = (Ok (Some f), b1)" "GetData f b1 = d"
      "UnpinPage p False b1 = (Ok True, b2)" "bpm_idle b2 m k l"
    using bp.read_page [OF 0(1) assms(2) d(1)] by blast
  have "leaf_search d key 0 (node_size d - 1) = Ok (map_of es key)"
    using d(2) by (intro leaf_search_ok [OF d(2,3)]) (auto simp: leaf_page_def)
  then show ?case
    using b2 d(2) t by (simp add: search_from.simps [of key p] leaf_page_def)
next
  case (Suc n)
  then obtain p cs where t: "t = Nd p cs" by (cases t) (auto simp: tree_ok_def)
  obtain d where d: "m p = Some d" "inode_page d (kids cs)" and F: "forest_ok T n m e lo hi cs"
    using Suc.prems(2) t by (auto simp: tree_ok_Nd)
  have B: "bnd lo hi (Nd p cs)" using Suc.prems(2) t by (simp add: tree_ok_def)
  then obtain pre kc c bs where c: "cs = pre @ (kc, c) # bs" "Lookup d key = Ok (root_of c)"
      "above (lo_at pre kc lo) key" "below key (hi_at bs hi)"
    using Lookup_child [OF d(2) _ Suc.prems(3,4)] by blast
  obtain f b1 b2 where b2: "FetchPage p b = (Ok (Some f), b1)" "GetData f b1 = d"
      "UnpinPage p False b1 = (Ok True, b2)" "bpm_idle b2 m k l"
    using bp.read_page [OF Suc.prems(1) assms(2) d(1)] by blast
  have "search_from key p b = search_from key (root_of c) b2"
    using b2 c(2) d(2) by (simp add: search_from.simps [of key p] inode_page_def)
  moreover have "map_of (entries t) key = map_of (entries c) key"
    unfolding t c(1) using bnd_exchange(5,7) [OF B [unfolded c(1)]] c(3,4)
    by (simp del: map_of_append, intro map_of_middle) auto
  ultimately show ?case
    using Suc.IH [OF b2(4) forest_child(1) [OF F [unfolded c(1)]] c(3,4)] t by simp
qed

lemma Search_ok:
  assumes "bpm_idle b m k l" and "0 < k" and "index_ok T m n P xs"
  shows "\<exists>b'. Search T key b = Some (Ok (map_of xs key), b') \<and> bpm_idle b' m k l"
proof (cases "root_page_id T = INVALID_PAGE_ID")
  case True
  then show ?thesis using assms by (simp add: Search_def index_ok_def)
next
  case False
  then obtain t where "root_of t = root_page_id T" "tree_ok T n m INVALID_PAGE_ID None None t" "xs = entries t"
    using assms(3) by (auto simp: index_ok_def)
  then show ?thesis
    using search_from_ok [OF assms(1,2), of T n INVALID_PAGE_ID None None t key] False by (simp add: Search_def)
qed

text \<open>The leaves in order, with the chain of their \<open>next_page_id\<close> fields.\<close>

fun leaf_chain :: "(page_id_t \<Rightarrow> byte list option) \<Rightarrow> page_id_t \<Rightarrow> (page_id_t \<times> (i32 \<times> RID) list) list \<Rightarrow> bool" where
  "leaf_chain m e [] = True"
| "leaf_chain m e (x # xs) = ((\<exists>d. m (fst x) = Some d \<and> leaf_page d (snd x) (fst (hd (xs @ [(e, [])])))) \<and> leaf_chain m e xs)"

lemma leaf_chain_append:
  "leaf_chain m e (xs @ ys) \<longleftrightarrow> leaf_chain m (fst (hd (ys @ [(e, [])]))) xs \<and> leaf_chain m e ys"
proof (induction xs)
  case (Cons x xs)
  show ?case by (cases xs; cases ys) (use Cons in auto)
qed simp

lemma leaves_entries: "entries t = concat (map snd (leaves t))"
proof (induction t rule: entries.induct)
  case (2 p cs)
  then have "concat (map (\<lambda>c. entries (snd c)) cs) = concat (map snd (concat (map (\<lambda>c. leaves (snd c)) cs)))"
    by (induction cs) auto
  then show ?case by simp
qed simp

lemma leaves_first:
  "bnd lo hi t \<Longrightarrow> leaves t \<noteq> [] \<and> fst (hd (leaves t)) = first_leaf t"
  "bnds lo hi t cs \<Longrightarrow> leaves t \<noteq> [] \<and> fst (hd (leaves t)) = first_leaf t"
  by (induction lo hi t and lo hi t cs rule: bnd_bnds.induct) auto

lemma leaves_head:
  assumes "forest_ok T n m e lo hi cs" and "cs \<noteq> []"
  shows "fst (hd (concat (map (\<lambda>c. leaves (snd c)) cs) @ ys)) = first_of cs e'" "concat (map (\<lambda>c. leaves (snd c)) cs) \<noteq> []"
proof -
  obtain c cs' where cs: "cs = c # cs'" using assms(2) by (cases cs) auto
  then have "bnds lo hi (snd c) cs'" using assms(1) by (simp add: forest_ok_def)
  then have "leaves (snd c) \<noteq> []" "fst (hd (leaves (snd c))) = first_leaf (snd c)" using leaves_first(2) by blast+
  then show "fst (hd (concat (map (\<lambda>c. leaves (snd c)) cs) @ ys)) = first_of cs e'"
    "concat (map (\<lambda>c. leaves (snd c)) cs) \<noteq> []" using cs by simp_all
qed

lemma rep_leaf_chain:
  "rep m e t \<Longrightarrow> bnd lo hi t \<Longrightarrow> leaf_chain m e (leaves t)"
  "reps m e cs \<Longrightarrow> bnd lo hi (Nd q cs) \<or> cs = [] \<Longrightarrow> leaf_chain m e (concat (map (\<lambda>c. leaves (snd c)) cs))"
proof (induction m e t and m e cs arbitrary: lo hi and lo hi q rule: rep_reps.induct)
  case (2 m e p cs)
  then show ?case by auto
next
  case (4 m e c cs)
  let ?L = "concat (map (\<lambda>c. leaves (snd c)) cs)"
  have "bnds lo hi (snd c) cs" using "4.prems"(2) by simp
  then obtain hi' where c: "bnd lo hi' (snd c)" and rest: "cs = [] \<or> (\<exists>lo'. bnd lo' hi (Nd q cs))"
    by (cases cs) auto
  have "fst (hd (?L @ [(e, [])])) = first_of cs e"
  proof (cases cs)
    case (Cons d ds)
    then obtain lo' where "bnds lo' hi (snd d) ds" using rest by auto
    then show ?thesis using Cons leaves_first(2) by fastforce
  qed simp
  moreover have "leaf_chain m (first_of cs e) (leaves (snd c))" using "4.IH"(1) "4.prems"(1) c by auto
  moreover have "leaf_chain m e ?L" using "4.IH"(2) "4.prems"(1) rest by auto
  ultimately show ?case by (simp add: leaf_chain_append)
qed auto

lemma find_leaf_ok:
  assumes "bpm_idle b m k l" and "0 < k" and "tree_ok T n m e lo hi t" and "above lo low" and "below low hi"
  shows "\<exists>p es as bs b'. find_leaf low (root_of t) b = Some (Ok p, b') \<and> bpm_idle b' m k l \<and>
    leaves t = as @ (p, es) # bs \<and> (\<forall>x \<in> set (concat (map snd as)). fst x < low)"
  using assms(1,3-5)
proof (induction n arbitrary: t b lo hi e)
  case 0
  then obtain p es where t: "t = Lf p es" by (cases t) (auto simp: tree_ok_def)
  then obtain d where d: "m p = Some d" "leaf_page d es e" using 0 by (auto simp: tree_ok_def)
  obtain f b1 b2 where b2: "FetchPage p b = (Ok (Some f), b1)" "GetData f b1 = d"
      "UnpinPage p False b1 = (Ok True, b2)" "bpm_idle b2 m k l"
    using bp.read_page [OF 0(1) assms(2) d(1)] by blast
  then have "find_leaf low p b = Some (Ok p, b2)"
    using d(2) by (simp add: find_leaf.simps [of low p] must_fetch_def leaf_page_def)
  then show ?case using t b2(4) by (intro exI [of _ p] exI [of _ es] exI [of _ "[]"] exI [of _ "[]"] exI [of _ b2]) simp
next
  case (Suc n)
  then obtain p cs where t: "t = Nd p cs" by (cases t) (auto simp: tree_ok_def)
  obtain d where d: "m p = Some d" "inode_page d (kids cs)" and F: "forest_ok T n m e lo hi cs"
    using Suc.prems(2) t by (auto simp: tree_ok_Nd)
  have B: "bnd lo hi (Nd p cs)" using Suc.prems(2) t by (simp add: tree_ok_def)
  then obtain pre kc c post where c: "cs = pre @ (kc, c) # post" "Lookup d low = Ok (root_of c)"
      "above (lo_at pre kc lo) low" "below low (hi_at post hi)"
    using Lookup_child [OF d(2) _ Suc.prems(3,4)] by blast
  obtain f b1 b2 where b2: "FetchPage p b = (Ok (Some f), b1)" "GetData f b1 = d"
      "UnpinPage p False b1 = (Ok True, b2)" "bpm_idle b2 m k l"
    using bp.read_page [OF Suc.prems(1) assms(2) d(1)] by blast
  have step: "find_leaf low p b = find_leaf low (root_of c) b2"
    using b2 c(2) d(2) by (simp add: find_leaf.simps [of low p] must_fetch_def inode_page_def)
  obtain q es as bs b' where I: "find_leaf low (root_of c) b2 = Some (Ok q, b')" "bpm_idle b' m k l"
      "leaves c = as @ (q, es) # bs" "\<forall>x \<in> set (concat (map snd as)). fst x < low"
    using Suc.IH [OF b2(4) forest_child(1) [OF F [unfolded c(1)]] c(3,4)] by blast
  let ?A = "concat (map (\<lambda>c. leaves (snd c)) pre) @ as" and ?Z = "bs @ concat (map (\<lambda>c. leaves (snd c)) post)"
  have "leaves t = ?A @ (q, es) # ?Z" using t c(1) I(3) by simp
  moreover have "fst x < low" if x: "x \<in> set (concat (map snd ?A))" for x
  proof (cases "x \<in> set (concat (map snd as))")
    case False
    then obtain y where "y \<in> set pre" "x \<in> set (concat (map snd (leaves (snd y))))" using x by auto
    then show ?thesis using bnd_exchange(7) [OF B [unfolded c(1)] c(3)] by (simp add: leaves_entries [symmetric])
  qed (use I(4) in blast)
  ultimately show ?case
    using step I(1,2) t
    by (intro exI [of _ q] exI [of _ es] exI [of _ ?A] exI [of _ ?Z] exI [of _ b']) simp
qed

lemma range_leaves_ok:
  assumes "leaf_chain m INVALID_PAGE_ID xs" and "bpm_idle b m k l" and "0 < k" and "sorted_wrt (<) (map fst (concat (map snd xs)))"
  shows "\<exists>b'. range_leaves low high (fst (hd (xs @ [(INVALID_PAGE_ID, [])]))) results b =
    Some (Ok (results @ in_range low high (concat (map snd xs))), b') \<and> bpm_idle b' m k l"
  using assms(1,2,4)
proof (induction xs arbitrary: b results)
  case Nil
  then show ?case by (simp add: range_leaves.simps in_range_def)
next
  case (Cons x xs)
  obtain p es where x: "x = (p, es)" by (cases x)
  let ?n = "fst (hd (xs @ [(INVALID_PAGE_ID, [])]))"
  obtain d where d: "m p = Some d" "leaf_page d es ?n" "leaf_chain m INVALID_PAGE_ID xs" using Cons.prems(1) x by auto
  have srt: "sorted_wrt (<) (map fst es)" "sorted_wrt (<) (map fst (concat (map snd xs)))"
      "\<And>y z. y \<in> set es \<Longrightarrow> z \<in> set (concat (map snd xs)) \<Longrightarrow> fst y < fst z"
    using Cons.prems(3) x by (auto simp: sorted_wrt_append)
  obtain f b1 b2 where b2: "FetchPage p b = (Ok (Some f), b1)" "GetData f b1 = d"
      "UnpinPage p False b1 = (Ok True, b2)" "bpm_idle b2 m k l"
    using bp.read_page [OF Cons.prems(2) assms(3) d(1)] by blast
  have p: "p \<noteq> INVALID_PAGE_ID" using d(1) bp.content_invalid Cons.prems(2) by (auto simp: bpm_idle_def)
  let ?done = "\<exists>k \<in> set (map fst es). high < k"
  have loop: "range_loop d low high 0 (node_size d) results = Ok (?done, results @ in_range low high es)"
    using range_loop_ok [OF d(2) srt(1), of 0 low high results] d(2) by (simp add: leaf_page_def)
  have step: "range_leaves low high p results b = (if ?done then Some (Ok (results @ in_range low high es), b2)
      else range_leaves low high ?n (results @ in_range low high es) b2)"
    using p b2 loop d(2) by (simp add: range_leaves.simps [of low high p] must_fetch_def leaf_page_def)
  have "in_range low high (concat (map snd xs)) = []" if ?done
    using that srt(3) by (fastforce simp: in_range_def filter_empty_conv)
  moreover have "in_range low high (concat (map snd (x # xs))) = in_range low high es @ in_range low high (concat (map snd xs))"
    using x by (simp add: in_range_def)
  ultimately show ?case
    using step Cons.IH [OF d(3) b2(4) srt(2), of "results @ in_range low high es"] b2(4) x by (cases ?done) simp_all
qed

lemma RangeScan_ok:
  assumes "bpm_idle b m k l" and "0 < k" and "index_ok T m n P xs"
  shows "\<exists>b'. RangeScan T low high results b = Some (Ok (results @ in_range low high xs), b') \<and> bpm_idle b' m k l"
proof (cases "root_page_id T = INVALID_PAGE_ID")
  case True
  then show ?thesis using assms by (simp add: RangeScan_def index_ok_def in_range_def)
next
  case False
  then obtain t where t: "root_of t = root_page_id T" "tree_ok T n m INVALID_PAGE_ID None None t" "xs = entries t"
    using assms(3) by (auto simp: index_ok_def)
  obtain p es as bs b1 where f: "find_leaf low (root_of t) b = Some (Ok p, b1)" "bpm_idle b1 m k l"
      "leaves t = as @ (p, es) # bs" "\<forall>x \<in> set (concat (map snd as)). fst x < low"
    using find_leaf_ok [OF assms(1,2) t(2), of low] by auto
  have "leaf_chain m INVALID_PAGE_ID (leaves t)"
    using rep_leaf_chain(1) [of m INVALID_PAGE_ID t None None] t(2) by (simp add: tree_ok_def)
  then have chain: "leaf_chain m INVALID_PAGE_ID ((p, es) # bs)" using f(3) by (simp add: leaf_chain_append)
  have xs: "xs = concat (map snd as) @ concat (map snd ((p, es) # bs))" using t(3) f(3) leaves_entries [of t] by simp
  then have srt: "sorted_wrt (<) (map fst (concat (map snd ((p, es) # bs))))"
    using index_sorted [OF assms(3)] by (simp add: sorted_wrt_append)
  have "in_range low high (concat (map snd as)) = []" using f(4) by (fastforce simp: in_range_def filter_empty_conv)
  then have "in_range low high xs = in_range low high (concat (map snd ((p, es) # bs)))"
    unfolding xs by (simp add: in_range_def)
  then show ?thesis
    using range_leaves_ok [OF chain f(2) assms(2) srt, of low high results] f(1) False t(1) by (simp add: RangeScan_def)
qed

section \<open>The interface: an ordered index\<close>

fun insert_pairs :: "(i32 \<Rightarrow> RID \<Rightarrow> 's \<Rightarrow> (unit, 's) res option) \<Rightarrow> (i32 \<times> RID) list \<Rightarrow> 's \<Rightarrow> (unit, 's) res option" where
  "insert_pairs ins [] s = Some (Ok (), s)"
| "insert_pairs ins ((k, r) # kvs) s = Option.bind (ins k r s) (\<lambda>x. case x of
      (Ok _, s1) \<Rightarrow> insert_pairs ins kvs s1 | _ \<Rightarrow> Some x)"

text \<open>\<open>holds s xs n\<close>: the index has the entries \<open>xs\<close>, and there is room for \<open>n\<close> more insertions.\<close>

locale ordered_index =
  fixes holds :: "'s \<Rightarrow> (i32 \<times> RID) list \<Rightarrow> nat \<Rightarrow> bool"
    and ins :: "i32 \<Rightarrow> RID \<Rightarrow> 's \<Rightarrow> (unit, 's) res option"
    and srch :: "i32 \<Rightarrow> 's \<Rightarrow> (RID option, 's) res option"
    and rng :: "i32 \<Rightarrow> i32 \<Rightarrow> RID list \<Rightarrow> 's \<Rightarrow> (RID list, 's) res option"
  assumes holds_sorted: "holds s xs n \<Longrightarrow> sorted_wrt (<) (map fst xs)"
    and ins_ok: "holds s xs (Suc n) \<Longrightarrow> \<exists>s'. ins k r s = Some (Ok (), s') \<and> holds s' (upd k r xs) n"
    and srch_ok: "holds s xs n \<Longrightarrow> \<exists>s'. srch k s = Some (Ok (map_of xs k), s') \<and> holds s' xs n"
    and rng_ok: "holds s xs n \<Longrightarrow> \<exists>s'. rng low high res s = Some (Ok (res @ in_range low high xs), s') \<and> holds s' xs n"
begin

abbreviation store :: "(i32 \<times> RID) list \<Rightarrow> (i32 \<times> RID) list \<Rightarrow> (i32 \<times> RID) list" where
  "store kvs xs \<equiv> fold (\<lambda>(k, r). upd k r) kvs xs"

lemma map_of_store: "map_of (store kvs xs) = map_of xs ++ map_of (rev kvs)"
  by (induction kvs arbitrary: xs) (auto simp: map_of_upd fun_eq_iff map_add_def split: option.split)

lemma insert_pairs_ok:
  "holds s xs (length kvs + n) \<Longrightarrow> \<exists>s'. insert_pairs ins kvs s = Some (Ok (), s') \<and> holds s' (store kvs xs) n"
proof (induction kvs arbitrary: s xs)
  case (Cons kv kvs)
  obtain k r where kv: "kv = (k, r)" by (cases kv)
  obtain s1 where "ins k r s = Some (Ok (), s1)" "holds s1 (upd k r xs) (length kvs + n)"
    using ins_ok [of s xs "length kvs + n" k r] Cons.prems by auto
  with Cons.IH [of s1 "upd k r xs"] kv show ?case by simp
qed simp

lemma insert_then_search:
  assumes "holds s xs (length kvs)"
  shows "\<exists>s1. insert_pairs ins kvs s = Some (Ok (), s1) \<and>
    (\<forall>k. \<exists>s2. srch k s1 = Some (Ok ((map_of xs ++ map_of (rev kvs)) k), s2))"
proof -
  obtain s1 where s1: "insert_pairs ins kvs s = Some (Ok (), s1)" "holds s1 (store kvs xs) 0"
    using insert_pairs_ok [of s xs kvs 0] assms by auto
  then show ?thesis using srch_ok [OF s1(2)] by (auto simp: map_of_store)
qed

lemma insert_then_range:
  assumes "holds s xs (length kvs)"
  shows "\<exists>s1 ys. insert_pairs ins kvs s = Some (Ok (), s1) \<and> sorted_wrt (<) (map fst ys) \<and>
    map_of ys = map_of xs ++ map_of (rev kvs) \<and>
    (\<forall>low high. \<exists>s2. rng low high [] s1 = Some (Ok (map snd (filter (\<lambda>(k, r). low \<le> k \<and> k \<le> high) ys)), s2))"
proof -
  obtain s1 where s1: "insert_pairs ins kvs s = Some (Ok (), s1)" "holds s1 (store kvs xs) 0"
    using insert_pairs_ok [of s xs kvs 0] assms by auto
  then show ?thesis
    using rng_ok [OF s1(2), of _ _ "[]"] holds_sorted [OF s1(2)] map_of_store [of kvs xs]
    by (intro exI [of _ s1] exI [of _ "store kvs xs"]) (auto simp: in_range_def)
qed

end

text \<open>The pages of an index and its height, by the number of its entries.\<close>

lemma tree_pages:
  "packed T t \<Longrightarrow> shaped T n t \<Longrightarrow> 2 \<le> leaf_max_size T \<Longrightarrow>
   Suc (length (pids t)) \<le> 2 * length (entries t) \<and> n < length (entries t)"
proof (induction T t arbitrary: n rule: packed.induct)
  case (1 T p es)
  then have "1 \<le> leaf_max_size T div 2" by simp
  then have "1 \<le> int (length es)" using "1.prems"(1) by simp
  then show ?case using "1.prems"(2) by (cases es) simp_all
next
  case (2 T p cs)
  obtain n' where n': "n = Suc n'" "2 \<le> length cs" "\<forall>c \<in> set cs. shaped T n' (snd c)" using "2.prems"(2) by auto
  have IH: "Suc (length (pids (snd c))) \<le> 2 * length (entries (snd c)) \<and> n' < length (entries (snd c))" if "c \<in> set cs" for c
    using "2.IH" [OF that, of n'] that "2.prems"(1,3) n'(3) by simp
  have "length ds + length (concat (map (\<lambda>c. pids (snd c)) ds)) \<le> 2 * length (all_entries ds)" if "set ds \<subseteq> set cs" for ds
    using that IH by (induction ds) (simp, fastforce)
  then have pages: "length cs + length (concat (map (\<lambda>c. pids (snd c)) cs)) \<le> 2 * length (all_entries cs)" by blast
  obtain c d ds where cs: "cs = c # d # ds" using n'(2) by (cases cs; cases "tl cs") auto
  show ?case using pages n'(1,2) IH [of c] IH [of d] by (simp add: cs)
qed

lemma index_size:
  assumes "index_ok T m n P xs"
  shows "card P \<le> 2 * length xs + 1" "n \<le> length xs" "finite P"
proof -
  have "card P \<le> 2 * length xs + 1 \<and> n \<le> length xs \<and> finite P"
  proof (cases "root_page_id T = INVALID_PAGE_ID")
    case False
    then obtain t where t: "tree_ok T n m INVALID_PAGE_ID None None t" "n = 0 \<or> packed T t" "P = set (pids t)" "xs = entries t" "sizes_ok T"
      using assms by (auto simp: index_ok_def)
    show ?thesis
    proof (cases "n = 0")
      case True
      then show ?thesis using t by (cases t) (auto simp: tree_ok_def)
    next
      case False
      then show ?thesis
        using tree_pages [of T t n] t card_length [of "pids t"] by (auto simp: tree_ok_def sizes_ok_def)
    qed
  qed (use assms in \<open>simp add: index_ok_def\<close>)
  then show "card P \<le> 2 * length xs + 1" "n \<le> length xs" "finite P" by blast+
qed

lemma length_upd: "length (upd k v xs) \<le> Suc (length xs)"
  unfolding upd_def by (induction xs) auto

text \<open>
  Three pages for each entry there will be are enough. Every page that is allocated becomes a page of the
  index, so the pages left and those of the index are together as many as before.
\<close>

definition index_holds :: "BPlusTree \<times> BufferPoolManager \<Rightarrow> (i32 \<times> RID) list \<Rightarrow> nat \<Rightarrow> bool" where
  "index_holds s xs n \<longleftrightarrow> (\<exists>m k l h P. bpm_idle (snd s) m k l \<and> 1 < k \<and> 3 * (length xs + n) + 3 \<le> l + card P \<and>
     nodes_fit (fst s) (length xs + n) \<and> index_ok (fst s) m h P xs)"

lemma index_holdsI:
  "bpm_idle b m k l \<Longrightarrow> 1 < k \<Longrightarrow> 3 * (length xs + n) + 3 \<le> l + card P \<Longrightarrow> nodes_fit T (length xs + n) \<Longrightarrow> index_ok T m h P xs \<Longrightarrow>
   index_holds (T, b) xs n"
  unfolding index_holds_def fst_conv snd_conv by blast

lemma nodes_fit_less: "nodes_fit T n \<Longrightarrow> n' \<le> n \<Longrightarrow> nodes_fit T n'"
  by (auto simp: nodes_fit_def)

lemma Insert_holds:
  assumes "index_holds s xs (Suc n)"
  shows "\<exists>s'. Insert k r s = Some (Ok (), s') \<and> index_holds s' (upd k r xs) n"
proof -
  obtain T b where s: "s = (T, b)" by fastforce
  obtain m kk l h P where H: "bpm_idle b m kk l" "1 < kk" "3 * (length xs + Suc n) + 3 \<le> l + card P" "nodes_fit T (length xs + Suc n)"
      "index_ok T m h P xs"
    using assms by (auto simp: index_holds_def s)
  have "Suc h < l" using index_size(1,2) [OF H(5)] H(3) by simp
  moreover have "nodes_fit T (Suc (length xs))" using nodes_fit_less [OF H(4)] by simp
  ultimately obtain T' b' m' h' P' l' where I: "Insert k r (T, b) = Some (Ok (), (T', b'))" "bpm_idle b' m' kk l'"
      "index_ok T' m' h' P' (upd k r xs)" "P' = P \<union> (dom m' - dom m)" "dom m \<subseteq> dom m'"
      "leaf_max_size T' = leaf_max_size T" "internal_max_size T' = internal_max_size T"
    using Insert_ok [OF H(1,2) _ H(5), of k r] by auto
  have fin: "finite (dom m')" using idle_pages(1) [OF I(2)] .
  have "P \<inter> (dom m' - dom m) = {}" using index_pages [OF H(5)] by auto
  then have "card P' = card P + card (dom m' - dom m)" using I(4) fin index_size(3) [OF H(5)] by (simp add: card_Un_disjoint)
  also have "card (dom m' - dom m) = card (dom m') - card (dom m)" using I(5) fin by (simp add: card_Diff_subset finite_subset)
  finally have "l' + card P' = l + card P"
    using idle_pages(2) [OF H(1)] idle_pages(2) [OF I(2)] card_mono [OF fin I(5)] by linarith
  then have "index_holds (T', b') (upd k r xs) n"
    using H(3) length_upd [of k r xs] nodes_fit_less [OF H(4), of "length (upd k r xs) + n"] I(6,7)
    by (intro index_holdsI [OF I(2) H(2) _ _ I(3)]) (auto simp: nodes_fit_def)
  then show ?thesis using I(1) s by blast
qed

definition on_index :: "(BPlusTree \<Rightarrow> BufferPoolManager \<Rightarrow> ('a, BufferPoolManager) res option) \<Rightarrow>
    BPlusTree \<times> BufferPoolManager \<Rightarrow> ('a, BPlusTree \<times> BufferPoolManager) res option" where
  "on_index f s = map_option (\<lambda>(r, b). (r, (fst s, b))) (f (fst s) (snd s))"

interpretation bt: ordered_index index_holds Insert "\<lambda>k. on_index (\<lambda>T. Search T k)"
  "\<lambda>low high res. on_index (\<lambda>T. RangeScan T low high res)"
proof
  fix s xs n k r
  show "sorted_wrt (<) (map fst xs)" if "index_holds s xs n" using that index_sorted by (auto simp: index_holds_def)
  show "\<exists>s'. Insert k r s = Some (Ok (), s') \<and> index_holds s' (upd k r xs) n" if "index_holds s xs (Suc n)"
    using Insert_holds [OF that] .
next
  fix s xs n k
  assume "index_holds s xs n"
  then obtain m kk l h P where H: "bpm_idle (snd s) m kk l" "1 < kk" "3 * (length xs + n) + 3 \<le> l + card P"
      "nodes_fit (fst s) (length xs + n)" "index_ok (fst s) m h P xs"
    by (auto simp: index_holds_def)
  have kk: "0 < kk" using H(2) by simp
  obtain b' where "Search (fst s) k (snd s) = Some (Ok (map_of xs k), b')" "bpm_idle b' m kk l"
    using Search_ok [OF H(1) kk H(5)] by blast
  then show "\<exists>s'. on_index (\<lambda>T. Search T k) s = Some (Ok (map_of xs k), s') \<and> index_holds s' xs n"
    using index_holdsI [OF _ H(2-5)] by (auto simp: on_index_def)
  fix low high res
  obtain b' where "RangeScan (fst s) low high res (snd s) = Some (Ok (res @ in_range low high xs), b')" "bpm_idle b' m kk l"
    using RangeScan_ok [OF H(1) kk H(5)] by blast
  then show "\<exists>s'. on_index (\<lambda>T. RangeScan T low high res) s = Some (Ok (res @ in_range low high xs), s') \<and> index_holds s' xs n"
    using index_holdsI [OF _ H(2-5)] by (auto simp: on_index_def)
qed

section \<open>Properties\<close>

lemma new_tree_sizes:
  assumes "mk_BPlusTree nm lm im = Ok T" and "lm \<le> 340" and "im \<le> 510"
  shows "sizes_ok T" "root_page_id T = INVALID_PAGE_ID"
  using assms by (auto simp: mk_BPlusTree_def sizes_ok_def capacities Let_def split: if_splits)

lemma new_tree_holds:
  assumes "mk_BPlusTree nm lm im = Ok T" and "lm \<le> 340" and "im \<le> 510"
    and "internal_max_size T < 510 \<or> int n \<le> 510 * (leaf_max_size T div 2)"
    and "bpm_idle b m k l" and "1 < k" and "3 * n + 3 \<le> l"
  shows "index_holds (T, b) [] n"
  using index_holdsI [OF assms(5,6), of "[]" n "{}" T] new_tree_sizes [OF assms(1-3)] assms(4,7) by (simp add: index_ok_def nodes_fit_def)

lemma on_index_eq: "on_index f (T, b) = Some (r, s) \<Longrightarrow> f T b = Some (r, snd s)"
  by (auto simp: on_index_def)

text \<open>(C6) An index behaves like a map. After any sequence of insertions into a new tree, in any order
  and with repeated keys, \<open>Search\<close> finds for each key the record id inserted last, and reports
  a key never inserted as absent. No insertion fails as long as the pool has two frames and three pages
  for each insertion are left. The maximal sizes are the default ones or any that fit a page; with the default size of
  inner nodes, which is that of a full page, the insertions are at most 510 times half the size of a leaf, which is
  86700 for default leaves, since after them an inner node may be full.\<close>

theorem index_insert_search:
  assumes "mk_BPlusTree nm lm im = Ok T" and "lm \<le> 340" and "im \<le> 510"
    and "internal_max_size T < 510 \<or> int (length kvs) \<le> 510 * (leaf_max_size T div 2)"
    and "bpm_idle b m k l" and "1 < k" and "3 * length kvs + 3 \<le> l"
  shows "\<exists>T1 b1. insert_pairs Insert kvs (T, b) = Some (Ok (), (T1, b1)) \<and>
    (\<forall>key. \<exists>b2. Search T1 key b1 = Some (Ok (map_of (rev kvs) key), b2))"
proof -
  obtain T1 b1 where i: "insert_pairs Insert kvs (T, b) = Some (Ok (), (T1, b1))"
      "\<And>key. \<exists>s2. on_index (\<lambda>T. Search T key) (T1, b1) = Some (Ok ((Map.empty ++ map_of (rev kvs)) key), s2)"
    using bt.insert_then_search [OF new_tree_holds [OF assms]] by auto
  have "\<exists>b2. Search T1 key b1 = Some (Ok (map_of (rev kvs) key), b2)" for key
    using i(2) [of key] by (auto dest: on_index_eq)
  with i(1) show ?thesis by blast
qed

text \<open>(C7) After any sequence of insertions into a new tree, of the default sizes or any others that fit a page,
  \<open>RangeScan\<close> returns the record ids of
  the keys between the bounds, both included, each key once with the id inserted last, in
  ascending order of the keys. The pool needs two frames and three pages for each insertion, and the insertions into
  a tree with inner nodes of the default size are at most 510 times half the size of a leaf.\<close>

theorem index_range_scan:
  assumes "mk_BPlusTree nm lm im = Ok T" and "lm \<le> 340" and "im \<le> 510"
    and "internal_max_size T < 510 \<or> int (length kvs) \<le> 510 * (leaf_max_size T div 2)"
    and "bpm_idle b m k l" and "1 < k" and "3 * length kvs + 3 \<le> l"
  shows "\<exists>T1 b1 ys. insert_pairs Insert kvs (T, b) = Some (Ok (), (T1, b1)) \<and>
    sorted_wrt (<) (map fst ys) \<and> map_of ys = map_of (rev kvs) \<and>
    (\<forall>low high. \<exists>b2. RangeScan T1 low high [] b1 =
      Some (Ok (map snd (filter (\<lambda>(key, r). low \<le> key \<and> key \<le> high) ys)), b2))"
proof -
  obtain T1 b1 ys where i: "insert_pairs Insert kvs (T, b) = Some (Ok (), (T1, b1))"
      "sorted_wrt (<) (map fst ys)" "map_of ys = Map.empty ++ map_of (rev kvs)"
      "\<And>low high. \<exists>s2. on_index (\<lambda>T. RangeScan T low high []) (T1, b1) =
        Some (Ok (map snd (filter (\<lambda>(key, r). low \<le> key \<and> key \<le> high) ys)), s2)"
    using bt.insert_then_range [OF new_tree_holds [OF assms]] by auto
  have "\<exists>b2. RangeScan T1 low high [] b1 =
      Some (Ok (map snd (filter (\<lambda>(key, r). low \<le> key \<and> key \<le> high) ys)), b2)" for low high
    using i(4) [of low high] by (auto dest: on_index_eq)
  with i(1-3) show ?thesis by auto
qed

text \<open>(C8) \<open>Insert\<close> keeps the pages of the index a B+ tree: every leaf at the same depth, node sizes
  in their bounds, leaves half full unless there is only one, keys sorted and separated, the leaves chained from left to
  right (all in \<open>index_ok\<close>). The entries are those of before with the new pair added or replaced, the height
  grows by at most one, the pages of the index are those of before and all the new ones, no other page is written, and every
  page is released. The maximal size of inner nodes is below that of a page, or there are too few entries to fill one.\<close>

theorem index_insert_invariant:
  assumes "bpm_idle b m k l" and "1 < k" and "Suc h < l" and "index_ok T m h P xs" and "nodes_fit T (Suc (length xs))"
  shows "\<exists>T' b' m' h' P' l'. Insert key rid (T, b) = Some (Ok (), (T', b')) \<and> bpm_idle b' m' k l' \<and>
    l - (h + 2) \<le> l' \<and> index_ok T' m' h' P' (upd key rid xs) \<and> h' \<le> h + 1 \<and>
    P' = P \<union> (dom m' - dom m) \<and> (\<forall>p. m p \<noteq> None \<longrightarrow> p \<notin> P \<longrightarrow> m' p = m p)"
proof -
  obtain T' b' m' h' P' l' where "Insert key rid (T, b) = Some (Ok (), (T', b'))" "bpm_idle b' m' k l'" "l - Suc (Suc h) \<le> l'"
      "index_ok T' m' h' P' (upd key rid xs)" "h' \<le> Suc h" "P' = P \<union> (dom m' - dom m)" "\<forall>p. m p \<noteq> None \<longrightarrow> p \<notin> P \<longrightarrow> m' p = m p"
    using Insert_ok [OF assms, of key rid] by blast
  then show ?thesis by (intro exI conjI) (assumption | simp)+
qed

text \<open>(C40) With the default sizes an internal node can fill its page completely without being split,
  because the split comes after the insertion of one entry more: that insertion writes behind the
  end of the page.\<close>

theorem internal_node_overflow:
  assumes "mk_BPlusTree nm lm 0 = Ok T" and "length d = PAGE_SIZE" and "node_size d = internal_max_size T"
  shows "Internal_InsertEntry key child d = Fault"
proof -
  have n: "node_size d = int 510"
    using assms(1,3) by (auto simp: mk_BPlusTree_def capacities Let_def split: if_splits)
  obtain r pos where f: "arr_find internal_layout (\<lambda>e. ie_key e > key) d (int 1) (int 510) = Ok r"
      "(case r of None \<Rightarrow> int 510 | Some j \<Rightarrow> j) = int pos" "pos \<le> 510"
    using inode.find_pos [of 1 510 "\<lambda>e. ie_key e > key" d] by (auto simp: capacities)
  have "insert_at internal_layout (int pos) e d = Fault" for e
  proof (cases "pos < 510")
    case True
    then show ?thesis
      using n by (simp add: insert_at_def arr_shift.simps [of internal_layout d 510] arr_get_def arr_set_def capacities)
  next
    case False
    then show ?thesis
      using n f(3) by (simp add: insert_at_def arr_shift.simps [of internal_layout d 510] arr_set_def capacities)
  qed
  then show ?thesis using n f(1,2) by (cases r) (simp_all add: Internal_InsertEntry_def)
qed

text \<open>A tree of order four on the pool of two frames.\<close>

definition small_tree :: BPlusTree where
  "small_tree = \<lparr>name = ''i'', root_page_id = INVALID_PAGE_ID, leaf_max_size = 4, internal_max_size = 4\<rparr>"

lemma small_tree_new: "mk_BPlusTree ''i'' 4 4 = Ok small_tree"
  by (simp add: mk_BPlusTree_def small_tree_def)

definition sample_pairs :: "(i32 \<times> RID) list" where
  "sample_pairs = map (\<lambda>i. (mk32 (i * 7 mod 11), \<lparr>page_id = mk32 i, slot_num = 0\<rparr>)) [1..11]"

lemma small_pool_ready: "bpm_idle small_pool (bp_content small_pool) 2 (pages_left small_pool)"
  using small_pool_inv by (simp add: bpm_idle_def small_pool_def mk_BufferPoolManager_def pins_def)

lemma small_pool_left: "pages_left small_pool = 2147483646"
  by (simp add: small_pool_def mk_BufferPoolManager_def pages_left_def one_page_disk_def INT32_MAX_def)

text \<open>The tree with the default sizes.\<close>

definition default_tree :: BPlusTree where
  "default_tree = \<lparr>name = ''i'', root_page_id = INVALID_PAGE_ID, leaf_max_size = 340, internal_max_size = 510\<rparr>"

lemma default_tree_new: "mk_BPlusTree ''i'' 0 0 = Ok default_tree"
  by (simp add: mk_BPlusTree_def default_tree_def capacities)

theorem index_insert_search_witness:
  "\<exists>T1 b1. insert_pairs Insert sample_pairs (default_tree, small_pool) = Some (Ok (), (T1, b1)) \<and>
    (\<forall>key. \<exists>b2. Search T1 key b1 = Some (Ok (map_of (rev sample_pairs) key), b2))"
  by (rule index_insert_search [OF default_tree_new _ _ _ small_pool_ready]) (simp_all add: default_tree_def sample_pairs_def small_pool_left)

theorem index_range_scan_witness:
  "\<exists>T1 b1 ys. insert_pairs Insert sample_pairs (small_tree, small_pool) = Some (Ok (), (T1, b1)) \<and>
    sorted_wrt (<) (map fst ys) \<and> map_of ys = map_of (rev sample_pairs) \<and>
    (\<forall>low high. \<exists>b2. RangeScan T1 low high [] b1 =
      Some (Ok (map snd (filter (\<lambda>(key, r). low \<le> key \<and> key \<le> high) ys)), b2))"
  by (rule index_range_scan [OF small_tree_new _ _ _ small_pool_ready]) (simp_all add: small_tree_def sample_pairs_def small_pool_left)

theorem index_insert_invariant_witness:
  "\<exists>T' b' m' h' P' l'. Insert (mk32 5) RID_default (default_tree, small_pool) = Some (Ok (), (T', b')) \<and>
    bpm_idle b' m' 2 l' \<and> pages_left small_pool - (0 + 2) \<le> l' \<and>
    index_ok T' m' h' P' (upd (mk32 5) RID_default []) \<and> h' \<le> 0 + 1 \<and>
    P' = {} \<union> (dom m' - dom (bp_content small_pool)) \<and>
    (\<forall>p. bp_content small_pool p \<noteq> None \<longrightarrow> p \<notin> {} \<longrightarrow> m' p = bp_content small_pool p)"
  by (rule index_insert_invariant [OF small_pool_ready])
    (simp_all add: small_pool_left index_ok_def default_tree_def sizes_ok_def nodes_fit_def)

theorem internal_node_overflow_witness:
  "Internal_InsertEntry (mk32 7) (mk32 9) (set_node_size 510 zero_page) = Fault"
  by (rule internal_node_overflow [of "''i''" 4 "small_tree\<lparr>internal_max_size := 510\<rparr>"])
    (use node_size_set [of zero_page 510] length_zero_page in
      \<open>simp_all add: mk_BPlusTree_def small_tree_def capacities Let_def set_node_size_def PAGE_SIZE_def\<close>)

end
