(* ===== verification/Thread_Pool.thy ===== *)
theory Thread_Pool
  imports DB_Prelude
begin

text \<open>
  \<open>src/src/executor/thread_pool\<close>: workers that take tasks from a queue under a mutex, and the caller
  that submits tasks, waits for them and stops the pool. A step is a critical section, a
  notification, or a step of a task outside the mutex; a run is an interleaving of the steps of the
  caller and the workers. What a task does is given by a step relation on its local state and the
  state it shares with the others, so that the theorems hold for the tasks of every parallel operator.
\<close>

section \<open>Definitions\<close>

text \<open>An exception that leaves a task ends the program, as \<open>std::terminate\<close> does.\<close>

datatype 'l task_result = Continue 'l | Return | Terminate

type_synonym ('l, 's) task_rel = "'l \<Rightarrow> 's \<Rightarrow> 'l task_result \<Rightarrow> 's \<Rightarrow> bool"

text \<open>A worker is before the test of its wait, asleep in \<open>task_cv_\<close>, in a task, before the second
  critical section, or has returned.\<close>

datatype 'l worker = Checking | Sleeping | Running 'l | Finishing | Exited

record 'l ThreadPool =
  workers :: "'l worker list"
  tasks :: "'l list"
  stop :: bool
  in_flight :: int

text \<open>
  The caller constructs the pool, submits its tasks, calls \<open>WaitAll\<close> and destroys the pool: before
  the next \<open>Submit\<close> (or, with none left, before the test of \<open>WaitAll\<close>), between the push and the
  notification of \<open>Submit\<close>, asleep in \<open>done_cv_\<close>, after \<open>WaitAll\<close>, before the notification and before
  the end of the joins in the destructor, after it, or ended by an exception of a task.
\<close>

datatype 'l caller = Submitting "'l list" | Notifying "'l list" | Blocked | Waited | Stopping | Joining | Joined | Aborted

definition mk_ThreadPool :: "nat \<Rightarrow> 'l ThreadPool" where
  "mk_ThreadPool n_threads = \<lparr>workers = replicate n_threads Checking, tasks = [], stop = False, in_flight = 0\<rparr>"

definition wake :: "'l worker \<Rightarrow> 'l worker" where
  "wake w = (case w of Sleeping \<Rightarrow> Checking | _ \<Rightarrow> w)"

definition set_worker :: "nat \<Rightarrow> 'l worker \<Rightarrow> 'l ThreadPool \<Rightarrow> 'l ThreadPool" where
  "set_worker j w p = p\<lparr>workers := (workers p)[j := w]\<rparr>"

text \<open>The critical section of \<open>Submit\<close>; its notification follows as a step of its own.\<close>

definition Submit :: "'l \<Rightarrow> 'l ThreadPool \<Rightarrow> 'l ThreadPool" where
  "Submit task p = p\<lparr>in_flight := in_flight p + 1, tasks := tasks p @ [task]\<rparr>"

definition WaitAll :: "'l ThreadPool \<Rightarrow> 'l caller" where
  "WaitAll p = (if in_flight p = 0 then Waited else Blocked)"

text \<open>The two critical sections of the loop of a worker.\<close>

definition worker_take :: "nat \<Rightarrow> 'l ThreadPool \<Rightarrow> 'l ThreadPool" where
  "worker_take j p =
     (case tasks p of
        [] \<Rightarrow> set_worker j (if stop p then Exited else Sleeping) p
      | t # ts \<Rightarrow> (set_worker j (Running t) p)\<lparr>tasks := ts\<rparr>)"

definition worker_finish :: "nat \<Rightarrow> 'l caller \<Rightarrow> 'l ThreadPool \<Rightarrow> 'l caller \<times> 'l ThreadPool" where
  "worker_finish j c p =
     (let p' = (set_worker j Checking p)\<lparr>in_flight := in_flight p - 1\<rparr>
      in (if in_flight p' = 0 \<and> c = Blocked then Submitting [] else c, p'))"

text \<open>The steps, for tasks with the step relation \<open>T\<close>.\<close>

inductive tp_step :: "('l, 's) task_rel \<Rightarrow> 'l caller \<times> 'l ThreadPool \<times> 's \<Rightarrow> 'l caller \<times> 'l ThreadPool \<times> 's \<Rightarrow> bool"
  for T :: "('l, 's) task_rel" where
  submit: "tp_step T (Submitting (t # ts), p, s) (Notifying ts, Submit t p, s)"
| notify: "j < length (workers p) \<Longrightarrow> workers p ! j = Sleeping \<Longrightarrow>
    tp_step T (Notifying ts, p, s) (Submitting ts, set_worker j Checking p, s)"
| notify_nobody: "Sleeping \<notin> set (workers p) \<Longrightarrow> tp_step T (Notifying ts, p, s) (Submitting ts, p, s)"
| wait: "tp_step T (Submitting [], p, s) (WaitAll p, p, s)"
| destroy: "tp_step T (Waited, p, s) (Stopping, p\<lparr>stop := True\<rparr>, s)"
| notify_all: "tp_step T (Stopping, p, s) (Joining, p\<lparr>workers := map wake (workers p)\<rparr>, s)"
| join: "\<forall>w \<in> set (workers p). w = Exited \<Longrightarrow> tp_step T (Joining, p, s) (Joined, p, s)"
| take: "c \<noteq> Aborted \<Longrightarrow> j < length (workers p) \<Longrightarrow> workers p ! j = Checking \<Longrightarrow> tp_step T (c, p, s) (c, worker_take j p, s)"
| run: "c \<noteq> Aborted \<Longrightarrow> j < length (workers p) \<Longrightarrow> workers p ! j = Running l \<Longrightarrow> T l s (Continue l') s' \<Longrightarrow>
    tp_step T (c, p, s) (c, set_worker j (Running l') p, s')"
| return: "c \<noteq> Aborted \<Longrightarrow> j < length (workers p) \<Longrightarrow> workers p ! j = Running l \<Longrightarrow> T l s Return s' \<Longrightarrow>
    tp_step T (c, p, s) (c, set_worker j Finishing p, s')"
| abort: "c \<noteq> Aborted \<Longrightarrow> j < length (workers p) \<Longrightarrow> workers p ! j = Running l \<Longrightarrow> T l s Terminate s' \<Longrightarrow>
    tp_step T (c, p, s) (Aborted, p, s')"
| finish: "c \<noteq> Aborted \<Longrightarrow> j < length (workers p) \<Longrightarrow> workers p ! j = Finishing \<Longrightarrow> worker_finish j c p = (c', p') \<Longrightarrow>
    tp_step T (c, p, s) (c', p', s)"

text \<open>A condition variable may also wake up without a notification.\<close>

inductive tp_spurious :: "'l caller \<times> 'l ThreadPool \<times> 's \<Rightarrow> 'l caller \<times> 'l ThreadPool \<times> 's \<Rightarrow> bool" where
  worker: "c \<noteq> Aborted \<Longrightarrow> j < length (workers p) \<Longrightarrow> workers p ! j = Sleeping \<Longrightarrow>
    tp_spurious (c, p, s) (c, set_worker j Checking p, s)"
| caller: "tp_spurious (Blocked, p, s) (Submitting [], p, s)"

definition tp_any :: "('l, 's) task_rel \<Rightarrow> 'l caller \<times> 'l ThreadPool \<times> 's \<Rightarrow> 'l caller \<times> 'l ThreadPool \<times> 's \<Rightarrow> bool" where
  "tp_any T x y \<longleftrightarrow> tp_step T x y \<or> tp_spurious x y"

definition tp_start :: "nat \<Rightarrow> 'l list \<Rightarrow> 's \<Rightarrow> 'l caller \<times> 'l ThreadPool \<times> 's" where
  "tp_start n ts s = (Submitting ts, mk_ThreadPool n, s)"

section \<open>The tasks as a bag of processes\<close>

text \<open>What the pool should be to its client: the tasks run side by side until each has returned.\<close>

datatype ('l, 's) bag = Live "'l multiset" 's | Dead

inductive bag_step :: "('l, 's) task_rel \<Rightarrow> ('l, 's) bag \<Rightarrow> ('l, 's) bag \<Rightarrow> bool" for T :: "('l, 's) task_rel" where
  bag_run: "T l s (Continue l') s' \<Longrightarrow> bag_step T (Live (add_mset l M) s) (Live (add_mset l' M) s')"
| bag_return: "T l s Return s' \<Longrightarrow> bag_step T (Live (add_mset l M) s) (Live M s')"
| bag_abort: "T l s Terminate s' \<Longrightarrow> bag_step T (Live (add_mset l M) s) Dead"

inductive_cases bag_stepE: "bag_step T (Live M s) y"
inductive_cases bag_deadE: "bag_step T Dead y"

fun unsubmitted :: "'l caller \<Rightarrow> 'l list" where
  "unsubmitted (Submitting ts) = ts"
| "unsubmitted (Notifying ts) = ts"
| "unsubmitted _ = []"

fun held :: "'l worker \<Rightarrow> 'l multiset" where
  "held (Running l) = {#l#}"
| "held _ = {#}"

definition running :: "'l ThreadPool \<Rightarrow> 'l multiset" where
  "running p = sum_list (map held (workers p))"

fun bag_of :: "'l caller \<times> 'l ThreadPool \<times> 's \<Rightarrow> ('l, 's) bag" where
  "bag_of (c, p, s) = (if c = Aborted then Dead else Live (mset (unsubmitted c) + mset (tasks p) + running p) s)"

text \<open>One worker changes.\<close>

lemma sum_split:
  fixes f :: "'a \<Rightarrow> 'b :: comm_monoid_add"
  assumes "j < length ws"
  shows "\<exists>R. sum_list (map f ws) = f (ws ! j) + R \<and> (\<forall>w. sum_list (map f (ws[j := w])) = f w + R)"
proof -
  let ?R = "sum_list (map f (take j ws)) + sum_list (map f (drop (Suc j) ws))"
  have "sum_list (map f ws) = f (ws ! j) + ?R"
    by (subst id_take_nth_drop [OF assms]) (simp add: ac_simps)
  moreover have "sum_list (map f (ws[j := w])) = f w + ?R" for w
    using assms by (simp add: upd_conv_take_nth_drop ac_simps)
  ultimately show ?thesis by blast
qed

lemma set_worker_simps [simp]:
  "workers (set_worker j w p) = (workers p)[j := w]" "tasks (set_worker j w p) = tasks p"
  "stop (set_worker j w p) = stop p" "in_flight (set_worker j w p) = in_flight p"
  by (simp_all add: set_worker_def)

lemma running_upd:
  "j < length (workers p) \<Longrightarrow> running (set_worker j w p) + held (workers p ! j) = running p + held w"
  using sum_split [of j "workers p" held] by (auto simp: running_def)

lemma held_wake [simp]: "held (wake w) = held w"
  by (cases w) (simp_all add: wake_def)

lemma sum_list_zeros: "sum_list (map f (replicate n w)) = (0 :: 'b :: comm_monoid_add)" if "f w = 0"
  using that by (induction n) simp_all

lemma running_simps [simp]:
  "running (p\<lparr>tasks := ts\<rparr>) = running p" "running (p\<lparr>stop := b\<rparr>) = running p" "running (p\<lparr>in_flight := i\<rparr>) = running p"
  "running (p\<lparr>workers := map wake (workers p)\<rparr>) = running p" "running (mk_ThreadPool n) = {#}"
  by (simp_all add: running_def mk_ThreadPool_def comp_def sum_list_zeros del: map_replicate)

text \<open>Every step of the pool is a step of the bag or leaves it as it is.\<close>

lemma bag_run_worker:
  assumes "c \<noteq> Aborted" "j < length (workers p)" "workers p ! j = Running l" "T l s (Continue l') s'"
  shows "bag_step T (bag_of (c, p, s)) (bag_of (c, set_worker j (Running l') p, s'))"
proof -
  obtain R where "running p = add_mset l R" "running (set_worker j (Running l') p) = add_mset l' R"
    using sum_split [OF assms(2), of held] assms(3) by (auto simp: running_def)
  then show ?thesis using assms(1) bag_run [of T, OF assms(4)] by simp
qed

lemma bag_return_worker:
  assumes "c \<noteq> Aborted" "j < length (workers p)" "workers p ! j = Running l" "T l s Return s'"
  shows "bag_step T (bag_of (c, p, s)) (bag_of (c, set_worker j Finishing p, s'))"
proof -
  obtain R where "running p = add_mset l R" "running (set_worker j Finishing p) = R"
    using sum_split [OF assms(2), of held] assms(3) by (auto simp: running_def)
  then show ?thesis using assms(1) bag_return [of T, OF assms(4)] by simp
qed

lemma bag_abort_worker:
  assumes "c \<noteq> Aborted" "j < length (workers p)" "workers p ! j = Running l" "T l s Terminate s'"
  shows "bag_step T (bag_of (c, p, s)) (bag_of (Aborted, p, s'))"
proof -
  obtain R where "running p = add_mset l R"
    using sum_split [OF assms(2), of held] assms(3) by (auto simp: running_def)
  then show ?thesis using assms(1) bag_abort [of T, OF assms(4)] by simp
qed

lemma tp_step_bag: "tp_step T x y \<Longrightarrow> bag_step T (bag_of x) (bag_of y) \<or> bag_of y = bag_of x"
proof (induction rule: tp_step.induct)
  case (notify j p ts s)
  then show ?case using running_upd [of j p Checking] by simp
next
  case (take c j p s)
  then show ?case
    using running_upd [of j p "if stop p then Exited else Sleeping"] running_upd [of j p "Running (hd (tasks p))"]
    by (cases "tasks p"; cases "stop p") (simp_all add: worker_take_def)
next
  case (run c j p l s l' s')
  then show ?case using bag_run_worker [of c j p l T s l' s'] by simp
next
  case (return c j p l s s')
  then show ?case using bag_return_worker [of c j p l T s s'] by simp
next
  case (abort c j p l s s')
  then show ?case using bag_abort_worker [of c j p l T s s'] by simp
next
  case (finish c j p c' p' s)
  then show ?case using running_upd [of j p Checking] by (auto simp: worker_finish_def Let_def split: if_splits)
qed (auto simp: Submit_def WaitAll_def)

lemma tp_spurious_bag: "tp_spurious x y \<Longrightarrow> bag_of y = bag_of x"
proof (induction rule: tp_spurious.induct)
  case (worker c j p s)
  then show ?case using running_upd [of j p Checking] by simp
qed simp

lemma tp_run_bag: "(tp_any T)\<^sup>*\<^sup>* x y \<Longrightarrow> (bag_step T)\<^sup>*\<^sup>* (bag_of x) (bag_of y)"
proof (induction rule: rtranclp_induct)
  case (step y z)
  then show ?case
    using tp_step_bag [of T y z] tp_spurious_bag [of y z] by (auto simp: tp_any_def intro: rtranclp.rtrancl_into_rtrancl)
qed simp

section \<open>The invariant\<close>

definition busy :: "'l worker \<Rightarrow> nat" where
  "busy w = (case w of Running l \<Rightarrow> 1 | Finishing \<Rightarrow> 1 | _ \<Rightarrow> 0)"

definition awake :: "'l worker \<Rightarrow> bool" where
  "awake w \<longleftrightarrow> w \<noteq> Sleeping \<and> w \<noteq> Exited"

definition load :: "'l ThreadPool \<Rightarrow> nat" where
  "load p = sum_list (map busy (workers p))"

definition someone_awake :: "'l ThreadPool \<Rightarrow> bool" where
  "someone_awake p \<longleftrightarrow> (\<exists>w \<in> set (workers p). awake w)"

text \<open>
  \<open>in_flight_\<close> counts the tasks submitted and not yet finished. Nobody sleeps through a notification:
  while there are tasks in the queue some worker is awake or about to be notified, the caller sleeps
  only while tasks are in flight, and no worker sleeps once the stop has been announced.
\<close>

definition tp_inv :: "nat \<Rightarrow> 'l caller \<Rightarrow> 'l ThreadPool \<Rightarrow> bool" where
  "tp_inv n c p \<longleftrightarrow> length (workers p) = n \<and> in_flight p = int (length (tasks p) + load p) \<and>
     (c \<noteq> Aborted \<longrightarrow> stop p = (c = Stopping \<or> c = Joining \<or> c = Joined)) \<and>
     (Exited \<in> set (workers p) \<longrightarrow> stop p) \<and>
     (c = Blocked \<longrightarrow> in_flight p \<noteq> 0) \<and>
     (c = Waited \<or> c = Stopping \<or> c = Joining \<or> c = Joined \<longrightarrow> in_flight p = 0) \<and>
     (c = Joining \<or> c = Joined \<longrightarrow> Sleeping \<notin> set (workers p)) \<and>
     (tasks p \<noteq> [] \<longrightarrow> someone_awake p \<or> (\<exists>ts. c = Notifying ts))"

lemma busy_simps [simp]: "busy Checking = 0" "busy Sleeping = 0" "busy Exited = 0" "busy (Running l) = 1" "busy Finishing = 1"
  by (simp_all add: busy_def)

lemma wake_simps [simp]: "wake Sleeping = Checking" "w \<noteq> Sleeping \<Longrightarrow> wake w = w" "busy (wake w) = busy w" "wake w \<noteq> Sleeping"
  by (cases w; simp add: wake_def)+

lemma wake_set [simp]: "Sleeping \<notin> wake ` A" "Exited \<in> wake ` A \<longleftrightarrow> Exited \<in> A"
  by (auto simp: image_iff wake_def split: worker.splits) (metis worker.exhaust)

lemma load_upd: "j < length (workers p) \<Longrightarrow> load (set_worker j w p) + busy (workers p ! j) = load p + busy w"
  using sum_split [of j "workers p" busy] by (auto simp: load_def)

lemma load_simps [simp]:
  "load (p\<lparr>tasks := ts\<rparr>) = load p" "load (p\<lparr>stop := b\<rparr>) = load p" "load (p\<lparr>in_flight := i\<rparr>) = load p"
  "load (p\<lparr>workers := map wake (workers p)\<rparr>) = load p" "load (mk_ThreadPool n) = 0"
  by (simp_all add: load_def mk_ThreadPool_def comp_def)

lemma someone_awake_upd: "j < length (workers p) \<Longrightarrow> awake w \<Longrightarrow> someone_awake (set_worker j w p)"
  unfolding someone_awake_def by (simp, meson set_update_memI)

lemma someone_awake_simps [simp]:
  "someone_awake (p\<lparr>tasks := ts\<rparr>) = someone_awake p" "someone_awake (p\<lparr>stop := b\<rparr>) = someone_awake p"
  "someone_awake (p\<lparr>in_flight := i\<rparr>) = someone_awake p"
  by (simp_all add: someone_awake_def)

lemma in_upd: "x \<in> set (ws[j := w]) \<Longrightarrow> x \<in> set ws \<or> x = w"
  using set_update_subset_insert [of ws j w] by auto

lemma awake_simps [simp]: "awake Checking" "awake (Running l)" "awake Finishing" "\<not> awake Sleeping" "\<not> awake Exited"
  by (simp_all add: awake_def)

text \<open>A worker changes to a state in which it is awake, and its share of the count stays.\<close>

lemma tp_inv_worker:
  assumes "tp_inv n c p" and "j < length (workers p)" and "busy (workers p ! j) = busy w" and "awake w"
  shows "tp_inv n c (set_worker j w p)"
proof -
  have "Exited \<in> set ((workers p)[j := w]) \<Longrightarrow> Exited \<in> set (workers p)" "Sleeping \<in> set ((workers p)[j := w]) \<Longrightarrow> Sleeping \<in> set (workers p)"
    using assms(4) by (auto dest!: in_upd)
  moreover have "load (set_worker j w p) = load p" using load_upd [OF assms(2), of w] assms(3) by simp
  ultimately show ?thesis using assms(1) someone_awake_upd [OF assms(2,4)] unfolding tp_inv_def
    by (intro conjI impI) (simp_all, blast+)
qed

lemma tp_inv_take:
  assumes inv: "tp_inv n c p" and "c \<noteq> Aborted" and j: "j < length (workers p)" "workers p ! j = Checking"
  shows "tp_inv n c (worker_take j p)"
proof (cases "tasks p")
  case Nil
  then show ?thesis
    using inv load_upd [OF j(1), of "if stop p then Exited else Sleeping"] j assms(2) unfolding tp_inv_def
    by (auto simp: worker_take_def dest!: in_upd)
next
  case (Cons t ts)
  then show ?thesis
    using inv load_upd [OF j(1), of "Running t"] someone_awake_upd [OF j(1), of "Running t"] j unfolding tp_inv_def
    by (auto simp: worker_take_def dest!: in_upd)
qed

lemma tp_inv_finish:
  assumes inv: "tp_inv n c p" and "c \<noteq> Aborted" and j: "j < length (workers p)" "workers p ! j = Finishing"
    and f: "worker_finish j c p = (c', p')"
  shows "tp_inv n c' p'"
proof -
  have l: "load p = Suc (load (set_worker j Checking p))" using load_upd [OF j(1), of Checking] j(2) by simp
  then have "in_flight p \<noteq> 0" using inv by (simp add: tp_inv_def)
  then have "c \<noteq> Waited" "c \<noteq> Stopping" "c \<noteq> Joining" "c \<noteq> Joined" using inv by (auto simp: tp_inv_def)
  then show ?thesis
    using assms l someone_awake_upd [OF j(1), of Checking] unfolding tp_inv_def
    by (auto simp: worker_finish_def Let_def split: if_splits dest!: in_upd)
qed

abbreviation tp_ok :: "nat \<Rightarrow> 'l caller \<times> 'l ThreadPool \<times> 's \<Rightarrow> bool" where
  "tp_ok n x \<equiv> tp_inv n (fst x) (fst (snd x))"

lemma tp_step_inv: "tp_step T x y \<Longrightarrow> 0 < n \<Longrightarrow> tp_ok n x \<Longrightarrow> tp_ok n y"
proof (induction rule: tp_step.induct)
  case (submit t ts p s)
  then show ?case by (auto simp: Submit_def tp_inv_def)
next
  case (notify j p ts s)
  then show ?case
    using tp_inv_worker [of n "Notifying ts" p j Checking] someone_awake_upd [of j p Checking] by (auto simp: tp_inv_def)
next
  case (notify_nobody p ts s)
  have "workers p \<noteq> []" using notify_nobody(2,3) by (auto simp: tp_inv_def)
  moreover have "Exited \<notin> set (workers p)" using notify_nobody(3) by (simp add: tp_inv_def) blast
  ultimately have "someone_awake p" using notify_nobody(1) by (cases "workers p") (auto simp: awake_def someone_awake_def)
  then show ?case using notify_nobody by (auto simp: tp_inv_def)
next
  case (wait p s)
  then show ?case by (auto simp: WaitAll_def tp_inv_def)
next
  case (take c j p s)
  then show ?case using tp_inv_take by simp
next
  case (run c j p l s l' s')
  then show ?case using tp_inv_worker [of n c p j "Running l'"] by simp
next
  case (return c j p l s s')
  then show ?case using tp_inv_worker [of n c p j Finishing] by simp
next
  case (finish c j p c' p' s)
  then show ?case using tp_inv_finish by simp
next
  case (notify_all p s)
  then have "in_flight p = int (length (tasks p) + load p)" "in_flight p = 0" by (simp_all add: tp_inv_def)
  then have "tasks p = []" by (metis add_is_0 length_0_conv of_nat_eq_0_iff)
  then show ?case using notify_all by (auto simp: tp_inv_def)
next
  case (abort c j p l s s')
  then have "Running l \<in> set (workers p)" by (metis nth_mem)
  then have "someone_awake p" by (force simp: someone_awake_def)
  then show ?case using abort by (auto simp: tp_inv_def)
qed (auto simp: tp_inv_def)

lemma tp_spurious_inv: "tp_spurious x y \<Longrightarrow> tp_ok n x \<Longrightarrow> tp_ok n y"
proof (induction rule: tp_spurious.induct)
  case (worker c j p s)
  then show ?case using tp_inv_worker [of n c p j Checking] by simp
next
  case (caller p s)
  then show ?case by (auto simp: tp_inv_def)
qed

lemma tp_start_inv: "tp_ok n (tp_start n ts s)"
  by (simp add: tp_start_def tp_inv_def) (simp add: mk_ThreadPool_def)

lemma tp_run_inv: "(tp_any T)\<^sup>*\<^sup>* x y \<Longrightarrow> 0 < n \<Longrightarrow> tp_ok n x \<Longrightarrow> tp_ok n y"
  by (induction rule: rtranclp_induct) (auto simp: tp_any_def intro: tp_step_inv tp_spurious_inv)

section \<open>Progress\<close>

text \<open>A pool in which no step is possible has finished: there is no deadlock and no lost wake-up.\<close>

lemma tp_progress:
  assumes inv: "tp_inv n c p" and total: "\<And>l. \<exists>r s'. T l s r s'" and c: "c \<noteq> Joined" "c \<noteq> Aborted"
  shows "\<exists>y. tp_step T (c, p, s) y"
proof (cases "someone_awake p")
  case True
  then obtain w where "w \<in> set (workers p)" "awake w" by (auto simp: someone_awake_def)
  then obtain j where j: "j < length (workers p)" "awake (workers p ! j)" by (auto simp: in_set_conv_nth)
  show ?thesis
  proof (cases "workers p ! j")
    case Checking
    then show ?thesis using tp_step.take [of c j p T s] j(1) c(2) by blast
  next
    case (Running l)
    obtain r s' where "T l s r s'" using total by blast
    then show ?thesis
      using tp_step.run [OF c(2) j(1) Running, of T s _ s'] tp_step.return [OF c(2) j(1) Running, of T s s']
        tp_step.abort [OF c(2) j(1) Running, of T s s'] by (cases r) auto
  next
    case Finishing
    then show ?thesis using tp_step.finish [OF c(2) j(1)] by (metis surj_pair)
  qed (use j(2) in simp_all)
next
  case False
  then have all: "w = Sleeping \<or> w = Exited" if "w \<in> set (workers p)" for w using that by (auto simp: someone_awake_def awake_def)
  show ?thesis
  proof (cases c)
    case (Submitting ts)
    then show ?thesis using tp_step.submit [of T _ _ p s] tp_step.wait [of T p s] by (cases ts) metis+
  next
    case (Notifying ts)
    then show ?thesis using tp_step.notify [of _ p T ts s] tp_step.notify_nobody [of p T ts s] by (metis in_set_conv_nth)
  next
    case Blocked
    have "busy w = 0" if "w \<in> set (workers p)" for w using all [OF that] by auto
    then have "load p = 0" by (simp add: load_def)
    then have False using inv Blocked False unfolding tp_inv_def by auto
    then show ?thesis ..
  next
    case Joining
    then have "\<forall>w \<in> set (workers p). w = Exited" using inv all by (auto simp: tp_inv_def)
    then show ?thesis using Joining tp_step.join [of p T s] by blast
  next
    case Waited
    then show ?thesis using tp_step.destroy [of T p s] by blast
  next
    case Stopping
    then show ?thesis using tp_step.notify_all [of T p s] by blast
  qed (use c in simp_all)
qed

section \<open>Termination\<close>

text \<open>Without spurious wake-ups the pool adds finitely many steps to those of the tasks.\<close>

fun caller_rank :: "nat \<Rightarrow> 'l caller \<Rightarrow> nat" where
  "caller_rank n (Submitting ts) = 3 * length ts + n + 5"
| "caller_rank n (Notifying ts) = 3 * length ts + n + 7"
| "caller_rank n Blocked = n + 4"
| "caller_rank n Waited = n + 3"
| "caller_rank n Stopping = n + 2"
| "caller_rank n Joining = 1"
| "caller_rank n _ = 0"

definition worker_rank :: "'l worker \<Rightarrow> nat" where
  "worker_rank w = (case w of Checking \<Rightarrow> 2 | Sleeping \<Rightarrow> 1 | Running l \<Rightarrow> 0 | Finishing \<Rightarrow> 4 | Exited \<Rightarrow> 0)"

definition ranks :: "'l ThreadPool \<Rightarrow> nat" where
  "ranks p = sum_list (map worker_rank (workers p))"

definition tp_rank :: "'l caller \<times> 'l ThreadPool \<times> 's \<Rightarrow> nat" where
  "tp_rank x = (case x of (c, p, s) \<Rightarrow> caller_rank (length (workers p)) c + ranks p)"

lemma ranks_upd: "j < length (workers p) \<Longrightarrow> ranks (set_worker j w p) + worker_rank (workers p ! j) = ranks p + worker_rank w"
  using sum_split [of j "workers p" worker_rank] by (auto simp: ranks_def)

lemma ranks_simps [simp]:
  "ranks (p\<lparr>tasks := ts\<rparr>) = ranks p" "ranks (p\<lparr>stop := b\<rparr>) = ranks p" "ranks (p\<lparr>in_flight := i\<rparr>) = ranks p"
  by (simp_all add: ranks_def)

lemma ranks_wake: "sum_list (map (\<lambda>w. worker_rank (wake w)) ws) \<le> sum_list (map worker_rank ws) + length ws"
proof (induction ws)
  case (Cons w ws)
  have "worker_rank (wake w) \<le> worker_rank w + 1" by (cases w) (simp_all add: wake_def worker_rank_def)
  then show ?case using Cons by simp
qed simp

lemma tp_step_rank: "tp_step T x y \<Longrightarrow> bag_step T (bag_of x) (bag_of y) \<or> tp_rank y < tp_rank x"
proof (induction rule: tp_step.induct)
  case (notify j p ts s)
  then show ?case using ranks_upd [of j p Checking] by (simp add: tp_rank_def worker_rank_def)
next
  case (notify_all p s)
  then show ?case using ranks_wake [of "workers p"] by (simp add: tp_rank_def ranks_def comp_def)
next
  case (take c j p s)
  then have "tp_rank (c, worker_take j p, s) < tp_rank (c, p, s)"
    using ranks_upd [of j p "if stop p then Exited else Sleeping"] ranks_upd [of j p "Running (hd (tasks p))"]
    by (cases "tasks p"; cases "stop p") (simp_all add: tp_rank_def worker_rank_def worker_take_def)
  then show ?case ..
next
  case (finish c j p c' p' s)
  then have "tp_rank (c', p', s) < tp_rank (c, p, s)"
    using ranks_upd [of j p Checking] by (auto simp: tp_rank_def worker_rank_def worker_finish_def Let_def split: if_splits)
  then show ?case ..
next
  case (run c j p l s l' s')
  then show ?case using bag_run_worker [of c j p l T s l' s'] by simp
next
  case (return c j p l s s')
  then show ?case using bag_return_worker [of c j p l T s s'] by simp
next
  case (abort c j p l s s')
  then show ?case using bag_abort_worker [of c j p l T s s'] by simp
qed (auto simp: tp_rank_def Submit_def WaitAll_def ranks_def)

text \<open>If the tasks come to an end, so does the pool.\<close>

lemma tp_terminates:
  assumes "termip (bag_step T) b" and "bag_of x = b"
  shows "termip (tp_step T) x"
  using assms
proof (induction arbitrary: x rule: accp.induct)
  case (accI b)
  from accI(3) show ?case
  proof (induction "tp_rank x" arbitrary: x rule: less_induct)
    case less
    show ?case
    proof (rule accp.accI)
      fix y assume "(tp_step T)\<inverse>\<inverse> y x"
      then have y: "tp_step T x y" by simp
      show "termip (tp_step T) y"
      proof (cases "bag_step T (bag_of x) (bag_of y)")
        case True
        then have "(bag_step T)\<inverse>\<inverse> (bag_of y) b" using less.prems by simp
        then show ?thesis using refl by (rule accI(2))
      next
        case False
        then have "bag_of y = b" "tp_rank y < tp_rank x" using tp_step_bag [OF y] tp_step_rank [OF y] less.prems by auto
        then show ?thesis using less.hyps by blast
      qed
    qed
  qed
qed

lemma bag_run_acc: "(bag_step T)\<^sup>*\<^sup>* x y \<Longrightarrow> termip (bag_step T) x \<Longrightarrow> termip (bag_step T) y"
  by (induction rule: rtranclp_induct) (auto intro: accp_downward)

lemma tp_start_bag: "bag_of (tp_start n ts s) = Live (mset ts) s"
  by (simp add: tp_start_def) (simp add: mk_ThreadPool_def)

text \<open>When \<open>WaitAll\<close> has returned no task is left.\<close>

lemma tp_waited:
  assumes "(tp_any T)\<^sup>*\<^sup>* (tp_start n ts s) (c, p, s')" and "0 < n" and "c \<in> {Waited, Stopping, Joining, Joined}"
  shows "mset (unsubmitted c) + mset (tasks p) + running (p :: 'l ThreadPool) = {#}"
proof -
  have "tp_inv n c p" using tp_run_inv [OF assms(1,2) tp_start_inv] by simp
  then have "in_flight p = int (length (tasks p) + load p)" "in_flight p = 0" using assms(3) by (auto simp: tp_inv_def)
  then have "tasks p = []" "load p = 0" by (metis add_is_0 length_0_conv of_nat_eq_0_iff)+
  moreover have "sum_list (map busy ws) = 0 \<Longrightarrow> sum_list (map held ws) = {#}" for ws :: "'l worker list"
  proof (induction ws)
    case (Cons w ws)
    then show ?case by (cases w) simp_all
  qed simp
  ultimately have "running p = {#}" by (simp add: load_def running_def)
  then show ?thesis using \<open>tasks p = []\<close> assms(3) by auto
qed

lemma tp_step_mono: "tp_step T x y \<Longrightarrow> (\<And>l s r s'. T l s r s' \<Longrightarrow> T' l s r s') \<Longrightarrow> tp_step T' x y"
  by (induction rule: tp_step.induct) (auto intro: tp_step.intros)

lemma tp_any_mono: "tp_any T x y \<Longrightarrow> (\<And>l s r s'. T l s r s' \<Longrightarrow> T' l s r s') \<Longrightarrow> tp_any T' x y"
  unfolding tp_any_def by (metis tp_step_mono)

lemma tp_run_mono:
  assumes "(tp_any T)\<^sup>*\<^sup>* x y" and "\<And>l s r s'. T l s r s' \<Longrightarrow> T' l s r s'"
  shows "(tp_any T')\<^sup>*\<^sup>* x y"
  using assms(1)
proof (induction rule: rtranclp_induct)
  case (step y z)
  then show ?case using tp_any_mono [OF step(2) assms(2)] by (meson rtranclp.rtrancl_into_rtrancl)
qed simp

text \<open>Some run comes to an end.\<close>

lemma tp_finishes:
  assumes "0 < n" and "\<And>l s. \<exists>r s'. T l s r s'" and "termip (bag_step T) (Live (mset ts) s)"
  shows "\<exists>c p s'. (tp_any T)\<^sup>*\<^sup>* (tp_start n ts s) (c, p, s') \<and> (c = Joined \<or> c = Aborted)"
proof -
  have "\<exists>c p s'. (tp_any T)\<^sup>*\<^sup>* (tp_start n ts s) (c, p, s') \<and> (c = Joined \<or> c = Aborted)"
    if "termip (tp_step T) x" "(tp_any T)\<^sup>*\<^sup>* (tp_start n ts s) x" for x
    using that
  proof (induction rule: accp.induct)
    case (accI x)
    obtain c p s' where x: "x = (c, p, s')" by (cases x) auto
    show ?case
    proof (cases "c = Joined \<or> c = Aborted")
      case True
      then show ?thesis using accI(3) x by blast
    next
      case False
      have "tp_inv n c p" using tp_run_inv [OF accI(3) assms(1) tp_start_inv] x by simp
      then obtain y where y: "tp_step T x y" using tp_progress [of n c p T s'] assms(2) False x by blast
      then have "tp_any T x y" by (simp add: tp_any_def)
      with accI(3) have "(tp_any T)\<^sup>*\<^sup>* (tp_start n ts s) y" by (rule rtranclp.rtrancl_into_rtrancl)
      then show ?thesis using accI(2) [of y] y by simp
    qed
  qed
  then show ?thesis using tp_terminates [OF assms(3) tp_start_bag] by blast
qed

section \<open>The contract of a client\<close>

text \<open>
  A client of the pool gives an invariant of its tasks and their shared state, under which no task
  ends the program. Then it holds whenever \<open>WaitAll\<close> has returned, with every task finished.
\<close>

locale pool_client =
  fixes T :: "('l, 's) task_rel" and J :: "'l multiset \<Rightarrow> 's \<Rightarrow> bool"
  assumes total: "\<exists>r s'. T l s r s'"
    and keep: "J (add_mset l M) s \<Longrightarrow> T l s (Continue l') s' \<Longrightarrow> J (add_mset l' M) s'"
    and leave: "J (add_mset l M) s \<Longrightarrow> T l s Return s' \<Longrightarrow> J M s'"
    and survive: "J (add_mset l M) s \<Longrightarrow> \<not> T l s Terminate s'"
begin

lemma bag_keeps:
  assumes "(bag_step T)\<^sup>*\<^sup>* (Live M s) y" and "J M s"
  shows "\<exists>M' s'. y = Live M' s' \<and> J M' s'"
  using assms
proof (induction rule: rtranclp_induct)
  case (step y z)
  then obtain M' s' where y: "y = Live M' s'" "J M' s'" by blast
  have "bag_step T (Live M' s') z" using step(2) y(1) by simp
  then show ?case
  proof (rule bag_stepE)
    fix l t l' N assume "z = Live (add_mset l' N) t" "M' = add_mset l N" "T l s' (Continue l') t"
    then show ?thesis using keep [of l N s' l' t] y(2) by simp
  next
    fix l t N assume "z = Live N t" "M' = add_mset l N" "T l s' Return t"
    then show ?thesis using leave [of l N s' t] y(2) by simp
  next
    fix l t N assume "M' = add_mset l N" "T l s' Terminate t"
    then show ?thesis using survive [of l N s' t] y(2) by simp
  qed
qed blast

lemma pool_keeps:
  assumes "(tp_any T)\<^sup>*\<^sup>* (tp_start n ts s) (c, p, s')" and "J (mset ts) s"
  shows "c \<noteq> Aborted \<and> J (mset (unsubmitted c) + mset (tasks p) + running p) s'"
proof -
  have "(bag_step T)\<^sup>*\<^sup>* (Live (mset ts) s) (bag_of (c, p, s'))"
    using tp_run_bag [OF assms(1)] by (simp add: tp_start_bag)
  then show ?thesis using bag_keeps [OF _ assms(2)] by (auto split: if_splits)
qed

lemma pool_result:
  assumes "(tp_any T)\<^sup>*\<^sup>* (tp_start n ts s) (c, p, s')" and "0 < n" and "J (mset ts) s"
    and "c \<in> {Waited, Stopping, Joining, Joined}"
  shows "J {#} s'"
  using pool_keeps [OF assms(1,3)] tp_waited [OF assms(1,2,4)] by simp

end

text \<open>If the client also gives a measure that every step of a task decreases, every run ends.\<close>

locale ending_client = pool_client T J for T :: "('l, 's) task_rel" and J +
  fixes rank :: "'l multiset \<Rightarrow> 's \<Rightarrow> nat"
  assumes rank_run: "J (add_mset l M) s \<Longrightarrow> T l s (Continue l') s' \<Longrightarrow> rank (add_mset l' M) s' < rank (add_mset l M) s"
    and rank_return: "J (add_mset l M) s \<Longrightarrow> T l s Return s' \<Longrightarrow> rank M s' < rank (add_mset l M) s"
begin

lemma bag_ends: "J M s \<Longrightarrow> termip (bag_step T) (Live M s)"
proof (induction "rank M s" arbitrary: M s rule: less_induct)
  case less
  show ?case
  proof (rule accp.accI)
    fix y assume "(bag_step T)\<inverse>\<inverse> y (Live M s)"
    then have "bag_step T (Live M s) y" by simp
    then show "termip (bag_step T) y"
    proof (rule bag_stepE)
      fix l s' l' M' assume m: "y = Live (add_mset l' M') s'" "M = add_mset l M'" "T l s (Continue l') s'"
      then have "J (add_mset l' M') s'" "rank (add_mset l' M') s' < rank M s"
        using keep [of l M' s l' s'] rank_run [of l M' s l' s'] less.prems by simp_all
      then show ?thesis unfolding m(1) using less.hyps by blast
    next
      fix l s' M' assume m: "y = Live M' s'" "M = add_mset l M'" "T l s Return s'"
      then have "J M' s'" "rank M' s' < rank M s" using leave [of l M' s s'] rank_return [of l M' s s'] less.prems by simp_all
      then show ?thesis unfolding m(1) using less.hyps by blast
    next
      fix l s' M' assume "M = add_mset l M'" "T l s Terminate s'"
      then show ?thesis using survive [of l M' s s'] less.prems by simp
    qed
  qed
qed

lemma pool_ends:
  assumes "(tp_any T)\<^sup>*\<^sup>* (tp_start n ts s) (c, p, s')" and "0 < n" and "J (mset ts) s"
  shows "termip (tp_step T) (c, p, s') \<and> (c \<noteq> Joined \<longrightarrow> (\<exists>y. tp_step T (c, p, s') y))"
proof -
  have "c \<noteq> Aborted" "J (mset (unsubmitted c) + mset (tasks p) + running p) s'" using pool_keeps [OF assms(1,3)] by auto
  then have "termip (tp_step T) (c, p, s')" using tp_terminates [OF bag_ends] by simp
  moreover have "tp_inv n c p" using tp_run_inv [OF assms(1,2) tp_start_inv] by simp
  ultimately show ?thesis using tp_progress [of n c p T s'] total \<open>c \<noteq> Aborted\<close> by blast
qed

text \<open>So the caller gets past the destructor of the pool.\<close>

lemma pool_reaches:
  assumes "0 < n" and "J (mset ts) s"
  shows "\<exists>p s'. (tp_any T)\<^sup>*\<^sup>* (tp_start n ts s) (Joined, p, s')"
  using tp_finishes [OF assms(1) total bag_ends [OF assms(2)]] pool_keeps [OF _ assms(2), of n Aborted] by blast

end

section \<open>Properties\<close>

text \<open>(C33) \<open>WaitAll\<close> returns only when every task has run to its end, whatever the number of workers, the
  interleaving and the spurious wake-ups: what the tasks did to their shared state is what they do
  when they run side by side, each once and to its end.\<close>

theorem thread_pool_runs_all:
  assumes "0 < n" and "(tp_any T)\<^sup>*\<^sup>* (tp_start n ts s) (c, p, s')" and "c \<in> {Waited, Stopping, Joining, Joined}"
  shows "(bag_step T)\<^sup>*\<^sup>* (Live (mset ts) s) (Live {#} s')"
  using tp_run_bag [OF assms(2)] tp_waited [OF assms(2,1,3)] assms(3) by (auto simp: tp_start_bag)

text \<open>Tasks that note their number and return, on a pool of one worker.\<close>

definition note_task :: "(nat, nat list) task_rel" where
  "note_task l s r s' \<longleftrightarrow> r = Return \<and> s' = s @ [l]"

lemma note_task_run:
  "(tp_any note_task)\<^sup>*\<^sup>* (tp_start 1 [7] []) (Waited, \<lparr>workers = [Checking], tasks = [], stop = False, in_flight = 0\<rparr>, [7])"
proof -
  let ?p = "\<lambda>w ts i. \<lparr>workers = [w], tasks = ts, stop = False, in_flight = i\<rparr>"
  have "tp_any note_task (tp_start 1 [7] []) (Notifying [], ?p Checking [7] 1, [])"
    using tp_step.submit [of note_task 7 "[]" "?p Checking [] 0" "[]"] by (simp add: tp_any_def tp_start_def mk_ThreadPool_def Submit_def)
  moreover have "tp_any note_task (Notifying [], ?p Checking [7] 1, []) (Submitting [], ?p Checking [7] 1, [])"
    using tp_step.notify_nobody [of "?p Checking [7] 1" note_task "[]" "[]"] by (simp add: tp_any_def)
  moreover have "tp_any note_task (Submitting [], ?p Checking [7] 1, []) (Submitting [], ?p (Running 7) [] 1, [])"
    using tp_step.take [of "Submitting []" 0 "?p Checking [7] 1" note_task "[]"] by (simp add: tp_any_def worker_take_def set_worker_def)
  moreover have "tp_any note_task (Submitting [], ?p (Running 7) [] 1, []) (Submitting [], ?p Finishing [] 1, [7])"
    using tp_step.return [of "Submitting []" 0 "?p (Running 7) [] 1" 7 note_task "[]" "[7]"]
    by (simp add: tp_any_def note_task_def set_worker_def)
  moreover have "tp_any note_task (Submitting [], ?p Finishing [] 1, [7]) (Submitting [], ?p Checking [] 0, [7])"
    using tp_step.finish [of "Submitting []" 0 "?p Finishing [] 1" "Submitting []" "?p Checking [] 0" note_task "[7]"]
    by (simp add: tp_any_def worker_finish_def set_worker_def)
  moreover have "tp_any note_task (Submitting [], ?p Checking [] 0, [7]) (Waited, ?p Checking [] 0, [7])"
    using tp_step.wait [of note_task "?p Checking [] 0" "[7]"] by (simp add: tp_any_def WaitAll_def)
  ultimately show ?thesis by (meson converse_rtranclp_into_rtranclp rtranclp.rtrancl_refl)
qed

theorem thread_pool_runs_all_witness: "(bag_step note_task)\<^sup>*\<^sup>* (Live {#7#} []) (Live {#} [7])"
  using thread_pool_runs_all [OF _ note_task_run] by simp

text \<open>(C34) The pool neither deadlocks nor loses a wake-up nor runs forever: if the tasks always come to
  an end, then from every state a run can reach, the steps that follow are finitely many unless
  condition variables keep waking up without reason, and where no step is possible the pool has been
  joined, or an exception of a task has ended the program.\<close>

theorem thread_pool_completes:
  assumes "0 < n" and "\<And>l s. \<exists>r s'. T l s r s'" and "termip (bag_step T) (Live (mset ts) s)"
    and "(tp_any T)\<^sup>*\<^sup>* (tp_start n ts s) (c, p, s')"
  shows "termip (tp_step T) (c, p, s') \<and>
    (c \<noteq> Joined \<longrightarrow> c \<noteq> Aborted \<longrightarrow> (\<exists>y. tp_step T (c, p, s') y))"
proof -
  have "(bag_step T)\<^sup>*\<^sup>* (Live (mset ts) s) (bag_of (c, p, s'))" using tp_run_bag [OF assms(4)] by (simp add: tp_start_bag)
  then have "termip (tp_step T) (c, p, s')" using tp_terminates [OF bag_run_acc] assms(3) by blast
  moreover have "tp_inv n c p" using tp_run_inv [OF assms(4,1) tp_start_inv] by simp
  ultimately show ?thesis using tp_progress [of n c p T s'] assms(2) by blast
qed

theorem thread_pool_completes_witness:
  "termip (tp_step note_task) (tp_start 1 [7] []) \<and> (\<exists>y. tp_step note_task (tp_start 1 [7] []) y)"
proof -
  have none: "\<not> bag_step note_task (Live {#} s) y" for s y by (auto elim: bag_stepE)
  have dead: "\<not> bag_step note_task Dead y" for y by (auto elim: bag_deadE)
  have "termip (bag_step note_task) (Live {#7#} [])"
  proof (rule accp.accI)
    fix y assume "(bag_step note_task)\<inverse>\<inverse> y (Live {#7#} [])"
    then have "bag_step note_task (Live {#7#} []) y" by simp
    then have "y = Live {#} [7] \<or> y = Dead" by (rule bag_stepE) (auto simp: note_task_def)
    then show "termip (bag_step note_task) y" using none dead by (metis accp.accI conversep_iff)
  qed
  then show ?thesis
    using thread_pool_completes [of 1 note_task "[7]" "[]" "Submitting [7]" "mk_ThreadPool 1" "[]"]
    by (simp add: tp_start_def note_task_def)
qed

end
