(* ===== verification/Parallel_Scan.thy ===== *)
theory Parallel_Scan
  imports Thread_Pool Catalog
begin

text \<open>
  \<open>src/src/executor/parallel_seq_scan\<close>: the workers of a parallel scan claim the pages of a table with
  an atomic counter and copy the rows of their pages to a buffer of their own. The steps of a worker
  are its accesses to what it shares with the others: the counter, the buffer pool (whose calls hold
  its latch), and the bytes of a page it has pinned.
\<close>

section \<open>Definitions\<close>

record ScanShared =
  next_page_idx :: nat
  local_rows :: "Tuple list list"
  scan_bpm :: BufferPoolManager

text \<open>Where a worker is in its loop, with its \<open>tid\<close>; the three last places are inside \<open>ScanPage\<close>.\<close>

datatype scan_pc =
    Claim nat
  | Fetching nat page_id_t
  | Reading nat page_id_t frame_id_t
  | Releasing nat page_id_t

fun scan_task_step :: "HeapFile \<Rightarrow> page_id_t list \<Rightarrow> scan_pc \<Rightarrow> ScanShared \<Rightarrow> scan_pc task_result \<times> ScanShared" where
  "scan_task_step h ids (Claim tid) s =
     (let idx = next_page_idx s; s1 = s\<lparr>next_page_idx := Suc idx\<rparr>
      in if length ids \<le> idx then (Return, s1) else (Continue (Fetching tid (ids ! idx)), s1))"
| "scan_task_step h ids (Fetching tid p) s =
     (case FetchPage p (scan_bpm s) of
        (Ok None, b) \<Rightarrow> (Continue (Claim tid), s\<lparr>scan_bpm := b\<rparr>)
      | (Ok (Some f), b) \<Rightarrow> (Continue (Reading tid p f), s\<lparr>scan_bpm := b\<rparr>)
      | (_, b) \<Rightarrow> (Terminate, s\<lparr>scan_bpm := b\<rparr>))"
| "scan_task_step h ids (Reading tid p f) s =
     (let bs = GetData f (scan_bpm s)
      in case scan_slots bs (tuple_size (schema h)) p (\<lambda>r t c. (True, c @ [t])) [0..<unat (NumTuples bs)] (local_rows s ! tid) of
           Ok (_, rows) \<Rightarrow> (Continue (Releasing tid p), s\<lparr>local_rows := (local_rows s)[tid := rows]\<rparr>)
         | _ \<Rightarrow> (Terminate, s))"
| "scan_task_step h ids (Releasing tid p) s =
     (case UnpinPage p False (scan_bpm s) of
        (Ok _, b) \<Rightarrow> (Continue (Claim tid), s\<lparr>scan_bpm := b\<rparr>)
      | (_, b) \<Rightarrow> (Terminate, s\<lparr>scan_bpm := b\<rparr>))"

definition scan_task :: "HeapFile \<Rightarrow> page_id_t list \<Rightarrow> (scan_pc, ScanShared) task_rel" where
  "scan_task h ids l s r s' \<longleftrightarrow> scan_task_step h ids l s = (r, s')"

definition scan_start :: "nat \<Rightarrow> BufferPoolManager \<Rightarrow> scan_pc caller \<times> scan_pc ThreadPool \<times> ScanShared" where
  "scan_start n b = tp_start n (map Claim [0..<n]) \<lparr>next_page_idx = 0, local_rows = replicate n [], scan_bpm = b\<rparr>"

text \<open>The buffer that \<open>Init\<close> fills, over the possible runs of its workers. An exception in a worker
  ends the program.\<close>

inductive parallel_scan :: "HeapFile \<Rightarrow> nat \<Rightarrow> BufferPoolManager \<Rightarrow> Tuple list outcome \<Rightarrow> BufferPoolManager \<Rightarrow> bool" where
  no_pages: "GetPageIds h b = Some (Ok [], b1) \<Longrightarrow> parallel_scan h n_threads b (Ok []) b1"
| merged: "GetPageIds h b = Some (Ok ids, b1) \<Longrightarrow> ids \<noteq> [] \<Longrightarrow>
    (tp_any (scan_task h ids))\<^sup>*\<^sup>* (scan_start (min n_threads (length ids)) b1) (Joined, p, s) \<Longrightarrow>
    parallel_scan h n_threads b (Ok (concat (local_rows s))) (scan_bpm s)"
| aborted: "GetPageIds h b = Some (Ok ids, b1) \<Longrightarrow> ids \<noteq> [] \<Longrightarrow>
    (tp_any (scan_task h ids))\<^sup>*\<^sup>* (scan_start (min n_threads (length ids)) b1) (Aborted, p, s) \<Longrightarrow>
    parallel_scan h n_threads b Fault (scan_bpm s)"
| threw: "GetPageIds h b = Some (Throw e, b1) \<Longrightarrow> parallel_scan h n_threads b (Throw e) b1"
| faulted: "GetPageIds h b = Some (Fault, b1) \<Longrightarrow> parallel_scan h n_threads b Fault b1"

text \<open>The steps of one worker on a page, without others in between, are a call of \<open>ScanPage\<close>.\<close>

fun scan_alone :: "HeapFile \<Rightarrow> page_id_t list \<Rightarrow> nat \<Rightarrow> scan_pc \<Rightarrow> ScanShared \<Rightarrow> scan_pc task_result \<times> ScanShared" where
  "scan_alone h ids 0 l s = (Continue l, s)"
| "scan_alone h ids (Suc n) l s = (case scan_task_step h ids l s of
      (Continue l', s') \<Rightarrow> (case l' of Claim tid \<Rightarrow> (Continue l', s') | _ \<Rightarrow> scan_alone h ids n l' s')
    | x \<Rightarrow> x)"

lemma scan_alone_ScanPage:
  assumes "tid < length (local_rows s)" and "ScanPage h p (\<lambda>r t c. c @ [t]) (local_rows s ! tid) (scan_bpm s) = (Ok rows, b)"
  shows "scan_alone h ids 3 (Fetching tid p) s = (Continue (Claim tid), s\<lparr>local_rows := (local_rows s)[tid := rows], scan_bpm := b\<rparr>)"
proof -
  obtain fo b1 where f: "FetchPage p (scan_bpm s) = (Ok fo, b1)" using assms(2) by (auto simp: ScanPage_def bind_res_eq_Ok)
  show ?thesis
  proof (cases fo)
    case None
    then have "rows = local_rows s ! tid" "b = b1" using assms(2) f by (simp_all add: ScanPage_def)
    then show ?thesis using f None assms(1) by (simp add: numeral_3_eq_3)
  next
    case (Some g)
    let ?bs = "GetData g b1"
    define X where "X = scan_slots ?bs (tuple_size (schema h)) p (\<lambda>r t c. (True, c @ [t])) [0..<unat (NumTuples ?bs)] (local_rows s ! tid)"
    have e: "(case X of Ok (_, c1) \<Rightarrow> bind_res (UnpinPage p False b1) (\<lambda>_ b2. (Ok c1, b2)) | Throw e \<Rightarrow> (Throw e, b1) | Fault \<Rightarrow> (Fault, b1)) = (Ok rows, b)"
      using assms(2) f Some by (simp add: ScanPage_def X_def Let_def)
    then obtain go u where sl: "X = Ok (go, rows)" "UnpinPage p False b1 = (Ok u, b)"
      by (cases X) (auto simp: bind_res_eq_Ok split: prod.splits)
    then show ?thesis using f Some by (simp add: numeral_3_eq_3 Let_def X_def)
  qed
qed

section \<open>The invariant\<close>

text \<open>The page a worker has pinned, and the rows of a page it has claimed and not yet copied.\<close>

fun page_held :: "scan_pc \<Rightarrow> page_id_t option" where
  "page_held (Reading tid p f) = Some p"
| "page_held (Releasing tid p) = Some p"
| "page_held _ = None"

fun thread_of :: "scan_pc \<Rightarrow> nat" where
  "thread_of (Claim tid) = tid"
| "thread_of (Fetching tid p) = tid"
| "thread_of (Reading tid p f) = tid"
| "thread_of (Releasing tid p) = tid"

definition rows_on :: "(page_id_t \<Rightarrow> byte list option) \<Rightarrow> nat \<Rightarrow> page_id_t \<Rightarrow> Tuple multiset" where
  "rows_on m w p = mset (map snd (page_rows p w (the (m p))))"

fun uncopied :: "(page_id_t \<Rightarrow> byte list option) \<Rightarrow> nat \<Rightarrow> scan_pc \<Rightarrow> Tuple multiset" where
  "uncopied m w (Fetching tid p) = rows_on m w p"
| "uncopied m w (Reading tid p f) = rows_on m w p"
| "uncopied m w _ = {#}"

text \<open>The pool with the pages pinned by the workers \<open>M\<close>.\<close>

definition pool_shared :: "(page_id_t \<Rightarrow> byte list option) \<Rightarrow> nat \<Rightarrow> nat \<Rightarrow> scan_pc multiset \<Rightarrow> BufferPoolManager \<Rightarrow> bool" where
  "pool_shared m k l M b \<longleftrightarrow> bpm_inv b \<and> bp_content b = m \<and> pool_size b = k \<and> pages_left b = l \<and> (\<forall>p. settled b p) \<and>
     (\<forall>p. pins b p = size (filter_mset (\<lambda>x. page_held x = Some p) M)) \<and>
     (\<forall>tid p f. Reading tid p f \<in># M \<longrightarrow> page_table b p = Some f)"

definition scan_inv :: "HeapFile \<Rightarrow> page_id_t list \<Rightarrow> (page_id_t \<Rightarrow> byte list option) \<Rightarrow> nat \<Rightarrow> nat \<Rightarrow> nat \<Rightarrow>
    scan_pc multiset \<Rightarrow> ScanShared \<Rightarrow> bool" where
  "scan_inv h ids m k l n M s \<longleftrightarrow> n \<le> k \<and> n \<le> PIN_MAX \<and> size M \<le> n \<and> pool_shared m k l M (scan_bpm s) \<and>
     (\<forall>p \<in> set ids. m p \<noteq> None \<and> page_fits (row_width h) (the (m p))) \<and>
     (\<forall>x \<in># M. thread_of x < length (local_rows s)) \<and>
     (\<forall>x \<in># M. \<forall>tid p f. x = Fetching tid p \<or> x = Reading tid p f \<longrightarrow> p \<in> set ids) \<and>
     mset (concat (local_rows s)) + sum_mset (image_mset (uncopied m (row_width h)) M) =
       sum_list (map (rows_on m (row_width h)) (take (next_page_idx s) ids)) \<and>
     (size M < n \<longrightarrow> length ids \<le> next_page_idx s)"

lemma pinned_few:
  assumes "pool_shared m k l (add_mset x M) b" and "page_held x = None"
  shows "card {p. 0 < pins b p} \<le> size M"
proof -
  have "{p. 0 < pins b p} \<subseteq> (\<lambda>y. the (page_held y)) ` set_mset M"
  proof
    fix p assume "p \<in> {p. 0 < pins b p}"
    then have "0 < size (filter_mset (\<lambda>x. page_held x = Some p) M)" using assms by (simp add: pool_shared_def)
    then obtain y where "y \<in># filter_mset (\<lambda>x. page_held x = Some p) M" by (metis multiset_nonemptyE nonempty_has_size)
    then show "p \<in> (\<lambda>y. the (page_held y)) ` set_mset M" by (auto intro: image_eqI [where x = y])
  qed
  then have "card {p. 0 < pins b p} \<le> card (set_mset M)" by (meson card_image_le card_mono dual_order.trans finite_imageI finite_set_mset)
  also have "\<dots> \<le> size M" by (induction M) (auto simp: card_insert_if)
  finally show ?thesis .
qed

lemma pool_shared_swap:
  "page_held x = page_held y \<Longrightarrow> (\<forall>tid p f. y = Reading tid p f \<longrightarrow> page_table b p = Some f) \<Longrightarrow>
   pool_shared m k l (add_mset x M) b \<Longrightarrow> pool_shared m k l (add_mset y M) b"
  by (auto simp: pool_shared_def)

lemma pool_shared_drop: "page_held x = None \<Longrightarrow> pool_shared m k l (add_mset x M) b \<Longrightarrow> pool_shared m k l M b"
  by (simp add: pool_shared_def)

lemma pool_shared_fetch:
  assumes "pool_shared m k l (add_mset (Fetching tid p) M) b" and "size M < k" and "m p \<noteq> None" and "size M < PIN_MAX"
  shows "\<exists>f b'. FetchPage p b = (Ok (Some f), b') \<and> pool_shared m k l (add_mset (Reading tid p f) M) b'"
proof -
  note S = assms(1) [unfolded pool_shared_def]
  have "card {p. 0 < pins b p} < pool_size b" using pinned_few [OF assms(1)] assms(2) S by simp
  moreover have "pins b p < PIN_MAX"
    using S le_less_trans [OF size_filter_mset_lesseq [of "\<lambda>x. page_held x = Some p" M] assms(4)] by simp
  ultimately obtain f b' where f: "FetchPage p b = (Ok (Some f), b')" "bpm_inv b'" "bp_content b' = m" "pins b' = (pins b)(p := pins b p + 1)"
      "page_table b' p = Some f" "\<forall>q. 0 < pins b q \<longrightarrow> page_table b' q = page_table b q" "pool_size b' = k" "pages_left b' = l" "\<forall>q. settled b' q"
    using bp.fetch_ok [of b p "the (m p)"] S assms(3) by auto
  have "page_table b' q = Some g" if "Reading t q g \<in># M" for t q g
  proof -
    have "Reading t q g \<in># filter_mset (\<lambda>x. page_held x = Some q) M" using that by simp
    then have "0 < pins b q" using S by (metis add_mset_not_empty filter_mset_add_mset multi_member_split nonempty_has_size size_add_mset zero_less_Suc)
    then show ?thesis using f(6) S that by simp
  qed
  then have "pool_shared m k l (add_mset (Reading tid p f) M) b'" using f S by (auto simp: pool_shared_def)
  then show ?thesis using f(1) by blast
qed

lemma pool_shared_unpin:
  assumes "pool_shared m k l (add_mset (Releasing tid p) M) b"
  shows "\<exists>b'. UnpinPage p False b = (Ok True, b') \<and> pool_shared m k l (add_mset (Claim tid) M) b'"
proof -
  note S = assms [unfolded pool_shared_def]
  have p: "0 < pins b p" using S by simp
  obtain b' where b': "UnpinPage p False b = (Ok True, b')" "bpm_inv b'" "bp_content b' = m" "pins b' = (pins b)(p := pins b p - 1)"
      "page_table b' = page_table b" "pool_size b' = k" "pages_left b' = l" "settled b' p" "\<forall>q. q \<noteq> p \<longrightarrow> settled b' q = settled b q"
    using UnpinPage_ok [of b p False] S p by auto
  have "settled b' q" for q using b'(8,9) S by (cases "q = p") auto
  then have "pool_shared m k l (add_mset (Claim tid) M) b'" using b' S by (auto simp: pool_shared_def)
  then show ?thesis using b'(1) by blast
qed

section \<open>The workers keep the invariant\<close>

lemma take_Suc_map: "i < length xs \<Longrightarrow> sum_list (map f (take (Suc i) xs)) = sum_list (map f (take i xs)) + f (xs ! i)"
  by (simp add: take_Suc_conv_app_nth)

lemma copied_rows:
  assumes "page_fits (row_width h) bs"
  shows "scan_slots bs (tuple_size (schema h)) p (\<lambda>r t c. (True, c @ [t])) [0..<unat (NumTuples bs)] c =
    Ok (True, c @ map snd (page_rows p (row_width h) bs))"
proof -
  have "feed (\<lambda>r t c. (True, c @ [t])) rows c = (True, c @ map snd rows)" for rows c by (induction rows arbitrary: c) auto
  then show ?thesis using scan_page_ok [OF assms, of p "\<lambda>r t c. (True, c @ [t])" c] by simp
qed

lemma concat_upd: "j < length xss \<Longrightarrow> mset (concat (xss[j := xss ! j @ ys])) = mset (concat xss) + mset ys"
  by (induction xss arbitrary: j) (auto simp: nth_Cons split: nat.splits)

lemma scan_invD:
  assumes "scan_inv h ids m k l n M s"
  shows "n \<le> k" "size M \<le> n" "pool_shared m k l M (scan_bpm s)" "\<And>p. p \<in> set ids \<Longrightarrow> m p \<noteq> None \<and> page_fits (row_width h) (the (m p))"
    "\<And>x. x \<in># M \<Longrightarrow> thread_of x < length (local_rows s)"
    "\<And>tid p. Fetching tid p \<in># M \<Longrightarrow> p \<in> set ids" "\<And>tid p f. Reading tid p f \<in># M \<Longrightarrow> p \<in> set ids"
    "mset (concat (local_rows s)) + sum_mset (image_mset (uncopied m (row_width h)) M) =
       sum_list (map (rows_on m (row_width h)) (take (next_page_idx s) ids))"
    "size M < n \<Longrightarrow> length ids \<le> next_page_idx s" "n \<le> PIN_MAX"
  using assms unfolding scan_inv_def by blast+

text \<open>What a step of a worker does under the invariant.\<close>

lemma scan_claim:
  assumes "scan_inv h ids m k l n (add_mset (Claim tid) M) s"
  shows "length ids \<le> next_page_idx s \<Longrightarrow> scan_inv h ids m k l n M (s\<lparr>next_page_idx := Suc (next_page_idx s)\<rparr>)"
    and "next_page_idx s < length ids \<Longrightarrow>
      scan_inv h ids m k l n (add_mset (Fetching tid (ids ! next_page_idx s)) M) (s\<lparr>next_page_idx := Suc (next_page_idx s)\<rparr>)"
proof -
  note I = scan_invD [OF assms]
  show "scan_inv h ids m k l n M (s\<lparr>next_page_idx := Suc (next_page_idx s)\<rparr>)" if "length ids \<le> next_page_idx s"
    using assms that pool_shared_drop [OF _ I(3)] by (auto simp: scan_inv_def)
  assume i: "next_page_idx s < length ids"
  have "pool_shared m k l (add_mset (Fetching tid (ids ! next_page_idx s)) M) (scan_bpm s)"
    by (rule pool_shared_swap [OF _ _ I(3)]) simp_all
  then show "scan_inv h ids m k l n (add_mset (Fetching tid (ids ! next_page_idx s)) M) (s\<lparr>next_page_idx := Suc (next_page_idx s)\<rparr>)"
    using assms i take_Suc_map [OF i, of "rows_on m (row_width h)"] by (auto simp: scan_inv_def)
qed

lemma scan_fetch:
  assumes "scan_inv h ids m k l n (add_mset (Fetching tid p) M) s"
  shows "\<exists>f b. FetchPage p (scan_bpm s) = (Ok (Some f), b) \<and> scan_inv h ids m k l n (add_mset (Reading tid p f) M) (s\<lparr>scan_bpm := b\<rparr>)"
proof -
  note I = scan_invD [OF assms]
  have "p \<in> set ids" using I(6) [of tid p] by simp
  then obtain f b where f: "FetchPage p (scan_bpm s) = (Ok (Some f), b)" "pool_shared m k l (add_mset (Reading tid p f) M) b"
    using pool_shared_fetch [OF I(3)] I(1,2,4,10) by fastforce
  then have "scan_inv h ids m k l n (add_mset (Reading tid p f) M) (s\<lparr>scan_bpm := b\<rparr>)" using assms by (auto simp: scan_inv_def)
  then show ?thesis using f(1) by blast
qed

lemma scan_read:
  assumes "scan_inv h ids m k l n (add_mset (Reading tid p f) M) s"
  shows "\<exists>s'. scan_task_step h ids (Reading tid p f) s = (Continue (Releasing tid p), s') \<and>
    scan_inv h ids m k l n (add_mset (Releasing tid p) M) s' \<and> next_page_idx s' = next_page_idx s"
proof -
  note I = scan_invD [OF assms]
  have p: "p \<in> set ids" using I(7) [of tid p f] by simp
  have "page_table (scan_bpm s) p = Some f" "bpm_inv (scan_bpm s)" "bp_content (scan_bpm s) = m" using I(3) by (auto simp: pool_shared_def)
  then have d: "GetData f (scan_bpm s) = the (m p)" using bp.get_content by (metis option.sel)
  let ?rows = "map snd (page_rows p (row_width h) (the (m p)))"
  let ?s = "s\<lparr>local_rows := (local_rows s)[tid := local_rows s ! tid @ ?rows]\<rparr>"
  have "scan_task_step h ids (Reading tid p f) s = (Continue (Releasing tid p), ?s)"
    using copied_rows [of h "the (m p)" p "local_rows s ! tid"] I(4) [OF p] by (simp add: d Let_def)
  moreover have "tid < length (local_rows s)" using I(5) by force
  then have "mset (concat (local_rows ?s)) = mset (concat (local_rows s)) + rows_on m (row_width h) p"
    using concat_upd [of tid "local_rows s" ?rows] by (simp add: rows_on_def)
  moreover have "pool_shared m k l (add_mset (Releasing tid p) M) (scan_bpm s)" by (rule pool_shared_swap [OF _ _ I(3)]) simp_all
  ultimately have "scan_inv h ids m k l n (add_mset (Releasing tid p) M) ?s" using assms by (auto simp: scan_inv_def ac_simps)
  then show ?thesis using \<open>scan_task_step h ids (Reading tid p f) s = _\<close> by simp
qed

lemma scan_release:
  assumes "scan_inv h ids m k l n (add_mset (Releasing tid p) M) s"
  shows "\<exists>b. UnpinPage p False (scan_bpm s) = (Ok True, b) \<and> scan_inv h ids m k l n (add_mset (Claim tid) M) (s\<lparr>scan_bpm := b\<rparr>)"
proof -
  note I = scan_invD [OF assms]
  obtain b where b: "UnpinPage p False (scan_bpm s) = (Ok True, b)" "pool_shared m k l (add_mset (Claim tid) M) b"
    using pool_shared_unpin [OF I(3)] by blast
  then have "scan_inv h ids m k l n (add_mset (Claim tid) M) (s\<lparr>scan_bpm := b\<rparr>)" using assms by (auto simp: scan_inv_def)
  then show ?thesis using b(1) by blast
qed

text \<open>How many steps the workers have left.\<close>

fun scan_pc_rank :: "scan_pc \<Rightarrow> nat" where
  "scan_pc_rank (Claim tid) = 1"
| "scan_pc_rank (Fetching tid p) = 4"
| "scan_pc_rank (Reading tid p f) = 3"
| "scan_pc_rank (Releasing tid p) = 2"

definition scan_rank :: "page_id_t list \<Rightarrow> scan_pc multiset \<Rightarrow> ScanShared \<Rightarrow> nat" where
  "scan_rank ids M s = sum_mset (image_mset scan_pc_rank M) + 5 * (length ids - next_page_idx s)"

lemma scan_step_ok:
  assumes "scan_inv h ids m k l n (add_mset x M) s"
  shows "case scan_task_step h ids x s of
      (Continue x', s') \<Rightarrow> scan_inv h ids m k l n (add_mset x' M) s' \<and> scan_rank ids (add_mset x' M) s' < scan_rank ids (add_mset x M) s
    | (Return, s') \<Rightarrow> scan_inv h ids m k l n M s' \<and> scan_rank ids M s' < scan_rank ids (add_mset x M) s
    | (Terminate, s') \<Rightarrow> False"
proof (cases x)
  case (Claim tid)
  then show ?thesis using scan_claim [of h ids m k l n tid M s] assms by (auto simp: Let_def scan_rank_def)
next
  case (Fetching tid p)
  then show ?thesis using scan_fetch [of h ids m k l n tid p M s] assms by (auto simp: scan_rank_def)
next
  case (Reading tid p f)
  then show ?thesis
    using scan_read [of h ids m k l n tid p f M s] assms by (auto simp: scan_rank_def simp del: scan_task_step.simps)
next
  case (Releasing tid p)
  then show ?thesis using scan_release [of h ids m k l n tid p M s] assms by (auto simp: scan_rank_def)
qed

interpretation pscan: ending_client "scan_task h ids" "scan_inv h ids m k l n" "scan_rank ids" for h ids m k l n
proof (unfold_locales, goal_cases)
  case (1 x s)
  show ?case unfolding scan_task_def by (metis surj_pair)
qed (auto dest!: scan_step_ok simp: scan_task_def)

section \<open>Properties\<close>

lemma scan_start_inv:
  assumes "bpm_idle b m k l" and "n \<le> k" and "n \<le> PIN_MAX" and "\<forall>p \<in> set ids. m p \<noteq> None \<and> page_fits (row_width h) (the (m p))"
  shows "scan_inv h ids m k l n (mset (map Claim [0..<n])) \<lparr>next_page_idx = 0, local_rows = replicate n [], scan_bpm = b\<rparr>"
proof -
  have "bpm_inv b" "\<forall>p. pins b p = 0" "bp_content b = m" "pool_size b = k" "pages_left b = l" using assms(1) by (auto simp: bpm_idle_def)
  then have "pool_shared m k l (mset (map Claim [0..<n])) b"
    using bp.quiet_settled by (auto simp: pool_shared_def filter_mset_eq_conv size_eq_0_iff_empty filter_empty_mset)
  moreover have "sum_list (map (uncopied m w \<circ> Claim) xs) = {#}" for w xs by (induction xs) simp_all
  moreover have "concat (replicate n []) = []" by (induction n) simp_all
  ultimately show ?thesis using assms(2-4) by (auto simp: scan_inv_def sum_mset_sum_list [symmetric] simp flip: mset_map)
qed

lemma rows_on_pages: "sum_list (map (rows_on m w) ps) = mset (map snd (heap_rows m w ps))"
  by (induction ps) (simp_all add: rows_on_def heap_rows_def)

lemma heap_pages_ok:
  assumes "heap_inv m h ps"
  shows "\<forall>p \<in> set ps. m p \<noteq> None \<and> page_fits (row_width h) (the (m p))"
  using assms chain_dom [of m INVALID_PAGE_ID ps] by (fastforce simp: heap_inv_def)

text \<open>There are fewer pages than a page can have pins.\<close>

lemma heap_pages_few:
  assumes "bpm_idle b m k l" and "heap_inv m h ps"
  shows "length ps \<le> PIN_MAX"
proof -
  have "set ps \<subseteq> dom m" using heap_pages_ok [OF assms(2)] by blast
  then have "card (set ps) \<le> card (dom m)" using idle_pages(1) [OF assms(1)] by (rule card_mono [rotated])
  then show ?thesis using idle_pages(2) [OF assms(1)] assms(2) by (simp add: heap_inv_def distinct_card)
qed

lemma GetPageIds_ok:
  assumes "bpm_idle b m k l" and "0 < k" and "heap_inv m h ps"
  shows "\<exists>b1. GetPageIds h b = Some (Ok ps, b1) \<and> bpm_idle b1 m k l"
  using page_ids_from_ok [of m ps b k l "[]"] assms by (auto simp: GetPageIds_def heap_inv_def)

lemma scan_end:
  assumes "scan_inv h ids m k l n {#} s" and "0 < n"
  shows "mset (concat (local_rows s)) = mset (map snd (heap_rows m (row_width h) ids)) \<and> bpm_idle (scan_bpm s) m k l"
  using assms by (auto simp: scan_inv_def rows_on_pages pool_shared_def bpm_idle_def)

lemma parallel_scan_ok:
  assumes "bpm_idle b m k l" and "heap_inv m h ps" and "0 < n_threads" and "min n_threads (length ps) \<le> k"
  shows "\<exists>r b'. parallel_scan h n_threads b r b'"
    and "parallel_scan h n_threads b r b' \<Longrightarrow>
      \<exists>rows. r = Ok rows \<and> mset rows = mset (map snd (heap_rows m (row_width h) ps)) \<and> bpm_idle b' m k l"
    and "GetPageIds h b = Some (Ok ids, b1) \<Longrightarrow> (tp_any (scan_task h ids))\<^sup>*\<^sup>* (scan_start (min n_threads (length ids)) b1) x \<Longrightarrow>
      termip (tp_step (scan_task h ids)) x"
proof -
  let ?n = "min n_threads (length ps)"
  have n: "0 < ?n" "ps \<noteq> []" using assms(2,3) by (auto simp: heap_inv_def)
  then have "0 < k" using assms(4) by linarith
  then obtain b0 where b0: "GetPageIds h b = Some (Ok ps, b0)" "bpm_idle b0 m k l" using GetPageIds_ok [OF assms(1) _ assms(2)] by blast
  have few: "?n \<le> PIN_MAX" using heap_pages_few [OF assms(1,2)] by simp
  note start = scan_start_inv [OF b0(2) assms(4) few heap_pages_ok [OF assms(2)]]
  show "\<exists>r b'. parallel_scan h n_threads b r b'"
    using pscan.pool_reaches [OF n(1) start] merged [OF b0(1) n(2)] unfolding scan_start_def by blast
  show "\<exists>rows. r = Ok rows \<and> mset rows = mset (map snd (heap_rows m (row_width h) ps)) \<and> bpm_idle b' m k l"
    if "parallel_scan h n_threads b r b'"
    using that
  proof cases
    case (merged ids b2 p s)
    then have "ids = ps" "b2 = b0" using b0(1) by simp_all
    then have "scan_inv h ps m k l ?n {#} s" using pscan.pool_result [OF _ n(1) start] merged(5) unfolding scan_start_def by blast
    then show ?thesis using scan_end n(1) merged(1,2) by blast
  next
    case (aborted ids b2 p s)
    then have "ids = ps" "b2 = b0" using b0(1) by simp_all
    then show ?thesis using pscan.pool_keeps [OF _ start] aborted(5) unfolding scan_start_def by blast
  qed (use b0(1) n(2) in simp_all)
  show "termip (tp_step (scan_task h ids)) x"
    if "GetPageIds h b = Some (Ok ids, b1)" "(tp_any (scan_task h ids))\<^sup>*\<^sup>* (scan_start (min n_threads (length ids)) b1) x"
    using that b0(1) pscan.pool_ends [OF _ n(1) start, of "fst x" "fst (snd x)" "snd (snd x)"] by (simp add: scan_start_def)
qed

text \<open>(C20) A parallel scan delivers the rows of its table, each once, in some order: for every number of
  threads and every interleaving of the workers, if the pool has a frame for each worker. It comes to
  an end, no worker ends the program, and the pages are as before with none left pinned.\<close>

theorem parallel_scan_rows:
  assumes "bpm_idle b m k l" and "heap_inv m h ps" and "0 < n_threads" and "min n_threads (length ps) \<le> k"
  shows "(\<exists>r b'. parallel_scan h n_threads b r b') \<and>
    (\<forall>r b'. parallel_scan h n_threads b r b' \<longrightarrow>
      (\<exists>rows. r = Ok rows \<and> mset rows = mset (map snd (heap_rows m (row_width h) ps)) \<and> bpm_idle b' m k l)) \<and>
    (\<forall>ids b1 x. GetPageIds h b = Some (Ok ids, b1) \<longrightarrow>
      (tp_any (scan_task h ids))\<^sup>*\<^sup>* (scan_start (min n_threads (length ids)) b1) x \<longrightarrow> termip (tp_step (scan_task h ids)) x)"
  using parallel_scan_ok [OF assms] by blast

theorem parallel_scan_rows_witness:
  "\<exists>h b rid h' b' b''. HeapFile_create int_row small_pool = (Ok h, b) \<and>
    InsertTuple [1, 0, 0, 0] (h, b) = (Ok (Some rid), (h', b')) \<and> parallel_scan h' 2 b' (Ok [[1, 0, 0, 0]]) b''"
proof -
  let ?t = "[1, 0, 0, 0] :: Tuple"
  obtain m0 where "bpm_idle small_pool m0 2 (pages_left small_pool)" using small_pool_idle(1) by blast
  then obtain h p b where h: "HeapFile_create int_row small_pool = (Ok h, b)" "schema h = int_row"
      "bpm_idle b (m0(p \<mapsto> fresh_heap_page)) 2 (pages_left small_pool - 1)" "heap_inv (m0(p \<mapsto> fresh_heap_page)) h [p]"
    using HeapFile_create_ok [OF _ _ _ int_row_simps(2)] small_pool_idle(2) by fastforce
  let ?m = "m0(p \<mapsto> fresh_heap_page)"
  have "0 < pages_left small_pool - 1" using small_pool_idle(2) by simp
  moreover have "length ?t = row_width h" using h(2) by (simp add: int_row_simps)
  ultimately obtain rid h' b' m' ps' l' where i: "InsertTuple ?t (h, b) = (Ok (Some rid), (h', b'))" "bpm_idle b' m' 2 l'"
      "heap_inv m' h' ps'" "schema h' = schema h" "heap_rows m' (row_width h) ps' = heap_rows ?m (row_width h) [p] @ [(rid, ?t)]"
    using InsertTuple_ok [OF h(3) _ _ h(4)] by force
  obtain r b'' where r: "parallel_scan h' 2 b' r b''" "\<exists>rows. r = Ok rows \<and> mset rows = mset (map snd (heap_rows m' (row_width h') ps'))"
    using parallel_scan_rows [OF i(2,3), of 2] by fastforce
  then obtain rows where "r = Ok rows" "mset rows = {#?t#}" using i(4,5) by auto
  then have "r = Ok [?t]" by simp
  then show ?thesis using h(1) i(1) r(1) by blast
qed

text \<open>A worker that finds every frame of the pool pinned by others goes on without the page it has claimed.\<close>

lemma scan_page_dropped:
  assumes "bpm_wf (scan_bpm s)" and "page_table (scan_bpm s) p = None" and "\<not> card (pinned (scan_bpm s)) < pool_size (scan_bpm s)"
  shows "scan_task_step h ids (Fetching tid p) s = (Continue (Claim tid), s)"
  using FetchPage_full [OF assms] by simp

end
