(* ===== verification/Hash_Table.thy ===== *)
theory Hash_Table
  imports DB_Types
begin

text \<open>
  \<open>src/src/concurrency\<close>: the hash table that the workers of a parallel join fill concurrently. Nodes
  live at addresses; a bucket is a pointer to the head of a chain. A call of \<open>Insert\<close> is a process
  whose steps are its accesses to shared memory, and a run is an interleaving of the steps of all
  calls. A relaxed load may return an old value, so that the value it reads is left open; a weak
  compare-exchange may fail without reason, and it succeeds only on the current head.
\<close>

section \<open>Definitions\<close>

record Node =
  nd_key :: i32
  nd_value :: Tuple
  nd_next :: "nat option"

record LockFreeHashTable =
  bucket_count :: nat
  buckets :: "nat option list"
  nodes :: "nat \<rightharpoonup> Node"
  next_addr :: nat

definition mk_LockFreeHashTable :: "nat \<Rightarrow> LockFreeHashTable" where
  "mk_LockFreeHashTable n = \<lparr>bucket_count = n, buckets = replicate n None, nodes = Map.empty, next_addr = 0\<rparr>"

text \<open>In \<open>uint32_t\<close> arithmetic. A table without buckets divides by zero, which the calls check.\<close>

definition Hash :: "LockFreeHashTable \<Rightarrow> i32 \<Rightarrow> nat" where
  "Hash t key =
     (let u = bits32 key;
          u1 = u XOR drop_bit 16 u;
          u2 = u1 * 0x45d9f3b;
          u3 = u2 XOR drop_bit 16 u2
      in unat u3 mod bucket_count t)"

subsection \<open>Insert\<close>

text \<open>
  Where a call of \<open>Insert\<close> is: before it starts, before the store to \<open>node->next\<close>, before the
  compare-exchange, returned. \<open>node\<close>, \<open>idx\<close> and \<open>head\<close> are its local variables.
\<close>

datatype insert_pc =
    Call i32 Tuple
  | Link nat nat "nat option"
  | Swing nat nat "nat option"
  | Returned
  | Crashed

definition insert_step :: "bool \<Rightarrow> nat option \<Rightarrow> insert_pc \<Rightarrow> LockFreeHashTable \<Rightarrow> insert_pc \<times> LockFreeHashTable" where
  "insert_step spurious seen pc t = (case pc of
      Call key v \<Rightarrow>
        if bucket_count t = 0 then (Crashed, t)
        else (Link (next_addr t) (Hash t key) seen,
              t\<lparr>nodes := (nodes t)(next_addr t \<mapsto> \<lparr>nd_key = key, nd_value = v, nd_next = None\<rparr>), next_addr := Suc (next_addr t)\<rparr>)
    | Link a i h \<Rightarrow> (Swing a i h, t\<lparr>nodes := (nodes t)(a := map_option (\<lambda>n. n\<lparr>nd_next := h\<rparr>) (nodes t a))\<rparr>)
    | Swing a i h \<Rightarrow>
        if buckets t ! i = h \<and> \<not> spurious then (Returned, t\<lparr>buckets := (buckets t)[i := Some a]\<rparr>)
        else (Link a i seen, t)
    | Returned \<Rightarrow> (Returned, t)
    | Crashed \<Rightarrow> (Crashed, t))"

text \<open>One step of some call.\<close>

inductive hash_step :: "insert_pc list \<times> LockFreeHashTable \<Rightarrow> insert_pc list \<times> LockFreeHashTable \<Rightarrow> bool" where
  step: "j < length pcs \<Longrightarrow> insert_step spurious seen (pcs ! j) t = (pc, t') \<Longrightarrow> hash_step (pcs, t) (pcs[j := pc], t')"

inductive_cases hash_stepE: "hash_step (pcs, t) s"

subsection \<open>Lookup and Clear\<close>

text \<open>The loops follow pointers: \<open>None\<close> would be an endless loop; a bad pointer is a fault.\<close>

partial_function (option) lookup_from :: "(nat \<rightharpoonup> Node) \<Rightarrow> i32 \<Rightarrow> nat option \<Rightarrow> Tuple list \<Rightarrow> Tuple list outcome option" where
  "lookup_from m key cur out = (case cur of
      None \<Rightarrow> Some (Ok out)
    | Some a \<Rightarrow> (case m a of
          None \<Rightarrow> Some Fault
        | Some n \<Rightarrow> lookup_from m key (nd_next n) (if nd_key n = key then out @ [nd_value n] else out)))"

definition Lookup :: "i32 \<Rightarrow> LockFreeHashTable \<Rightarrow> Tuple list outcome option" where
  "Lookup key t = (if bucket_count t = 0 then Some Fault else lookup_from (nodes t) key (buckets t ! Hash t key) [])"

partial_function (option) free_from :: "nat option \<Rightarrow> (nat \<rightharpoonup> Node) \<Rightarrow> (nat \<rightharpoonup> Node) outcome option" where
  "free_from cur m = (case cur of
      None \<Rightarrow> Some (Ok m)
    | Some a \<Rightarrow> (case m a of None \<Rightarrow> Some Fault | Some n \<Rightarrow> free_from (nd_next n) (m(a := None))))"

fun clear_buckets :: "nat option list \<Rightarrow> (nat \<rightharpoonup> Node) \<Rightarrow> (nat \<rightharpoonup> Node) outcome option" where
  "clear_buckets [] m = Some (Ok m)"
| "clear_buckets (p # ps) m = (case free_from p m of
      None \<Rightarrow> None
    | Some r \<Rightarrow> (case r of Ok m' \<Rightarrow> clear_buckets ps m' | Throw e \<Rightarrow> Some (Throw e) | Fault \<Rightarrow> Some Fault))"

definition Clear :: "LockFreeHashTable \<Rightarrow> LockFreeHashTable outcome option" where
  "Clear t = map_option (\<lambda>r. bind_out r (\<lambda>m. Ok (t\<lparr>nodes := m, buckets := replicate (length (buckets t)) None\<rparr>)))
     (clear_buckets (buckets t) (nodes t))"

section \<open>Chains\<close>

fun linked :: "(nat \<rightharpoonup> Node) \<Rightarrow> nat option \<Rightarrow> nat list \<Rightarrow> bool" where
  "linked m p [] \<longleftrightarrow> p = None"
| "linked m p (a # as) \<longleftrightarrow> p = Some a \<and> (\<exists>n. m a = Some n \<and> linked m (nd_next n) as)"

lemma linked_cong: "(\<And>a. a \<in> set as \<Longrightarrow> m' a = m a) \<Longrightarrow> linked m' p as = linked m p as"
  by (induction as arbitrary: p) auto

lemma linked_dom: "linked m p as \<Longrightarrow> set as \<subseteq> dom m"
  by (induction as arbitrary: p) auto

definition entry :: "(nat \<rightharpoonup> Node) \<Rightarrow> nat \<Rightarrow> i32 \<times> Tuple" where
  "entry m a = (nd_key (the (m a)), nd_value (the (m a)))"

lemma lookup_linked:
  "linked m p as \<Longrightarrow> lookup_from m key p out = Some (Ok (out @ map snd (filter (\<lambda>e. fst e = key) (map (entry m) as))))"
proof (induction as arbitrary: p out)
  case (Cons a as)
  then obtain n where "p = Some a" "m a = Some n" "linked m (nd_next n) as" by auto
  then show ?case using Cons.IH by (simp add: lookup_from.simps [of m key "Some a"] entry_def)
qed (simp add: lookup_from.simps)

lemma free_linked:
  "linked m p as \<Longrightarrow> distinct as \<Longrightarrow> free_from p m = Some (Ok (m |` (- set as)))"
proof (induction as arbitrary: p m)
  case (Cons a as)
  then obtain n where n: "p = Some a" "m a = Some n" "linked m (nd_next n) as" by auto
  have "linked (m(a := None)) (nd_next n) as" by (subst linked_cong [where m = m]) (use n(3) Cons.prems(2) in auto)
  moreover have "distinct as" using Cons.prems(2) by simp
  ultimately have "free_from (nd_next n) (m(a := None)) = Some (Ok ((m(a := None)) |` (- set as)))" by (rule Cons.IH)
  moreover have "(m(a := None)) |` (- set as) = m |` (- set (a # as))" by (auto simp: restrict_map_def fun_eq_iff)
  ultimately show ?case using n(1,2) by (simp add: free_from.simps [of "Some a"])
qed (simp add: free_from.simps restrict_map_def)

section \<open>The invariant\<close>

text \<open>The node that a call has made and not yet published.\<close>

fun pending :: "insert_pc \<Rightarrow> nat option" where
  "pending (Link a i h) = Some a"
| "pending (Swing a i h) = Some a"
| "pending _ = None"

text \<open>A call is at a place that fits its arguments.\<close>

definition pc_ok :: "LockFreeHashTable \<Rightarrow> i32 \<times> Tuple \<Rightarrow> insert_pc \<Rightarrow> bool" where
  "pc_ok t c pc \<longleftrightarrow> (case pc of
      Call k v \<Rightarrow> (k, v) = c
    | Link a i h \<Rightarrow> \<exists>n. nodes t a = Some n \<and> (nd_key n, nd_value n) = c \<and> i = Hash t (fst c)
    | Swing a i h \<Rightarrow> \<exists>n. nodes t a = Some n \<and> (nd_key n, nd_value n) = c \<and> i = Hash t (fst c) \<and> nd_next n = h
    | Returned \<Rightarrow> True
    | Crashed \<Rightarrow> False)"

text \<open>The arguments of the calls that have returned.\<close>

definition returned :: "(i32 \<times> Tuple) list \<Rightarrow> insert_pc list \<Rightarrow> (i32 \<times> Tuple) multiset" where
  "returned calls pcs = mset (map fst (filter (\<lambda>(c, pc). pc = Returned) (zip calls pcs)))"

definition chains_ok :: "LockFreeHashTable \<Rightarrow> (nat \<Rightarrow> nat list) \<Rightarrow> nat set \<Rightarrow> (i32 \<times> Tuple) multiset \<Rightarrow> bool" where
  "chains_ok t chs pend done \<longleftrightarrow> 0 < bucket_count t \<and> length (buckets t) = bucket_count t \<and>
     (\<forall>i < bucket_count t. linked (nodes t) (buckets t ! i) (chs i) \<and> distinct (chs i) \<and>
        mset (map (entry (nodes t)) (chs i)) = filter_mset (\<lambda>e. Hash t (fst e) = i) done) \<and>
     (\<forall>i < bucket_count t. \<forall>j < bucket_count t. i \<noteq> j \<longrightarrow> set (chs i) \<inter> set (chs j) = {}) \<and>
     (\<forall>i < bucket_count t. set (chs i) \<inter> pend = {}) \<and>
     dom (nodes t) = pend \<union> (\<Union>i \<in> {..<bucket_count t}. set (chs i)) \<and> (\<forall>a \<in> dom (nodes t). a < next_addr t)"

definition pend_set :: "insert_pc list \<Rightarrow> nat set" where
  "pend_set pcs = {a. \<exists>j < length pcs. pending (pcs ! j) = Some a}"

definition table_inv :: "(i32 \<times> Tuple) list \<Rightarrow> insert_pc list \<times> LockFreeHashTable \<Rightarrow> bool" where
  "table_inv calls s \<longleftrightarrow> (case s of (pcs, t) \<Rightarrow> length pcs = length calls \<and>
     (\<forall>j < length calls. pc_ok t (calls ! j) (pcs ! j)) \<and>
     (\<forall>i < length pcs. \<forall>j < length pcs. i \<noteq> j \<longrightarrow> pending (pcs ! j) \<noteq> None \<longrightarrow> pending (pcs ! i) \<noteq> pending (pcs ! j)) \<and>
     (\<exists>chs. chains_ok t chs (pend_set pcs) (returned calls pcs)))"

lemma returned_upd:
  assumes "length pcs = length calls" and "j < length pcs" and "pcs ! j \<noteq> Returned"
  shows "returned calls (pcs[j := pc]) = returned calls pcs + (if pc = Returned then {#calls ! j#} else {#})"
  using assms
proof (induction calls arbitrary: pcs j)
  case (Cons c calls)
  then obtain p ps where p: "pcs = p # ps" by (cases pcs) auto
  show ?case
  proof (cases j)
    case 0
    then show ?thesis using Cons.prems p by (simp add: returned_def)
  next
    case (Suc j')
    have "returned calls (ps[j' := pc]) = returned calls ps + (if pc = Returned then {#calls ! j'#} else {#})"
      using Cons.IH [of ps j'] Cons.prems p Suc by simp
    then show ?thesis using p Suc by (cases "pc = Returned") (simp_all add: returned_def)
  qed
qed simp

lemma pend_set_upd:
  assumes "j < length pcs" and "\<forall>i < length pcs. i \<noteq> j \<longrightarrow> pending (pcs ! j) \<noteq> None \<longrightarrow> pending (pcs ! i) \<noteq> pending (pcs ! j)"
  shows "pend_set (pcs[j := pc]) = (pend_set pcs - set_option (pending (pcs ! j))) \<union> set_option (pending pc)"
  using assms by (auto simp: pend_set_def nth_list_update split: if_splits)

lemma Hash_cong: "bucket_count t' = bucket_count t \<Longrightarrow> Hash t' k = Hash t k"
  by (simp add: Hash_def)

lemma table_invE:
  assumes "table_inv calls (pcs, t)"
  obtains chs where "length pcs = length calls" "\<And>j. j < length calls \<Longrightarrow> pc_ok t (calls ! j) (pcs ! j)"
    "\<And>i j. i < length pcs \<Longrightarrow> j < length pcs \<Longrightarrow> i \<noteq> j \<Longrightarrow> pending (pcs ! j) \<noteq> None \<Longrightarrow> pending (pcs ! i) \<noteq> pending (pcs ! j)"
    "chains_ok t chs (pend_set pcs) (returned calls pcs)"
  using assms unfolding table_inv_def by blast

lemma pc_ok_upd:
  assumes "pc_ok t c pc" and "bucket_count t' = bucket_count t" and "\<And>a. pending pc = Some a \<Longrightarrow> nodes t' a = nodes t a"
  shows "pc_ok t' c pc"
  using assms by (cases pc) (auto simp: pc_ok_def Hash_cong [OF assms(2)])

text \<open>A step that changes one call and at most its own node keeps the invariant.\<close>

lemma table_inv_step:
  assumes inv: "table_inv calls (pcs, t)" and j: "j < length pcs" and bc: "bucket_count t' = bucket_count t"
    and own: "pc_ok t' (calls ! j) pc"
    and others: "\<And>a. a \<in> dom (nodes t) \<Longrightarrow> pending (pcs ! j) \<noteq> Some a \<Longrightarrow> nodes t' a = nodes t a"
    and new: "\<And>a. pending pc = Some a \<Longrightarrow> pending (pcs ! j) \<noteq> Some a \<Longrightarrow> a \<notin> dom (nodes t)"
    and chains: "\<And>chs. chains_ok t chs (pend_set pcs) (returned calls pcs) \<Longrightarrow>
      \<exists>chs. chains_ok t' chs (pend_set (pcs[j := pc])) (returned calls (pcs[j := pc]))"
  shows "table_inv calls (pcs[j := pc], t')"
proof -
  obtain chs where I: "length pcs = length calls" "\<And>j. j < length calls \<Longrightarrow> pc_ok t (calls ! j) (pcs ! j)"
    "\<And>i j. i < length pcs \<Longrightarrow> j < length pcs \<Longrightarrow> i \<noteq> j \<Longrightarrow> pending (pcs ! j) \<noteq> None \<Longrightarrow> pending (pcs ! i) \<noteq> pending (pcs ! j)"
    "chains_ok t chs (pend_set pcs) (returned calls pcs)"
    using inv by (rule table_invE) blast
  have dom: "a \<in> dom (nodes t)" if "pending (pcs ! i) = Some a" "i < length pcs" for a i
    using I(4) that by (auto simp: chains_ok_def pend_set_def)
  have "pc_ok t' (calls ! i) (pcs[j := pc] ! i)" if i: "i < length calls" for i
  proof (cases "i = j")
    case False
    have "pc_ok t' (calls ! i) (pcs ! i)"
    proof (rule pc_ok_upd [OF I(2) [OF i] bc])
      fix a assume a: "pending (pcs ! i) = Some a"
      then have "pending (pcs ! j) \<noteq> Some a" using I(3) [of j i] False j i I(1) by auto
      then show "nodes t' a = nodes t a" using others dom [OF a] i I(1) by simp
    qed
    then show ?thesis using False by simp
  qed (use own j in simp)
  moreover have "pending (pcs[j := pc] ! i) \<noteq> pending (pcs[j := pc] ! k)"
    if ik: "i < length pcs" "k < length pcs" "i \<noteq> k" "pending (pcs[j := pc] ! k) \<noteq> None" for i k
  proof -
    have fresh: "pending pc \<noteq> pending (pcs ! l)" if "l < length pcs" "l \<noteq> j" "pending pc = Some a" for l a
    proof (cases "pending (pcs ! j) = Some a")
      case True
      then show ?thesis using I(3) [of l j] that j by simp
    next
      case False
      then show ?thesis using new [OF that(3) False] dom [of l a] that by auto
    qed
    show ?thesis
    proof (cases "k = j")
      case True
      then show ?thesis using fresh [of i] ik j by auto
    next
      case False
      then show ?thesis using fresh [of k] I(3) [of i k] ik j by (cases "i = j") auto
    qed
  qed
  ultimately show ?thesis using chains [OF I(4)] I(1) unfolding table_inv_def by simp
qed

section \<open>The steps keep the invariant\<close>

lemma entry_cong: "m' a = m a \<Longrightarrow> entry m' a = entry m a"
  by (simp add: entry_def)

lemma chains_ok_nodes:
  assumes ok: "chains_ok t chs P D"
    and t': "bucket_count t' = bucket_count t" "buckets t' = buckets t" "\<And>i a. i < bucket_count t \<Longrightarrow> a \<in> set (chs i) \<Longrightarrow> nodes t' a = nodes t a"
    and dom: "dom (nodes t') = P' \<union> (\<Union>i \<in> {..<bucket_count t}. set (chs i))" "\<forall>a \<in> dom (nodes t'). a < next_addr t'"
    and P': "\<And>i. i < bucket_count t \<Longrightarrow> set (chs i) \<inter> P' = {}"
  shows "chains_ok t' chs P' D"
proof -
  have "linked (nodes t') (buckets t ! i) (chs i) \<and> distinct (chs i) \<and>
      mset (map (entry (nodes t')) (chs i)) = filter_mset (\<lambda>e. Hash t (fst e) = i) D" if i: "i < bucket_count t" for i
  proof -
    have "linked (nodes t') (buckets t ! i) (chs i) = linked (nodes t) (buckets t ! i) (chs i)" by (rule linked_cong) (rule t'(3) [OF i])
    moreover have "map (entry (nodes t')) (chs i) = map (entry (nodes t)) (chs i)" by (rule map_cong) (auto intro: entry_cong t'(3) [OF i])
    ultimately show ?thesis using ok i unfolding chains_ok_def by metis
  qed
  moreover have "Hash t' k = Hash t k" for k by (rule Hash_cong [OF t'(1)])
  ultimately show ?thesis using ok dom P' unfolding chains_ok_def t'(1,2) by simp
qed

lemma chains_ok_swing:
  assumes ok: "chains_ok t chs P D" and a: "a \<in> P" "nodes t a = Some n" "nd_next n = buckets t ! i"
    and i: "i = Hash t (nd_key n)" and t': "t' = t\<lparr>buckets := (buckets t)[i := Some a]\<rparr>"
  shows "chains_ok t' (chs(i := a # chs i)) (P - {a}) (D + {#(nd_key n, nd_value n)#})"
proof -
  have b: "0 < bucket_count t" "length (buckets t) = bucket_count t" using ok by (auto simp: chains_ok_def)
  then have i': "i < bucket_count t" by (simp add: i Hash_def Let_def)
  have fresh: "a \<notin> set (chs k)" if "k < bucket_count t" for k using ok a(1) that by (auto simp: chains_ok_def)
  have h: "Hash t' k = Hash t k" "bucket_count t' = bucket_count t" "nodes t' = nodes t" "next_addr t' = next_addr t"
      "length (buckets t') = length (buckets t)" for k
    by (simp_all add: t' Hash_def)
  have "linked (nodes t) (buckets t' ! k) ((chs(i := a # chs i)) k) \<and> distinct ((chs(i := a # chs i)) k) \<and>
      mset (map (entry (nodes t)) ((chs(i := a # chs i)) k)) = filter_mset (\<lambda>e. Hash t (fst e) = k) (D + {#(nd_key n, nd_value n)#})"
    if k: "k < bucket_count t" for k
  proof -
    have "linked (nodes t) (buckets t ! k) (chs k)" "distinct (chs k)"
        "mset (map (entry (nodes t)) (chs k)) = filter_mset (\<lambda>e. Hash t (fst e) = k) D"
      using ok k by (auto simp: chains_ok_def)
    then show ?thesis using a(2,3) fresh [OF k] b(2) i' k i by (auto simp: t' entry_def)
  qed
  moreover have "set ((chs(i := a # chs i)) k) \<inter> set ((chs(i := a # chs i)) l) = {}"
    if "k < bucket_count t" "l < bucket_count t" "k \<noteq> l" for k l
    using ok that fresh by (auto simp: chains_ok_def)
  moreover have "set ((chs(i := a # chs i)) k) \<inter> (P - {a}) = {}" if "k < bucket_count t" for k
    using ok that by (auto simp: chains_ok_def)
  moreover have "(\<Union>k \<in> {..<bucket_count t}. set ((chs(i := a # chs i)) k)) = insert a (\<Union>k \<in> {..<bucket_count t}. set (chs k))"
    using i' by (fastforce split: if_splits)
  ultimately show ?thesis using ok a(1) b unfolding chains_ok_def h by auto
qed

lemma hash_step_inv:
  assumes "table_inv calls s" and "hash_step s s'"
  shows "table_inv calls s'"
proof -
  obtain pcs t where s: "s = (pcs, t)" by fastforce
  obtain j pc t' spurious seen where j: "j < length pcs" "s' = (pcs[j := pc], t')" "insert_step spurious seen (pcs ! j) t = (pc, t')"
    using assms(2) unfolding s by (rule hash_stepE) blast
  note inv = assms(1) [unfolded s]
  obtain chs0 where I: "length pcs = length calls" "\<And>j. j < length calls \<Longrightarrow> pc_ok t (calls ! j) (pcs ! j)"
    "\<And>i j. i < length pcs \<Longrightarrow> j < length pcs \<Longrightarrow> i \<noteq> j \<Longrightarrow> pending (pcs ! j) \<noteq> None \<Longrightarrow> pending (pcs ! i) \<noteq> pending (pcs ! j)"
    "chains_ok t chs0 (pend_set pcs) (returned calls pcs)"
    using inv by (rule table_invE) blast
  have ok: "pc_ok t (calls ! j) (pcs ! j)" using I(1,2) j(1) by simp
  have pend: "pend_set (pcs[j := pc]) = (pend_set pcs - set_option (pending (pcs ! j))) \<union> set_option (pending pc)" for pc
    using pend_set_upd [of j pcs pc] I(3) j(1) by blast
  have ret: "pcs ! j \<noteq> Returned \<Longrightarrow> returned calls (pcs[j := pc]) = returned calls pcs + (if pc = Returned then {#calls ! j#} else {#})" for pc
    by (rule returned_upd [OF I(1) j(1)])
  have mine: "pending (pcs ! j) = Some a \<Longrightarrow> a \<in> pend_set pcs" for a using j(1) by (auto simp: pend_set_def)
  have bc: "0 < bucket_count t" and lim: "\<forall>a \<in> dom (nodes t). a < next_addr t" using I(4) by (auto simp: chains_ok_def)
  show ?thesis unfolding j(2)
  proof (cases "pcs ! j")
    case (Call k v)
    let ?a = "next_addr t"
    have e: "pc = Link ?a (Hash t k) seen" "t' = t\<lparr>nodes := (nodes t)(?a \<mapsto> \<lparr>nd_key = k, nd_value = v, nd_next = None\<rparr>), next_addr := Suc ?a\<rparr>"
      using j(3) Call bc by (simp_all add: insert_step_def)
    have new: "?a \<notin> dom (nodes t)" using lim by auto
    show "table_inv calls (pcs[j := pc], t')"
    proof (rule table_inv_step [OF inv j(1)])
      show "pc_ok t' (calls ! j) pc" using ok Call by (auto simp: pc_ok_def e Hash_def dest: sym)
      fix chs assume C: "chains_ok t chs (pend_set pcs) (returned calls pcs)"
      then have "chains_ok t' chs (pend_set (pcs[j := pc])) (returned calls pcs)"
        using new Call lim by (intro chains_ok_nodes [OF C]) (auto simp: e pend chains_ok_def less_Suc_eq)
      then show "\<exists>chs. chains_ok t' chs (pend_set (pcs[j := pc])) (returned calls (pcs[j := pc]))" using ret [of pc] Call e(1) by auto
    qed (use new in \<open>auto simp: e\<close>)
  next
    case (Link a i h)
    have e: "pc = Swing a i h" "t' = t\<lparr>nodes := (nodes t)(a := map_option (\<lambda>n. n\<lparr>nd_next := h\<rparr>) (nodes t a))\<rparr>"
      using j(3) Link by (simp_all add: insert_step_def)
    have a: "a \<in> pend_set pcs" "a \<in> dom (nodes t)" using mine [of a] Link I(4) by (auto simp: chains_ok_def)
    have d: "dom (nodes t') = dom (nodes t)" using a(2) by (auto simp: e)
    show "table_inv calls (pcs[j := pc], t')"
    proof (rule table_inv_step [OF inv j(1)])
      show "pc_ok t' (calls ! j) pc" using ok Link by (auto simp: pc_ok_def e Hash_def)
      fix chs assume C: "chains_ok t chs (pend_set pcs) (returned calls pcs)"
      have p: "pend_set (pcs[j := pc]) = pend_set pcs" using a(1) Link by (auto simp: pend e)
      have "chains_ok t' chs (pend_set pcs) (returned calls pcs)"
      proof (rule chains_ok_nodes [OF C])
        show "nodes t' x = nodes t x" if "k < bucket_count t" "x \<in> set (chs k)" for k x using C a(1) that by (auto simp: e chains_ok_def)
      qed (use C d in \<open>auto simp: chains_ok_def e(2)\<close>)
      then show "\<exists>chs. chains_ok t' chs (pend_set (pcs[j := pc])) (returned calls (pcs[j := pc]))" using ret [of pc] Link e(1) p by auto
    qed (use Link in \<open>auto simp: e\<close>)
  next
    case (Swing a i h)
    obtain n where n: "nodes t a = Some n" "(nd_key n, nd_value n) = calls ! j" "i = Hash t (nd_key n)" "nd_next n = h"
      using ok Swing by (auto simp: pc_ok_def dest: sym)
    have a: "a \<in> pend_set pcs" using mine [of a] Swing by simp
    show "table_inv calls (pcs[j := pc], t')"
    proof (cases "buckets t ! i = h \<and> \<not> spurious")
      case True
      have e: "pc = Returned" "t' = t\<lparr>buckets := (buckets t)[i := Some a]\<rparr>" using j(3) Swing True by (auto simp: insert_step_def)
      show ?thesis
      proof (rule table_inv_step [OF inv j(1)])
        fix chs assume C: "chains_ok t chs (pend_set pcs) (returned calls pcs)"
        have "chains_ok t' (chs(i := a # chs i)) (pend_set pcs - {a}) (returned calls pcs + {#(nd_key n, nd_value n)#})"
          by (rule chains_ok_swing [OF C a n(1) _ n(3) e(2)]) (use n(4) True in simp)
        then show "\<exists>chs. chains_ok t' chs (pend_set (pcs[j := pc])) (returned calls (pcs[j := pc]))"
          using ret [of pc] Swing n(2) by (auto simp: e(1) pend)
      qed (auto simp: e pc_ok_def)
    next
      case False
      have e: "pc = Link a i seen" "t' = t" using j(3) Swing False by (auto simp: insert_step_def)
      show ?thesis
      proof (rule table_inv_step [OF inv j(1)])
        show "pc_ok t' (calls ! j) pc" using n by (auto simp: pc_ok_def e dest: sym)
        fix chs assume C: "chains_ok t chs (pend_set pcs) (returned calls pcs)"
        have "pend_set (pcs[j := pc]) = pend_set pcs" using a Swing by (auto simp: pend e)
        then show "\<exists>chs. chains_ok t' chs (pend_set (pcs[j := pc])) (returned calls (pcs[j := pc]))" using C ret [of pc] Swing by (auto simp: e)
      qed (use Swing in \<open>auto simp: e\<close>)
    qed
  next
    case Returned
    then have "pc = pcs ! j" "t' = t" using j(3) by (auto simp: insert_step_def)
    then show "table_inv calls (pcs[j := pc], t')" using inv by simp
  next
    case Crashed
    then show "table_inv calls (pcs[j := pc], t')" using ok by (simp add: pc_ok_def)
  qed
qed

section \<open>Runs\<close>

definition start :: "nat \<Rightarrow> (i32 \<times> Tuple) list \<Rightarrow> insert_pc list \<times> LockFreeHashTable" where
  "start n calls = (map (\<lambda>(k, v). Call k v) calls, mk_LockFreeHashTable n)"

lemma start_inv: "0 < n \<Longrightarrow> table_inv calls (start n calls)"
proof -
  assume n: "0 < n"
  let ?pcs = "map (\<lambda>(k, v). Call k v) calls"
  have p: "pending (?pcs ! j) = None" "?pcs ! j \<noteq> Returned" if "j < length calls" for j using that by (auto split: prod.split)
  have "returned calls ?pcs = {#}" by (auto simp: returned_def filter_empty_conv set_zip split: prod.splits)
  moreover have "pend_set ?pcs = {}" using p(1) by (auto simp: pend_set_def)
  ultimately have "chains_ok (mk_LockFreeHashTable n) (\<lambda>_. []) (pend_set ?pcs) (returned calls ?pcs)"
    using n by (simp add: chains_ok_def mk_LockFreeHashTable_def)
  then show ?thesis using p by (auto simp: table_inv_def start_def pc_ok_def split: prod.split)
qed

lemma run_inv: "hash_step\<^sup>*\<^sup>* s s' \<Longrightarrow> table_inv calls s \<Longrightarrow> table_inv calls s'"
  by (induction rule: rtranclp_induct) (auto intro: hash_step_inv)

lemma Lookup_inv:
  assumes "table_inv calls (pcs, t)"
  shows "\<exists>out. Lookup key t = Some (Ok out) \<and> mset out = image_mset snd (filter_mset (\<lambda>e. fst e = key) (returned calls pcs))"
proof -
  obtain chs where C: "chains_ok t chs (pend_set pcs) (returned calls pcs)" using assms by (rule table_invE) blast
  let ?i = "Hash t key" and ?D = "returned calls pcs"
  have b: "0 < bucket_count t" using C by (simp add: chains_ok_def)
  then have i: "?i < bucket_count t" by (simp add: Hash_def Let_def)
  then have l: "linked (nodes t) (buckets t ! ?i) (chs ?i)"
      and m: "mset (map (entry (nodes t)) (chs ?i)) = filter_mset (\<lambda>e. Hash t (fst e) = ?i) ?D"
    using C by (auto simp: chains_ok_def)
  let ?out = "map snd (filter (\<lambda>e. fst e = key) (map (entry (nodes t)) (chs ?i)))"
  have "mset ?out = image_mset snd (filter_mset (\<lambda>e. fst e = key) (mset (map (entry (nodes t)) (chs ?i))))"
    by (simp only: mset_map mset_filter)
  also have "\<dots> = image_mset snd (filter_mset (\<lambda>e. fst e = key) ?D)"
    unfolding m filter_filter_mset by (intro arg_cong [where f = "image_mset snd"] filter_mset_cong) auto
  finally show ?thesis using lookup_linked [OF l, of key "[]"] b by (auto simp: Lookup_def)
qed

lemma returned_all:
  "length pcs = length calls \<Longrightarrow> \<forall>pc \<in> set pcs. pc = Returned \<Longrightarrow> returned calls pcs = mset calls"
proof (induction calls arbitrary: pcs)
  case (Cons c calls)
  then obtain p ps where "pcs = p # ps" by (cases pcs) auto
  then show ?case using Cons by (simp add: returned_def)
qed (simp add: returned_def)

subsection \<open>Progress\<close>

text \<open>A step of call \<open>j\<close> that reads the current head, with a compare-exchange that fails only for a reason.\<close>

definition own_bucket :: "insert_pc \<Rightarrow> LockFreeHashTable \<Rightarrow> nat" where
  "own_bucket pc t = (case pc of Call k v \<Rightarrow> Hash t k | Link a i h \<Rightarrow> i | Swing a i h \<Rightarrow> i | _ \<Rightarrow> 0)"

definition solo :: "nat \<Rightarrow> insert_pc list \<times> LockFreeHashTable \<Rightarrow> insert_pc list \<times> LockFreeHashTable" where
  "solo j s = (case s of (pcs, t) \<Rightarrow>
     (let (pc, t') = insert_step False (buckets t ! own_bucket (pcs ! j) t) (pcs ! j) t in (pcs[j := pc], t')))"

lemma solo_step: "j < length (fst s) \<Longrightarrow> hash_step s (solo j s)"
  by (cases s) (auto simp: solo_def split: prod.split intro: hash_step.intros)

lemma solo_length: "length (fst (solo j s)) = length (fst s)"
  by (simp add: solo_def split: prod.split)

lemma solo_run: "hash_step\<^sup>*\<^sup>* s s' \<Longrightarrow> j < length (fst s') \<Longrightarrow> hash_step\<^sup>*\<^sup>* s (solo j s')"
  by (meson solo_step rtranclp.rtrancl_into_rtrancl)

lemma solo_returns:
  assumes "table_inv calls (pcs, t)" and "j < length pcs"
  shows "fst (solo j (solo j (solo j (solo j (pcs, t))))) ! j = Returned"
proof -
  obtain chs where I: "length pcs = length calls" "pc_ok t (calls ! j) (pcs ! j)" "0 < bucket_count t" "length (buckets t) = bucket_count t"
    using assms by (auto simp: chains_ok_def elim!: table_invE)
  show ?thesis
  proof (cases "pcs ! j")
    case (Call k v)
    then show ?thesis using I assms(2) by (simp add: solo_def insert_step_def own_bucket_def Hash_def)
  next
    case (Link a i h)
    then show ?thesis using I assms(2) by (cases "buckets t ! i = h") (simp_all add: solo_def insert_step_def own_bucket_def)
  next
    case (Swing a i h)
    then show ?thesis using I assms(2) by (cases "buckets t ! i = h") (simp_all add: solo_def insert_step_def own_bucket_def)
  next
    case Returned
    then show ?thesis using assms(2) by (simp add: solo_def insert_step_def own_bucket_def)
  next
    case Crashed
    then show ?thesis using I(2) by (simp add: pc_ok_def)
  qed
qed

lemma step_heads:
  assumes "length pcs = length calls" and "hash_step (pcs, t) (pcs', t')"
  shows "length pcs' = length calls \<and> size (returned calls pcs) \<le> size (returned calls pcs') \<and>
    (size (returned calls pcs) = size (returned calls pcs') \<longrightarrow> buckets t' = buckets t)"
  using assms(2)
proof (rule hash_stepE)
  fix j spurious seen pc t'' assume j: "(pcs', t') = (pcs[j := pc], t'')" "j < length pcs" "insert_step spurious seen (pcs ! j) t = (pc, t'')"
  show ?thesis
  proof (cases "pcs ! j = Returned")
    case True
    then have "pcs' = pcs" "t' = t" using j list_update_id [of pcs j] by (auto simp: insert_step_def)
    then show ?thesis using assms(1) by simp
  next
    case False
    then show ?thesis
      using returned_upd [OF assms(1) j(2) False, of pc] j assms(1) by (cases "pcs ! j") (auto simp: insert_step_def split: if_splits)
  qed
qed

lemma run_heads:
  "hash_step\<^sup>*\<^sup>* (pcs, t) (pcs', t') \<Longrightarrow> length pcs = length calls \<Longrightarrow>
   length pcs' = length calls \<and> size (returned calls pcs) \<le> size (returned calls pcs') \<and>
   (size (returned calls pcs) = size (returned calls pcs') \<longrightarrow> buckets t' = buckets t)"
proof (induction rule: rtranclp_induct2)
  case (step pcs1 t1 pcs2 t2)
  then show ?case using step_heads [of pcs1 calls t1 pcs2 t2] by auto
qed simp

subsection \<open>Clear\<close>

lemma clear_linked:
  assumes "length as = length ps" and "\<forall>i < length ps. linked m (ps ! i) (as ! i) \<and> distinct (as ! i)"
    and "\<forall>i < length ps. \<forall>j < length ps. i \<noteq> j \<longrightarrow> set (as ! i) \<inter> set (as ! j) = {}"
  shows "clear_buckets ps m = Some (Ok (m |` (- \<Union> (set ` set as))))"
  using assms
proof (induction ps arbitrary: as m)
  case Nil
  then show ?case by (simp add: restrict_map_def)
next
  case (Cons p ps)
  then obtain a as' where as: "as = a # as'" by (cases as) auto
  have f: "free_from p m = Some (Ok (m |` (- set a)))" using free_linked [of m p a] Cons.prems(2) as by force
  have dis: "set a \<inter> set (as' ! i) = {}" if "i < length ps" for i using Cons.prems(3) [rule_format, of 0 "Suc i"] that as by simp
  have "linked (m |` (- set a)) (ps ! i) (as' ! i) \<and> distinct (as' ! i)" if i: "i < length ps" for i
  proof -
    have "linked (m |` (- set a)) (ps ! i) (as' ! i) = linked m (ps ! i) (as' ! i)"
      by (rule linked_cong) (use dis [OF i] in \<open>auto simp: restrict_map_def\<close>)
    then show ?thesis using Cons.prems(2) [rule_format, of "Suc i"] i as by simp
  qed
  moreover have "\<forall>i < length ps. \<forall>j < length ps. i \<noteq> j \<longrightarrow> set (as' ! i) \<inter> set (as' ! j) = {}"
    using Cons.prems(3) [rule_format, of "Suc i" "Suc j" for i j] as by auto
  ultimately have "clear_buckets ps (m |` (- set a)) = Some (Ok ((m |` (- set a)) |` (- \<Union> (set ` set as'))))"
    using Cons.IH [of as' "m |` (- set a)"] Cons.prems(1) as by simp
  moreover have "(m |` (- set a)) |` (- \<Union> (set ` set as')) = m |` (- \<Union> (set ` set as))"
    by (auto simp: as restrict_map_def fun_eq_iff)
  ultimately show ?case using f by simp
qed

lemma Clear_inv:
  assumes "table_inv calls (pcs, t)" and "\<forall>pc \<in> set pcs. pc = Returned"
  shows "Clear t = Some (Ok (t\<lparr>nodes := Map.empty, buckets := replicate (bucket_count t) None\<rparr>))"
proof -
  obtain chs where C: "chains_ok t chs (pend_set pcs) (returned calls pcs)" using assms(1) by (rule table_invE) blast
  let ?as = "map chs [0..<bucket_count t]"
  have "pend_set pcs = {}" using assms(2) by (auto simp: pend_set_def) (metis nth_mem option.distinct(1) pending.simps(4))
  then have d: "\<Union> (set ` set ?as) = dom (nodes t)" using C by (auto simp: chains_ok_def)
  have "clear_buckets (buckets t) (nodes t) = Some (Ok (nodes t |` (- \<Union> (set ` set ?as))))"
    by (rule clear_linked) (use C in \<open>auto simp: chains_ok_def\<close>)
  then have "clear_buckets (buckets t) (nodes t) = Some (Ok (nodes t |` (- dom (nodes t))))" unfolding d .
  moreover have "m |` (- dom m) = Map.empty" for m :: "nat \<rightharpoonup> Node" by (auto simp: restrict_map_def fun_eq_iff dom_def)
  ultimately show ?thesis using C by (simp add: Clear_def chains_ok_def)
qed

section \<open>Properties\<close>

text \<open>(C9) Concurrent insertions lose and duplicate nothing: at every moment of every interleaving of
  calls of \<open>Insert\<close>, with stale loads and spurious failures of the compare-exchange, the walk of
  \<open>Lookup\<close> ends, follows only valid pointers, and finds for each key the values of exactly those
  calls with that key that have returned, each once.\<close>

theorem hash_table_concurrent:
  assumes "0 < n" and "hash_step\<^sup>*\<^sup>* (start n calls) (pcs, t)"
  shows "\<exists>out. Lookup key t = Some (Ok out) \<and> mset out = image_mset snd (filter_mset (\<lambda>e. fst e = key) (returned calls pcs))"
  using Lookup_inv [OF run_inv [OF assms(2) start_inv [OF assms(1)]]] .

theorem hash_table_concurrent_witness:
  "\<exists>out. Lookup (mk32 7) (snd (solo 0 (solo 0 (solo 0 (solo 1 (solo 0 (start 2 [(mk32 7, [1]), (mk32 7, [2])]))))))) = Some (Ok out) \<and>
    mset out = {#[1]#}"
proof -
  let ?c = "[(mk32 7, [1]), (mk32 7, [2])] :: (i32 \<times> Tuple) list"
  let ?s = "solo 0 (solo 0 (solo 0 (solo 1 (solo 0 (start 2 ?c)))))"
  have "length (fst (start 2 ?c)) = 2" by (simp add: start_def)
  then have "hash_step\<^sup>*\<^sup>* (start 2 ?c) ?s" by (intro solo_run rtranclp.rtrancl_refl) (simp_all add: solo_length)
  then have run: "hash_step\<^sup>*\<^sup>* (start 2 ?c) (fst ?s, snd ?s)" by simp
  have "image_mset snd (filter_mset (\<lambda>e. fst e = mk32 7) (returned ?c (fst ?s))) = {#[1]#}"
    by (simp add: solo_def insert_step_def own_bucket_def start_def returned_def mk_LockFreeHashTable_def)
  then show ?thesis using hash_table_concurrent [OF _ run, of "mk32 7"] by simp
qed

text \<open>(C10) \<open>Insert\<close> is lock-free: a call that runs alone from any reachable state returns within four steps,
  whatever the other calls were doing; and a compare-exchange can find the head of a bucket
  changed only because another call has returned since that head was current.\<close>

theorem insert_lock_free:
  assumes "0 < n" and "hash_step\<^sup>*\<^sup>* (start n calls) (pcs, t)" and "j < length calls"
  shows "fst (solo j (solo j (solo j (solo j (pcs, t))))) ! j = Returned \<and>
    (\<forall>pcs' t' i. hash_step\<^sup>*\<^sup>* (pcs, t) (pcs', t') \<longrightarrow> buckets t' ! i \<noteq> buckets t ! i \<longrightarrow>
      size (returned calls pcs) < size (returned calls pcs'))"
proof -
  have inv: "table_inv calls (pcs, t)" using run_inv [OF assms(2) start_inv [OF assms(1)]] .
  then have len: "length pcs = length calls" by (rule table_invE)
  have "size (returned calls pcs) < size (returned calls pcs')"
    if "hash_step\<^sup>*\<^sup>* (pcs, t) (pcs', t')" "buckets t' ! i \<noteq> buckets t ! i" for pcs' t' i
  proof -
    have "buckets t' \<noteq> buckets t" using that(2) by auto
    then show ?thesis using run_heads [OF that(1) len] by linarith
  qed
  then show ?thesis using solo_returns [OF inv] assms(3) len by auto
qed

theorem insert_lock_free_witness:
  "fst (solo 1 (solo 1 (solo 1 (solo 1 (start 2 [(mk32 7, [1]), (mk32 7, [2])]))))) ! 1 = Returned"
  using insert_lock_free [of 2 "[(mk32 7, [1]), (mk32 7, [2])]" "fst (start 2 [(mk32 7, [1]), (mk32 7, [2])])"
      "snd (start 2 [(mk32 7, [1]), (mk32 7, [2])])" 1] by simp

text \<open>(C35) \<open>Clear\<close> frees every node exactly once: once all calls have returned it ends, follows and deletes
  only valid pointers, and leaves no node behind and every bucket empty.\<close>

theorem clear_frees_all:
  assumes "0 < n" and "hash_step\<^sup>*\<^sup>* (start n calls) (pcs, t)" and "\<forall>pc \<in> set pcs. pc = Returned"
  shows "Clear t = Some (Ok (t\<lparr>nodes := Map.empty, buckets := replicate (bucket_count t) None\<rparr>))"
  using Clear_inv [OF run_inv [OF assms(2) start_inv [OF assms(1)]] assms(3)] .

theorem clear_frees_all_witness:
  "\<exists>t'. Clear (snd (solo 0 (solo 0 (solo 0 (start 2 [(mk32 7, [1])]))))) = Some (Ok t') \<and> nodes t' = Map.empty"
proof -
  let ?c = "[(mk32 7, [1])] :: (i32 \<times> Tuple) list"
  let ?s = "solo 0 (solo 0 (solo 0 (start 2 ?c)))"
  have "length (fst (start 2 ?c)) = 1" by (simp add: start_def)
  then have "hash_step\<^sup>*\<^sup>* (start 2 ?c) ?s" by (intro solo_run rtranclp.rtrancl_refl) (simp_all add: solo_length)
  then have run: "hash_step\<^sup>*\<^sup>* (start 2 ?c) (fst ?s, snd ?s)" by simp
  have "\<forall>pc \<in> set (fst ?s). pc = Returned"
    by (simp add: solo_def insert_step_def own_bucket_def start_def mk_LockFreeHashTable_def)
  then show ?thesis using clear_frees_all [OF _ run] by simp
qed

end
