(* ===== verification/Parallel_Join.thy ===== *)
theory Parallel_Join
  imports Hash_Table Thread_Pool Query_Results
begin

text \<open>
  \<open>src/src/executor/parallel_hash_join\<close>: the workers of the build phase claim left rows with an atomic
  counter and insert them into the lock-free hash table, and those of the probe phase claim right
  rows, look their keys up in the finished table and keep the joined rows in a buffer of their own.
  An insertion is not atomic: its steps are those of \<open>Insert\<close>.
\<close>

section \<open>Definitions\<close>

subsection \<open>Build\<close>

record BuildShared =
  left_idx :: nat
  build_table :: LockFreeHashTable

datatype build_pc = BuildClaim | Inserting nat insert_pc

text \<open>The key of a row is \<open>AsInt()\<close> of its value, whatever the type of the value. \<open>spurious\<close> and
  \<open>seen\<close> are what the compare-exchange and the load meet, as in \<open>insert_step\<close>.\<close>

fun build_task_step :: "bool \<Rightarrow> nat option \<Rightarrow> Expr \<Rightarrow> Schema \<Rightarrow> Tuple list \<Rightarrow> build_pc \<Rightarrow> BuildShared \<Rightarrow>
    build_pc task_result \<times> BuildShared" where
  "build_task_step spurious seen lk sch lts BuildClaim s =
     (let idx = left_idx s; s1 = s\<lparr>left_idx := Suc idx\<rparr>
      in if length lts \<le> idx then (Return, s1)
         else (case EvalExpr lk (lts ! idx) sch of
                 Ok v \<Rightarrow> (Continue (Inserting idx (Call (int_val v) (lts ! idx))), s1)
               | _ \<Rightarrow> (Terminate, s1)))"
| "build_task_step spurious seen lk sch lts (Inserting idx pc) s =
     (let (pc', t) = insert_step spurious seen pc (build_table s); s1 = s\<lparr>build_table := t\<rparr>
      in case pc' of
           Returned \<Rightarrow> (Continue BuildClaim, s1)
         | Crashed \<Rightarrow> (Terminate, s1)
         | _ \<Rightarrow> (Continue (Inserting idx pc'), s1))"

definition build_task :: "Expr \<Rightarrow> Schema \<Rightarrow> Tuple list \<Rightarrow> (build_pc, BuildShared) task_rel" where
  "build_task lk sch lts l s r s' \<longleftrightarrow> (\<exists>spurious seen. build_task_step spurious seen lk sch lts l s = (r, s'))"

subsection \<open>Probe\<close>

record ProbeShared =
  right_idx :: nat
  probe_local :: "Tuple list list"

datatype probe_pc = ProbeClaim nat | Probing nat nat

fun join_matches :: "Tuple list \<Rightarrow> Tuple \<Rightarrow> Schema \<Rightarrow> Schema \<Rightarrow> Tuple list outcome" where
  "join_matches [] rt ls rs = Ok []"
| "join_matches (lt # lts) rt ls rs = bind_out (Concat lt rt ls rs) (\<lambda>t. bind_out (join_matches lts rt ls rs) (\<lambda>ts. Ok (t # ts)))"

text \<open>A walk of \<open>Lookup\<close> that does not end would keep its worker where it is.\<close>

fun probe_task_step :: "LockFreeHashTable \<Rightarrow> Expr \<Rightarrow> Schema \<Rightarrow> Schema \<Rightarrow> Tuple list \<Rightarrow> probe_pc \<Rightarrow> ProbeShared \<Rightarrow>
    probe_pc task_result \<times> ProbeShared" where
  "probe_task_step ht rk ls rs rts (ProbeClaim tid) s =
     (let idx = right_idx s; s1 = s\<lparr>right_idx := Suc idx\<rparr>
      in if length rts \<le> idx then (Return, s1) else (Continue (Probing tid idx), s1))"
| "probe_task_step ht rk ls rs rts (Probing tid idx) s =
     (case EvalExpr rk (rts ! idx) rs of
        Ok v \<Rightarrow> (case Lookup (int_val v) ht of
            None \<Rightarrow> (Continue (Probing tid idx), s)
          | Some found \<Rightarrow> (case bind_out found (\<lambda>matches. join_matches matches (rts ! idx) ls rs) of
                Ok rows \<Rightarrow> (Continue (ProbeClaim tid), s\<lparr>probe_local := (probe_local s)[tid := probe_local s ! tid @ rows]\<rparr>)
              | _ \<Rightarrow> (Terminate, s)))
      | _ \<Rightarrow> (Terminate, s))"

definition probe_task :: "LockFreeHashTable \<Rightarrow> Expr \<Rightarrow> Schema \<Rightarrow> Schema \<Rightarrow> Tuple list \<Rightarrow> (probe_pc, ProbeShared) task_rel" where
  "probe_task ht rk ls rs rts l s r s' \<longleftrightarrow> probe_task_step ht rk ls rs rts l s = (r, s')"

subsection \<open>The two phases\<close>

definition build_start :: "nat \<Rightarrow> LockFreeHashTable \<Rightarrow> build_pc caller \<times> build_pc ThreadPool \<times> BuildShared" where
  "build_start n t = tp_start n (replicate n BuildClaim) \<lparr>left_idx = 0, build_table = t\<rparr>"

definition probe_start :: "nat \<Rightarrow> probe_pc caller \<times> probe_pc ThreadPool \<times> ProbeShared" where
  "probe_start n = tp_start n (map ProbeClaim [0..<n]) \<lparr>right_idx = 0, probe_local = replicate n []\<rparr>"

text \<open>The hash table that the build phase leaves, and the rows that the probe phase leaves.\<close>

inductive parallel_build :: "nat \<Rightarrow> Expr \<Rightarrow> Schema \<Rightarrow> Tuple list \<Rightarrow> LockFreeHashTable \<Rightarrow> LockFreeHashTable outcome \<Rightarrow> bool" where
  built: "(tp_any (build_task lk sch lts))\<^sup>*\<^sup>* (build_start n_threads t) (Joined, p, s) \<Longrightarrow>
    parallel_build n_threads lk sch lts t (Ok (build_table s))"
| build_aborted: "(tp_any (build_task lk sch lts))\<^sup>*\<^sup>* (build_start n_threads t) (Aborted, p, s) \<Longrightarrow>
    parallel_build n_threads lk sch lts t Fault"

inductive parallel_probe :: "nat \<Rightarrow> LockFreeHashTable \<Rightarrow> Expr \<Rightarrow> Schema \<Rightarrow> Schema \<Rightarrow> Tuple list \<Rightarrow> Tuple list outcome \<Rightarrow> bool" where
  probed: "(tp_any (probe_task ht rk ls rs rts))\<^sup>*\<^sup>* (probe_start n_threads) (Joined, p, s) \<Longrightarrow>
    parallel_probe n_threads ht rk ls rs rts (Ok (concat (probe_local s)))"
| probe_aborted: "(tp_any (probe_task ht rk ls rs rts))\<^sup>*\<^sup>* (probe_start n_threads) (Aborted, p, s) \<Longrightarrow>
    parallel_probe n_threads ht rk ls rs rts Fault"

section \<open>The build phase\<close>

definition build_calls :: "Expr \<Rightarrow> Schema \<Rightarrow> Tuple list \<Rightarrow> (i32 \<times> Tuple) list" where
  "build_calls lk sch lts = map (\<lambda>t. (int_val (val_of lk sch t), t)) lts"

definition open_calls :: "insert_pc list \<Rightarrow> nat \<Rightarrow> nat set" where
  "open_calls pcs idx = {i. i < length pcs \<and> i < idx \<and> pcs ! i \<noteq> Returned}"

text \<open>
  The workers run the insertions of the rows claimed so far: the insertion of row \<open>i\<close> has returned or
  is at the place \<open>pcs ! i\<close>, in the hands of one worker.
\<close>

definition build_sim :: "Expr \<Rightarrow> Schema \<Rightarrow> Tuple list \<Rightarrow> build_pc multiset \<Rightarrow> BuildShared \<Rightarrow> insert_pc list \<Rightarrow> bool" where
  "build_sim lk sch lts M s pcs \<longleftrightarrow> table_inv (build_calls lk sch lts) (pcs, build_table s) \<and> length pcs = length lts \<and>
     (\<forall>i < length lts. left_idx s \<le> i \<longrightarrow> pcs ! i = Call (int_val (val_of lk sch (lts ! i))) (lts ! i)) \<and>
     filter_mset (\<lambda>x. x \<noteq> BuildClaim) M = image_mset (\<lambda>i. Inserting i (pcs ! i)) (mset_set (open_calls pcs (left_idx s)))"

definition build_inv :: "Expr \<Rightarrow> Schema \<Rightarrow> Tuple list \<Rightarrow> nat \<Rightarrow> build_pc multiset \<Rightarrow> BuildShared \<Rightarrow> bool" where
  "build_inv lk sch lts n M s \<longleftrightarrow> (\<exists>pcs. build_sim lk sch lts M s pcs) \<and> size M \<le> n \<and> (size M < n \<longrightarrow> length lts \<le> left_idx s) \<and>
     (\<forall>t \<in> set lts. \<exists>v. EvalExpr lk t sch = Ok v)"

lemma open_calls_finite [simp]: "finite (open_calls pcs i)"
  by (simp add: open_calls_def)

lemma open_calls_claim: "i < length pcs \<Longrightarrow> pcs ! i \<noteq> Returned \<Longrightarrow> open_calls pcs (Suc i) = insert i (open_calls pcs i)"
  by (auto simp: open_calls_def less_Suc_eq)

lemma open_calls_past: "length pcs \<le> i \<Longrightarrow> open_calls pcs (Suc i) = open_calls pcs i"
  by (auto simp: open_calls_def)

lemma build_claim:
  assumes "build_inv lk sch lts n (add_mset BuildClaim M) s"
  shows "length lts \<le> left_idx s \<Longrightarrow> build_inv lk sch lts n M (s\<lparr>left_idx := Suc (left_idx s)\<rparr>)"
    and "left_idx s < length lts \<Longrightarrow> \<exists>v. EvalExpr lk (lts ! left_idx s) sch = Ok v \<and>
      build_inv lk sch lts n (add_mset (Inserting (left_idx s) (Call (int_val v) (lts ! left_idx s))) M) (s\<lparr>left_idx := Suc (left_idx s)\<rparr>)"
proof -
  obtain pcs where P: "build_sim lk sch lts (add_mset BuildClaim M) s pcs" using assms by (auto simp: build_inv_def)
  let ?s = "s\<lparr>left_idx := Suc (left_idx s)\<rparr>"
  show "build_inv lk sch lts n M ?s" if i: "length lts \<le> left_idx s"
  proof -
    have "build_sim lk sch lts M ?s pcs" using P i open_calls_past [of pcs "left_idx s"] by (simp add: build_sim_def)
    then show ?thesis using assms i by (auto simp: build_inv_def)
  qed
  assume i: "left_idx s < length lts"
  then obtain v where v: "EvalExpr lk (lts ! left_idx s) sch = Ok v" using assms by (meson build_inv_def nth_mem)
  then have c: "pcs ! left_idx s = Call (int_val v) (lts ! left_idx s)" using P i by (simp add: build_sim_def val_of_Ok)
  have "left_idx s \<notin> open_calls pcs (left_idx s)" by (simp add: open_calls_def)
  then have "build_sim lk sch lts (add_mset (Inserting (left_idx s) (Call (int_val v) (lts ! left_idx s))) M) ?s pcs"
    using P i c open_calls_claim [of "left_idx s" pcs] by (auto simp: build_sim_def)
  then show "\<exists>v. EvalExpr lk (lts ! left_idx s) sch = Ok v \<and>
      build_inv lk sch lts n (add_mset (Inserting (left_idx s) (Call (int_val v) (lts ! left_idx s))) M) ?s"
    using assms v by (auto simp: build_inv_def)
qed

lemma build_sim_own:
  assumes "build_sim lk sch lts (add_mset (Inserting i pc) M) s pcs"
  shows "i < length pcs" "i < left_idx s" "pcs ! i = pc" "pc \<noteq> Returned"
    "filter_mset (\<lambda>x. x \<noteq> BuildClaim) M = image_mset (\<lambda>i. Inserting i (pcs ! i)) (mset_set (open_calls pcs (left_idx s) - {i}))"
proof -
  let ?S = "open_calls pcs (left_idx s)"
  have e: "add_mset (Inserting i pc) (filter_mset (\<lambda>x. x \<noteq> BuildClaim) M) = image_mset (\<lambda>i. Inserting i (pcs ! i)) (mset_set ?S)"
    using assms by (simp add: build_sim_def)
  then have "Inserting i pc \<in># image_mset (\<lambda>i. Inserting i (pcs ! i)) (mset_set ?S)" by (metis union_single_eq_member)
  then have i: "i \<in> ?S" "pcs ! i = pc" by auto
  then show "i < length pcs" "i < left_idx s" "pcs ! i = pc" "pc \<noteq> Returned" by (auto simp: open_calls_def)
  have "mset_set ?S = add_mset i (mset_set (?S - {i}))" using i(1) by (simp add: mset_set.remove)
  then show "filter_mset (\<lambda>x. x \<noteq> BuildClaim) M = image_mset (\<lambda>i. Inserting i (pcs ! i)) (mset_set (?S - {i}))"
    using e i(2) by simp
qed

lemma build_insert:
  assumes inv: "build_inv lk sch lts n (add_mset (Inserting i pc) M) s"
    and st: "insert_step spurious seen pc (build_table s) = (pc', t)"
  shows "pc' \<noteq> Crashed"
    and "build_inv lk sch lts n (add_mset (if pc' = Returned then BuildClaim else Inserting i pc') M) (s\<lparr>build_table := t\<rparr>)"
proof -
  let ?c = "build_calls lk sch lts"
  obtain pcs where P: "build_sim lk sch lts (add_mset (Inserting i pc) M) s pcs" using inv by (auto simp: build_inv_def)
  note own = build_sim_own [OF P]
  have "hash_step (pcs, build_table s) (pcs[i := pc'], t)" using hash_step.step [OF own(1)] st own(3) by simp
  then have T: "table_inv ?c (pcs[i := pc'], t)" using hash_step_inv P by (auto simp: build_sim_def)
  then have "length (pcs[i := pc']) = length ?c" "\<forall>j < length ?c. pc_ok t (?c ! j) (pcs[i := pc'] ! j)" by (auto simp: table_inv_def)
  then show "pc' \<noteq> Crashed" using own(1) by (force simp: pc_ok_def)
  have R: "open_calls (pcs[i := pc']) (left_idx s) =
      (if pc' = Returned then open_calls pcs (left_idx s) - {i} else insert i (open_calls pcs (left_idx s) - {i}))"
    using own(1,2) by (auto simp: open_calls_def nth_list_update split: if_splits)
  have "image_mset (\<lambda>j. Inserting j (pcs[i := pc'] ! j)) (mset_set (open_calls pcs (left_idx s) - {i})) =
      filter_mset (\<lambda>x. x \<noteq> BuildClaim) M"
    unfolding own(5) by (rule image_mset_cong) (auto simp: nth_list_update_neq)
  then have "image_mset (\<lambda>j. Inserting j (pcs[i := pc'] ! j)) (mset_set (open_calls (pcs[i := pc']) (left_idx s))) =
      (if pc' = Returned then {#} else {#Inserting i pc'#}) + filter_mset (\<lambda>x. x \<noteq> BuildClaim) M"
    unfolding R using own(1) by (cases "pc' = Returned") (simp_all del: insert_Diff_single)
  then have "build_sim lk sch lts (add_mset (if pc' = Returned then BuildClaim else Inserting i pc') M) (s\<lparr>build_table := t\<rparr>) (pcs[i := pc'])"
    using P T own(1,2) by (auto simp: build_sim_def)
  then show "build_inv lk sch lts n (add_mset (if pc' = Returned then BuildClaim else Inserting i pc') M) (s\<lparr>build_table := t\<rparr>)"
    using inv by (auto simp: build_inv_def)
qed

lemma build_step_ok:
  assumes "build_inv lk sch lts n (add_mset x M) s"
  shows "case build_task_step spurious seen lk sch lts x s of
      (Continue x', s') \<Rightarrow> build_inv lk sch lts n (add_mset x' M) s'
    | (Return, s') \<Rightarrow> build_inv lk sch lts n M s'
    | (Terminate, s') \<Rightarrow> False"
proof (cases x)
  case BuildClaim
  then show ?thesis using build_claim [of lk sch lts n M s] assms by (auto simp: Let_def)
next
  case (Inserting i pc)
  obtain pc' t where st: "insert_step spurious seen pc (build_table s) = (pc', t)" by fastforce
  note ok = build_insert [OF assms [unfolded Inserting] st]
  show ?thesis using ok Inserting st by (cases pc') simp_all
qed

interpretation pbuild: pool_client "build_task lk sch lts" "build_inv lk sch lts n" for lk sch lts n
proof (unfold_locales, goal_cases)
  case (1 x s)
  show ?case unfolding build_task_def by (metis surj_pair)
next
  case (2 x M s x' s')
  then obtain sp se where "build_task_step sp se lk sch lts x s = (Continue x', s')" by (auto simp: build_task_def)
  then show ?case using build_step_ok [OF 2(1), of sp se] by simp
next
  case (3 x M s s')
  then obtain sp se where "build_task_step sp se lk sch lts x s = (Return, s')" by (auto simp: build_task_def)
  then show ?case using build_step_ok [OF 3(1), of sp se] by simp
next
  case (4 x M s s')
  have "build_task_step sp se lk sch lts x s \<noteq> (Terminate, s')" for sp se using build_step_ok [OF 4, of sp se] by auto
  then show ?case by (simp add: build_task_def)
qed

text \<open>A table without nodes.\<close>

definition empty_table :: "LockFreeHashTable \<Rightarrow> bool" where
  "empty_table t \<longleftrightarrow> 0 < bucket_count t \<and> buckets t = replicate (bucket_count t) None \<and> nodes t = Map.empty"

lemma empty_table_inv:
  assumes "empty_table t"
  shows "table_inv calls (map (\<lambda>(k, v). Call k v) calls, t)"
proof -
  let ?pcs = "map (\<lambda>(k, v). Call k v) calls"
  have p: "pending (?pcs ! j) = None" "?pcs ! j \<noteq> Returned" if "j < length calls" for j using that by (auto split: prod.split)
  have "returned calls ?pcs = {#}" by (auto simp: returned_def filter_empty_conv set_zip split: prod.splits)
  moreover have "pend_set ?pcs = {}" using p(1) by (auto simp: pend_set_def)
  ultimately have "chains_ok t (\<lambda>_. []) (pend_set ?pcs) (returned calls ?pcs)"
    using assms by (simp add: chains_ok_def empty_table_def)
  then show ?thesis using p by (auto simp: table_inv_def pc_ok_def split: prod.split)
qed

lemma build_start_inv:
  assumes "empty_table t" and "\<forall>t \<in> set lts. \<exists>v. EvalExpr lk t sch = Ok v"
  shows "build_inv lk sch lts n (mset (replicate n BuildClaim)) \<lparr>left_idx = 0, build_table = t\<rparr>"
proof -
  have "build_sim lk sch lts (mset (replicate n BuildClaim)) \<lparr>left_idx = 0, build_table = t\<rparr> (map (\<lambda>(k, v). Call k v) (build_calls lk sch lts))"
    using empty_table_inv [OF assms(1), of "build_calls lk sch lts"] by (simp add: build_sim_def open_calls_def) (simp add: build_calls_def)
  then show ?thesis using assms(2) by (auto simp: build_inv_def)
qed

text \<open>The finished table.\<close>

definition holds_rows :: "LockFreeHashTable \<Rightarrow> (i32 \<times> Tuple) list \<Rightarrow> bool" where
  "holds_rows t calls \<longleftrightarrow> table_inv calls (replicate (length calls) Returned, t)"

lemma holds_rows_lookup:
  assumes "holds_rows t calls"
  shows "\<exists>out. Lookup key t = Some (Ok out) \<and> mset out = image_mset snd (filter_mset (\<lambda>e. fst e = key) (mset calls))"
  using Lookup_inv [OF assms [unfolded holds_rows_def], of key] returned_all [of "replicate (length calls) Returned" calls] by simp

lemma build_end:
  assumes "build_inv lk sch lts n {#} s" and "0 < n"
  shows "holds_rows (build_table s) (build_calls lk sch lts)"
proof -
  obtain pcs where P: "build_sim lk sch lts {#} s pcs" using assms by (auto simp: build_inv_def)
  have "length lts \<le> left_idx s" using assms by (simp add: build_inv_def)
  moreover have "open_calls pcs (left_idx s) = {}" using P mset_set_empty_iff [of "open_calls pcs (left_idx s)"] by (simp add: build_sim_def)
  ultimately have "pcs = replicate (length pcs) Returned" using P by (intro nth_equalityI) (auto simp: build_sim_def open_calls_def)
  moreover have "length pcs = length (build_calls lk sch lts)" using P by (simp add: build_sim_def build_calls_def)
  moreover have "table_inv (build_calls lk sch lts) (pcs, build_table s)" using P by (simp add: build_sim_def)
  ultimately show ?thesis unfolding holds_rows_def by metis
qed

section \<open>The probe phase\<close>

text \<open>What each right row yields.\<close>

definition probe_yields :: "LockFreeHashTable \<Rightarrow> Expr \<Rightarrow> Schema \<Rightarrow> Schema \<Rightarrow> Tuple list \<Rightarrow> Tuple list list \<Rightarrow> bool" where
  "probe_yields ht rk ls rs rts rows \<longleftrightarrow> length rows = length rts \<and>
     (\<forall>i < length rts. \<exists>v ms. EvalExpr rk (rts ! i) rs = Ok v \<and> Lookup (int_val v) ht = Some (Ok ms) \<and>
        join_matches ms (rts ! i) ls rs = Ok (rows ! i))"

fun unjoined :: "Tuple list list \<Rightarrow> probe_pc \<Rightarrow> Tuple multiset" where
  "unjoined rows (Probing tid i) = mset (rows ! i)"
| "unjoined rows _ = {#}"

fun probe_fits :: "nat \<Rightarrow> nat \<Rightarrow> probe_pc \<Rightarrow> bool" where
  "probe_fits threads n (ProbeClaim tid) \<longleftrightarrow> tid < threads"
| "probe_fits threads n (Probing tid i) \<longleftrightarrow> tid < threads \<and> i < n"

definition probe_inv :: "LockFreeHashTable \<Rightarrow> Expr \<Rightarrow> Schema \<Rightarrow> Schema \<Rightarrow> Tuple list \<Rightarrow> Tuple list list \<Rightarrow> nat \<Rightarrow>
    probe_pc multiset \<Rightarrow> ProbeShared \<Rightarrow> bool" where
  "probe_inv ht rk ls rs rts rows n M s \<longleftrightarrow> probe_yields ht rk ls rs rts rows \<and>
     (\<forall>x \<in># M. probe_fits (length (probe_local s)) (length rts) x) \<and>
     mset (concat (probe_local s)) + sum_mset (image_mset (unjoined rows) M) = sum_list (map mset (take (right_idx s) rows)) \<and>
     size M \<le> n \<and> (size M < n \<longrightarrow> length rts \<le> right_idx s)"

fun probe_pc_rank :: "probe_pc \<Rightarrow> nat" where
  "probe_pc_rank (ProbeClaim tid) = 1"
| "probe_pc_rank (Probing tid i) = 2"

definition probe_rank :: "Tuple list \<Rightarrow> probe_pc multiset \<Rightarrow> ProbeShared \<Rightarrow> nat" where
  "probe_rank rts M s = sum_mset (image_mset probe_pc_rank M) + 2 * (length rts - right_idx s)"

lemma concat_extend: "j < length xss \<Longrightarrow> mset (concat (xss[j := xss ! j @ ys])) = mset (concat xss) + mset ys"
  by (induction xss arbitrary: j) (auto simp: nth_Cons split: nat.splits)

lemma probe_claim:
  assumes inv: "probe_inv ht rk ls rs rts rows n (add_mset (ProbeClaim tid) M) s"
  shows "length rts \<le> right_idx s \<Longrightarrow> probe_inv ht rk ls rs rts rows n M (s\<lparr>right_idx := Suc (right_idx s)\<rparr>)"
    and "right_idx s < length rts \<Longrightarrow>
      probe_inv ht rk ls rs rts rows n (add_mset (Probing tid (right_idx s)) M) (s\<lparr>right_idx := Suc (right_idx s)\<rparr>)"
proof -
  have len: "length rows = length rts" using inv by (simp add: probe_inv_def probe_yields_def)
  show "probe_inv ht rk ls rs rts rows n M (s\<lparr>right_idx := Suc (right_idx s)\<rparr>)" if "length rts \<le> right_idx s"
    using inv that len by (auto simp: probe_inv_def)
  show "probe_inv ht rk ls rs rts rows n (add_mset (Probing tid (right_idx s)) M) (s\<lparr>right_idx := Suc (right_idx s)\<rparr>)"
    if i: "right_idx s < length rts"
    using inv i len by (auto simp: probe_inv_def take_Suc_conv_app_nth)
qed

lemma probe_probe:
  assumes inv: "probe_inv ht rk ls rs rts rows n (add_mset (Probing tid i) M) s"
  shows "\<exists>s'. probe_task_step ht rk ls rs rts (Probing tid i) s = (Continue (ProbeClaim tid), s') \<and> right_idx s' = right_idx s \<and>
    probe_inv ht rk ls rs rts rows n (add_mset (ProbeClaim tid) M) s'"
proof -
  have f: "tid < length (probe_local s)" "i < length rts" using inv by (auto simp: probe_inv_def)
  let ?s = "s\<lparr>probe_local := (probe_local s)[tid := probe_local s ! tid @ rows ! i]\<rparr>"
  obtain v ms where "EvalExpr rk (rts ! i) rs = Ok v" "Lookup (int_val v) ht = Some (Ok ms)" "join_matches ms (rts ! i) ls rs = Ok (rows ! i)"
    using inv f(2) by (auto simp: probe_inv_def probe_yields_def)
  then have "probe_task_step ht rk ls rs rts (Probing tid i) s = (Continue (ProbeClaim tid), ?s)" by simp
  moreover have "probe_inv ht rk ls rs rts rows n (add_mset (ProbeClaim tid) M) ?s"
    using inv concat_extend [OF f(1), of "rows ! i"] by (auto simp: probe_inv_def ac_simps)
  ultimately show ?thesis by simp
qed

lemma probe_step_ok:
  assumes "probe_inv ht rk ls rs rts rows n (add_mset x M) s"
  shows "case probe_task_step ht rk ls rs rts x s of
      (Continue x', s') \<Rightarrow> probe_inv ht rk ls rs rts rows n (add_mset x' M) s' \<and> probe_rank rts (add_mset x' M) s' < probe_rank rts (add_mset x M) s
    | (Return, s') \<Rightarrow> probe_inv ht rk ls rs rts rows n M s' \<and> probe_rank rts M s' < probe_rank rts (add_mset x M) s
    | (Terminate, s') \<Rightarrow> False"
proof (cases x)
  case (ProbeClaim tid)
  then show ?thesis using probe_claim [of ht rk ls rs rts rows n tid M s] assms by (auto simp: Let_def probe_rank_def)
next
  case (Probing tid i)
  then show ?thesis
    using probe_probe [of ht rk ls rs rts rows n tid i M s] assms by (auto simp: probe_rank_def simp del: probe_task_step.simps)
qed

interpretation pprobe: ending_client "probe_task ht rk ls rs rts" "probe_inv ht rk ls rs rts rows n" "probe_rank rts"
  for ht rk ls rs rts rows n
proof (unfold_locales, goal_cases)
  case (1 x s)
  show ?case unfolding probe_task_def by (metis surj_pair)
qed (auto dest!: probe_step_ok simp: probe_task_def)

lemma probe_start_inv:
  assumes "probe_yields ht rk ls rs rts rows"
  shows "probe_inv ht rk ls rs rts rows n (mset (map ProbeClaim [0..<n])) \<lparr>right_idx = 0, probe_local = replicate n []\<rparr>"
proof -
  have "sum_list (map (unjoined rows \<circ> ProbeClaim) xs) = {#}" for xs by (induction xs) simp_all
  moreover have "concat (replicate n []) = []" by (induction n) simp_all
  ultimately show ?thesis using assms by (auto simp: probe_inv_def sum_mset_sum_list [symmetric] simp flip: mset_map)
qed

lemma probe_end:
  assumes "probe_inv ht rk ls rs rts rows n {#} s" and "0 < n"
  shows "mset (concat (probe_local s)) = mset (concat rows)"
  using assms by (auto simp: probe_inv_def probe_yields_def mset_concat)

lemma parallel_probe_ok:
  assumes "0 < n" and "probe_yields ht rk ls rs rts rows"
  shows "\<exists>r. parallel_probe n ht rk ls rs rts r"
    and "parallel_probe n ht rk ls rs rts r \<Longrightarrow> \<exists>out. r = Ok out \<and> mset out = mset (concat rows)"
proof -
  note start = probe_start_inv [OF assms(2), of n]
  show "\<exists>r. parallel_probe n ht rk ls rs rts r"
    using pprobe.pool_reaches [OF assms(1) start] probed unfolding probe_start_def by blast
  show "\<exists>out. r = Ok out \<and> mset out = mset (concat rows)" if "parallel_probe n ht rk ls rs rts r"
    using that
  proof cases
    case (probed p s)
    have "probe_inv ht rk ls rs rts rows n {#} s"
      by (rule pprobe.pool_result [OF _ assms(1) start, where c = Joined and p = p]) (use probed in \<open>simp_all add: probe_start_def\<close>)
    then show ?thesis using probe_end [OF _ assms(1)] probed(1) by blast
  next
    case (probe_aborted p s)
    then show ?thesis using pprobe.pool_keeps [OF _ start, where c = Aborted and p = p and s' = s] by (simp add: probe_start_def)
  qed
qed

section \<open>Termination of the build phase\<close>

text \<open>The steps whose loads return the current head of the bucket and whose compare-exchange fails only
  when the head has changed.\<close>

definition current_head :: "build_pc \<Rightarrow> BuildShared \<Rightarrow> nat option" where
  "current_head l s = (case l of BuildClaim \<Rightarrow> None | Inserting i pc \<Rightarrow> buckets (build_table s) ! own_bucket pc (build_table s))"

definition build_task_fresh :: "Expr \<Rightarrow> Schema \<Rightarrow> Tuple list \<Rightarrow> (build_pc, BuildShared) task_rel" where
  "build_task_fresh lk sch lts l s r s' \<longleftrightarrow> build_task_step False (current_head l s) lk sch lts l s = (r, s')"

lemma build_fresh_task: "build_task_fresh lk sch lts l s r s' \<Longrightarrow> build_task lk sch lts l s r s'"
  by (auto simp: build_task_fresh_def build_task_def)

text \<open>A failed compare-exchange is paid for by the insertion that changed the head.\<close>

fun pc_rank :: "LockFreeHashTable \<Rightarrow> build_pc \<Rightarrow> nat" where
  "pc_rank t (Inserting i (Call k v)) = 4"
| "pc_rank t (Inserting i (Link a b h)) = (if buckets t ! b = h then 3 else 5)"
| "pc_rank t (Inserting i (Swing a b h)) = (if buckets t ! b = h then 2 else 4)"
| "pc_rank t _ = 1"

definition build_rank :: "nat \<Rightarrow> Tuple list \<Rightarrow> build_pc multiset \<Rightarrow> BuildShared \<Rightarrow> nat" where
  "build_rank n lts M s = (length lts - left_idx s + size (filter_mset (\<lambda>x. x \<noteq> BuildClaim) M)) * (2 * n + 1) +
     4 * (length lts - left_idx s) + sum_mset (image_mset (pc_rank (build_table s)) M)"

lemma pc_rank_cong: "buckets t' = buckets t \<Longrightarrow> pc_rank t' x = pc_rank t x"
  by (cases "(t, x)" rule: pc_rank.cases) simp_all

lemma pc_rank_any: "pc_rank t' x \<le> pc_rank t x + 2"
  by (cases "(t, x)" rule: pc_rank.cases) simp_all

lemma pc_ranks_any: "sum_mset (image_mset (pc_rank t') M) \<le> sum_mset (image_mset (pc_rank t) M) + 2 * size M"
proof (induction M)
  case (add x M)
  then show ?case using pc_rank_any [of t' x t] by simp
qed simp

lemma build_rank_less:
  assumes "buckets (build_table s') = buckets (build_table s)" and "left_idx s' = left_idx s"
    and "x \<noteq> BuildClaim" and "x' \<noteq> BuildClaim" and "pc_rank (build_table s) x' < pc_rank (build_table s) x"
  shows "build_rank n lts (add_mset x' M) s' < build_rank n lts (add_mset x M) s"
proof -
  have "pc_rank (build_table s') = pc_rank (build_table s)" using pc_rank_cong [OF assms(1)] by blast
  then show ?thesis using assms(2-5) by (simp add: build_rank_def)
qed

lemma build_rank_step:
  assumes "size M < n" and "build_task_step False (current_head x s) lk sch lts x s = (Continue x', s')" and "\<forall>i. x \<noteq> Inserting i Returned"
  shows "build_rank n lts (add_mset x' M) s' < build_rank n lts (add_mset x M) s"
proof (cases x)
  case BuildClaim
  then obtain k where e: "left_idx s < length lts" "x' = Inserting (left_idx s) (Call k (lts ! left_idx s))" "s' = s\<lparr>left_idx := Suc (left_idx s)\<rparr>"
    using assms(2) by (auto simp: Let_def split: if_splits outcome.splits)
  then obtain d where "length lts = Suc (left_idx s + d)" using less_iff_Suc_add by auto
  then show ?thesis using BuildClaim by (simp add: build_rank_def e(2,3) Suc_diff_le)
next
  case (Inserting j pc)
  show ?thesis
  proof (cases pc)
    case (Call k v)
    then have "x' = Inserting j (Link (next_addr (build_table s)) (Hash (build_table s) k) (buckets (build_table s) ! Hash (build_table s) k))"
        "buckets (build_table s') = buckets (build_table s)" "left_idx s' = left_idx s"
      using assms(2) Inserting by (auto simp: insert_step_def current_head_def own_bucket_def split: if_splits)
    then show ?thesis using Inserting Call by (intro build_rank_less) simp_all
  next
    case (Link a b h)
    then have "x' = Inserting j (Swing a b h)" "buckets (build_table s') = buckets (build_table s)" "left_idx s' = left_idx s"
      using assms(2) Inserting by (auto simp: insert_step_def)
    then show ?thesis using Inserting Link by (intro build_rank_less) simp_all
  next
    case (Swing a b h)
    show ?thesis
    proof (cases "buckets (build_table s) ! b = h")
      case True
      then have e: "x' = BuildClaim" "s' = s\<lparr>build_table := (build_table s)\<lparr>buckets := (buckets (build_table s))[b := Some a]\<rparr>\<rparr>"
        using assms(2) Inserting Swing by (auto simp: insert_step_def)
      show ?thesis
        using pc_ranks_any [of "build_table s'" M "build_table s"] assms(1) True Inserting Swing by (simp add: build_rank_def e algebra_simps)
    next
      case False
      then have "x' = Inserting j (Link a b (buckets (build_table s) ! b))" "s' = s"
        using assms(2) Inserting Swing by (auto simp: insert_step_def current_head_def own_bucket_def)
      then show ?thesis using Inserting Swing False by (intro build_rank_less) simp_all
    qed
  next
    case Returned
    then show ?thesis using assms(3) Inserting by simp
  next
    case Crashed
    then show ?thesis using assms(2) Inserting by (auto simp: insert_step_def)
  qed
qed

lemma build_not_returned:
  assumes "build_inv lk sch lts n (add_mset x M) s"
  shows "\<forall>i. x \<noteq> Inserting i Returned"
proof (intro allI notI)
  fix i assume "x = Inserting i Returned"
  then obtain pcs where "build_sim lk sch lts (add_mset (Inserting i Returned) M) s pcs" using assms by (auto simp: build_inv_def)
  then show False using build_sim_own(4) by blast
qed

interpretation pfresh: ending_client "build_task_fresh lk sch lts" "build_inv lk sch lts n" "build_rank n lts" for lk sch lts n
proof (unfold_locales, goal_cases)
  case (1 x s)
  show ?case unfolding build_task_fresh_def by (metis surj_pair)
next
  case (2 x M s x' s')
  then show ?case using build_fresh_task pbuild.keep by blast
next
  case (3 x M s s')
  then show ?case using build_fresh_task pbuild.leave by blast
next
  case (4 x M s s')
  then show ?case using build_fresh_task pbuild.survive by blast
next
  case (5 x M s x' s')
  then have "size M < n" by (simp add: build_inv_def)
  then show ?case using build_rank_step build_not_returned [OF 5(1)] 5(2) unfolding build_task_fresh_def by blast
next
  case (6 x M s s')
  then have "x = BuildClaim"
    by (cases x) (auto simp: build_task_fresh_def Let_def split: prod.splits insert_pc.splits)
  then show ?case using 6(2) by (auto simp: build_task_fresh_def build_rank_def Let_def split: if_splits outcome.splits)
qed

section \<open>The joined rows\<close>

lemma parallel_build_ok:
  assumes "0 < n" and "empty_table t" and "\<forall>t \<in> set lts. \<exists>v. EvalExpr lk t sch = Ok v"
  shows "\<exists>r. parallel_build n lk sch lts t r"
    and "parallel_build n lk sch lts t r \<Longrightarrow> \<exists>t'. r = Ok t' \<and> holds_rows t' (build_calls lk sch lts)"
    and "(tp_any (build_task lk sch lts))\<^sup>*\<^sup>* (build_start n t) x \<Longrightarrow> termip (tp_step (build_task_fresh lk sch lts)) x"
proof -
  note start = build_start_inv [OF assms(2,3), of n]
  obtain p s where "(tp_any (build_task_fresh lk sch lts))\<^sup>*\<^sup>* (build_start n t) (Joined, p, s)"
    using pfresh.pool_reaches [OF assms(1) start] unfolding build_start_def by blast
  then have "(tp_any (build_task lk sch lts))\<^sup>*\<^sup>* (build_start n t) (Joined, p, s)"
    by (rule tp_run_mono) (rule build_fresh_task)
  then show "\<exists>r. parallel_build n lk sch lts t r" using built by blast
  show "\<exists>t'. r = Ok t' \<and> holds_rows t' (build_calls lk sch lts)" if "parallel_build n lk sch lts t r"
    using that
  proof cases
    case (built p s)
    have "build_inv lk sch lts n {#} s"
      by (rule pbuild.pool_result [OF _ assms(1) start, where c = Joined and p = p]) (use built in \<open>simp_all add: build_start_def\<close>)
    then show ?thesis using build_end [OF _ assms(1)] built(1) by blast
  next
    case (build_aborted p s)
    then show ?thesis using pbuild.pool_keeps [OF _ start, where c = Aborted and p = p and s' = s] by (simp add: build_start_def)
  qed
  show "termip (tp_step (build_task_fresh lk sch lts)) x" if "(tp_any (build_task lk sch lts))\<^sup>*\<^sup>* (build_start n t) x"
  proof -
    obtain c p s where x: "x = (c, p, s)" by (cases x) auto
    have "build_inv lk sch lts n (mset (unsubmitted c) + mset (tasks p) + running p) s" "c \<noteq> Aborted"
      using pbuild.pool_keeps [OF _ start, where c = c and p = p and s' = s] that x by (simp_all add: build_start_def)
    then show ?thesis using tp_terminates [OF pfresh.bag_ends] x by simp
  qed
qed

text \<open>The rows of the join, as a nested loop that compares the integers of the keys.\<close>

definition int_join :: "Expr \<Rightarrow> Schema \<Rightarrow> Tuple list \<Rightarrow> Expr \<Rightarrow> Schema \<Rightarrow> Tuple list \<Rightarrow> Tuple list" where
  "int_join lk ls lts rk rs rts =
     concat (map (\<lambda>r. map (\<lambda>l. l @ r) (filter (\<lambda>l. int_val (val_of lk ls l) = int_val (val_of rk rs r)) lts)) rts)"

lemma join_matches_ok:
  "row_ok rs rt \<Longrightarrow> \<forall>l \<in> set ms. row_ok ls l \<Longrightarrow> unat (tuple_size ls) + unat (tuple_size rs) < 2 ^ 32 \<Longrightarrow>
   join_matches ms rt ls rs = Ok (map (\<lambda>l. l @ rt) ms)"
  by (induction ms) (simp_all add: Concat_ok)

lemma probe_yields_ok:
  assumes t: "holds_rows t (build_calls lk ls lts)" and R: "\<forall>r \<in> set rts. row_ok rs r \<and> (\<exists>v. EvalExpr rk r rs = Ok v)"
    and L: "\<forall>l \<in> set lts. row_ok ls l" and sz: "unat (tuple_size ls) + unat (tuple_size rs) < 2 ^ 32"
  shows "\<exists>rows. probe_yields t rk ls rs rts rows \<and> mset (concat rows) = mset (int_join lk ls lts rk rs rts)"
proof -
  let ?key = "\<lambda>r. int_val (val_of rk rs r)"
  define found where "found k = (case Lookup k t of Some (Ok out) \<Rightarrow> out | _ \<Rightarrow> [])" for k
  have calls: "image_mset snd (filter_mset (\<lambda>e. fst e = k) (mset (build_calls lk ls lts))) =
      mset (filter (\<lambda>l. int_val (val_of lk ls l) = k) lts)" for k
    by (induction lts) (simp_all add: build_calls_def)
  have f: "Lookup k t = Some (Ok (found k))" "mset (found k) = mset (filter (\<lambda>l. int_val (val_of lk ls l) = k) lts)" for k
    using holds_rows_lookup [OF t, of k] by (auto simp: found_def calls)
  have "set (found k) \<subseteq> set lts" for k using mset_eq_setD [OF f(2)] by auto
  then have m: "join_matches (found k) r ls rs = Ok (map (\<lambda>l. l @ r) (found k))" if "r \<in> set rts" for k r
    using join_matches_ok [where rs = rs and rt = r and ms = "found k" and ls = ls] R L sz that by blast
  let ?rows = "map (\<lambda>r. map (\<lambda>l. l @ r) (found (?key r))) rts"
  have "probe_yields t rk ls rs rts ?rows" using R f(1) m by (fastforce simp: probe_yields_def val_of_Ok)
  moreover have "mset (concat ?rows) = mset (int_join lk ls lts rk rs rts)"
    unfolding int_join_def by (induction rts) (simp_all add: f(2))
  ultimately show ?thesis by blast
qed

end
