(* ===== verification/Parallel_Sort.thy ===== *)
theory Parallel_Sort
  imports Thread_Pool Query_Results
begin

text \<open>
  \<open>src/src/executor/parallel_sort\<close>: the workers sort a slice of the rows each, and \<open>Next\<close> merges the
  sorted slices with a heap that holds the first row of each slice not yet delivered. Like
  \<open>std::sort\<close>, the heap functions of the standard library are arguments of the model: they get a
  comparison function, which may throw, and an array.
\<close>

section \<open>Definitions\<close>

text \<open>The pointer \<open>tuple\<close> is to the row \<open>index\<close> of the slice \<open>partition\<close>.\<close>

record HeapEntry =
  he_tuple :: Tuple
  he_partition :: nat
  he_index :: nat

type_synonym heap_fn = "(HeapEntry \<Rightarrow> HeapEntry \<Rightarrow> bool outcome) \<Rightarrow> HeapEntry list \<Rightarrow> HeapEntry list outcome"

record heap_lib =
  make_heap :: heap_fn
  pop_heap :: heap_fn
  push_heap :: heap_fn

record SortState =
  partitions :: "Tuple list list"
  merge_heap :: "HeapEntry list"
  heap_ready :: bool

definition heap_cmp :: "OrderByItem list \<Rightarrow> Schema \<Rightarrow> HeapEntry \<Rightarrow> HeapEntry \<Rightarrow> bool outcome" where
  "heap_cmp ob sch a b = order_less ob sch (he_tuple b) (he_tuple a)"

subsection \<open>Sorting the slices\<close>

text \<open>A worker writes only to its own slice. A start behind the end of the rows gives \<open>assign\<close> a range
  that is none; an exception of the comparison ends the program.\<close>

definition sort_task_step :: "sorter \<Rightarrow> OrderByItem list \<Rightarrow> Schema \<Rightarrow> Tuple list \<Rightarrow> nat \<Rightarrow> nat \<Rightarrow> Tuple list list \<Rightarrow>
    nat task_result \<times> Tuple list list" where
  "sort_task_step srt ob sch rows chunk i parts =
     (let begin_at = i * chunk; end_at = min (begin_at + chunk) (length rows)
      in if length rows < begin_at then (Terminate, parts)
         else (case sort_rows srt ob sch (take (end_at - begin_at) (drop begin_at rows)) of
                 Ok part \<Rightarrow> (Return, parts[i := part])
               | _ \<Rightarrow> (Terminate, parts)))"

definition sort_task :: "sorter \<Rightarrow> OrderByItem list \<Rightarrow> Schema \<Rightarrow> Tuple list \<Rightarrow> nat \<Rightarrow> (nat, Tuple list list) task_rel" where
  "sort_task srt ob sch rows chunk i parts r parts' \<longleftrightarrow> sort_task_step srt ob sch rows chunk i parts = (r, parts')"

definition sort_start :: "nat \<Rightarrow> nat caller \<times> nat ThreadPool \<times> Tuple list list" where
  "sort_start n = tp_start n [0..<n] (replicate n [])"

subsection \<open>Merging them\<close>

definition first_entries :: "Tuple list list \<Rightarrow> HeapEntry list" where
  "first_entries parts =
     map (\<lambda>i. \<lparr>he_tuple = parts ! i ! 0, he_partition = i, he_index = 0\<rparr>) (filter (\<lambda>i. parts ! i \<noteq> []) [0..<length parts])"

definition chunk_size :: "nat \<Rightarrow> nat \<Rightarrow> nat" where
  "chunk_size len n = (len + n - 1) div n"

text \<open>What \<open>Init\<close> does with the rows of its child. With no threads the chunk is divided by zero.\<close>

inductive parallel_sort :: "heap_lib \<Rightarrow> sorter \<Rightarrow> OrderByItem list \<Rightarrow> Schema \<Rightarrow> nat \<Rightarrow> Tuple list \<Rightarrow> SortState outcome \<Rightarrow> bool" where
  no_rows: "parallel_sort hp srt ob sch n_threads [] (Ok \<lparr>partitions = [], merge_heap = [], heap_ready = False\<rparr>)"
| no_threads: "rows \<noteq> [] \<Longrightarrow> parallel_sort hp srt ob sch 0 rows Fault"
| heaped: "rows \<noteq> [] \<Longrightarrow> n = min n_threads (length rows) \<Longrightarrow> 0 < n \<Longrightarrow>
    (tp_any (sort_task srt ob sch rows (chunk_size (length rows) n)))\<^sup>*\<^sup>* (sort_start n) (Joined, p, parts) \<Longrightarrow>
    parallel_sort hp srt ob sch n_threads rows
      (bind_out (make_heap hp (heap_cmp ob sch) (first_entries parts)) (\<lambda>h. Ok \<lparr>partitions = parts, merge_heap = h, heap_ready = True\<rparr>))"
| sort_aborted: "rows \<noteq> [] \<Longrightarrow> n = min n_threads (length rows) \<Longrightarrow> 0 < n \<Longrightarrow>
    (tp_any (sort_task srt ob sch rows (chunk_size (length rows) n)))\<^sup>*\<^sup>* (sort_start n) (Aborted, p, parts) \<Longrightarrow>
    parallel_sort hp srt ob sch n_threads rows Fault"

definition merge_next :: "heap_lib \<Rightarrow> OrderByItem list \<Rightarrow> Schema \<Rightarrow> SortState \<Rightarrow> (Tuple option, SortState) res" where
  "merge_next hp ob sch st =
     (if \<not> heap_ready st \<or> merge_heap st = [] then (Ok None, st)
      else (case pop_heap hp (heap_cmp ob sch) (merge_heap st) of
              Ok h \<Rightarrow>
                (let top = last h; h1 = butlast h; next_idx = Suc (he_index top); part = partitions st ! he_partition top
                 in if next_idx < length part
                    then (case push_heap hp (heap_cmp ob sch)
                                 (h1 @ [\<lparr>he_tuple = part ! next_idx, he_partition = he_partition top, he_index = next_idx\<rparr>]) of
                            Ok h2 \<Rightarrow> (Ok (Some (he_tuple top)), st\<lparr>merge_heap := h2\<rparr>)
                          | Throw e \<Rightarrow> (Throw e, st\<lparr>merge_heap := h1\<rparr>)
                          | Fault \<Rightarrow> (Fault, st\<lparr>merge_heap := h1\<rparr>))
                    else (Ok (Some (he_tuple top)), st\<lparr>merge_heap := h1\<rparr>))
            | Throw e \<Rightarrow> (Throw e, st)
            | Fault \<Rightarrow> (Fault, st)))"

section \<open>The laws of the heap functions\<close>

text \<open>The heap property of the standard: no element is above its parent in the order.\<close>

definition is_heap :: "('a \<Rightarrow> 'a \<Rightarrow> bool) \<Rightarrow> 'a list \<Rightarrow> bool" where
  "is_heap lt xs \<longleftrightarrow> (\<forall>i. 0 < i \<longrightarrow> i < length xs \<longrightarrow> \<not> lt (xs ! ((i - 1) div 2)) (xs ! i))"

text \<open>What the standard promises for a comparison that is a strict weak order on the elements.\<close>

definition std_heap :: "heap_lib \<Rightarrow> bool" where
  "std_heap hp \<longleftrightarrow> (\<forall>cmp lt xs. strict_weak (set xs) lt \<longrightarrow> (\<forall>a \<in> set xs. \<forall>b \<in> set xs. cmp a b = Ok (lt a b)) \<longrightarrow>
     (\<exists>ys. make_heap hp cmp xs = Ok ys \<and> mset ys = mset xs \<and> is_heap lt ys) \<and>
     (xs \<noteq> [] \<longrightarrow> is_heap lt xs \<longrightarrow> (\<exists>ys. pop_heap hp cmp xs = Ok (ys @ [hd xs]) \<and> mset ys = mset (tl xs) \<and> is_heap lt ys)) \<and>
     (xs \<noteq> [] \<longrightarrow> is_heap lt (butlast xs) \<longrightarrow> (\<exists>ys. push_heap hp cmp xs = Ok ys \<and> mset ys = mset xs \<and> is_heap lt ys)))"

lemma std_heapD:
  assumes "std_heap hp" and "strict_weak (set xs) lt" and "\<forall>a \<in> set xs. \<forall>b \<in> set xs. cmp a b = Ok (lt a b)"
  shows "\<exists>ys. make_heap hp cmp xs = Ok ys \<and> mset ys = mset xs \<and> is_heap lt ys"
    and "xs \<noteq> [] \<Longrightarrow> is_heap lt xs \<Longrightarrow> \<exists>ys. pop_heap hp cmp xs = Ok (ys @ [hd xs]) \<and> mset ys = mset (tl xs) \<and> is_heap lt ys"
    and "xs \<noteq> [] \<Longrightarrow> is_heap lt (butlast xs) \<Longrightarrow> \<exists>ys. push_heap hp cmp xs = Ok ys \<and> mset ys = mset xs \<and> is_heap lt ys"
  using assms unfolding std_heap_def by blast+

lemma is_heap_top:
  assumes "strict_weak (set xs) lt" and "is_heap lt xs" and "i < length xs"
  shows "\<not> lt (hd xs) (xs ! i)"
  using assms(3)
proof (induction i rule: less_induct)
  case (less i)
  have S: "\<not> lt a b \<Longrightarrow> \<not> lt b c \<Longrightarrow> \<not> lt a c" "\<not> lt a a" if "a \<in> set xs" "b \<in> set xs" "c \<in> set xs" for a b c
    using assms(1) that unfolding strict_weak_def by blast+
  have hd: "hd xs = xs ! 0" "hd xs \<in> set xs" using less.prems by (cases xs; simp)+
  show ?case
  proof (cases "i = 0")
    case True
    then show ?thesis using S(2) hd by simp
  next
    case False
    let ?p = "(i - 1) div 2"
    have p: "?p < i" using False by simp
    then have "\<not> lt (hd xs) (xs ! ?p)" "\<not> lt (xs ! ?p) (xs ! i)" using less assms(2) False by (auto simp: is_heap_def)
    then show ?thesis using S(1) [of "hd xs" "xs ! ?p" "xs ! i"] hd(2) p less.prems by simp
  qed
qed

section \<open>Merging\<close>

definition rest_of :: "Tuple list list \<Rightarrow> HeapEntry \<Rightarrow> Tuple list" where
  "rest_of parts e = drop (he_index e) (parts ! he_partition e)"

definition remaining :: "SortState \<Rightarrow> Tuple multiset" where
  "remaining st = sum_mset (image_mset (\<lambda>e. mset (rest_of (partitions st) e)) (mset (merge_heap st)))"

definition entry_ok :: "(Tuple \<Rightarrow> Tuple \<Rightarrow> bool) \<Rightarrow> Tuple list list \<Rightarrow> HeapEntry \<Rightarrow> bool" where
  "entry_ok lt parts e \<longleftrightarrow> he_partition e < length parts \<and> he_index e < length (parts ! he_partition e) \<and>
     he_tuple e = parts ! he_partition e ! he_index e \<and> sorted_wrt (\<lambda>a b. \<not> lt b a) (parts ! he_partition e)"

abbreviation above :: "(Tuple \<Rightarrow> Tuple \<Rightarrow> bool) \<Rightarrow> HeapEntry \<Rightarrow> HeapEntry \<Rightarrow> bool" where
  "above lt a b \<equiv> lt (he_tuple b) (he_tuple a)"

definition merge_inv :: "OrderByItem list \<Rightarrow> Schema \<Rightarrow> Tuple set \<Rightarrow> (Tuple \<Rightarrow> Tuple \<Rightarrow> bool) \<Rightarrow> SortState \<Rightarrow> bool" where
  "merge_inv ob sch S lt st \<longleftrightarrow> strict_weak S lt \<and> (\<forall>a \<in> S. \<forall>b \<in> S. order_less ob sch a b = Ok (lt a b)) \<and>
     (\<forall>part \<in> set (partitions st). set part \<subseteq> S) \<and> (\<forall>e \<in> set (merge_heap st). entry_ok lt (partitions st) e) \<and>
     is_heap (above lt) (merge_heap st) \<and> heap_ready st"

lemma strict_weak_above:
  "strict_weak S lt \<Longrightarrow> he_tuple ` E \<subseteq> S \<Longrightarrow> strict_weak E (above lt)"
  unfolding strict_weak_def by (simp add: image_subset_iff) blast

lemma entry_rest:
  assumes "entry_ok lt parts e"
  shows "rest_of parts e = he_tuple e # rest_of parts (e\<lparr>he_index := Suc (he_index e)\<rparr>)"
    and "he_tuple e \<in> set (parts ! he_partition e)" and "u \<in> set (rest_of parts (e\<lparr>he_index := Suc (he_index e)\<rparr>)) \<Longrightarrow> \<not> lt u (he_tuple e)"
proof -
  let ?p = "parts ! he_partition e"
  have e: "he_index e < length ?p" "he_tuple e = ?p ! he_index e" "sorted_wrt (\<lambda>a b. \<not> lt b a) ?p"
    using assms by (auto simp: entry_ok_def)
  show r: "rest_of parts e = he_tuple e # rest_of parts (e\<lparr>he_index := Suc (he_index e)\<rparr>)"
    using e(1,2) by (simp add: rest_of_def Cons_nth_drop_Suc)
  show "he_tuple e \<in> set ?p" using e(1,2) by simp
  have "sorted_wrt (\<lambda>a b. \<not> lt b a) (rest_of parts e)" using e(3) by (simp add: rest_of_def sorted_wrt_drop)
  then show "u \<in> set (rest_of parts (e\<lparr>he_index := Suc (he_index e)\<rparr>)) \<Longrightarrow> \<not> lt u (he_tuple e)" unfolding r by simp
qed

lemma merge_invD:
  assumes "merge_inv ob sch S lt st"
  shows "strict_weak S lt" "\<And>e. e \<in> set (merge_heap st) \<Longrightarrow> entry_ok lt (partitions st) e"
    "\<And>e. entry_ok lt (partitions st) e \<Longrightarrow> set (rest_of (partitions st) e) \<subseteq> S \<and> he_tuple e \<in> S"
    "is_heap (above lt) (merge_heap st)" "heap_ready st"
    "\<And>a b. he_tuple a \<in> S \<Longrightarrow> he_tuple b \<in> S \<Longrightarrow> heap_cmp ob sch a b = Ok (above lt a b)"
proof -
  fix e assume e: "entry_ok lt (partitions st) e"
  then have "partitions st ! he_partition e \<in> set (partitions st)" by (simp add: entry_ok_def)
  then have "set (partitions st ! he_partition e) \<subseteq> S" using assms by (simp add: merge_inv_def)
  then show "set (rest_of (partitions st) e) \<subseteq> S \<and> he_tuple e \<in> S"
    using entry_rest(2) [OF e] by (auto simp: rest_of_def dest: in_set_dropD)
qed (use assms in \<open>auto simp: merge_inv_def heap_cmp_def\<close>)

lemma merge_least:
  assumes "merge_inv ob sch S lt st" and "merge_heap st \<noteq> []" and "u \<in># remaining st"
  shows "\<not> lt u (he_tuple (hd (merge_heap st)))"
proof -
  note I = merge_invD [OF assms(1)]
  let ?H = "merge_heap st"
  have H: "he_tuple ` set ?H \<subseteq> S" using I(2,3) by blast
  obtain e where e: "e \<in> set ?H" "u \<in> set (rest_of (partitions st) e)" using assms(3) by (auto simp: remaining_def)
  have w: "u \<in> S" "he_tuple e \<in> S" "he_tuple (hd ?H) \<in> S" using I(2,3) e assms(2) by (auto dest: hd_in_set)
  have neg: "\<not> lt a c" if "\<not> lt a b" "\<not> lt b c" "a \<in> S" "b \<in> S" "c \<in> S" for a b c
    using I(1) that unfolding strict_weak_def by blast
  have "\<not> lt a a" if "a \<in> S" for a using I(1) that unfolding strict_weak_def by blast
  then have "\<not> lt u (he_tuple e)" using e entry_rest [OF I(2) [OF e(1)]] w(1) by auto
  moreover have "\<not> lt (he_tuple e) (he_tuple (hd ?H))"
    using is_heap_top [OF strict_weak_above [OF I(1) H] I(4)] e(1) by (auto simp: in_set_conv_nth)
  ultimately show ?thesis using neg w by blast
qed

lemma merge_next_ok:
  assumes hp: "std_heap hp" and inv: "merge_inv ob sch S lt st" and ne: "merge_heap st \<noteq> []"
  shows "\<exists>t st'. merge_next hp ob sch st = (Ok (Some t), st') \<and> merge_inv ob sch S lt st' \<and>
    remaining st = add_mset t (remaining st') \<and> (\<forall>u \<in># remaining st. \<not> lt u t)"
proof -
  note I = merge_invD [OF inv]
  let ?H = "merge_heap st" and ?ps = "partitions st" and ?cmp = "heap_cmp ob sch"
  let ?top = "hd ?H"
  let ?e = "\<lparr>he_tuple = ?ps ! he_partition ?top ! Suc (he_index ?top), he_partition = he_partition ?top, he_index = Suc (he_index ?top)\<rparr>"
  have H: "he_tuple ` set ?H \<subseteq> S" using I(2,3) by blast
  have "\<forall>a \<in> set ?H. \<forall>b \<in> set ?H. ?cmp a b = Ok (above lt a b)" using I(6) H by blast
  then obtain ys where ys: "pop_heap hp ?cmp ?H = Ok (ys @ [?top])" "mset ys = mset (tl ?H)" "is_heap (above lt) ys"
    using std_heapD(2) [OF hp strict_weak_above [OF I(1) H] _ ne I(4)] by blast
  have top: "entry_ok lt ?ps ?top" using I(2) ne by simp
  have set_ys: "set ys \<subseteq> set ?H" using mset_eq_setD [OF ys(2)] by (auto dest: list.set_sel(2) [OF ne])
  have rest: "rest_of ?ps (?top\<lparr>he_index := Suc (he_index ?top)\<rparr>) = rest_of ?ps ?e" by (simp add: rest_of_def)
  have rem: "remaining st = add_mset (he_tuple ?top) (mset (rest_of ?ps ?e) + sum_mset (image_mset (\<lambda>e. mset (rest_of ?ps e)) (mset ys)))"
    using entry_rest(1) [OF top, unfolded rest] ne by (cases ?H) (simp_all add: remaining_def ys(2))
  have least: "\<forall>u \<in># remaining st. \<not> lt u (he_tuple ?top)" using merge_least [OF inv ne] by blast
  show ?thesis
  proof (cases "Suc (he_index ?top) < length (?ps ! he_partition ?top)")
    case True
    have e: "entry_ok lt ?ps ?e" using top True by (simp add: entry_ok_def)
    let ?xs = "ys @ [?e]"
    have X: "he_tuple ` set ?xs \<subseteq> S" using H set_ys I(3) [OF e] by auto
    then have "\<forall>a \<in> set ?xs. \<forall>b \<in> set ?xs. ?cmp a b = Ok (above lt a b)" using I(6) by blast
    then obtain zs where zs: "push_heap hp ?cmp ?xs = Ok zs" "mset zs = mset ?xs" "is_heap (above lt) zs"
      using std_heapD(3) [OF hp strict_weak_above [OF I(1) X], of ?cmp] ys(3) by auto
    let ?st = "st\<lparr>merge_heap := zs\<rparr>"
    have "merge_next hp ob sch st = (Ok (Some (he_tuple ?top)), ?st)" using ys(1) zs(1) I(5) ne True by (simp add: merge_next_def Let_def)
    moreover have "merge_inv ob sch S lt ?st"
      using inv zs(3) mset_eq_setD [OF zs(2)] set_ys e by (auto simp: merge_inv_def)
    moreover have "remaining st = add_mset (he_tuple ?top) (remaining ?st)" by (simp add: rem) (simp add: remaining_def zs(2))
    ultimately show ?thesis using least by blast
  next
    case False
    let ?st = "st\<lparr>merge_heap := ys\<rparr>"
    have "merge_next hp ob sch st = (Ok (Some (he_tuple ?top)), ?st)" using ys(1) I(5) ne False by (simp add: merge_next_def Let_def)
    moreover have "merge_inv ob sch S lt ?st" using inv ys(3) set_ys by (auto simp: merge_inv_def)
    moreover have "remaining st = add_mset (he_tuple ?top) (remaining ?st)"
      using False by (simp add: rem) (simp add: remaining_def rest_of_def)
    ultimately show ?thesis using least by blast
  qed
qed

text \<open>The calls of \<open>Next\<close> return these rows and then none.\<close>

fun merges :: "heap_lib \<Rightarrow> OrderByItem list \<Rightarrow> Schema \<Rightarrow> SortState \<Rightarrow> Tuple list \<Rightarrow> bool" where
  "merges hp ob sch st [] \<longleftrightarrow> (\<exists>st'. merge_next hp ob sch st = (Ok None, st'))"
| "merges hp ob sch st (t # ts) \<longleftrightarrow> (\<exists>st'. merge_next hp ob sch st = (Ok (Some t), st') \<and> merges hp ob sch st' ts)"

lemma merges_sorted:
  assumes "std_heap hp" and "merge_inv ob sch S lt st"
  shows "\<exists>out. merges hp ob sch st out \<and> mset out = remaining st \<and> sorted_wrt (\<lambda>a b. \<not> lt b a) out"
  using assms(2)
proof (induction "size (remaining st)" arbitrary: st rule: less_induct)
  case less
  show ?case
  proof (cases "merge_heap st = []")
    case True
    then have "merges hp ob sch st []" "remaining st = {#}" by (simp_all add: merge_next_def remaining_def)
    then show ?thesis by (intro exI [of _ "[]"]) simp
  next
    case False
    then obtain t st' where t: "merge_next hp ob sch st = (Ok (Some t), st')" "merge_inv ob sch S lt st'"
        "remaining st = add_mset t (remaining st')" "\<forall>u \<in># remaining st. \<not> lt u t"
      using merge_next_ok [OF assms(1) less.prems] by blast
    then obtain out where out: "merges hp ob sch st' out" "mset out = remaining st'" "sorted_wrt (\<lambda>a b. \<not> lt b a) out"
      using less.hyps [of st'] by auto
    have "set out \<subseteq> set_mset (remaining st)" using out(2) t(3) by (metis set_mset_mset set_mset_add_mset_insert subset_insertI)
    then have "merges hp ob sch st (t # out) \<and> mset (t # out) = remaining st \<and> sorted_wrt (\<lambda>a b. \<not> lt b a) (t # out)"
      using t out by auto
    then show ?thesis by blast
  qed
qed

section \<open>Sorting the slices\<close>

abbreviation row_less :: "OrderByItem list \<Rightarrow> Schema \<Rightarrow> Tuple \<Rightarrow> Tuple \<Rightarrow> bool" where
  "row_less ob sch a b \<equiv> order_less ob sch a b = Ok True"

definition slice :: "Tuple list \<Rightarrow> nat \<Rightarrow> nat \<Rightarrow> Tuple list" where
  "slice rows chunk i = take chunk (drop (i * chunk) rows)"

definition slices_inv :: "sorter \<Rightarrow> OrderByItem list \<Rightarrow> Schema \<Rightarrow> Tuple list \<Rightarrow> nat \<Rightarrow> nat \<Rightarrow> nat multiset \<Rightarrow> Tuple list list \<Rightarrow> bool" where
  "slices_inv srt ob sch rows chunk n M parts \<longleftrightarrow> schema_ok sch \<and> (\<forall>t \<in> set rows. row_ok sch t) \<and>
     (\<forall>i \<in> set ob. \<exists>ct. expr_type (ob_expr i) sch = Ok ct) \<and> (\<forall>i < n. i * chunk \<le> length rows) \<and> length parts = n \<and>
     (\<forall>i. count M i \<le> 1) \<and> (\<forall>i \<in># M. i < n) \<and>
     (\<forall>i < n. i \<notin># M \<longrightarrow> parts ! i = srt (row_less ob sch) (slice rows chunk i))"

lemma sort_task_ok:
  assumes "slices_inv srt ob sch rows chunk n (add_mset i M) parts"
  shows "sort_task_step srt ob sch rows chunk i parts = (Return, parts[i := srt (row_less ob sch) (slice rows chunk i)])"
    and "slices_inv srt ob sch rows chunk n M (parts[i := srt (row_less ob sch) (slice rows chunk i)])"
proof -
  have cnt: "count (add_mset i M) j \<le> 1" for j using assms unfolding slices_inv_def by blast
  have i: "i < n" "i * chunk \<le> length rows" "length parts = n" "i \<notin># M"
    using assms cnt [of i] by (auto simp: slices_inv_def count_eq_zero_iff)
  have s: "take (min (i * chunk + chunk) (length rows) - i * chunk) (drop (i * chunk) rows) = slice rows chunk i"
    using i(2) by (auto simp: slice_def min_def)
  have "\<forall>t \<in> set (slice rows chunk i). row_ok sch t" using assms by (auto simp: slices_inv_def slice_def dest!: in_set_takeD in_set_dropD)
  then have "sort_rows srt ob sch (slice rows chunk i) = Ok (srt (row_less ob sch) (slice rows chunk i))"
    using sort_rows_typed [of sch "slice rows chunk i" ob srt] assms by (simp add: slices_inv_def)
  then show "sort_task_step srt ob sch rows chunk i parts = (Return, parts[i := srt (row_less ob sch) (slice rows chunk i)])"
    using i(2) s by (simp add: sort_task_step_def Let_def)
  have "count M j \<le> 1" for j using cnt [of j] by (simp split: if_splits)
  then show "slices_inv srt ob sch rows chunk n M (parts[i := srt (row_less ob sch) (slice rows chunk i)])"
    using assms i by (auto simp: slices_inv_def nth_list_update)
qed

interpretation pslices: ending_client "sort_task srt ob sch rows chunk" "slices_inv srt ob sch rows chunk n" "\<lambda>M parts. size M"
  for srt ob sch rows chunk n
proof (unfold_locales, goal_cases)
  case (1 i s)
  show ?case unfolding sort_task_def by (metis surj_pair)
qed (auto simp: sort_task_def sort_task_ok)

lemma chunks_cover: "0 < n \<Longrightarrow> len \<le> n * chunk_size len n"
proof -
  assume n: "0 < n"
  have "(len + n - 1) mod n < n" using n by simp
  moreover have "n * ((len + n - 1) div n) + (len + n - 1) mod n = len + n - 1" by simp
  ultimately show ?thesis unfolding chunk_size_def by linarith
qed

lemma slices_concat: "concat (map (slice rows c) [0..<n]) = take (n * c) rows"
proof (induction n)
  case (Suc n)
  have "take (Suc n * c) rows = take (n * c) rows @ take c (drop (n * c) rows)" by (metis add.commute mult_Suc take_add)
  then show ?case using Suc by (simp add: slice_def)
qed simp

lemma slices_end:
  assumes "slices_inv srt ob sch rows chunk n {#} parts" and "std_sort srt" and "length rows \<le> n * chunk"
  shows "mset (concat parts) = mset rows" and "\<forall>part \<in> set parts. sorted_wrt (\<lambda>a b. \<not> row_less ob sch b a) part"
proof -
  have p: "parts = map (\<lambda>i. srt (row_less ob sch) (slice rows chunk i)) [0..<n]"
    using assms(1) by (intro nth_equalityI) (auto simp: slices_inv_def)
  have "set (slice rows chunk i) \<subseteq> set rows" for i by (auto simp: slice_def dest: in_set_takeD in_set_dropD)
  then have "strict_weak (set (slice rows chunk i)) (row_less ob sch)" for i
    using order_less_weak [of sch "set (slice rows chunk i)" ob] assms(1) by (auto simp: slices_inv_def)
  then have s: "mset (srt (row_less ob sch) (slice rows chunk i)) = mset (slice rows chunk i)"
      "sorted_wrt (\<lambda>a b. \<not> row_less ob sch b a) (srt (row_less ob sch) (slice rows chunk i))" for i
    using assms(2) unfolding std_sort_def by blast+
  have "mset (concat parts) = mset (concat (map (slice rows chunk) [0..<n]))" unfolding p by (induction n) (simp_all add: s(1))
  then show "mset (concat parts) = mset rows" using assms(3) by (simp add: slices_concat)
  show "\<forall>part \<in> set parts. sorted_wrt (\<lambda>a b. \<not> row_less ob sch b a) part" unfolding p using s(2) by auto
qed

section \<open>Properties\<close>

lemma first_entries_ok:
  assumes "\<forall>part \<in> set parts. sorted_wrt (\<lambda>a b. \<not> lt b a) part" and "e \<in> set (first_entries parts)"
  shows "entry_ok lt parts e"
  using assms by (auto simp: first_entries_def entry_ok_def)

lemma first_entries_rest: "sum_mset (image_mset (\<lambda>e. mset (rest_of parts e)) (mset (first_entries parts))) = mset (concat parts)"
proof -
  have "sum_mset (image_mset (\<lambda>e. mset (rest_of parts e)) (mset (first_entries parts))) =
      sum_list (map (\<lambda>i. mset (parts ! i)) (filter (\<lambda>i. parts ! i \<noteq> []) [0..<length parts]))"
    by (simp add: first_entries_def rest_of_def comp_def sum_mset_sum_list [symmetric] flip: mset_map)
  also have "\<dots> = sum_list (map (\<lambda>i. mset (parts ! i)) [0..<length parts])"
    by (rule sum_list_map_filter) simp
  also have "\<dots> = sum_list (map mset (map ((!) parts) [0..<length parts]))" by (simp add: comp_def)
  also have "\<dots> = mset (concat parts)" by (simp add: map_nth mset_concat)
  finally show ?thesis .
qed

lemma heap_built:
  assumes hp: "std_heap hp" and sch: "schema_ok sch" "\<forall>t \<in> set rows. row_ok sch t" "\<forall>i \<in> set ob. \<exists>ct. expr_type (ob_expr i) sch = Ok ct"
    and parts: "mset (concat parts) = mset rows" "\<forall>part \<in> set parts. sorted_wrt (\<lambda>a b. \<not> row_less ob sch b a) part"
  shows "\<exists>h out. make_heap hp (heap_cmp ob sch) (first_entries parts) = Ok h \<and>
    merges hp ob sch \<lparr>partitions = parts, merge_heap = h, heap_ready = True\<rparr> out \<and> mset out = mset rows \<and> sorted_wrt (in_order ob sch) out"
proof -
  let ?lt = "row_less ob sch" and ?S = "set rows"
  have w: "strict_weak ?S ?lt" using order_less_weak [OF sch(1,2)] .
  have cmp: "order_less ob sch a b = Ok (?lt a b)" if "a \<in> ?S" "b \<in> ?S" for a b
    using order_less_in_order [OF sch(1) _ _ sch(3), of b a] sch(2) that by auto
  have S: "set (concat parts) = ?S" using parts(1) by (rule mset_eq_setD)
  have ent: "entry_ok ?lt parts e" "he_tuple e \<in> ?S" if "e \<in> set (first_entries parts)" for e
  proof -
    show "entry_ok ?lt parts e" using first_entries_ok [OF parts(2) that] .
    then have "he_tuple e \<in> set (parts ! he_partition e)" "he_partition e < length parts" using entry_rest(2) by (auto simp: entry_ok_def)
    then show "he_tuple e \<in> ?S" using S by fastforce
  qed
  have E: "he_tuple ` set (first_entries parts) \<subseteq> ?S" using ent(2) by blast
  have "\<forall>a \<in> set (first_entries parts). \<forall>b \<in> set (first_entries parts). heap_cmp ob sch a b = Ok (above ?lt a b)"
    using cmp ent(2) by (simp add: heap_cmp_def)
  then obtain h where h: "make_heap hp (heap_cmp ob sch) (first_entries parts) = Ok h" "mset h = mset (first_entries parts)" "is_heap (above ?lt) h"
    using std_heapD(1) [OF hp strict_weak_above [OF w E]] by blast
  let ?st = "\<lparr>partitions = parts, merge_heap = h, heap_ready = True\<rparr>"
  have "merge_inv ob sch ?S ?lt ?st"
    using w cmp S ent(1) h(3) mset_eq_setD [OF h(2)] by (auto simp: merge_inv_def)
  then obtain out where out: "merges hp ob sch ?st out" "mset out = remaining ?st" "sorted_wrt (\<lambda>a b. \<not> ?lt b a) out"
    using merges_sorted [OF hp] by blast
  have m: "mset out = mset rows" using out(2) first_entries_rest [of parts] parts(1) by (simp add: remaining_def h(2))
  then have "\<forall>t \<in> set out. row_ok sch t" using sch(2) mset_eq_setD by blast
  then have "sorted_wrt (in_order ob sch) out"
    using out(3) order_less_in_order [OF sch(1) _ _ sch(3)] by (auto elim!: sorted_wrt_mono_rel [rotated])
  then show ?thesis using h(1) out(1) m by blast
qed

lemma slices_start:
  assumes "schema_ok sch" and "\<forall>t \<in> set rows. row_ok sch t" and "\<forall>i \<in> set ob. \<exists>ct. expr_type (ob_expr i) sch = Ok ct"
    and "(n - 1) * chunk \<le> length rows"
  shows "slices_inv srt ob sch rows chunk n (mset [0..<n]) (replicate n [])"
proof -
  have "i * chunk \<le> length rows" if "i < n" for i
    using assms(4) mult_le_mono1 [of i "n - 1" chunk] that by linarith
  then show ?thesis using assms(1-3) by (auto simp: slices_inv_def count_mset_set')
qed

lemma parallel_sort_ok:
  assumes "std_heap hp" and "std_sort srt" and "schema_ok sch" and "\<forall>t \<in> set rows. row_ok sch t"
    and "\<forall>i \<in> set ob. \<exists>ct. expr_type (ob_expr i) sch = Ok ct" and "0 < n_threads" and "n = min n_threads (length rows)"
    and "(n - 1) * chunk_size (length rows) n \<le> length rows"
  shows "(\<exists>r. parallel_sort hp srt ob sch n_threads rows r) \<and>
    (\<forall>r. parallel_sort hp srt ob sch n_threads rows r \<longrightarrow>
      (\<exists>st out. r = Ok st \<and> merges hp ob sch st out \<and> mset out = mset rows \<and> sorted_wrt (in_order ob sch) out))"
proof (cases "rows = []")
  case True
  have "merges hp ob sch \<lparr>partitions = [], merge_heap = [], heap_ready = False\<rparr> []" by (simp add: merge_next_def)
  then show ?thesis using True by (fastforce intro: no_rows elim: parallel_sort.cases)
next
  case False
  then have n: "0 < n" using assms(6,7) by simp
  note start = slices_start [OF assms(3-5,8), of srt]
  have result: "\<exists>st out. bind_out (make_heap hp (heap_cmp ob sch) (first_entries parts))
      (\<lambda>h. Ok \<lparr>partitions = parts, merge_heap = h, heap_ready = True\<rparr>) = Ok st \<and>
      merges hp ob sch st out \<and> mset out = mset rows \<and> sorted_wrt (in_order ob sch) out"
    if "(tp_any (sort_task srt ob sch rows (chunk_size (length rows) n)))\<^sup>*\<^sup>* (sort_start n) (Joined, p, parts)" for p parts
  proof -
    have "slices_inv srt ob sch rows (chunk_size (length rows) n) n {#} parts"
      by (rule pslices.pool_result [OF _ n start, where c = Joined and p = p]) (use that in \<open>simp_all add: sort_start_def\<close>)
    note e = slices_end [OF this assms(2) chunks_cover [OF n]]
    show ?thesis using heap_built [OF assms(1,3-5) e] by force
  qed
  have "\<not> (tp_any (sort_task srt ob sch rows (chunk_size (length rows) n)))\<^sup>*\<^sup>* (sort_start n) (Aborted, p, parts)" for p parts
    using pslices.pool_keeps [OF _ start, where c = Aborted and p = p and s' = parts] by (auto simp: sort_start_def)
  moreover have "\<exists>p parts. (tp_any (sort_task srt ob sch rows (chunk_size (length rows) n)))\<^sup>*\<^sup>* (sort_start n) (Joined, p, parts)"
    using pslices.pool_reaches [OF n start] by (simp add: sort_start_def)
  ultimately show ?thesis
    using False n assms(6,7) result heaped [OF False assms(7) n] by (blast elim: parallel_sort.cases)
qed

text \<open>(C21) A parallel sort returns its rows in order: for every number of threads and every interleaving
  of the workers \<open>Init\<close> comes to an end, and the calls of \<open>Next\<close> return a permutation of the rows in
  the order that the \<open>ORDER BY\<close> list asks for, if \<open>std::sort\<close> and the heap functions keep the promises
  of the standard and no slice starts behind the end of the rows.\<close>

theorem parallel_sort_sorted:
  assumes "std_heap hp" and "std_sort srt" and "schema_ok sch" and "\<forall>t \<in> set rows. row_ok sch t"
    and "\<forall>i \<in> set ob. \<exists>ct. expr_type (ob_expr i) sch = Ok ct" and "0 < n_threads" and "n = min n_threads (length rows)"
    and "(n - 1) * chunk_size (length rows) n \<le> length rows"
  shows "(\<exists>r. parallel_sort hp srt ob sch n_threads rows r) \<and>
    (\<forall>r. parallel_sort hp srt ob sch n_threads rows r \<longrightarrow>
      (\<exists>st out. r = Ok st \<and> merges hp ob sch st out \<and> mset out = mset rows \<and> sorted_wrt (in_order ob sch) out))"
  using parallel_sort_ok [OF assms] .

text \<open>Heap functions that keep the array in descending order.\<close>

definition sorted_heap :: heap_lib where
  "sorted_heap =
     (let sort_down = (\<lambda>cmp. insertion_sort (\<lambda>a b. cmp b a = Ok True))
      in \<lparr>make_heap = (\<lambda>cmp xs. Ok (sort_down cmp xs)), pop_heap = (\<lambda>cmp xs. Ok (sort_down cmp (tl xs) @ [hd xs])),
          push_heap = (\<lambda>cmp xs. Ok (sort_down cmp xs))\<rparr>)"

lemma sort_down_heap:
  assumes "strict_weak (set xs) lt" and "\<forall>a \<in> set xs. \<forall>b \<in> set xs. cmp a b = Ok (lt a b)"
  shows "mset (insertion_sort (\<lambda>a b. cmp b a = Ok True) xs) = mset xs" and "is_heap lt (insertion_sort (\<lambda>a b. cmp b a = Ok True) xs)"
proof -
  let ?ys = "insertion_sort (\<lambda>a b. cmp b a = Ok True) xs"
  have "strict_weak (set xs) (\<lambda>a b. lt b a)" using assms(1) unfolding strict_weak_def by blast
  then have "strict_weak (set xs) (\<lambda>a b. cmp b a = Ok True)" by (rule strict_weak_cong [rotated]) (use assms(2) in simp)
  then have s: "mset ?ys = mset xs" "sorted_wrt (\<lambda>a b. cmp a b \<noteq> Ok True) ?ys" using insertion_sort_sorts by auto
  show "mset ?ys = mset xs" by (rule s(1))
  have "\<not> lt (?ys ! i) (?ys ! j)" if "i < j" "j < length ?ys" for i j
  proof -
    have "?ys ! i \<in> set xs" "?ys ! j \<in> set xs" using that mset_eq_setD [OF s(1)] nth_mem [of i ?ys] nth_mem [of j ?ys] by auto
    then show ?thesis using sorted_wrt_nth_less [OF s(2) that] assms(2) by auto
  qed
  then show "is_heap lt ?ys" by (auto simp: is_heap_def)
qed

lemma sorted_heap_std: "std_heap sorted_heap"
  unfolding std_heap_def
proof (intro allI impI conjI)
  fix cmp lt and xs :: "HeapEntry list"
  assume w: "strict_weak (set xs) lt" and c: "\<forall>a \<in> set xs. \<forall>b \<in> set xs. cmp a b = Ok (lt a b)"
  show "\<exists>ys. make_heap sorted_heap cmp xs = Ok ys \<and> mset ys = mset xs \<and> is_heap lt ys"
    using sort_down_heap [OF w c] by (simp add: sorted_heap_def)
  show "\<exists>ys. push_heap sorted_heap cmp xs = Ok ys \<and> mset ys = mset xs \<and> is_heap lt ys"
    using sort_down_heap [OF w c] by (simp add: sorted_heap_def)
  assume "xs \<noteq> []"
  then have t: "set (tl xs) \<subseteq> set xs" by (auto dest: list.set_sel(2))
  then have "strict_weak (set (tl xs)) lt" using w unfolding strict_weak_def by blast
  moreover have "\<forall>a \<in> set (tl xs). \<forall>b \<in> set (tl xs). cmp a b = Ok (lt a b)" using c t by blast
  ultimately show "\<exists>ys. pop_heap sorted_heap cmp xs = Ok (ys @ [hd xs]) \<and> mset ys = mset (tl xs) \<and> is_heap lt ys"
    using sort_down_heap [of "tl xs" lt cmp] by (simp add: sorted_heap_def)
qed

theorem parallel_sort_sorted_witness:
  "\<exists>st out. parallel_sort sorted_heap insertion_sort [\<lparr>ob_expr = COLUMN_REF '''' ''a'', ob_ascending = True\<rparr>] int_row 2
      [[2, 0, 0, 0], [1, 0, 0, 0]] (Ok st) \<and>
    merges sorted_heap [\<lparr>ob_expr = COLUMN_REF '''' ''a'', ob_ascending = True\<rparr>] int_row st out \<and> mset out = {#[2, 0, 0, 0], [1, 0, 0, 0]#}"
proof -
  let ?ob = "[\<lparr>ob_expr = COLUMN_REF '''' ''a'', ob_ascending = True\<rparr>]" and ?rows = "[[2, 0, 0, 0], [1, 0, 0, 0]] :: Tuple list"
  have "expr_type (COLUMN_REF '''' ''a'') int_row = Ok ColumnType_Int" by code_simp
  then have t: "\<forall>i \<in> set ?ob. \<exists>ct. expr_type (ob_expr i) int_row = Ok ct" by simp
  have "\<forall>t \<in> set ?rows. row_ok int_row t" by (simp add: int_row_simps)
  from parallel_sort_sorted [OF sorted_heap_std insertion_sort_std int_row_ok this t, of 2 2]
  have "(\<exists>r. parallel_sort sorted_heap insertion_sort ?ob int_row 2 ?rows r) \<and>
    (\<forall>r. parallel_sort sorted_heap insertion_sort ?ob int_row 2 ?rows r \<longrightarrow>
      (\<exists>st out. r = Ok st \<and> merges sorted_heap ?ob int_row st out \<and> mset out = mset ?rows \<and> sorted_wrt (in_order ?ob int_row) out))"
    by (simp add: chunk_size_def)
  then obtain r st out where "parallel_sort sorted_heap insertion_sort ?ob int_row 2 ?rows r" "r = Ok st" "merges sorted_heap ?ob int_row st out"
      "mset out = mset ?rows"
    by blast
  then show ?thesis by auto
qed

lemma last_slice_stays:
  assumes "length rows < k * chunk" and "(bag_step (sort_task srt ob sch rows chunk))\<^sup>*\<^sup>* (Live M s) x" and "k \<in># M"
  shows "x = Dead \<or> (\<exists>M s. x = Live M s \<and> k \<in># M)"
  using assms(2)
proof (induction rule: rtranclp_induct)
  case (step y z)
  then obtain M s where "y = Live M s" "k \<in># M" by (auto elim: bag_deadE)
  then show ?case using step(2) assms(1)
    by (auto elim!: bag_stepE simp: sort_task_def sort_task_step_def Let_def split: outcome.splits if_splits)
qed (use assms(3) in blast)

lemma sort_bag_ends: "termip (bag_step (sort_task srt ob sch rows chunk)) (Live M s)"
proof (induction "size M" arbitrary: M s rule: less_induct)
  case less
  have dead: "termip (bag_step (sort_task srt ob sch rows chunk)) Dead" by (rule accp.accI) (auto elim: bag_deadE)
  show ?case
  proof (rule accp.accI)
    fix y assume "(bag_step (sort_task srt ob sch rows chunk))\<inverse>\<inverse> y (Live M s)"
    then have "bag_step (sort_task srt ob sch rows chunk) (Live M s) y" by simp
    then have "y = Dead \<or> (\<exists>M' s'. y = Live M' s' \<and> size M' < size M)"
      by (rule bag_stepE) (auto simp: sort_task_def sort_task_step_def Let_def split: outcome.splits if_splits)
    then show "termip (bag_step (sort_task srt ob sch rows chunk)) y" using dead less.hyps by blast
  qed
qed

text \<open>(C36) When the last slice starts behind the end of the rows, as with five rows on four threads, no
  parallel sort succeeds: every run ends the program.\<close>

theorem parallel_sort_crash:
  assumes "rows \<noteq> []" and "n = min n_threads (length rows)" and "length rows < (n - 1) * chunk_size (length rows) n"
  shows "parallel_sort hp srt ob sch n_threads rows r \<longleftrightarrow> r = Fault"
proof -
  let ?T = "sort_task srt ob sch rows (chunk_size (length rows) n)"
  have n: "0 < n" "n - 1 \<in># mset [0..<n]" using assms(3) by (cases n; simp)+
  have total: "\<exists>r s'. ?T l s r s'" for l s unfolding sort_task_def by (metis surj_pair)
  have joined: "\<not> (tp_any ?T)\<^sup>*\<^sup>* (sort_start n) (Joined, p, parts)" for p parts
  proof
    assume run: "(tp_any ?T)\<^sup>*\<^sup>* (sort_start n) (Joined, p, parts)"
    have "(bag_step ?T)\<^sup>*\<^sup>* (Live (mset [0..<n]) (replicate n [])) (Live {#} parts)"
      using tp_run_bag [OF run] tp_waited [OF run [unfolded sort_start_def] n(1)] by (simp add: tp_start_bag sort_start_def)
    then show False using last_slice_stays [OF assms(3) _ n(2)] by fastforce
  qed
  obtain p parts where "(tp_any ?T)\<^sup>*\<^sup>* (sort_start n) (Aborted, p, parts)"
    using tp_finishes [OF n(1) total sort_bag_ends, of "[0..<n]" "replicate n []"] joined unfolding sort_start_def by blast
  then have "parallel_sort hp srt ob sch n_threads rows Fault" by (rule sort_aborted [OF assms(1,2) n(1)])
  moreover have "r = Fault" if "parallel_sort hp srt ob sch n_threads rows r"
    using that
  proof cases
    case (heaped k p parts)
    then show ?thesis using joined assms(2) by simp
  qed (use assms(1) in simp_all)
  ultimately show ?thesis by blast
qed

theorem parallel_sort_crash_witness:
  "parallel_sort sorted_heap insertion_sort [] int_row 4 [[1, 0, 0, 0], [2, 0, 0, 0], [3, 0, 0, 0], [4, 0, 0, 0], [5, 0, 0, 0]] Fault"
  using parallel_sort_crash [of "[[1, 0, 0, 0], [2, 0, 0, 0], [3, 0, 0, 0], [4, 0, 0, 0], [5, 0, 0, 0]]" 4 4] by (simp add: chunk_size_def)

end
