(* ===== verification/Parallel_Operators.thy ===== *)
theory Parallel_Operators
  imports Parallel_Scan Parallel_Join Parallel_Sort
begin

text \<open>
  The parallel operators as operators: trees of parallel scans, joins and sorts over serial operators,
  with \<open>Init\<close>, \<open>Next\<close>, \<open>Close\<close> and \<open>GetOutputSchema\<close>. What \<open>Init\<close> leaves depends on the interleaving of the
  workers, so it is a relation between the state before and the possible outcomes.
\<close>

section \<open>Definitions\<close>

datatype POperator =
    Serial Operator
  | ParallelSeqScan HeapFile Schema nat "Tuple list" nat
  | ParallelHashJoin POperator POperator Expr Expr nat Schema LockFreeHashTable "Tuple list" nat
  | ParallelSort POperator "OrderByItem list" nat SortState

definition mk_ParallelSeqScan :: "TableInfo \<Rightarrow> string \<Rightarrow> nat \<Rightarrow> POperator" where
  "mk_ParallelSeqScan info alias n_threads =
     ParallelSeqScan (heap_file info) (MakeOutputSchema (ti_schema info) alias) n_threads [] 0"

fun p_GetOutputSchema :: "POperator \<Rightarrow> Schema" where
  "p_GetOutputSchema (Serial op) = GetOutputSchema op"
| "p_GetOutputSchema (ParallelSeqScan h sch n buf cur) = sch"
| "p_GetOutputSchema (ParallelHashJoin l r lk rk n sch t buf cur) = sch"
| "p_GetOutputSchema (ParallelSort child ob n st) = p_GetOutputSchema child"

definition mk_ParallelHashJoin :: "POperator \<Rightarrow> POperator \<Rightarrow> Expr \<Rightarrow> Expr \<Rightarrow> nat \<Rightarrow> nat \<Rightarrow> POperator" where
  "mk_ParallelHashJoin l r lk rk n_threads bucket_cnt =
     ParallelHashJoin l r lk rk n_threads (ConcatSchemas (p_GetOutputSchema l) (p_GetOutputSchema r)) (mk_LockFreeHashTable bucket_cnt) [] 0"

definition mk_ParallelSort :: "POperator \<Rightarrow> OrderByItem list \<Rightarrow> nat \<Rightarrow> POperator" where
  "mk_ParallelSort child ob n_threads = ParallelSort child ob n_threads \<lparr>partitions = [], merge_heap = [], heap_ready = False\<rparr>"

text \<open>\<open>Close\<close> of a join clears the hash table, which ends for the tables a join builds.\<close>

fun p_Close :: "POperator \<Rightarrow> POperator outcome option" where
  "p_Close (Serial op) = Some (Ok (Serial (Close op)))"
| "p_Close (ParallelSeqScan h sch n buf cur) = Some (Ok (ParallelSeqScan h sch n [] cur))"
| "p_Close (ParallelHashJoin l r lk rk n sch t buf cur) =
     map_option (\<lambda>x. bind_out x (\<lambda>t'. Ok (ParallelHashJoin l r lk rk n sch t' [] cur))) (Clear t)"
| "p_Close (ParallelSort child ob n st) = Some (Ok (ParallelSort child ob n (st\<lparr>partitions := [], merge_heap := []\<rparr>)))"

definition p_Next :: "heap_lib \<Rightarrow> POperator \<Rightarrow> (Tuple option, POperator) res option" where
  "p_Next hp op = (case op of
      Serial sop \<Rightarrow> map_option (\<lambda>(r, sop'). (r, Serial sop')) (Next sop)
    | ParallelSeqScan h sch n buf cur \<Rightarrow> Some (case buffer_next buf cur of (r, cur') \<Rightarrow> (Ok r, ParallelSeqScan h sch n buf cur'))
    | ParallelHashJoin l r lk rk n sch t buf cur \<Rightarrow>
        Some (case buffer_next buf cur of (x, cur') \<Rightarrow> (Ok x, ParallelHashJoin l r lk rk n sch t buf cur'))
    | ParallelSort child ob n st \<Rightarrow>
        Some (case merge_next hp ob (p_GetOutputSchema child) st of (r, st') \<Rightarrow> (r, ParallelSort child ob n st')))"

text \<open>\<open>while (child->Next(&t)) rows.push_back(t)\<close>\<close>

partial_function (option) p_drain :: "heap_lib \<Rightarrow> Tuple list \<Rightarrow> POperator \<Rightarrow> (Tuple list, POperator) res option" where
  "p_drain hp rows op = Option.bind (p_Next hp op) (\<lambda>x. case x of
      (Ok None, op') \<Rightarrow> Some (Ok rows, op')
    | (Ok (Some t), op') \<Rightarrow> p_drain hp (rows @ [t]) op'
    | (Throw e, op') \<Rightarrow> Some (Throw e, op')
    | (Fault, op') \<Rightarrow> Some (Fault, op'))"

subsection \<open>Init\<close>

text \<open>Possible outcomes, with the pool they leave.\<close>

type_synonym 'a runs = "'a outcome \<Rightarrow> BufferPoolManager \<Rightarrow> bool"

definition run_bind :: "'a runs \<Rightarrow> ('a \<Rightarrow> BufferPoolManager \<Rightarrow> 'b runs) \<Rightarrow> 'b runs" where
  "run_bind m f r b' \<longleftrightarrow> (\<exists>a b1. m (Ok a) b1 \<and> f a b1 r b') \<or> (\<exists>e. m (Throw e) b' \<and> r = Throw e) \<or> (m Fault b' \<and> r = Fault)"

definition run_of :: "('a outcome \<Rightarrow> bool) \<Rightarrow> BufferPoolManager \<Rightarrow> 'a runs" where
  "run_of P b r b' \<longleftrightarrow> P r \<and> b' = b"

text \<open>The rows of a child that is ready, and the child closed.\<close>

definition load_rows :: "heap_lib \<Rightarrow> POperator \<Rightarrow> BufferPoolManager \<Rightarrow> (Tuple list \<times> POperator) runs" where
  "load_rows hp op b =
     run_bind (run_of (\<lambda>x. \<exists>r op'. p_drain hp [] op = Some (r, op') \<and> x = bind_out r (\<lambda>rows. Ok (rows, op'))) b) (\<lambda>(rows, op') b1.
     run_bind (run_of (\<lambda>x. p_Close op' = Some x) b1) (\<lambda>op'' b2. run_of (\<lambda>x. x = Ok (rows, op'')) b2))"

fun p_Init :: "heap_lib \<Rightarrow> sorter \<Rightarrow> POperator \<Rightarrow> BufferPoolManager \<Rightarrow> POperator runs" where
  "p_Init hp srt (Serial op) b = (\<lambda>r b'. \<exists>x. Init srt op b = Some (x, b') \<and> r = bind_out x (\<lambda>op'. Ok (Serial op')))"
| "p_Init hp srt (ParallelSeqScan h sch n buf cur) b =
     run_bind (parallel_scan h n b) (\<lambda>rows b1. run_of (\<lambda>x. x = Ok (ParallelSeqScan h sch n rows 0)) b1)"
| "p_Init hp srt (ParallelHashJoin l r lk rk n sch t buf cur) b =
     run_bind (run_of (\<lambda>x. Clear t = Some x) b) (\<lambda>t0 b0.
     run_bind (p_Init hp srt l b0) (\<lambda>l1 b1.
     run_bind (load_rows hp l1 b1) (\<lambda>(lts, l2) b2.
     run_bind (run_of (parallel_build n lk (p_GetOutputSchema l2) lts t0) b2) (\<lambda>t1 b3.
     run_bind (p_Init hp srt r b3) (\<lambda>r1 b4.
     run_bind (load_rows hp r1 b4) (\<lambda>(rts, r2) b5.
     run_bind (run_of (parallel_probe n t1 rk (p_GetOutputSchema l2) (p_GetOutputSchema r2) rts) b5) (\<lambda>rows b6.
       run_of (\<lambda>x. x = Ok (ParallelHashJoin l2 r2 lk rk n sch t1 rows 0)) b6)))))))"
| "p_Init hp srt (ParallelSort child ob n st) b =
     run_bind (p_Init hp srt child b) (\<lambda>c1 b1.
     run_bind (load_rows hp c1 b1) (\<lambda>(rows, c2) b2.
     run_bind (run_of (parallel_sort hp srt ob (p_GetOutputSchema c2) n rows) b2) (\<lambda>st' b3.
       run_of (\<lambda>x. x = Ok (ParallelSort c2 ob n st')) b3)))"

section \<open>Outcomes that are certain\<close>

text \<open>There is an outcome, and every outcome is a value with the property.\<close>

definition surely :: "'a runs \<Rightarrow> ('a \<Rightarrow> BufferPoolManager \<Rightarrow> bool) \<Rightarrow> bool" where
  "surely m P \<longleftrightarrow> (\<exists>r b. m r b) \<and> (\<forall>r b. m r b \<longrightarrow> (\<exists>a. r = Ok a \<and> P a b))"

lemma surely_bind:
  assumes "surely m P" and "\<And>a b. P a b \<Longrightarrow> surely (f a b) Q"
  shows "surely (run_bind m f) Q"
proof -
  obtain r b where "m r b" using assms(1) by (auto simp: surely_def)
  then obtain a where a: "m (Ok a) b" "P a b" using assms(1) unfolding surely_def by blast
  then obtain r' b' where "f a b r' b'" using assms(2) [OF a(2)] unfolding surely_def by blast
  then have "\<exists>r b. run_bind m f r b" using a(1) unfolding run_bind_def by blast
  moreover have "\<exists>c. r = Ok c \<and> Q c b" if run: "run_bind m f r b" for r b
  proof -
    have ok: "\<exists>a. x = Ok a \<and> P a y" if "m x y" for x y using assms(1) that unfolding surely_def by blast
    obtain a b1 where "m (Ok a) b1" "f a b1 r b" using run ok unfolding run_bind_def by blast
    then show ?thesis using ok [of "Ok a" b1] assms(2) [of a b1] unfolding surely_def by blast
  qed
  ultimately show ?thesis unfolding surely_def by blast
qed

lemma surely_run_of:
  "\<exists>r. P r \<Longrightarrow> (\<And>r. P r \<Longrightarrow> \<exists>a. r = Ok a \<and> Q a b) \<Longrightarrow> surely (run_of P b) Q"
  by (auto simp: surely_def run_of_def)

lemma surely_value: "Q a b \<Longrightarrow> surely (run_of (\<lambda>x. x = Ok a) b) Q"
  by (rule surely_run_of) simp_all

section \<open>Delivering rows\<close>

text \<open>The calls of \<open>Next\<close> return these rows and then none.\<close>

fun p_delivers :: "heap_lib \<Rightarrow> POperator \<Rightarrow> Tuple list \<Rightarrow> bool" where
  "p_delivers hp op [] \<longleftrightarrow> (\<exists>op'. p_Next hp op = Some (Ok None, op') \<and> p_GetOutputSchema op' = p_GetOutputSchema op)"
| "p_delivers hp op (t # ts) \<longleftrightarrow>
     (\<exists>op'. p_Next hp op = Some (Ok (Some t), op') \<and> p_GetOutputSchema op' = p_GetOutputSchema op \<and> p_delivers hp op' ts)"

lemma p_delivers_serial: "delivers op rows (Ok ()) \<Longrightarrow> p_delivers hp (Serial op) rows"
proof (induction rows arbitrary: op)
  case Nil
  then show ?case by (auto simp: p_Next_def)
next
  case (Cons t ts)
  then obtain op' where "Next op = Some (Ok (Some t), op')" "GetOutputSchema op' = GetOutputSchema op" "delivers op' ts (Ok ())" by auto
  then show ?case using Cons.IH by (auto simp: p_Next_def)
qed

lemma p_delivers_scan: "p_delivers hp (ParallelSeqScan h sch n buf cur) (drop cur buf)"
proof (induction "length buf - cur" arbitrary: cur)
  case (Suc d)
  then have "cur < length buf" "p_delivers hp (ParallelSeqScan h sch n buf (Suc cur)) (drop (Suc cur) buf)" by auto
  then show ?case by (simp add: Cons_nth_drop_Suc [symmetric] p_Next_def buffer_next_def)
qed (simp add: p_Next_def buffer_next_def)

lemma p_delivers_join: "p_delivers hp (ParallelHashJoin l r lk rk n sch t buf cur) (drop cur buf)"
proof (induction "length buf - cur" arbitrary: cur)
  case (Suc d)
  then have "cur < length buf" "p_delivers hp (ParallelHashJoin l r lk rk n sch t buf (Suc cur)) (drop (Suc cur) buf)" by auto
  then show ?case by (simp add: Cons_nth_drop_Suc [symmetric] p_Next_def buffer_next_def)
qed (simp add: p_Next_def buffer_next_def)

lemma p_delivers_sort:
  "merges hp ob (p_GetOutputSchema child) st out \<Longrightarrow> p_delivers hp (ParallelSort child ob n st) out"
proof (induction out arbitrary: st)
  case Nil
  then show ?case by (auto simp: p_Next_def)
next
  case (Cons t out)
  then obtain st' where "merge_next hp ob (p_GetOutputSchema child) st = (Ok (Some t), st')" "merges hp ob (p_GetOutputSchema child) st' out"
    by auto
  then show ?case using Cons.IH by (auto simp: p_Next_def)
qed

fun p_closable :: "POperator \<Rightarrow> bool" where
  "p_closable (ParallelHashJoin l r lk rk n sch t buf cur) \<longleftrightarrow> (\<exists>t'. Clear t = Some (Ok t'))"
| "p_closable _ \<longleftrightarrow> True"

lemma p_Next_closable: "p_Next hp op = Some (r, op') \<Longrightarrow> p_closable op' = p_closable op"
  by (cases op) (auto simp: p_Next_def split: prod.splits)

lemma p_Close_ok: "p_closable op \<Longrightarrow> \<exists>op'. p_Close op = Some (Ok op') \<and> p_GetOutputSchema op' = p_GetOutputSchema op"
  by (cases op) auto

lemma p_drain_delivers:
  "p_delivers hp op rows \<Longrightarrow>
   \<exists>op'. p_drain hp acc op = Some (Ok (acc @ rows), op') \<and> p_GetOutputSchema op' = p_GetOutputSchema op \<and> p_closable op' = p_closable op"
proof (induction rows arbitrary: op acc)
  case Nil
  then show ?case by (auto simp: p_drain.simps [of hp acc op] p_Next_closable)
next
  case (Cons t ts)
  then obtain op1 where n: "p_Next hp op = Some (Ok (Some t), op1)" "p_GetOutputSchema op1 = p_GetOutputSchema op" "p_delivers hp op1 ts" by auto
  then show ?case using Cons.IH [of op1 "acc @ [t]"] p_Next_closable [OF n(1)] by (auto simp: p_drain.simps [of hp acc op])
qed

lemma load_rows_ok:
  assumes "p_delivers hp op rows" and "p_closable op"
  shows "surely (load_rows hp op b) (\<lambda>(rows', op') b'. rows' = rows \<and> p_GetOutputSchema op' = p_GetOutputSchema op \<and> b' = b)"
proof -
  obtain op1 where op1: "p_drain hp [] op = Some (Ok rows, op1)" "p_GetOutputSchema op1 = p_GetOutputSchema op" "p_closable op1"
    using p_drain_delivers [OF assms(1), of "[]"] assms(2) by auto
  obtain op2 where op2: "p_Close op1 = Some (Ok op2)" "p_GetOutputSchema op2 = p_GetOutputSchema op"
    using p_Close_ok [OF op1(3)] op1(2) by auto
  show ?thesis
    unfolding load_rows_def
    by (rule surely_bind [where P = "\<lambda>x b'. x = (rows, op1) \<and> b' = b"], rule surely_run_of)
      (auto simp: op1 op2 intro!: surely_bind [where P = "\<lambda>x b'. x = op2 \<and> b' = b"] surely_run_of)
qed

section \<open>The rows of a tree\<close>

text \<open>The joined pairs of two bags of rows.\<close>

definition bag_join :: "Expr \<Rightarrow> Schema \<Rightarrow> Tuple multiset \<Rightarrow> Expr \<Rightarrow> Schema \<Rightarrow> Tuple multiset \<Rightarrow> Tuple multiset" where
  "bag_join lk ls L rk rs R =
     sum_mset (image_mset (\<lambda>r. image_mset (\<lambda>l. l @ r) (filter_mset (\<lambda>l. int_val (val_of lk ls l) = int_val (val_of rk rs r)) L)) R)"

lemma int_join_bag: "mset (int_join lk ls lts rk rs rts) = bag_join lk ls (mset lts) rk rs (mset rts)"
  by (induction rts) (simp_all add: int_join_def bag_join_def)

fun p_bag :: "sorter \<Rightarrow> (HeapFile \<Rightarrow> Tuple list) \<Rightarrow> POperator \<Rightarrow> Tuple multiset" where
  "p_bag srt tab (Serial op) = (case stream_of srt tab op of Ok (rows, fin) \<Rightarrow> mset rows | _ \<Rightarrow> {#})"
| "p_bag srt tab (ParallelSeqScan h sch n buf cur) = mset (tab h)"
| "p_bag srt tab (ParallelHashJoin l r lk rk n sch t buf cur) =
     bag_join lk (p_GetOutputSchema l) (p_bag srt tab l) rk (p_GetOutputSchema r) (p_bag srt tab r)"
| "p_bag srt tab (ParallelSort child ob n st) = p_bag srt tab child"

definition typed :: "Expr \<Rightarrow> Schema \<Rightarrow> bool" where
  "typed e sch \<longleftrightarrow> (\<exists>ct. expr_type e sch = Ok ct)"

definition clearable :: "LockFreeHashTable \<Rightarrow> bool" where
  "clearable t \<longleftrightarrow> (\<exists>t'. Clear t = Some (Ok t') \<and> empty_table t')"

definition slices_fit :: "nat \<Rightarrow> nat \<Rightarrow> bool" where
  "slices_fit n len \<longleftrightarrow> (min n len - 1) * chunk_size len (min n len) \<le> len"

text \<open>A tree that fits together, over the pages \<open>m\<close> and a pool with a frame for each worker of a scan.\<close>

fun p_ok :: "sorter \<Rightarrow> (HeapFile \<Rightarrow> Tuple list) \<Rightarrow> (page_id_t \<Rightarrow> byte list option) \<Rightarrow> nat \<Rightarrow> POperator \<Rightarrow> bool" where
  "p_ok srt tab m k (Serial op) \<longleftrightarrow> op_ok tab op \<and> fresh op \<and> (\<forall>h \<in> tables_of op. table_rows m h (tab h)) \<and>
     (\<exists>rows. stream_of srt tab op = Ok (rows, Ok ()))"
| "p_ok srt tab m k (ParallelSeqScan h sch n buf cur) \<longleftrightarrow>
     schema_ok sch \<and> (\<forall>t \<in> set (tab h). row_ok sch t) \<and> table_rows m h (tab h) \<and> 0 < n \<and> n \<le> k"
| "p_ok srt tab m k (ParallelHashJoin l r lk rk n sch t buf cur) \<longleftrightarrow>
     p_ok srt tab m k l \<and> p_ok srt tab m k r \<and> schema_ok sch \<and> sch = ConcatSchemas (p_GetOutputSchema l) (p_GetOutputSchema r) \<and>
     typed lk (p_GetOutputSchema l) \<and> typed rk (p_GetOutputSchema r) \<and> 0 < n \<and> clearable t"
| "p_ok srt tab m k (ParallelSort child ob n st) \<longleftrightarrow>
     p_ok srt tab m k child \<and> (\<forall>i \<in> set ob. typed (ob_expr i) (p_GetOutputSchema child)) \<and> 0 < n \<and>
     slices_fit n (size (p_bag srt tab child))"

text \<open>The order of the rows, where the tree asks for one.\<close>

fun p_ordered :: "POperator \<Rightarrow> Tuple list \<Rightarrow> bool" where
  "p_ordered (ParallelSort child ob n st) rows \<longleftrightarrow> sorted_wrt (in_order ob (p_GetOutputSchema child)) rows"
| "p_ordered _ rows \<longleftrightarrow> True"

lemma p_ok_schema: "p_ok srt tab m k op \<Longrightarrow> schema_ok (p_GetOutputSchema op)"
  by (induction op) (auto intro: op_ok_schema)

lemma p_bag_typed: "std_sort srt \<Longrightarrow> p_ok srt tab m k op \<Longrightarrow> t \<in># p_bag srt tab op \<Longrightarrow> row_ok (p_GetOutputSchema op) t"
proof (induction op arbitrary: t)
  case (Serial op)
  then show ?case using stream_rows [of srt tab op] by fastforce
next
  case (ParallelHashJoin l r lk rk n sch ht buf cur)
  let ?ls = "p_GetOutputSchema l" and ?rs = "p_GetOutputSchema r"
  obtain x y where "t = x @ y" "x \<in># p_bag srt tab l" "y \<in># p_bag srt tab r" using ParallelHashJoin.prems(3) by (auto simp: bag_join_def)
  moreover have "unat (tuple_size sch) = unat (tuple_size ?ls) + unat (tuple_size ?rs)"
    using ParallelHashJoin.prems(2) ConcatSchemas_size(1) [of ?ls ?rs] p_ok_schema [of srt tab m k l] p_ok_schema [of srt tab m k r] by auto
  ultimately show ?case using ParallelHashJoin by simp
qed auto

section \<open>Init of a tree\<close>

text \<open>What \<open>Init\<close> should leave: the pool as it was, and an operator that delivers the rows of the tree.\<close>

definition p_ready :: "heap_lib \<Rightarrow> sorter \<Rightarrow> (HeapFile \<Rightarrow> Tuple list) \<Rightarrow> (page_id_t \<Rightarrow> byte list option) \<Rightarrow> nat \<Rightarrow> nat \<Rightarrow>
    POperator \<Rightarrow> POperator \<Rightarrow> BufferPoolManager \<Rightarrow> bool" where
  "p_ready hp srt tab m k l op op' b \<longleftrightarrow> bpm_idle b m k l \<and> p_closable op' \<and> p_GetOutputSchema op' = p_GetOutputSchema op \<and>
     (\<exists>rows. p_delivers hp op' rows \<and> mset rows = p_bag srt tab op \<and> p_ordered op rows)"

lemma p_Init_serial:
  assumes "bpm_idle b m k l" and "0 < k" and "p_ok srt tab m k (Serial op)"
  shows "surely (p_Init hp srt (Serial op) b) (p_ready hp srt tab m k l (Serial op))"
proof -
  obtain rows where rows: "stream_of srt tab op = Ok (rows, Ok ())" using assms(3) by auto
  then obtain op' b' where i: "Init srt op b = Some (Ok op', b')" "bpm_idle b' m k l" "GetOutputSchema op' = GetOutputSchema op"
      "delivers op' rows (Ok ())"
    using Init_agrees [OF assms(1,2), of op tab srt] assms(3) by (auto simp: init_agrees_def)
  then have "p_ready hp srt tab m k l (Serial op) (Serial op') b'"
    using p_delivers_serial [OF i(4), of hp] rows by (auto simp: p_ready_def)
  then show ?thesis using i(1) by (simp add: surely_def)
qed

lemma p_Init_scan:
  assumes "bpm_idle b m k l" and "p_ok srt tab m k (ParallelSeqScan h sch n buf cur)"
  shows "surely (p_Init hp srt (ParallelSeqScan h sch n buf cur) b) (p_ready hp srt tab m k l (ParallelSeqScan h sch n buf cur))"
proof -
  obtain ps where ps: "heap_inv m h ps" "tab h = map snd (heap_rows m (row_width h) ps)" using assms(2) by (auto simp: table_rows_def)
  have n: "0 < n" "min n (length ps) \<le> k" using assms(2) by auto
  note scan = parallel_scan_ok(1,2) [OF assms(1) ps(1) n]
  have "surely (parallel_scan h n b) (\<lambda>rows b'. mset rows = mset (tab h) \<and> bpm_idle b' m k l)"
    unfolding surely_def using scan(1) scan(2) by (auto simp: ps(2))
  then show ?thesis
    unfolding p_Init.simps
  proof (rule surely_bind, elim conjE)
    fix rows b' assume "mset rows = mset (tab h)" "bpm_idle b' m k l"
    then show "surely (run_of (\<lambda>x. x = Ok (ParallelSeqScan h sch n rows 0)) b') (p_ready hp srt tab m k l (ParallelSeqScan h sch n buf cur))"
      using p_delivers_scan [of hp h sch n rows 0] by (intro surely_value) (auto simp: p_ready_def)
  qed
qed

lemma surely_load:
  assumes "surely (p_Init hp srt op b) (p_ready hp srt tab m k l op)"
    and "\<And>rows op' b'. bpm_idle b' m k l \<Longrightarrow> p_GetOutputSchema op' = p_GetOutputSchema op \<Longrightarrow> mset rows = p_bag srt tab op \<Longrightarrow>
      surely (f rows op' b') Q"
  shows "surely (run_bind (p_Init hp srt op b) (\<lambda>op1 b1. run_bind (load_rows hp op1 b1) (\<lambda>(rows, op2) b2. f rows op2 b2))) Q"
  using assms(1)
proof (rule surely_bind)
  fix op1 b1 assume "p_ready hp srt tab m k l op op1 b1"
  then obtain rows where R: "bpm_idle b1 m k l" "p_closable op1" "p_GetOutputSchema op1 = p_GetOutputSchema op"
      "p_delivers hp op1 rows" "mset rows = p_bag srt tab op"
    by (auto simp: p_ready_def)
  show "surely (run_bind (load_rows hp op1 b1) (\<lambda>(rows, op2) b2. f rows op2 b2)) Q"
    by (rule surely_bind [OF load_rows_ok [OF R(4,2)]]) (use R(1,3,5) assms(2) in auto)
qed

lemma p_Init_sort:
  assumes child: "\<And>b. bpm_idle b m k l \<Longrightarrow> surely (p_Init hp srt child b) (p_ready hp srt tab m k l child)"
    and hyps: "bpm_idle b m k l" "std_heap hp" "std_sort srt" and ok: "p_ok srt tab m k (ParallelSort child ob n st)"
  shows "surely (p_Init hp srt (ParallelSort child ob n st) b) (p_ready hp srt tab m k l (ParallelSort child ob n st))"
  unfolding p_Init.simps
proof (rule surely_load [OF child [OF hyps(1)]])
  fix rows c2 b2
  assume b2: "bpm_idle b2 m k l" and sch: "p_GetOutputSchema c2 = p_GetOutputSchema child" and rows: "mset rows = p_bag srt tab child"
  let ?sch = "p_GetOutputSchema child"
  have typed: "schema_ok ?sch" "\<forall>t \<in> set rows. row_ok ?sch t" "\<forall>i \<in> set ob. \<exists>ct. expr_type (ob_expr i) ?sch = Ok ct"
    using ok p_ok_schema [of srt tab m k child] p_bag_typed [OF hyps(3), of tab m k child] by (auto simp: typed_def simp flip: rows)
  have n: "0 < n" "(min n (length rows) - 1) * chunk_size (length rows) (min n (length rows)) \<le> length rows"
    using ok by (auto simp: slices_fit_def simp flip: rows)
  note sorts = parallel_sort_ok [OF hyps(2,3) typed n(1) refl n(2)]
  show "surely (run_bind (run_of (parallel_sort hp srt ob (p_GetOutputSchema c2) n rows) b2)
      (\<lambda>st' b3. run_of (\<lambda>x. x = Ok (ParallelSort c2 ob n st')) b3)) (p_ready hp srt tab m k l (ParallelSort child ob n st))"
  proof (rule surely_bind [where P = "\<lambda>st b. bpm_idle b m k l \<and> (\<exists>out. merges hp ob ?sch st out \<and> mset out = mset rows \<and>
      sorted_wrt (in_order ob ?sch) out)"])
    show "surely (run_of (parallel_sort hp srt ob (p_GetOutputSchema c2) n rows) b2) (\<lambda>st b. bpm_idle b m k l \<and>
        (\<exists>out. merges hp ob ?sch st out \<and> mset out = mset rows \<and> sorted_wrt (in_order ob ?sch) out))"
      unfolding sch by (rule surely_run_of) (use sorts b2 in blast)+
  next
    fix st' b3
    assume "bpm_idle b3 m k l \<and> (\<exists>out. merges hp ob ?sch st' out \<and> mset out = mset rows \<and> sorted_wrt (in_order ob ?sch) out)"
    then have "p_ready hp srt tab m k l (ParallelSort child ob n st) (ParallelSort c2 ob n st') b3"
      using p_delivers_sort [of hp ob c2 st' _ n] rows sch by (auto simp: p_ready_def)
    then show "surely (run_of (\<lambda>x. x = Ok (ParallelSort c2 ob n st')) b3) (p_ready hp srt tab m k l (ParallelSort child ob n st))"
      by (rule surely_value)
  qed
qed

lemma holds_rows_clearable: "holds_rows t calls \<Longrightarrow> \<exists>t'. Clear t = Some (Ok t')"
  using Clear_inv [of calls "replicate (length calls) Returned" t] by (auto simp: holds_rows_def)

lemma new_table_clearable: "0 < bc \<Longrightarrow> clearable (mk_LockFreeHashTable bc)"
  using Clear_inv [of "[]" "[]" "mk_LockFreeHashTable bc"] empty_table_inv [of "mk_LockFreeHashTable bc" "[]"]
  by (auto simp: clearable_def empty_table_def mk_LockFreeHashTable_def)

lemma surely_build:
  assumes "clearable t" and "0 < n" and "\<forall>x \<in> set lts. \<exists>v. EvalExpr lk x sch = Ok v" and "Clear t = Some (Ok t0)"
  shows "surely (run_of (parallel_build n lk sch lts t0) b) (\<lambda>t1 b1. holds_rows t1 (build_calls lk sch lts) \<and> b1 = b)"
proof -
  have "empty_table t0" using assms(1,4) by (auto simp: clearable_def)
  from parallel_build_ok(1,2) [OF assms(2) this assms(3)] show ?thesis by (intro surely_run_of) auto
qed

lemma surely_probe:
  assumes "0 < n" and "holds_rows t1 (build_calls lk ls lts)" and "\<forall>r \<in> set rts. row_ok rs r \<and> (\<exists>v. EvalExpr rk r rs = Ok v)"
    and "\<forall>l \<in> set lts. row_ok ls l" and "unat (tuple_size ls) + unat (tuple_size rs) < 2 ^ 32"
  shows "surely (run_of (parallel_probe n t1 rk ls rs rts) b)
    (\<lambda>rows b1. mset rows = bag_join lk ls (mset lts) rk rs (mset rts) \<and> b1 = b)"
proof -
  obtain rows where rows: "probe_yields t1 rk ls rs rts rows" "mset (concat rows) = mset (int_join lk ls lts rk rs rts)"
    using probe_yields_ok [OF assms(2-5)] by blast
  from parallel_probe_ok [OF assms(1) rows(1)] rows(2) show ?thesis by (intro surely_run_of) (auto simp: int_join_bag)
qed

lemma typed_evaluates: "typed e sch \<Longrightarrow> schema_ok sch \<Longrightarrow> row_ok sch t \<Longrightarrow> \<exists>v. EvalExpr e t sch = Ok v"
  unfolding typed_def using EvalExpr_Ok by blast

lemma p_Init_join:
  assumes left: "\<And>b. bpm_idle b m k l \<Longrightarrow> surely (p_Init hp srt lop b) (p_ready hp srt tab m k l lop)"
    and right: "\<And>b. bpm_idle b m k l \<Longrightarrow> surely (p_Init hp srt rop b) (p_ready hp srt tab m k l rop)"
    and b: "bpm_idle b m k l" and srt: "std_sort srt" and ok: "p_ok srt tab m k (ParallelHashJoin lop rop lk rk n sch t buf cur)"
  shows "surely (p_Init hp srt (ParallelHashJoin lop rop lk rk n sch t buf cur) b)
    (p_ready hp srt tab m k l (ParallelHashJoin lop rop lk rk n sch t buf cur))"
proof -
  let ?ls = "p_GetOutputSchema lop" and ?rs = "p_GetOutputSchema rop"
  have S: "schema_ok ?ls" "schema_ok ?rs" "schema_ok (ConcatSchemas ?ls ?rs)" "0 < n" "clearable t" "typed lk ?ls" "typed rk ?rs"
    using ok p_ok_schema [of srt tab m k lop] p_ok_schema [of srt tab m k rop] by auto
  obtain t0 where t0: "Clear t = Some (Ok t0)" using S(5) by (auto simp: clearable_def)
  have L: "\<forall>x \<in> set lts. row_ok ?ls x" if "mset lts = p_bag srt tab lop" for lts
    using p_bag_typed [OF srt, of tab m k lop] ok by (auto simp flip: that)
  have R: "\<forall>x \<in> set rts. row_ok ?rs x" if "mset rts = p_bag srt tab rop" for rts
    using p_bag_typed [OF srt, of tab m k rop] ok by (auto simp flip: that)
  have ready: "surely (run_of (\<lambda>x. x = Ok (ParallelHashJoin l2 r2 lk rk n sch t1 rows 0)) b6)
      (p_ready hp srt tab m k l (ParallelHashJoin lop rop lk rk n sch t buf cur))"
    if "bpm_idle b6 m k l" "holds_rows t1 calls" "mset rows = bag_join lk ?ls (p_bag srt tab lop) rk ?rs (p_bag srt tab rop)" for l2 r2 t1 rows b6 calls
    using that holds_rows_clearable p_delivers_join [of hp l2 r2 lk rk n sch t1 rows 0] by (intro surely_value) (auto simp: p_ready_def)
  show ?thesis
    unfolding p_Init.simps
  proof (rule surely_bind [where P = "\<lambda>x b'. x = t0 \<and> b' = b"], goal_cases)
    case 1
    show ?case by (rule surely_run_of) (simp_all add: t0)
  next
    case (2 t0' b0)
    then have b0: "t0' = t0" "bpm_idle b0 m k l" using b by auto
    show ?case
    proof (rule surely_load [OF left [OF b0(2)]], goal_cases)
      case l: (1 lts l2 b2)
      have "\<forall>x \<in> set lts. \<exists>v. EvalExpr lk x ?ls = Ok v" using L [OF l(3)] typed_evaluates [OF S(6,1)] by blast
      note build = surely_build [OF S(5,4) this t0]
      show ?case
      proof (unfold l(2) b0(1), rule surely_bind [OF build], goal_cases)
        case t1: (1 t1 b3)
        then have b3: "bpm_idle b3 m k l" using l(1) by simp
        show ?case
        proof (rule surely_load [OF right [OF b3]], goal_cases)
          case r: (1 rts r2 b5)
          have "\<forall>x \<in> set rts. row_ok ?rs x \<and> (\<exists>v. EvalExpr rk x ?rs = Ok v)" using R [OF r(3)] typed_evaluates [OF S(7,2)] by blast
          from surely_probe [OF S(4) _ this L [OF l(3)] ConcatSchemas_size(2) [OF S(1-3)], of t1 lk b5] t1
          have "surely (run_of (parallel_probe n t1 rk ?ls ?rs rts) b5)
              (\<lambda>rows b1. mset rows = bag_join lk ?ls (mset lts) rk ?rs (mset rts) \<and> b1 = b5)" by blast
          then show ?case
            by (unfold r(2), elim surely_bind) (use ready r(1,3) l(3) t1 in auto)
        qed
      qed
    qed
  qed
qed

lemma p_Init_ok:
  assumes "bpm_idle b m k l" and "0 < k" and "std_heap hp" and "std_sort srt" and "p_ok srt tab m k op"
  shows "surely (p_Init hp srt op b) (p_ready hp srt tab m k l op)"
  using assms(1,5)
proof (induction op arbitrary: b)
  case (Serial op)
  then show ?case by (intro p_Init_serial assms(2))
next
  case (ParallelSeqScan h sch n buf cur)
  then show ?case by (rule p_Init_scan)
next
  case (ParallelHashJoin lop rop lk rk n sch t buf cur)
  then show ?case by (intro p_Init_join assms(4)) auto
next
  case (ParallelSort child ob n st)
  then show ?case by (intro p_Init_sort assms(3,4)) auto
qed

section \<open>Keys\<close>

lemma varchar_int_val:
  assumes "EvalExpr e t sch = Ok v" and "v_type v = T_VARCHAR"
  shows "int_val v = mk32 0"
proof (cases e)
  case (COLUMN_REF tab c)
  then obtain i where "GetValue t sch i = Ok v" using assms(1) by (auto simp: bind_out_eq_Ok)
  then show ?thesis
    using assms(2) by (auto simp: GetValue_def DeserializeFrom_def MakeInt_def MakeVarchar_def bind_out_eq_Ok Let_def split: if_splits outcome.splits)
qed (use assms in \<open>auto simp: MakeInt_def MakeVarchar_def\<close>)

lemma val_of_typed:
  assumes "schema_ok sch" and "row_ok sch t" and "expr_type e sch = Ok ct"
  shows "v_type (val_of e sch t) = type_id ct" and "type_id ct = T_VARCHAR \<Longrightarrow> int_val (val_of e sch t) = mk32 0"
  using EvalExpr_Ok [OF assms] varchar_int_val [of e t sch] by (auto simp: has_type_def val_of_Ok)

lemma bag_join_strings:
  assumes "\<forall>l \<in># L. int_val (val_of lk ls l) = c" and "\<forall>r \<in># R. int_val (val_of rk rs r) = c"
  shows "bag_join lk ls L rk rs R = sum_mset (image_mset (\<lambda>r. image_mset (\<lambda>l. l @ r) L) R)"
proof -
  have "filter_mset (\<lambda>l. int_val (val_of lk ls l) = int_val (val_of rk rs r)) L = L" if "r \<in># R" for r
    using assms that by (simp add: filter_mset_eq_conv)
  then show ?thesis unfolding bag_join_def by (intro arg_cong [where f = sum_mset] image_mset_cong) simp
qed

text \<open>On integer keys the matching pairs are those of the serial join.\<close>

lemma int_join_serial:
  assumes "schema_ok ls" and "\<forall>u \<in> set lts. row_ok ls u" and "expr_type lk ls = Ok ct" and "type_id ct = T_INT"
  shows "int_join lk ls lts rk rs rts =
    concat (map (\<lambda>t. map (\<lambda>u. u @ t) (filter (\<lambda>u. key_match (val_of lk ls u) (val_of rk rs t)) lts)) rts)"
proof -
  have "key_match (val_of lk ls u) w \<longleftrightarrow> int_val (val_of lk ls u) = int_val w" if "u \<in> set lts" for u w
    using val_of_typed(1) [OF assms(1) _ assms(3), of u] that assms(2,4) by (simp add: key_match_def)
  then show ?thesis by (simp add: int_join_def cong: filter_cong)
qed

text \<open>A join of a small table with itself.\<close>

abbreviation small_rows :: "Tuple list" where "small_rows \<equiv> [[2, 0, 0, 0], [1, 0, 0, 0]]"

abbreviation small_join :: "HeapFile \<Rightarrow> Expr \<Rightarrow> Expr \<Rightarrow> POperator" where
  "small_join h lk rk \<equiv> mk_ParallelHashJoin (ParallelSeqScan h int_row 1 [] 0) (ParallelSeqScan h int_row 1 [] 0) lk rk 2 8"

lemma small_join_ok:
  assumes "table_rows m h small_rows" and "0 < k" and "typed lk int_row" and "typed rk int_row"
  shows "p_ok srt (\<lambda>h. small_rows) m k (small_join h lk rk)"
    and "p_bag srt (\<lambda>h. small_rows) (small_join h lk rk) = mset (int_join lk int_row small_rows rk int_row small_rows)"
proof -
  have "schema_ok (ConcatSchemas int_row int_row)" by (simp add: ConcatSchemas_def schema_ok_mk col_int int_row_def)
  then show "p_ok srt (\<lambda>h. small_rows) m k (small_join h lk rk)"
    using assms by (simp add: mk_ParallelHashJoin_def new_table_clearable int_row_ok int_row_simps)
  show "p_bag srt (\<lambda>h. small_rows) (small_join h lk rk) = mset (int_join lk int_row small_rows rk int_row small_rows)"
    unfolding int_join_bag by (simp add: mk_ParallelHashJoin_def)
qed

lemma mset_two: "mset xs = {#x, y#} \<Longrightarrow> xs = [x, y] \<or> xs = [y, x]"
  by (cases xs rule: remdups_adj.cases) (auto simp: add_eq_conv_ex)

section \<open>Properties\<close>

text \<open>(C11) A tree of parallel scans, joins and sorts gives the right rows: for every interleaving of the
  workers of all its operators \<open>Init\<close> succeeds and leaves the buffer pool as it was, and the calls of
  \<open>Next\<close> return, each once, the rows of the tables, the pairs with equal keys for a join, and for a sort
  the rows in the order asked for.\<close>

theorem parallel_operators_rows:
  assumes "bpm_idle b m k l" and "0 < k" and "std_heap hp" and "std_sort srt" and "p_ok srt tab m k op"
  shows "(\<exists>r b'. p_Init hp srt op b r b') \<and>
    (\<forall>r b'. p_Init hp srt op b r b' \<longrightarrow> bpm_idle b' m k l \<and>
      (\<exists>op' rows. r = Ok op' \<and> p_delivers hp op' rows \<and> mset rows = p_bag srt tab op \<and> p_ordered op rows))"
  using p_Init_ok [OF assms] unfolding surely_def p_ready_def by blast

theorem parallel_operators_rows_witness:
  "\<exists>h b op' b'. p_Init sorted_heap insertion_sort (mk_ParallelSort (small_join h (COLUMN_REF '''' ''a'') (COLUMN_REF '''' ''a''))
      [\<lparr>ob_expr = COLUMN_REF '''' ''a'', ob_ascending = True\<rparr>] 2) b (Ok op') b' \<and>
    p_delivers sorted_heap op' [[1, 0, 0, 0, 1, 0, 0, 0], [2, 0, 0, 0, 2, 0, 0, 0]]"
proof -
  obtain h b m k l where h: "bpm_idle b m k l" "0 < k" "table_rows m h small_rows" using small_table by blast
  let ?e = "COLUMN_REF '''' ''a''" and ?tab = "\<lambda>h :: HeapFile. small_rows"
  let ?j = "small_join h ?e ?e" and ?ob = "[\<lparr>ob_expr = ?e, ob_ascending = True\<rparr>]" and ?sch = "ConcatSchemas int_row int_row"
  let ?x = "[1, 0, 0, 0, 1, 0, 0, 0] :: Tuple" and ?y = "[2, 0, 0, 0, 2, 0, 0, 0] :: Tuple"
  have "expr_type ?e int_row = Ok ColumnType_Int" "expr_type ?e ?sch = Ok ColumnType_Int" by code_simp+
  then have ty: "typed ?e int_row" "typed ?e ?sch" by (auto simp: typed_def)
  have "int_join ?e int_row small_rows ?e int_row small_rows = [?y, ?x]" by code_simp
  then have bag: "p_bag insertion_sort ?tab ?j = {#?x, ?y#}" using small_join_ok(2) [OF h(3,2) ty(1) ty(1)] by simp
  have sch: "p_GetOutputSchema ?j = ?sch" by (simp add: mk_ParallelHashJoin_def)
  have fit: "slices_fit 2 (Suc (Suc 0))" by code_simp
  have ok: "p_ok insertion_sort ?tab m k (mk_ParallelSort ?j ?ob 2)"
    unfolding mk_ParallelSort_def p_ok.simps bag sch using small_join_ok(1) [OF h(3,2) ty(1) ty(1)] ty(2) fit by simp
  have no: "\<not> in_order ?ob ?sch ?y ?x" by code_simp
  from parallel_operators_rows [OF h(1,2) sorted_heap_std insertion_sort_std ok]
  obtain op' b' rows where r: "p_Init sorted_heap insertion_sort (mk_ParallelSort ?j ?ob 2) b (Ok op') b'" "p_delivers sorted_heap op' rows"
      "mset rows = {#?x, ?y#}" "sorted_wrt (in_order ?ob ?sch) rows"
    unfolding mk_ParallelSort_def p_bag.simps p_ordered.simps bag sch by blast
  have "rows = [?x, ?y]" using mset_two [OF r(3)] r(4) no by auto
  then show ?thesis using r(1,2) by blast
qed

text \<open>(C22) On integer keys the parallel join computes what the serial one does: over inputs with the same
  rows, every run of the parallel join delivers the rows that the serial join delivers, up to their order.\<close>

theorem parallel_join_equals_serial:
  assumes "bpm_idle b m k l" and "0 < k" and "std_heap hp" and "std_sort srt"
    and "op_ok tab (mk_HashJoin lop rop lk rk)" and "fresh lop" and "fresh rop"
    and "\<forall>h \<in> tables_of lop \<union> tables_of rop. table_rows m h (tab h)"
    and "stream_of srt tab lop = Ok (lts, Ok ())" and "stream_of srt tab rop = Ok (rts, Ok ())"
    and "expr_type lk (GetOutputSchema lop) = Ok ct" and "expr_type rk (GetOutputSchema rop) = Ok ct'"
    and "type_id ct = T_INT" and "type_id ct' = T_INT"
    and "p_ok srt tab m k (mk_ParallelHashJoin pl pr lk rk n bc)" and "p_bag srt tab pl = mset lts" and "p_bag srt tab pr = mset rts"
    and "p_GetOutputSchema pl = GetOutputSchema lop" and "p_GetOutputSchema pr = GetOutputSchema rop"
  shows "\<exists>op1 b1 rows. Init srt (mk_HashJoin lop rop lk rk) b = Some (Ok op1, b1) \<and> delivers op1 rows (Ok ()) \<and>
    (\<exists>x b2. p_Init hp srt (mk_ParallelHashJoin pl pr lk rk n bc) b x b2) \<and>
    (\<forall>x b2. p_Init hp srt (mk_ParallelHashJoin pl pr lk rk n bc) b x b2 \<longrightarrow>
      (\<exists>op2 rows2. x = Ok op2 \<and> p_delivers hp op2 rows2 \<and> mset rows2 = mset rows))"
proof -
  let ?ls = "GetOutputSchema lop" and ?rs = "GetOutputSchema rop"
  have ok: "schema_ok ?ls" "\<forall>t \<in> set lts. row_ok ?ls t" "\<forall>t \<in> set rts. row_ok ?rs t"
    using assms(5) stream_rows [OF assms(4) _ assms(9)] stream_rows [OF assms(4) _ assms(10)] by (auto simp: mk_HashJoin_def intro: op_ok_schema)
  have "stream_of srt tab (mk_HashJoin lop rop lk rk) = Ok (int_join lk ?ls lts rk ?rs rts, Ok ())"
    unfolding int_join_serial [OF ok(1,2) assms(11,13)] mk_HashJoin_def
    by (rule join_stream [OF assms(9,10) assms(5) [unfolded mk_HashJoin_def] ok(2,3) assms(11,12)]) (simp add: assms(13,14))
  moreover have "fresh (mk_HashJoin lop rop lk rk)" "\<forall>h \<in> tables_of (mk_HashJoin lop rop lk rk). table_rows m h (tab h)"
    using assms(6-8) by (simp_all add: mk_HashJoin_def empty_join_def)
  ultimately obtain op1 b1 where "Init srt (mk_HashJoin lop rop lk rk) b = Some (Ok op1, b1)" "delivers op1 (int_join lk ?ls lts rk ?rs rts) (Ok ())"
    using Init_delivers [OF assms(1,2)] by blast
  moreover have "p_bag srt tab (mk_ParallelHashJoin pl pr lk rk n bc) = mset (int_join lk ?ls lts rk ?rs rts)"
    using assms(16-19) by (simp add: mk_ParallelHashJoin_def int_join_bag)
  ultimately show ?thesis using p_Init_ok [OF assms(1-4,15)] unfolding surely_def p_ready_def by metis
qed

theorem parallel_join_equals_serial_witness:
  "\<exists>h b op1 b1 rows op2 b2 rows2. Init insertion_sort (mk_HashJoin (SeqScan h int_row [] 0) (SeqScan h int_row [] 0)
      (COLUMN_REF '''' ''a'') (COLUMN_REF '''' ''a'')) b = Some (Ok op1, b1) \<and> delivers op1 rows (Ok ()) \<and>
    p_Init sorted_heap insertion_sort (small_join h (COLUMN_REF '''' ''a'') (COLUMN_REF '''' ''a'')) b (Ok op2) b2 \<and>
    p_delivers sorted_heap op2 rows2 \<and> mset rows2 = mset rows"
proof -
  obtain h b m k l where h: "bpm_idle b m k l" "0 < k" "table_rows m h small_rows" using small_table by blast
  let ?e = "COLUMN_REF '''' ''a''" and ?tab = "\<lambda>h :: HeapFile. small_rows" and ?s = "SeqScan h int_row [] 0"
  let ?p = "ParallelSeqScan h int_row 1 [] 0"
  have ty: "expr_type ?e int_row = Ok ColumnType_Int" "type_id ColumnType_Int = T_INT" by code_simp+
  then have "typed ?e int_row" by (auto simp: typed_def)
  note p = small_join_ok(1) [OF h(3,2) this this, of insertion_sort]
  have ok: "op_ok ?tab (mk_HashJoin ?s ?s ?e ?e)"
    by (simp add: mk_HashJoin_def int_row_ok int_row_simps ConcatSchemas_def schema_ok_mk col_int int_row_def)
  have "\<forall>h' \<in> tables_of ?s \<union> tables_of ?s. table_rows m h' (?tab h')" using h(3) by simp
  from parallel_join_equals_serial [OF h(1,2) sorted_heap_std insertion_sort_std ok _ _ this, of small_rows small_rows ColumnType_Int
      ColumnType_Int ?p ?p 2 8] ty p
  show ?thesis by (simp del: Init.simps delivers.simps p_delivers.simps p_Init.simps) blast
qed

text \<open>(C37) On string keys the parallel join is the full product: it takes \<open>AsInt()\<close> of the keys, which
  is 0 for every string, so each pair of rows is joined, whether or not the strings are equal.\<close>

theorem parallel_join_strings_cross:
  assumes "bpm_idle b m k l" and "0 < k" and "std_heap hp" and "std_sort srt"
    and "p_ok srt tab m k (ParallelHashJoin pl pr lk rk n sch t buf cur)"
    and "expr_type lk (p_GetOutputSchema pl) = Ok ct" and "expr_type rk (p_GetOutputSchema pr) = Ok ct'"
    and "type_id ct = T_VARCHAR" and "type_id ct' = T_VARCHAR"
  shows "(\<exists>x b'. p_Init hp srt (ParallelHashJoin pl pr lk rk n sch t buf cur) b x b') \<and>
    (\<forall>x b'. p_Init hp srt (ParallelHashJoin pl pr lk rk n sch t buf cur) b x b' \<longrightarrow>
      (\<exists>op' rows. x = Ok op' \<and> p_delivers hp op' rows \<and>
        mset rows = sum_mset (image_mset (\<lambda>r. image_mset (\<lambda>l. l @ r) (p_bag srt tab pl)) (p_bag srt tab pr))))"
proof -
  have ok: "p_ok srt tab m k pl" "p_ok srt tab m k pr" using assms(5) by auto
  have "\<forall>u \<in># p_bag srt tab pl. int_val (val_of lk (p_GetOutputSchema pl) u) = mk32 0"
    "\<forall>u \<in># p_bag srt tab pr. int_val (val_of rk (p_GetOutputSchema pr) u) = mk32 0"
    using val_of_typed(2) [OF p_ok_schema [OF ok(1)] p_bag_typed [OF assms(4) ok(1)] assms(6,8)]
      val_of_typed(2) [OF p_ok_schema [OF ok(2)] p_bag_typed [OF assms(4) ok(2)] assms(7,9)] by blast+
  then have "p_bag srt tab (ParallelHashJoin pl pr lk rk n sch t buf cur) =
      sum_mset (image_mset (\<lambda>r. image_mset (\<lambda>l. l @ r) (p_bag srt tab pl)) (p_bag srt tab pr))"
    using bag_join_strings by simp
  then show ?thesis using p_Init_ok [OF assms(1-5)] unfolding surely_def p_ready_def by metis
qed

theorem parallel_join_strings_cross_witness:
  "\<exists>h b op' b' rows. p_Init sorted_heap insertion_sort (small_join h (STRING_LITERAL ''x'') (STRING_LITERAL ''y'')) b (Ok op') b' \<and>
    p_delivers sorted_heap op' rows \<and>
    mset rows = {#[2, 0, 0, 0, 2, 0, 0, 0], [1, 0, 0, 0, 2, 0, 0, 0], [2, 0, 0, 0, 1, 0, 0, 0], [1, 0, 0, 0, 1, 0, 0, 0]#}"
proof -
  obtain h b m k l where h: "bpm_idle b m k l" "0 < k" "table_rows m h small_rows" using small_table by blast
  let ?e = "STRING_LITERAL ''x''" and ?f = "STRING_LITERAL ''y''"
  have ty: "expr_type ?e int_row = Ok (ColumnType_Varchar 255)" "expr_type ?f int_row = Ok (ColumnType_Varchar 255)"
      "type_id (ColumnType_Varchar 255) = T_VARCHAR"
    by (simp_all add: ColumnType_Varchar_def)
  then have "typed ?e int_row" "typed ?f int_row" by (auto simp: typed_def)
  note p = small_join_ok(1) [OF h(3,2) this, of insertion_sort, unfolded mk_ParallelHashJoin_def]
  note x = parallel_join_strings_cross [OF h(1,2) sorted_heap_std insertion_sort_std p, unfolded p_GetOutputSchema.simps p_bag.simps,
      OF ty(1,2,3,3)]
  obtain y b' where y: "p_Init sorted_heap insertion_sort (small_join h ?e ?f) b y b'"
    using conjunct1 [OF x] unfolding mk_ParallelHashJoin_def p_GetOutputSchema.simps by (elim exE)
  obtain op' rows where "y = Ok op'" "p_delivers sorted_heap op' rows"
      "mset rows = sum_mset (image_mset (\<lambda>r. image_mset (\<lambda>l. l @ r) (mset small_rows)) (mset small_rows))"
    using conjunct2 [OF x, rule_format, OF y [unfolded mk_ParallelHashJoin_def p_GetOutputSchema.simps]] by (elim exE conjE)
  moreover from this(3) have "mset rows = {#[2, 0, 0, 0, 2, 0, 0, 0], [1, 0, 0, 0, 2, 0, 0, 0], [2, 0, 0, 0, 1, 0, 0, 0], [1, 0, 0, 0, 1, 0, 0, 0]#}"
    by (simp add: add_mset_commute)
  ultimately show ?thesis using y by (intro exI conjI) simp_all
qed

end
