(* ===== verification/Spec2Isabelle.thy ===== *)
theory Spec2Isabelle
  imports Shell BPlus_Index Parallel_Operators
begin

text \<open>
  \<^bold>\<open>A verification of MyDB.\<close> MyDB is a relational database in C++20: SQL text is lexed, parsed, planned
  into a tree of operators and executed over heap files and a buffer pool; a B+ tree index, a
  lock-free hash table and parallel versions of scan, join and sort are further components of the
  library. Every component of \<open>src/src\<close> is modelled; the theories follow the directories.

  \<^bold>\<open>Conventions\<close> (\<open>DB_Prelude\<close>). A C++ call is a function that returns an \<open>outcome\<close>: a value, a thrown
  exception with its message, or \<open>Fault\<close>, which stands for a failed assertion, an access outside an
  object, a null pointer, a division by zero, or an exception that leaves a thread. A call that changes an object
  returns the outcome and the new state (\<open>res\<close>). \<open>int32_t\<close> is the type \<open>i32\<close>, a 32-bit word with the
  signed order; \<open>uint32_t\<close> and \<open>uint16_t\<close> are words; \<open>size_t\<close>, where only sizes of containers are kept
  in it, is \<open>nat\<close>. Bytes of pages and rows are \<open>8 word\<close> lists, with integers in little-endian order.
  Pointers to frames are frame numbers, iterators of the LRU list are node identities, nodes of the hash
  table have addresses in an explicit store.

  \<^bold>\<open>Storage.\<close>
  \<^item> \<open>DB_Types\<close>: \<open>common/types.h\<close> and \<open>config.h\<close>. Row layout, values, tuples; values read back from
    the row they were written to, \<open>GetColumnIdx\<close> finds the column a name denotes.
  \<^item> \<open>Disk_Manager\<close>: \<open>storage/disk_manager\<close>. The file as bytes with the error bits of the stream;
    interface \<open>block_store\<close>. Reopening keeps the pages of files below 2 GiB.
  \<^item> \<open>LRU_Replacer\<close>: \<open>storage/lru_replacer\<close>, interface \<open>lru_policy\<close>, refined to access times.
  \<^item> \<open>Buffer_Pool\<close> and \<open>Page_Cache\<close>: \<open>storage/buffer_pool\<close> and \<open>page.h\<close>. Frames, page table, pins,
    dirty bits; every operation refines an abstract pool of pages and pointers, a pointer is valid while its page is held;
    flushed pages are durable. The locale
    \<open>page_cache\<close> is what heap file, index and scans use of it.
  \<^item> \<open>Heap_File\<close>: \<open>storage/heap_file\<close>, interface \<open>row_store\<close>: rows inserted are scanned in order.
  \<^item> \<open>Page_Array\<close>, \<open>BPlus_Tree\<close>, \<open>BPlus_Index\<close>: \<open>storage/bplus_tree\<close>. Node structs over page bytes;
    insertion with splits keeps a balanced tree of chained leaves, search and range scan agree with
    the sorted list of entries; interface \<open>ordered_index\<close>.
  \<^item> \<open>Catalog\<close>: \<open>catalog/catalog\<close>; the abstract value is a map from names to schemas and rows.

  \<^bold>\<open>Queries.\<close>
  \<^item> \<open>Lexer\<close>: \<open>parser/lexer\<close> and \<open>token.h\<close>, equivalent to a lexical grammar.
  \<^item> \<open>Parser\<close>, \<open>Parser_Grammar\<close>: \<open>parser/parser\<close> and \<open>ast.h\<close>. Parsing never reads behind the tokens and
    ends; a statement printed as text is parsed back. The lists of the grammar share the locale
    \<open>comma_list\<close>.
  \<^item> \<open>Executor\<close>: \<open>executor/\<close> with its six serial operators, each with \<open>Init\<close>, \<open>Next\<close>, \<open>Close\<close>.
    \<open>Query_Streams\<close> gives the stream a tree denotes and proves that the operators deliver it;
    \<open>Query_Types\<close> types expressions and trees; \<open>Query_Aggregates\<close> and \<open>Query_Results\<close> compute the streams
    of joins, sorts and aggregates.
  \<^item> \<open>Planner\<close>: \<open>planner/planner\<close>, the tree of a statement and the text of \<open>EXPLAIN\<close>.
  \<^item> \<open>Database\<close>, \<open>Database_Spec\<close>, \<open>Database_Select\<close>, \<open>Database_Aggregate\<close>: \<open>database.cpp\<close>. \<open>Execute\<close> on text against an
    abstract state that maps table names to rows (\<open>sql_store\<close>), for all kinds of statements: what is
    inserted, what a query with joins, a filter and an order returns, and what one with aggregates returns.
  \<^item> \<open>Database_Safety\<close>: \<open>Execute\<close> on an arbitrary text. \<open>text_effect\<close> is what the text does to the abstract state,
    and \<open>text_safe\<close> excludes the statements on which the code faults: tables whose rows are empty or do not
    fit a page, rows of a query of 4 GiB or more, aggregates other than counts without an argument or grouped by
    something that is not a column or over 2 to the 31 rows, and strings in a select list. Any sequence of other texts
    keeps the database in order.
  \<^item> \<open>Shell\<close>: \<open>main.cpp\<close>. The loop that reads statements over several lines, the printed
    tables, and the flush at the end of the program: whatever is typed, the program runs to its end, and the file left by
    a session holds the rows of its tables.

  \<^bold>\<open>Concurrency.\<close>
  \<^item> \<open>Hash_Table\<close>: \<open>concurrency/lockfree_hashtable\<close>. \<open>Insert\<close> is a process of shared-memory steps. Atomic
    read-modify-write operations act on the current value; a relaxed load may return an
    older value, so what it returns is arbitrary, and a weak compare-exchange may fail at will.
  \<^item> \<open>Thread_Pool\<close>: \<open>executor/thread_pool\<close>. Workers and caller interleave critical sections,
    notifications, spurious wake-ups and steps of tasks; the pool refines tasks that run side by side,
    does not deadlock and ends. Its clients are the locales \<open>pool_client\<close> (an invariant) and
    \<open>ending_client\<close> (an invariant and a measure).
  \<^item> \<open>Parallel_Scan\<close>, \<open>Parallel_Join\<close>, \<open>Parallel_Sort\<close>: the workers of \<open>executor/parallel_seq_scan\<close>,
    \<open>parallel_hash_join\<close> and \<open>parallel_sort\<close> as such clients, with every interleaving of their
    steps; \<open>Parallel_Operators\<close> composes them to trees, whose \<open>Init\<close> is a relation between
    states and outcomes. The theorems say that there is an outcome and that every outcome is right.

  \<^bold>\<open>Arguments of the model.\<close> \<open>std::sort\<close> and the heap functions of the standard library are arguments;
  the theorems that need them assume what the standard promises (\<open>std_sort\<close>, \<open>std_heap\<close>), and insertion
  sort and a sorted array are instances. The iteration order of hash maps is an argument where it
  can be seen. The contents of the file, whether it can be created, and the lines typed are
  arguments.

  \<^bold>\<open>Loops.\<close> Loops over pages, chains of nodes and calls of \<open>Next\<close> are partial functions in the option monad,
  \<open>None\<close> standing for a loop that does not end; the theorems prove the value \<open>Some\<close>. The parser
  recurses on the tokens that remain and the tree operations on the height of the tree, by
  functions with termination proofs or with a bound that is shown to be enough. Sequences of steps of
  processes are reflexive transitive closures; that they end is well-foundedness of the step relation.

  \<^bold>\<open>Bounds.\<close> Theorems on allocation assume that fewer than 2 to the 31 pages are in use, and those on the pool
  that no page is held more often than an \<open>int\<close> can count; \<open>FetchPage\<close> faults otherwise. Those on
  index insertion allow sizes up to the default ones; since an inner node of the default size fills its page before it is
  split, they bound the number of insertions there (86700 with default leaves), and a theorem shows that the insertion
  into a full node faults. Those on parallel sorts assume that no slice starts behind the end, and show that
  the program ends otherwise; those on scans by several workers assume a frame for each.

  \<^bold>\<open>Idealised.\<close> Frame ids and the counts of tasks in flight and of lines of a text are unbounded numbers where the code has
  \<open>int\<close>: they differ only for more than 2 to the 31 frames, queued tasks or lines. Writes to the file succeed. \<open>Lookup\<close> of
  the hash table reads a bucket at one instant, as the code uses it, after all insertions.

  \<^bold>\<open>Not modelled.\<close> The page latches of \<open>page.h\<close>, which no code takes; memory exhaustion and stack depth;
  serial operators above parallel ones, which the planner never builds; the header \<open>common/types 2.h\<close>, an
  older copy of \<open>types.h\<close> that nothing includes, and \<open>storage/LRUReplacer.h\<close>, an older header of the replacer
  that is not built; the tests and the benchmark.
\<close>

end
